(* ===== verification/MC_Prelude.thy ===== *)
theory MC_Prelude
  imports Main "HOL-Library.Word"
begin

section \<open>Prelude: result type, byte types and shared lemmas\<close>

text \<open>
  Shared by every theory of the development.
  \<^item> \<open>'a res\<close> is the outcome of a C or C++ routine: \<open>Ok\<close> of its result, \<open>Undef\<close>
    where the source performs an access the language leaves undefined (a read or a write
    outside an object, \<open>front()\<close> of an empty list, \<open>free\<close> of a pointer that was not
    allocated), and \<open>NoFuel\<close> where an unbounded loop was given too few iterations.
  \<^item> \<open>cbuf\<close> is a zero-initialised C array: the list holds its contents from index 0, and
    every cell past the list is 0; the capacity is an argument of the access.
  \<^item> The locales \<open>call_trace\<close>, \<open>client_slots\<close> and \<open>resource\<close> are the contracts several components share.
  \<^item> The collections \<open>res_simps\<close> and \<open>cbuf_simps\<close> hold the rewriting facts of the two.
\<close>

unbundle bit_operations_syntax

named_theorems res_simps "rewriting facts for the outcome type"
named_theorems cbuf_simps "rewriting facts for zero-extended arrays"

type_synonym byte = "8 word"
type_synonym cbuf = "byte list"
type_synonym u32 = "32 word"
type_synonym u64 = "64 word"

subsection \<open>Outcomes\<close>

datatype 'a res = Ok 'a | Undef | NoFuel

fun res_bind :: "'a res \<Rightarrow> ('a \<Rightarrow> 'b res) \<Rightarrow> 'b res" where
  "res_bind (Ok x) f = f x"
| "res_bind Undef f = Undef"
| "res_bind NoFuel f = NoFuel"

fun res_map :: "('a \<Rightarrow> 'b) \<Rightarrow> 'a res \<Rightarrow> 'b res" where
  "res_map f (Ok x) = Ok (f x)"
| "res_map f Undef = Undef"
| "res_map f NoFuel = NoFuel"

lemmas res_bind_map_simps [res_simps] = res_bind.simps res_map.simps

lemma res_bind_Ok_iff [res_simps]:
  "res_bind m f = Ok y \<longleftrightarrow> (\<exists>x. m = Ok x \<and> f x = Ok y)"
  by (cases m) auto

lemma res_bind_cong [fundef_cong]:
  "m = m' \<Longrightarrow> (\<And>x. m' = Ok x \<Longrightarrow> f x = f' x) \<Longrightarrow> res_bind m f = res_bind m' f'"
  by (cases m') auto

lemma res_bind_Undef_iff:
  "res_bind m f = Undef \<longleftrightarrow> m = Undef \<or> (\<exists>x. m = Ok x \<and> f x = Undef)"
  by (cases m) auto

lemma res_bind_assoc: "res_bind (res_bind m f) g = res_bind m (\<lambda>x. res_bind (f x) g)"
  by (cases m) auto

lemma res_bind_map: "res_bind (res_map f m) g = res_bind m (\<lambda>x. g (f x))"
  by (cases m) auto

lemma res_map_bind: "res_map f (res_bind m g) = res_bind m (\<lambda>x. res_map f (g x))"
  by (cases m) auto

lemma res_map_map: "res_map f (res_map g m) = res_map (\<lambda>x. f (g x)) m"
  by (cases m) auto

lemma res_map_Ok_iff [res_simps]: "res_map f m = Ok y \<longleftrightarrow> (\<exists>x. m = Ok x \<and> y = f x)"
  by (cases m) auto

subsection \<open>Zero-extended arrays\<close>

definition at :: "cbuf \<Rightarrow> nat \<Rightarrow> byte" where
  "at buf i = (if i < length buf then buf ! i else 0)"

text \<open>\<open>memcpy(buf + off, bs, n)\<close> into an array of \<open>cap\<close> cells.\<close>

definition memcpy_to :: "nat \<Rightarrow> cbuf \<Rightarrow> nat \<Rightarrow> byte list \<Rightarrow> cbuf res" where
  "memcpy_to cap buf off bs =
     (if off + length bs \<le> cap
      then Ok (take off (buf @ replicate (off - length buf) 0) @ bs @ drop (off + length bs) buf)
      else Undef)"

text \<open>\<open>memcpy(dst, buf, n)\<close>: the first \<open>n\<close> cells of the array.\<close>

definition prefix_of :: "cbuf \<Rightarrow> nat \<Rightarrow> byte list" where
  "prefix_of buf n = take n (buf @ replicate (n - length buf) 0)"

lemma length_prefix_of [simp, cbuf_simps]: "length (prefix_of buf n) = n"
  by (simp add: prefix_of_def)

lemma prefix_of_append [cbuf_simps]: "length xs = n \<Longrightarrow> prefix_of (xs @ ys) n = xs"
  by (simp add: prefix_of_def)

lemma prefix_of_ge [cbuf_simps]: "n \<le> length buf \<Longrightarrow> prefix_of buf n = take n buf"
  by (simp add: prefix_of_def)

lemma nth_prefix_of: "i < n \<Longrightarrow> prefix_of buf n ! i = at buf i"
  by (auto simp: prefix_of_def at_def nth_append)

lemma at_append_left [cbuf_simps]: "i < length xs \<Longrightarrow> at (xs @ ys) i = xs ! i"
  by (simp add: at_def nth_append)

lemma memcpy_to_prefix:
  assumes "memcpy_to cap buf off bs = Ok buf'" and "prefix_of buf off = pre"
  shows "prefix_of buf' (off + length bs) = pre @ bs"
proof -
  have "buf' = pre @ bs @ drop (off + length bs) buf" and "length pre = off"
    using assms by (auto simp: memcpy_to_def prefix_of_def split: if_splits)
  then show ?thesis
    using prefix_of_append [of "pre @ bs" "off + length bs"] by simp
qed

lemma memcpy_to_Ok_iff [cbuf_simps]:
  "(\<exists>b. memcpy_to cap buf off bs = Ok b) \<longleftrightarrow> off + length bs \<le> cap"
  by (auto simp: memcpy_to_def)

lemma memcpy_to_not_NoFuel [simp]: "memcpy_to cap buf off bs \<noteq> NoFuel"
  by (simp add: memcpy_to_def)

subsection \<open>Lists\<close>

lemma takeWhile_append_stop:
  "(\<And>x. x \<in> set xs \<Longrightarrow> P x) \<Longrightarrow> \<not> P y \<Longrightarrow> takeWhile P (xs @ y # ys) = xs"
  by (induction xs) auto

lemma dropWhile_append_stop:
  "(\<And>x. x \<in> set xs \<Longrightarrow> P x) \<Longrightarrow> \<not> P y \<Longrightarrow> dropWhile P (xs @ y # ys) = y # ys"
  by (induction xs) auto

lemma dropWhile_suffix: "\<exists>ys. xs = ys @ dropWhile P xs"
  by (rule exI [of _ "takeWhile P xs"]) simp

lemma length_dropWhile_lt:
  "xs \<noteq> [] \<Longrightarrow> P (hd xs) \<Longrightarrow> length (dropWhile P xs) < length xs"
  by (cases xs) (auto simp: le_imp_less_Suc length_dropWhile_le)

subsection \<open>Interface: a state that records its calls\<close>

text \<open>What each call of a trace adds to a resource, summed: \<open>f\<close> gets the calls before it and the call.\<close>

fun live_count :: "('c list \<Rightarrow> 'c \<Rightarrow> int) \<Rightarrow> 'c list \<Rightarrow> 'c list \<Rightarrow> int" where
  "live_count f past [] = 0"
| "live_count f past (c # cs) = f past c + live_count f (past @ [c]) cs"

lemma live_count_append: "live_count f past (xs @ ys) = live_count f past xs + live_count f (past @ xs) ys"
  by (induction xs arbitrary: past) auto

lemma live_count_neutral: "list_all P cs \<Longrightarrow> (\<And>past c. P c \<Longrightarrow> f past c = 0) \<Longrightarrow> live_count f past cs = 0"
  by (induction cs arbitrary: past) auto

text \<open>
  The contract between a component and the outside: making a call appends it to what was called, and
  nothing is ever forgotten. A component's routines are compared by the calls they added, and its
  resources (codecs, contexts, programs, heap blocks) by their balance.
\<close>

locale call_trace =
  fixes calls_of :: "'s \<Rightarrow> 'c list" and record_call :: "'c \<Rightarrow> 's \<Rightarrow> 's"
  assumes calls_of_record: "calls_of (record_call c s) = calls_of s @ [c]"
begin

definition added :: "('c \<Rightarrow> bool) \<Rightarrow> 's \<Rightarrow> 's \<Rightarrow> bool" where
  "added P s s' = (\<exists>cs. calls_of s' = calls_of s @ cs \<and> list_all P cs)"

definition balance :: "('c list \<Rightarrow> 'c \<Rightarrow> int) \<Rightarrow> 's \<Rightarrow> int" where
  "balance f s = live_count f [] (calls_of s)"

lemma added_refl: "added P s s"
  by (simp add: added_def)

lemma added_record: "P c \<Longrightarrow> added P s s' \<Longrightarrow> added P s (record_call c s')"
  by (auto simp: added_def calls_of_record)

lemma added_trans: "added P s s' \<Longrightarrow> added P s' s'' \<Longrightarrow> added P s s''"
  by (auto simp: added_def)

lemma added_after: "added P (record_call c s) s' \<Longrightarrow> P c \<Longrightarrow> added P s s'"
  by (auto simp: added_def calls_of_record)

lemma added_mono: "added P s s' \<Longrightarrow> (\<And>c. P c \<Longrightarrow> Q c) \<Longrightarrow> added Q s s'"
  by (auto simp: added_def elim!: list.pred_mono_strong)

lemma added_same_calls: "added P s s' \<Longrightarrow> calls_of s'' = calls_of s' \<Longrightarrow> added P s s''"
  by (simp add: added_def)

lemma balance_record: "balance f (record_call c s) = balance f s + f (calls_of s) c"
  by (simp add: balance_def calls_of_record live_count_append)

lemma balance_added: "added P s s' \<Longrightarrow> (\<And>past c. P c \<Longrightarrow> f past c = 0) \<Longrightarrow> balance f s' = balance f s"
  by (auto simp: added_def balance_def live_count_append live_count_neutral)

end

subsection \<open>Interface: one slot for each of the two clients\<close>

text \<open>
  The native code keeps everything it has twice, once per client, and selects by \<open>which_client\<close>. The
  contract of such a pair: a change of one client's slot is what it says and leaves the other's alone.
\<close>

definition is_client :: "int \<Rightarrow> bool" where
  "is_client c = (c = 1 \<or> c = 2)"

locale client_slots =
  fixes slot :: "int \<Rightarrow> 's \<Rightarrow> 'a" and change :: "int \<Rightarrow> ('a \<Rightarrow> 'a) \<Rightarrow> 's \<Rightarrow> 's"
  assumes slot_change: "is_client c \<Longrightarrow> slot c (change c f s) = f (slot c s)"
    and slot_other: "is_client c \<Longrightarrow> is_client d \<Longrightarrow> c \<noteq> d \<Longrightarrow> slot d (change c f s) = slot d s"
    and change_change: "is_client c \<Longrightarrow> change c f (change c g s) = change c (\<lambda>x. f (g x)) s"
    and change_const: "is_client c \<Longrightarrow> change c (\<lambda>_. f (slot c s)) s = change c f s"
begin

definition changes :: "(int \<times> ('a \<Rightarrow> 'a)) list \<Rightarrow> 's \<Rightarrow> 's" where
  "changes ops s = fold (\<lambda>(c, f). change c f) ops s"

text \<open>A slot sees exactly its own client's changes, in their order, whatever is interleaved.\<close>

lemma slot_changes:
  "is_client c \<Longrightarrow> (\<forall>op \<in> set ops. is_client (fst op)) \<Longrightarrow>
   slot c (changes ops s) = fold (\<lambda>f. f) (map snd (filter (\<lambda>op. fst op = c) ops)) (slot c s)"
proof (induction ops arbitrary: s)
  case (Cons op ops)
  then show ?case
    by (cases op) (auto simp: changes_def slot_change slot_other)
qed (simp add: changes_def)

end

subsection \<open>Interface: something that is acquired and released\<close>

text \<open>
  The contract of a resource object: acquiring keeps the invariant that ties the object to what was
  taken, whether it succeeds or not, and releasing leaves nothing of it. \<open>spent\<close> is the account that
  is to be balanced, \<open>k\<close> its value without the object.
\<close>

locale resource =
  fixes acquire :: "'r \<Rightarrow> 's \<Rightarrow> int \<times> 'r \<times> 's" and release :: "'r \<Rightarrow> 's \<Rightarrow> 'r \<times> 's"
    and owns :: "'k \<Rightarrow> 'r \<Rightarrow> 's \<Rightarrow> bool" and fresh :: "'r \<Rightarrow> bool" and spent :: "'s \<Rightarrow> 'k"
  assumes acquire_owns: "owns k r s \<Longrightarrow> fresh r \<Longrightarrow> acquire r s = (err, r', s') \<Longrightarrow> owns k r' s'"
    and release_owns: "owns k r s \<Longrightarrow> release r s = (r', s') \<Longrightarrow> owns k r' s' \<and> fresh r' \<and> spent s' = k"
begin

text \<open>An object may be acquired and released any number of times.\<close>

fun reuse :: "nat \<Rightarrow> 'r \<Rightarrow> 's \<Rightarrow> 'r \<times> 's" where
  "reuse 0 r s = (r, s)"
| "reuse (Suc n) r s = (case acquire r s of (err, r1, s1) \<Rightarrow> case release r1 s1 of (r2, s2) \<Rightarrow> reuse n r2 s2)"

lemma acquire_release:
  assumes "owns k r s" "fresh r"
  shows "case acquire r s of (err, r1, s1) \<Rightarrow> case release r1 s1 of (r2, s2) \<Rightarrow> owns k r2 s2 \<and> fresh r2 \<and> spent s2 = k"
proof -
  obtain err r1 s1 r2 s2 where a: "acquire r s = (err, r1, s1)" "release r1 s1 = (r2, s2)" by (metis prod_cases3 surj_pair)
  then show ?thesis using release_owns [OF acquire_owns [OF assms a(1)] a(2)] by simp
qed

lemma reuse_balanced: "owns k r s \<Longrightarrow> fresh r \<Longrightarrow> spent s = k \<Longrightarrow> reuse n r s = (r', s') \<Longrightarrow> spent s' = k \<and> owns k r' s'"
proof (induction n arbitrary: r s)
  case (Suc n)
  obtain err r1 s1 r2 s2 where a: "acquire r s = (err, r1, s1)" "release r1 s1 = (r2, s2)" by (metis prod_cases3 surj_pair)
  have "owns k r2 s2 \<and> fresh r2 \<and> spent s2 = k" using acquire_release [OF Suc.prems(1,2)] a by simp
  moreover have "reuse n r2 s2 = (r', s')" using Suc.prems(4) a by simp
  ultimately show ?case using Suc.IH by blast
qed simp

end

end
