(* ===== verification/C_Library.thy ===== *)
theory C_Library
  imports MC_Prelude
begin

section \<open>The C library functions the native code calls\<close>

text \<open>
  \<open>strsep\<close>, \<open>strncpy\<close>, \<open>strtol\<close>, \<open>atoi\<close> and \<open>std::to_string\<close> as the C standard (and bionic)
  give them, on strings without their terminating NUL. Integers that have a fixed width in
  C are \<open>int\<close> here with the conversion written out (\<open>to_int32\<close>, \<open>to_uint32\<close>).
\<close>

named_theorems cstring_simps "facts about C strings"

definition to_int32 :: "int \<Rightarrow> int" where
  "to_int32 i = sint (word_of_int i :: 32 word)"

definition to_uint32 :: "int \<Rightarrow> int" where
  "to_uint32 i = uint (word_of_int i :: 32 word)"

lemma to_int32_id: "- (2 ^ 31) \<le> i \<Longrightarrow> i < 2 ^ 31 \<Longrightarrow> to_int32 i = i"
  by (simp add: to_int32_def signed_of_int signed_take_bit_int_eq_self)

lemma to_uint32_mod: "to_uint32 i = i mod 2 ^ 32"
  by (simp add: to_uint32_def uint_word_of_int)

definition nul :: char where "nul = CHR 0x00"

text \<open>The C string at the start of a \<open>char\<close> array: everything before the first NUL.\<close>

definition cstr :: "string \<Rightarrow> string" where
  "cstr s = takeWhile (\<lambda>c. c \<noteq> nul) s"

definition bytes_to_chars :: "byte list \<Rightarrow> string" where
  "bytes_to_chars bs = map (\<lambda>b. char_of (unat b)) bs"

lemma cstr_id: "nul \<notin> set s \<Longrightarrow> cstr s = s"
  by (auto simp: cstr_def takeWhile_eq_all_conv)

lemma cstr_append_nul: "nul \<notin> set s \<Longrightarrow> cstr (s @ nul # t) = s"
  unfolding cstr_def by (rule takeWhile_append_stop) auto

lemma nul_notin_cstr: "nul \<notin> set (cstr s)"
  by (auto simp: cstr_def dest: set_takeWhileD)

text \<open>\<open>strncpy(dst, s, n)\<close>: what the first \<open>n\<close> cells of the destination hold.\<close>

definition strncpy :: "string \<Rightarrow> nat \<Rightarrow> string" where
  "strncpy s n = take n s @ replicate (n - length s) nul"

lemma length_strncpy [simp]: "length (strncpy s n) = n"
  by (simp add: strncpy_def)

subsection \<open>strsep\<close>

text \<open>
  One call: the token before the first delimiter character and the rest after it, or
  \<open>None\<close> where \<open>strsep\<close> sets the pointer to NULL.
\<close>

definition strsep :: "string \<Rightarrow> string \<Rightarrow> string \<times> string option" where
  "strsep s delim =
     (let p = takeWhile (\<lambda>c. c \<notin> set delim) s
      in (p, case drop (length p) s of [] \<Rightarrow> None | _ # r \<Rightarrow> Some r))"

text \<open>The tokens a loop \<open>while ((p = strsep(&buff, delim)) != NULL)\<close> sees.\<close>

function strsep_loop :: "string \<Rightarrow> string \<Rightarrow> string list" where
  "strsep_loop s delim =
     (case strsep s delim of (p, None) \<Rightarrow> [p] | (p, Some r) \<Rightarrow> p # strsep_loop r delim)"
  by pat_completeness auto
termination
proof (relation "measure (\<lambda>(s, delim). length s)", goal_cases)
  case 1
  then show ?case by simp
next
  case (2 s delim p y r)
  then have "drop (length p) s = hd (drop (length p) s) # r"
    by (auto simp: strsep_def Let_def split: list.splits)
  then have "length (drop (length p) s) = Suc (length r)" by (metis length_Cons)
  then show ?case by simp
qed

declare strsep_loop.simps [simp del]

lemma strsep_no_delim: "set s \<inter> set delim = {} \<Longrightarrow> strsep s delim = (s, None)"
proof -
  assume "set s \<inter> set delim = {}"
  then have t: "takeWhile (\<lambda>c. c \<notin> set delim) s = s" by (auto simp: takeWhile_eq_all_conv)
  show ?thesis unfolding strsep_def t by simp
qed

lemma strsep_delim:
  assumes "set s \<inter> set delim = {}" and "d \<in> set delim"
  shows "strsep (s @ d # r) delim = (s, Some r)"
proof -
  have "takeWhile (\<lambda>c. c \<notin> set delim) (s @ d # r) = s"
    using assms by (intro takeWhile_append_stop) auto
  then show ?thesis by (simp add: strsep_def)
qed

lemma strsep_loop_no_delim [cstring_simps]:
  "set s \<inter> set delim = {} \<Longrightarrow> strsep_loop s delim = [s]"
  by (subst strsep_loop.simps) (simp add: strsep_no_delim)

lemma strsep_loop_delim [cstring_simps]:
  "set s \<inter> set delim = {} \<Longrightarrow> d \<in> set delim \<Longrightarrow> strsep_loop (s @ d # r) delim = s # strsep_loop r delim"
  by (subst strsep_loop.simps) (simp add: strsep_delim)

lemma strsep_loop_delim_nil [cstring_simps]:
  "d \<in> set delim \<Longrightarrow> strsep_loop (d # r) delim = [] # strsep_loop r delim"
  using strsep_loop_delim [of "[]" delim d r] by simp

subsection \<open>Numbers\<close>

definition isspace :: "char \<Rightarrow> bool" where
  "isspace c = (c \<in> set [CHR '' '', CHR 0x09, CHR 0x0A, CHR 0x0B, CHR 0x0C, CHR 0x0D])"

definition isdigit :: "char \<Rightarrow> bool" where
  "isdigit c = (48 \<le> (of_char c :: nat) \<and> (of_char c :: nat) \<le> 57)"

definition digit_val :: "char \<Rightarrow> int" where
  "digit_val c = int (of_char c) - 48"

fun digits_value :: "int \<Rightarrow> string \<Rightarrow> int" where
  "digits_value acc [] = acc"
| "digits_value acc (c # cs) = digits_value (10 * acc + digit_val c) cs"

definition LONG_MAX :: int where "LONG_MAX = 2 ^ 63 - 1"
definition LONG_MIN :: int where "LONG_MIN = - (2 ^ 63)"

text \<open>\<open>strtol(s, &end, 10)\<close>: the value (saturated, as on a 64-bit \<open>long\<close>) and the rest at \<open>end\<close>.\<close>

definition strtol10 :: "string \<Rightarrow> int \<times> string" where
  "strtol10 s =
     (let t = dropWhile isspace s;
          neg = (t \<noteq> [] \<and> hd t = CHR ''-'');
          u = (if t \<noteq> [] \<and> (hd t = CHR ''-'' \<or> hd t = CHR ''+'') then tl t else t);
          ds = takeWhile isdigit u;
          v = digits_value 0 ds
      in if ds = [] then (0, s)
         else (max LONG_MIN (min LONG_MAX (if neg then - v else v)), dropWhile isdigit u))"

definition atoi :: "string \<Rightarrow> int" where
  "atoi s = to_int32 (fst (strtol10 s))"

fun nat_to_string :: "nat \<Rightarrow> string" where
  "nat_to_string n =
     (if n < 10 then [char_of (48 + n)] else nat_to_string (n div 10) @ [char_of (48 + n mod 10)])"

declare nat_to_string.simps [simp del]

definition to_string :: "int \<Rightarrow> string" where
  "to_string i = (if i < 0 then CHR ''-'' # nat_to_string (nat (- i)) else nat_to_string (nat i))"

lemma of_char_digit: "d < 10 \<Longrightarrow> (of_char (char_of (48 + d) :: char) :: nat) = 48 + d"
  by (simp add: of_char_of)

lemma isdigit_nat_to_string: "\<forall>c \<in> set (nat_to_string n). isdigit c"
proof (induction n rule: nat_to_string.induct)
  case (1 n)
  show ?case
  proof (cases "n < 10")
    case True
    then show ?thesis by (subst nat_to_string.simps) (simp add: isdigit_def of_char_digit)
  next
    case False
    with 1 have "\<forall>c \<in> set (nat_to_string (n div 10)). isdigit c" by simp
    with False show ?thesis
      by (subst nat_to_string.simps) (auto simp: isdigit_def of_char_digit)
  qed
qed

lemma digits_value_append: "digits_value acc (xs @ ys) = digits_value (digits_value acc xs) ys"
  by (induction acc xs rule: digits_value.induct) auto

lemma digits_value_nat_to_string: "digits_value 0 (nat_to_string n) = int n"
proof (induction n rule: nat_to_string.induct)
  case (1 n)
  show ?case
  proof (cases "n < 10")
    case True
    then show ?thesis by (subst nat_to_string.simps) (simp add: digit_val_def of_char_digit)
  next
    case False
    with 1 have "digits_value 0 (nat_to_string (n div 10)) = int (n div 10)" by simp
    with False show ?thesis
      by (subst nat_to_string.simps)
         (simp add: digits_value_append digit_val_def of_char_digit, simp add: zdiv_int zmod_int)
  qed
qed

lemma nat_to_string_nonempty: "nat_to_string n \<noteq> []"
  by (subst nat_to_string.simps) simp

lemma isdigit_not_special:
  "isdigit c \<Longrightarrow> \<not> isspace c \<and> c \<noteq> CHR ''-'' \<and> c \<noteq> CHR ''+'' \<and> c \<noteq> CHR ''@'' \<and> c \<noteq> nul"
  by (auto simp: isdigit_def isspace_def nul_def)

lemma takeWhile_all_append:
  "\<forall>x \<in> set xs. P x \<Longrightarrow> (ys = [] \<or> \<not> P (hd ys)) \<Longrightarrow> takeWhile P (xs @ ys) = xs \<and> dropWhile P (xs @ ys) = ys"
  by (induction xs) (cases ys; auto)+

lemma strtol10_nat:
  assumes "int n \<le> LONG_MAX" and "r = [] \<or> \<not> isdigit (hd r)"
  shows "strtol10 (nat_to_string n @ r) = (int n, r)"
proof -
  let ?d = "nat_to_string n"
  obtain c cs where d: "?d = c # cs" using nat_to_string_nonempty by (cases ?d) auto
  then have c: "isdigit c" using isdigit_nat_to_string [of n] by auto
  have t: "takeWhile isdigit (?d @ r) = ?d" "dropWhile isdigit (?d @ r) = r"
    using takeWhile_all_append [OF isdigit_nat_to_string assms(2)] by simp_all
  have "dropWhile isspace (?d @ r) = ?d @ r" using c by (simp add: d isdigit_not_special)
  then show ?thesis
    using c assms(1) t nat_to_string_nonempty [of n] isdigit_not_special [OF c]
    using digits_value_nat_to_string [of n]
    by (simp add: strtol10_def d LONG_MIN_def)
qed

lemma atoi_to_string: "0 \<le> i \<Longrightarrow> i < 2 ^ 31 \<Longrightarrow> atoi (to_string i) = i"
  using strtol10_nat [of "nat i" "[]"]
  by (simp add: atoi_def to_string_def LONG_MAX_def to_int32_id)

lemma to_string_chars:
  "0 \<le> i \<Longrightarrow> CHR ''@'' \<notin> set (to_string i) \<and> nul \<notin> set (to_string i) \<and> to_string i \<noteq> []"
  using isdigit_nat_to_string [of "nat i"] isdigit_not_special
  by (auto simp: to_string_def nat_to_string_nonempty)

end
