(* ===== verification/Csd_Parser.thy ===== *)
theory Csd_Parser
  imports MC_Prelude
begin

section \<open>handleSpsPps: splitting codec-specific data into csd-0 and csd-1\<close>

text \<open>
  \<open>handleSpsPps\<close> of MediaCodec.cpp: the receiver turns the configuration frame of the sender
  into the two buffers an AVC decoder wants. The input is the \<open>malloc\<close>ed array \<open>sps_pps\<close>; a
  read outside it is \<open>Undef\<close>. An \<open>AMediaFormat\<close> is the list of the setter calls made on it.
\<close>

datatype fval = FInt int | FStr string | FBuf "byte list"

type_synonym fmt = "(string \<times> fval) list"

subsection \<open>Array reads\<close>

definition rd :: "byte list \<Rightarrow> int \<Rightarrow> byte res" where
  "rd buf i = (if 0 \<le> i \<and> i < int (length buf) then Ok (buf ! nat i) else Undef)"

definition slice :: "byte list \<Rightarrow> int \<Rightarrow> int \<Rightarrow> byte list res" where
  "slice buf i n =
     (if 0 \<le> i \<and> 0 \<le> n \<and> i + n \<le> int (length buf)
      then Ok (take (nat n) (drop (nat i) buf)) else Undef)"

text \<open>\<open>a[i] == p0 && a[i + 1] == p1 && ...\<close>, read from the left until a test fails.\<close>

fun matches :: "byte list \<Rightarrow> int \<Rightarrow> byte list \<Rightarrow> bool res" where
  "matches buf i [] = Ok True"
| "matches buf i (p # ps) =
     res_bind (rd buf i) (\<lambda>b. if b = p then matches buf (i + 1) ps else Ok False)"

text \<open>\<open>for (int i = ...; i < sz; i++) if (...) { index = i; break; }\<close>; -1 where no break is taken.\<close>

function find_code :: "byte list \<Rightarrow> byte list \<Rightarrow> int \<Rightarrow> int \<Rightarrow> int res" where
  "find_code buf pat sz i =
     (if i < sz
      then res_bind (matches buf i pat)
             (\<lambda>m. if m then Ok i else find_code buf pat sz (i + 1))
      else Ok (-1))"
  by pat_completeness auto
termination
  by (relation "measure (\<lambda>(buf, pat, sz, i). nat (sz - i))") auto

declare find_code.simps [simp del]

text \<open>The state of the marker scan.\<close>

record nal_scan =
  spsIndex :: int
  spsLength :: int
  ppsIndex :: int
  ppsLength :: int

definition nal_scan0 :: nal_scan where
  "nal_scan0 = \<lparr>spsIndex = -1, spsLength = 0, ppsIndex = -1, ppsLength = 0\<rparr>"

text \<open>One iteration of the loops over markers 103/104 and 39/40.\<close>

definition nal_step :: "byte list \<Rightarrow> byte \<Rightarrow> byte \<Rightarrow> int \<Rightarrow> nal_scan \<Rightarrow> nal_scan res" where
  "nal_step buf spsTag ppsTag i st =
     res_bind (rd buf i) (\<lambda>b.
       if b = spsTag then
         (if spsIndex st = -1 then
            res_bind (rd buf (i - 1)) (\<lambda>l.
              Ok (st\<lparr>spsIndex := (if uint l \<le> 0 then -1 else i), spsLength := uint l\<rparr>))
          else Ok st)
       else if b = ppsTag then
         res_bind (rd buf (i - 1)) (\<lambda>l. Ok (st\<lparr>ppsIndex := i, ppsLength := uint l\<rparr>))
       else Ok st)"

function nal_loop :: "byte list \<Rightarrow> byte \<Rightarrow> byte \<Rightarrow> int \<Rightarrow> int \<Rightarrow> nal_scan \<Rightarrow> nal_scan res" where
  "nal_loop buf spsTag ppsTag sz i st =
     (if i < sz
      then res_bind (nal_step buf spsTag ppsTag i st)
             (\<lambda>st'. nal_loop buf spsTag ppsTag sz (i + 1) st')
      else Ok st)"
  by pat_completeness auto
termination
  by (relation "measure (\<lambda>(buf, spsTag, ppsTag, sz, i, st). nat (sz - i))") auto

declare nal_loop.simps [simp del]

definition MARK0 :: int where "MARK0 = 0"
definition MARK1 :: int where "MARK1 = 1"
definition MARK2 :: int where "MARK2 = 2"
definition MARK3 :: int where "MARK3 = 3"
definition MARK4 :: int where "MARK4 = 4"

text \<open>The start-code search: the index of the second start code (or -1) and the mark.\<close>

definition find_second_code :: "byte list \<Rightarrow> int \<Rightarrow> (int \<times> int) res" where
  "find_second_code sps_pps sz =
     res_bind (matches sps_pps 0 [0, 0, 0, 1]) (\<lambda>four.
       if four then
         res_bind (find_code sps_pps [0, 0, 0, 1] sz 1)
           (\<lambda>index. Ok (index, if index = -1 then MARK0 else MARK1))
       else
         res_bind (matches sps_pps 0 [0, 0, 1]) (\<lambda>three.
           if three then
             res_bind (find_code sps_pps [0, 0, 1] sz 1)
               (\<lambda>index. Ok (index, if index = -1 then MARK0 else MARK2))
           else Ok (-1, MARK0)))"

definition set_csd :: "fmt \<Rightarrow> byte list \<Rightarrow> byte list \<Rightarrow> fmt" where
  "set_csd pFormat csd0 csd1 = pFormat @ [(''csd-0'', FBuf csd0), (''csd-1'', FBuf csd1)]"

text \<open>
  The branch taken when no second start code was found. \<open>sps\<close> is allocated with
  \<open>spsLength + 4\<close> bytes and starts with a start code, but \<open>sps_size\<close>, the number of bytes given
  to \<open>AMediaFormat_setBuffer\<close>, is \<open>spsLength\<close>.
\<close>

definition handle_markers :: "fmt \<Rightarrow> byte list \<Rightarrow> int \<Rightarrow> (int \<times> fmt) res" where
  "handle_markers pFormat sps_pps sz =
     res_bind (nal_loop sps_pps 103 104 sz 0 nal_scan0) (\<lambda>st3.
     res_bind (if spsIndex st3 = -1 \<or> ppsIndex st3 = -1
               then res_map (\<lambda>st. (MARK4, st)) (nal_loop sps_pps 39 40 sz 0 nal_scan0)
               else Ok (MARK3, st3)) (\<lambda>(mark, st).
       if spsIndex st \<noteq> -1 \<and> ppsIndex st \<noteq> -1 then
         res_bind (slice sps_pps (spsIndex st) (spsLength st)) (\<lambda>s.
         res_bind (slice sps_pps (ppsIndex st) (ppsLength st)) (\<lambda>p.
           Ok (mark, set_csd pFormat (take (nat (spsLength st)) ([0, 0, 0, 1] @ s))
                                     (take (nat (ppsLength st)) ([0, 0, 0, 1] @ p)))))
       else Ok (MARK0, pFormat)))"

definition handleSpsPps :: "fmt \<Rightarrow> byte list \<Rightarrow> int \<Rightarrow> (int \<times> fmt) res" where
  "handleSpsPps pFormat sps_pps sz =
     res_bind (find_second_code sps_pps sz) (\<lambda>(index, mark).
       if index \<noteq> -1 then
         res_bind (slice sps_pps 0 index) (\<lambda>sps.
         res_bind (slice sps_pps index (sz - index)) (\<lambda>pps.
           Ok (mark, set_csd pFormat sps pps)))
       else handle_markers pFormat sps_pps sz)"

subsection \<open>Reads inside the array\<close>

lemma rd_Ok_iff [res_simps]: "rd buf i = Ok b \<longleftrightarrow> 0 \<le> i \<and> i < int (length buf) \<and> b = buf ! nat i"
  by (auto simp: rd_def)

lemma rd_nat: "i < length buf \<Longrightarrow> rd buf (int i) = Ok (buf ! i)"
  by (simp add: rd_def)

text \<open>
  The whole comparison: true where the window holds the pattern, undefined where the array
  ends inside a match, false otherwise.
\<close>

lemma matches_eq:
  "i \<le> length buf \<Longrightarrow>
   matches buf (int i) pat =
     (if take (length pat) (drop i buf) = pat then Ok True
      else if drop i buf = take (length buf - i) pat then Undef else Ok False)"
proof (induction pat arbitrary: i)
  case Nil
  then show ?case by simp
next
  case (Cons p ps)
  show ?case
  proof (cases "i = length buf")
    case True
    then show ?thesis by (simp add: rd_def)
  next
    case False
    with Cons.prems have i: "i < length buf" by simp
    have e: "int i + 1 = int (Suc i)" by simp
    have d: "drop i buf = buf ! i # drop (Suc i) buf" "length buf - i = Suc (length buf - Suc i)"
      using i by (simp_all add: Cons_nth_drop_Suc Suc_diff_Suc)
    show ?thesis
      using Cons.IH [of "Suc i"] i unfolding matches.simps e d by (auto simp: rd_nat)
  qed
qed

definition code_at :: "byte list \<Rightarrow> byte list \<Rightarrow> nat \<Rightarrow> bool" where
  "code_at buf pat j = (take (length pat) (drop j buf) = pat)"

definition cut_at :: "byte list \<Rightarrow> byte list \<Rightarrow> nat \<Rightarrow> bool" where
  "cut_at buf pat j = (\<not> code_at buf pat j \<and> drop j buf = take (length buf - j) pat)"

lemma find_code_step:
  "i < length buf \<Longrightarrow>
   find_code buf pat (int (length buf)) (int i) =
     (if code_at buf pat i then Ok (int i) else if cut_at buf pat i then Undef
      else find_code buf pat (int (length buf)) (int (Suc i)))"
  by (subst find_code.simps) (simp add: matches_eq code_at_def cut_at_def add.commute)

lemma find_code_end: "find_code buf pat (int (length buf)) (int (length buf)) = Ok (-1)"
  by (subst find_code.simps) simp

text \<open>The search skips every index at which neither a code nor a cut match stands.\<close>

lemma find_code_skip:
  "i \<le> k \<Longrightarrow> k \<le> length buf \<Longrightarrow> (\<And>j. i \<le> j \<Longrightarrow> j < k \<Longrightarrow> \<not> code_at buf pat j \<and> \<not> cut_at buf pat j)
   \<Longrightarrow> find_code buf pat (int (length buf)) (int i) = find_code buf pat (int (length buf)) (int k)"
proof (induction "k - i" arbitrary: i)
  case 0
  then show ?case by simp
next
  case (Suc n)
  then have "i < k" by simp
  moreover have "find_code buf pat (int (length buf)) (int (Suc i))
      = find_code buf pat (int (length buf)) (int k)"
    using Suc \<open>i < k\<close> by (intro Suc.hyps(1)) auto
  ultimately show ?case using Suc.prems find_code_step [of i buf pat] by simp
qed

lemma find_code_found:
  assumes "i \<le> k" and "code_at buf pat k" and "pat \<noteq> []"
    and "\<And>j. i \<le> j \<Longrightarrow> j < k \<Longrightarrow> \<not> code_at buf pat j"
  shows "find_code buf pat (int (length buf)) (int i) = Ok (int k)"
proof -
  have "length (take (length pat) (drop k buf)) = length pat"
    using assms(2) by (simp add: code_at_def)
  with assms(3) have kl: "k + length pat \<le> length buf" and k: "k < length buf"
    by (cases pat; auto simp: min_def split: if_splits)+
  have "\<not> cut_at buf pat j" if "j < k" for j
  proof
    assume "cut_at buf pat j"
    then have d: "drop j buf = take (length buf - j) pat" and n: "\<not> code_at buf pat j"
      by (simp_all add: cut_at_def)
    have "length pat \<le> length buf - j" using that kl by simp
    with d have "drop j buf = pat" by simp
    then show False using n by (simp add: code_at_def)
  qed
  then have "find_code buf pat (int (length buf)) (int i) = find_code buf pat (int (length buf)) (int k)"
    using assms(1,4) k by (intro find_code_skip) auto
  also have "\<dots> = Ok (int k)" using find_code_step [OF k] assms(2) by simp
  finally show ?thesis .
qed

text \<open>With no code left, the search runs off the array where its end looks like a code's start.\<close>

lemma find_code_cut:
  assumes "i \<le> k" and "k < length buf" and "cut_at buf pat k"
    and "\<And>j. i \<le> j \<Longrightarrow> \<not> code_at buf pat j"
  shows "find_code buf pat (int (length buf)) (int i) = Undef"
proof -
  define m where "m = (LEAST j. i \<le> j \<and> cut_at buf pat j)"
  have m: "i \<le> m" "cut_at buf pat m" "m \<le> k"
    using LeastI [of "\<lambda>j. i \<le> j \<and> cut_at buf pat j" k] Least_le [of "\<lambda>j. i \<le> j \<and> cut_at buf pat j" k]
      assms(1,3) by (auto simp: m_def)
  have "\<not> cut_at buf pat j" if "i \<le> j" "j < m" for j
    using not_less_Least [of j "\<lambda>j. i \<le> j \<and> cut_at buf pat j"] that by (auto simp: m_def)
  then have "find_code buf pat (int (length buf)) (int i) = find_code buf pat (int (length buf)) (int m)"
    using assms m by (intro find_code_skip) auto
  also have "\<dots> = Undef"
    using find_code_step [of m buf pat] m assms(2,4) by simp
  finally show ?thesis .
qed

lemma find_code_none:
  assumes "i \<le> length buf" and "\<And>j. i \<le> j \<Longrightarrow> j < length buf \<Longrightarrow> \<not> code_at buf pat j \<and> \<not> cut_at buf pat j"
  shows "find_code buf pat (int (length buf)) (int i) = Ok (-1)"
  using find_code_skip [OF assms(1) order_refl assms(2)] find_code_end by simp


subsection \<open>Annex-B configuration frames\<close>

text \<open>
  What H.264 emulation prevention gives of a NAL unit: it is not empty, does not end in a zero
  byte, and holds neither 0 0 0 nor 0 0 1.
\<close>

definition nal_payload :: "byte list \<Rightarrow> bool" where
  "nal_payload s =
     (s \<noteq> [] \<and> last s \<noteq> 0 \<and>
      list_all (\<lambda>j. \<not> code_at s [0, 0, 0] j \<and> \<not> code_at s [0, 0, 1] j) [0..<length s])"

lemma code_at_nth:
  "code_at buf pat j \<Longrightarrow> pat \<noteq> [] \<Longrightarrow>
   j + length pat \<le> length buf \<and> (\<forall>i < length pat. buf ! (j + i) = pat ! i)"
proof -
  assume c: "code_at buf pat j" and ne: "pat \<noteq> []"
  then have "length (take (length pat) (drop j buf)) = length pat" by (simp add: code_at_def)
  with ne have l: "j + length pat \<le> length buf" by (cases pat; auto simp: min_def split: if_splits)
  have "buf ! (j + i) = pat ! i" if "i < length pat" for i
  proof -
    have "take (length pat) (drop j buf) ! i = buf ! (j + i)" using that l by simp
    with c show ?thesis by (simp add: code_at_def)
  qed
  with l show ?thesis by simp
qed

lemma code_at_3I:
  "k + 3 \<le> length s \<Longrightarrow> s ! k = a \<Longrightarrow> s ! Suc k = b \<Longrightarrow> s ! Suc (Suc k) = c \<Longrightarrow> code_at s [a, b, c] k"
  unfolding code_at_def
  by (simp add: numeral_3_eq_3 flip: Cons_nth_drop_Suc)

lemma nal_payload_last: "nal_payload s \<Longrightarrow> s ! (length s - 1) \<noteq> 0"
  by (auto simp: nal_payload_def last_conv_nth)

lemma nal_payload_code:
  "nal_payload s \<Longrightarrow> k < length s \<Longrightarrow> \<not> code_at s [0, 0, 0] k \<and> \<not> code_at s [0, 0, 1] k"
  by (auto simp: nal_payload_def list_all_iff)

lemma no_code4:
  assumes s: "nal_payload s" and j: "1 \<le> j" "j < length s + 4"
  shows "\<not> code_at ([0, 0, 0, 1] @ s @ r) [0, 0, 0, 1] j"
proof
  let ?b = "[0, 0, 0, 1] @ s @ r"
  assume "code_at ?b [0, 0, 0, 1] j"
  from code_at_nth [OF this] have w: "\<forall>i < 4. ?b ! (j + i) = [0, 0, 0, 1] ! i" by simp
  then have w0: "?b ! j = 0" and w1: "?b ! (j + 1) = 0" and w2: "?b ! (j + 2) = 0"
    by (auto dest: spec [of _ 0] spec [of _ 1] spec [of _ 2])
  show False
  proof (cases "j < 4")
    case True
    with j(1) consider "j = 1" | "j = 2" | "j = 3" by linarith
    then show False using w0 w1 w2 by cases simp_all
  next
    case False
    define k where "k = j - 4"
    have jk: "j = k + 4" "k < length s" using False j by (auto simp: k_def)
    have b: "?b ! (k + 4 + i) = (s @ r) ! (k + i)" for i by simp
    have w': "(s @ r) ! k = 0" "(s @ r) ! (k + 1) = 0" "(s @ r) ! (k + 2) = 0"
      using w0 w1 w2 b [of 0] b [of 1] b [of 2] by (simp_all add: jk)
    consider "k + 3 \<le> length s" | "length s - 1 = k" | "length s - 1 = k + 1" using jk(2) by linarith
    then show False
    proof cases
      case 1
      then have "code_at s [0, 0, 0] k" using w' by (intro code_at_3I) (auto simp: nth_append)
      with nal_payload_code [OF s jk(2)] show False by simp
    next
      case 2
      with w' jk(2) nal_payload_last [OF s] show False by (simp add: nth_append)
    next
      case 3
      then have "k + 1 < length s" using jk(2) by linarith
      with 3 w' nal_payload_last [OF s] show False by (simp add: nth_append)
    qed
  qed
qed

lemma no_code3:
  assumes s: "nal_payload s" and j: "1 \<le> j" "j < length s + 3"
  shows "\<not> code_at ([0, 0, 1] @ s @ r) [0, 0, 1] j"
proof
  let ?b = "[0, 0, 1] @ s @ r"
  assume "code_at ?b [0, 0, 1] j"
  from code_at_nth [OF this] have w: "\<forall>i < 3. ?b ! (j + i) = [0, 0, 1] ! i" by simp
  then have w0: "?b ! j = 0" and w1: "?b ! (j + 1) = 0" and w2: "?b ! (j + 2) = 1"
    by (auto dest: spec [of _ 0] spec [of _ 1] spec [of _ 2])
  show False
  proof (cases "j < 3")
    case True
    with j(1) consider "j = 1" | "j = 2" by linarith
    then show False using w0 w1 by cases simp_all
  next
    case False
    define k where "k = j - 3"
    have jk: "j = k + 3" "k < length s" using False j by (auto simp: k_def)
    have b: "?b ! (k + 3 + i) = (s @ r) ! (k + i)" for i by simp
    have w': "(s @ r) ! k = 0" "(s @ r) ! (k + 1) = 0" "(s @ r) ! (k + 2) = 1"
      using w0 w1 w2 b [of 0] b [of 1] b [of 2] by (simp_all add: jk)
    consider "k + 3 \<le> length s" | "length s - 1 = k" | "length s - 1 = k + 1" using jk(2) by linarith
    then show False
    proof cases
      case 1
      then have "code_at s [0, 0, 1] k" using w' by (intro code_at_3I) (auto simp: nth_append)
      with nal_payload_code [OF s jk(2)] show False by simp
    next
      case 2
      with w' jk(2) nal_payload_last [OF s] show False by (simp add: nth_append)
    next
      case 3
      then have "k + 1 < length s" using jk(2) by linarith
      with 3 w' nal_payload_last [OF s] show False by (simp add: nth_append)
    qed
  qed
qed

lemma slice_prefix: "int (length a) = n \<Longrightarrow> slice (a @ b) 0 n = Ok a"
  by (auto simp: slice_def)

lemma slice_suffix: "int (length a) = i \<Longrightarrow> int (length b) = n \<Longrightarrow> slice (a @ b) i n = Ok b"
  by (auto simp: slice_def)

lemma slice_Ok: "slice buf i n = Ok b \<Longrightarrow> b = take (nat n) (drop (nat i) buf) \<and> 0 \<le> i \<and> 0 \<le> n \<and> i + n \<le> int (length buf)"
  by (auto simp: slice_def split: if_splits)

lemma matches_here: "matches (pat @ r) 0 pat = Ok True"
  using matches_eq [of 0 "pat @ r" pat] by simp

lemma code_at_here: "length a = k \<Longrightarrow> code_at (a @ pat @ r) pat k"
  by (simp add: code_at_def)

lemma find_second_code_at:
  assumes "nal_payload s"
  shows "find_second_code ([0, 0, 0, 1] @ s @ [0, 0, 0, 1] @ p) (int (8 + length s + length p))
           = Ok (int (4 + length s), MARK1)"
    and "find_second_code ([0, 0, 1] @ s @ [0, 0, 1] @ p) (int (6 + length s + length p))
           = Ok (int (3 + length s), MARK2)"
proof -
  let ?b = "[0, 0, 0, 1] @ s @ [0, 0, 0, 1] @ p" and ?c = "[0, 0, 1] @ s @ [0, 0, 1] @ p"
  have "code_at ?b [0, 0, 0, 1] (4 + length s)" and "code_at ?c [0, 0, 1] (3 + length s)"
    using code_at_here [of "[0, 0, 0, 1] @ s" "4 + length s" "[0, 0, 0, 1]" p]
      code_at_here [of "[0, 0, 1] @ s" "3 + length s" "[0, 0, 1]" p] by simp_all
  note here = this
  have "find_code ?b [0, 0, 0, 1] (int (length ?b)) (int 1) = Ok (int (4 + length s))"
    using no_code4 [OF assms] here(1) by (intro find_code_found) auto
  moreover have "matches ?b 0 [0, 0, 0, 1] = Ok True" by (rule matches_here)
  ultimately show "find_second_code ?b (int (8 + length s + length p)) = Ok (int (4 + length s), MARK1)"
    unfolding find_second_code_def by (simp add: algebra_simps)
  have "find_code ?c [0, 0, 1] (int (length ?c)) (int 1) = Ok (int (3 + length s))"
    using no_code3 [OF assms] here(2) by (intro find_code_found) auto
  moreover have "matches ?c 0 [0, 0, 1] = Ok True" by (rule matches_here)
  moreover have "matches ?c 0 [0, 0, 0, 1] = Ok False"
    by (simp add: rd_def)
  ultimately show "find_second_code ?c (int (6 + length s + length p)) = Ok (int (3 + length s), MARK2)"
    unfolding find_second_code_def by (simp add: algebra_simps)
qed

lemma handleSpsPps_annexb_lemma:
  assumes "nal_payload s"
  shows "handleSpsPps f ([0, 0, 0, 1] @ s @ [0, 0, 0, 1] @ p) (int (8 + length s + length p))
           = Ok (MARK1, set_csd f ([0, 0, 0, 1] @ s) ([0, 0, 0, 1] @ p)) \<and>
         handleSpsPps f ([0, 0, 1] @ s @ [0, 0, 1] @ p) (int (6 + length s + length p))
           = Ok (MARK2, set_csd f ([0, 0, 1] @ s) ([0, 0, 1] @ p))"
proof -
  have 4: "slice (([0, 0, 0, 1] @ s) @ [0, 0, 0, 1] @ p) 0 (int (4 + length s)) = Ok ([0, 0, 0, 1] @ s)"
    "slice (([0, 0, 0, 1] @ s) @ [0, 0, 0, 1] @ p) (int (4 + length s)) (int (4 + length p)) = Ok ([0, 0, 0, 1] @ p)"
    by (intro slice_prefix slice_suffix; simp)+
  have 3: "slice (([0, 0, 1] @ s) @ [0, 0, 1] @ p) 0 (int (3 + length s)) = Ok ([0, 0, 1] @ s)"
    "slice (([0, 0, 1] @ s) @ [0, 0, 1] @ p) (int (3 + length s)) (int (3 + length p)) = Ok ([0, 0, 1] @ p)"
    by (intro slice_prefix slice_suffix; simp)+
  have d: "int (8 + length s + length p) - int (4 + length s) = int (4 + length p)"
    "int (6 + length s + length p) - int (3 + length s) = int (3 + length p)"
    by simp_all
  show ?thesis
    unfolding handleSpsPps_def find_second_code_at [OF assms] res_bind.simps prod.case d
    using 3 4 by simp
qed

text \<open>C12: A configuration frame in Annex-B form, SPS and PPS each behind a start code of four (mark 1)
  or of three bytes (mark 2), is split at the second start code: csd-0 is the whole first unit
  and csd-1 the whole second one, start codes included, whatever the PPS holds.\<close>

theorem handleSpsPps_annexb:
  assumes "nal_payload s"
  shows "handleSpsPps f ([0, 0, 0, 1] @ s @ [0, 0, 0, 1] @ p) (int (8 + length s + length p))
           = Ok (MARK1, set_csd f ([0, 0, 0, 1] @ s) ([0, 0, 0, 1] @ p)) \<and>
         handleSpsPps f ([0, 0, 1] @ s @ [0, 0, 1] @ p) (int (6 + length s + length p))
           = Ok (MARK2, set_csd f ([0, 0, 1] @ s) ([0, 0, 1] @ p))"
  using assms by (rule handleSpsPps_annexb_lemma)


lemma handleSpsPps_annexb_witness:
  "handleSpsPps [] [0, 0, 0, 1, 103, 66, 0, 0, 0, 1, 104, 206] 12
     = Ok (MARK1, set_csd [] [0, 0, 0, 1, 103, 66] [0, 0, 0, 1, 104, 206])"
proof -
  have "nal_payload [103, 66]"
    by (simp add: nal_payload_def code_at_def upt_rec)
  from handleSpsPps_annexb [OF this, of "[]" "[104, 206]"] show ?thesis by simp
qed

subsection \<open>One start code only\<close>

definition no_code_after_first :: "byte list \<Rightarrow> byte list \<Rightarrow> bool" where
  "no_code_after_first buf pat = list_all (\<lambda>j. \<not> code_at buf pat j) [1..<length buf]"

lemma no_code_after_firstD:
  "no_code_after_first buf pat \<Longrightarrow> pat \<noteq> [] \<Longrightarrow> 1 \<le> j \<Longrightarrow> \<not> code_at buf pat j"
  using code_at_nth [of buf pat j]
  by (cases "j < length buf"; cases pat) (auto simp: no_code_after_first_def list_all_iff)

text \<open>A frame that starts with 0 0 0 1, holds no second such code and ends in a zero byte makes the
  search read past the end of the array: the test at its last index looks at \<open>sps_pps[i + 1]\<close>
  with no bound check, so the call has no defined result.\<close>

theorem handleSpsPps_overread:
  assumes "no_code_after_first ([0, 0, 0, 1] @ r @ [0]) [0, 0, 0, 1]"
  shows "handleSpsPps f ([0, 0, 0, 1] @ r @ [0]) (int (5 + length r)) = Undef"
proof -
  let ?b = "[0, 0, 0, 1] @ r @ [0]"
  have n: "\<not> code_at ?b [0, 0, 0, 1] j" if "1 \<le> j" for j
    using no_code_after_firstD [OF assms _ that] by simp
  have "drop (4 + length r) ?b = [0]" by (simp add: eval_nat_numeral)
  then have "cut_at ?b [0, 0, 0, 1] (4 + length r)"
    using n [of "4 + length r"] by (simp add: cut_at_def)
  then have "find_code ?b [0, 0, 0, 1] (int (length ?b)) (int 1) = Undef"
    using n by (intro find_code_cut [of _ "4 + length r"]) auto
  moreover have "matches ?b 0 [0, 0, 0, 1] = Ok True" by (rule matches_here)
  ultimately show ?thesis
    unfolding handleSpsPps_def find_second_code_def by (simp add: algebra_simps)
qed

lemma handleSpsPps_overread_witness:
  "handleSpsPps [] [0, 0, 0, 1, 103, 66, 0] 7 = Undef"
proof -
  have "no_code_after_first ([0, 0, 0, 1] @ [103, 66] @ [0]) [0, 0, 0, 1]"
    by (simp add: no_code_after_first_def code_at_def upt_rec)
  from handleSpsPps_overread [OF this, of "[]"] show ?thesis by simp
qed

text \<open>A frame whose first byte is the SPS tag 103, with no start code or length before it, makes the
  marker loop read \<open>sps_pps[-1]\<close>: the length byte is taken from the index before the tag.\<close>

theorem handleSpsPps_reads_before: "handleSpsPps f (103 # r) (int (Suc (length r))) = Undef"
proof -
  have "find_second_code (103 # r) (int (Suc (length r))) = Ok (-1, MARK0)"
    by (simp add: find_second_code_def rd_def)
  moreover have "nal_loop (103 # r) 103 104 (int (Suc (length r))) 0 nal_scan0 = Undef"
    by (subst nal_loop.simps) (simp add: nal_step_def rd_def nal_scan0_def)
  ultimately show ?thesis by (simp add: handleSpsPps_def handle_markers_def)
qed

subsection \<open>What the mark says\<close>

lemma handle_markers_cases:
  "handle_markers f buf sz = Ok (m, f') \<Longrightarrow>
   (m = MARK0 \<and> f' = f) \<or> (m \<in> {MARK3, MARK4} \<and> (\<exists>a b. f' = set_csd f a b))"
  unfolding handle_markers_def res_bind_Ok_iff
  by (auto simp: res_simps split: if_splits)

lemma find_second_code_mark:
  "find_second_code buf sz = Ok (i, m) \<Longrightarrow> i \<noteq> -1 \<Longrightarrow> m \<in> {MARK1, MARK2}"
  by (auto simp: find_second_code_def res_simps split: if_splits)

text \<open>The returned mark tells whether the format was completed: mark 0 exactly where neither csd-0 nor
  csd-1 was set (the caller then gives up), and marks 1 to 4 with both set, csd-0 first. With
  mark 1 or 2 the two buffers put together are the input, so no byte is lost.\<close>

theorem handleSpsPps_result:
  assumes "handleSpsPps f buf (int (length buf)) = Ok (m, f')"
  shows "(m = MARK0 \<and> f' = f) \<or>
         (m \<in> {MARK1, MARK2} \<and> (\<exists>a b. f' = set_csd f a b \<and> a @ b = buf)) \<or>
         (m \<in> {MARK3, MARK4} \<and> (\<exists>a b. f' = set_csd f a b))"
proof -
  from assms obtain i m1 where fc: "find_second_code buf (int (length buf)) = Ok (i, m1)"
    by (auto simp: handleSpsPps_def res_bind_Ok_iff)
  show ?thesis
  proof (cases "i = -1")
    case True
    with assms fc have "handle_markers f buf (int (length buf)) = Ok (m, f')"
      by (simp add: handleSpsPps_def)
    from handle_markers_cases [OF this] show ?thesis by blast
  next
    case False
    with assms fc obtain a b where s: "slice buf 0 i = Ok a" "slice buf i (int (length buf) - i) = Ok b"
      and r: "m = m1" "f' = set_csd f a b"
      by (auto simp: handleSpsPps_def res_bind_Ok_iff)
    from slice_Ok [OF s(1)] slice_Ok [OF s(2)]
    have "a = take (nat i) buf" and "b = take (nat (int (length buf) - i)) (drop (nat i) buf)"
      and "length (drop (nat i) buf) \<le> nat (int (length buf) - i)"
      by auto
    then have "a @ b = buf" by simp
    with r find_second_code_mark [OF fc False] show ?thesis by blast
  qed
qed

lemma handleSpsPps_result_witness:
  "\<exists>a b. set_csd [] [0, 0, 1, 5] [0, 0, 1, 6] = set_csd [] a b \<and> a @ b = [0, 0, 1, 5, 0, 0, 1, 6]"
proof -
  have "handleSpsPps [] [0, 0, 1, 5, 0, 0, 1, 6] (int (length [0, 0, 1, 5, 0, 0, 1, 6 :: byte]))
      = Ok (MARK2, set_csd [] [0, 0, 1, 5] [0, 0, 1, 6])"
    by (simp add: handleSpsPps_def find_second_code_def find_code.simps rd_def slice_def)
  from handleSpsPps_result [OF this] show ?thesis
    by (simp add: MARK0_def MARK1_def MARK2_def MARK3_def MARK4_def)
qed

subsection \<open>Length-prefixed units\<close>

lemma nal_loop_end: "sz \<le> i \<Longrightarrow> nal_loop buf a b sz i st = Ok st"
  by (subst nal_loop.simps) simp

lemma nal_loop_skip:
  "i \<le> k \<Longrightarrow> k \<le> length buf \<Longrightarrow>
   (\<And>j. i \<le> j \<Longrightarrow> j < k \<Longrightarrow> buf ! j \<noteq> b \<and> (buf ! j = a \<longrightarrow> spsIndex st \<noteq> -1)) \<Longrightarrow>
   nal_loop buf a b (int (length buf)) (int i) st = nal_loop buf a b (int (length buf)) (int k) st"
proof (induction "k - i" arbitrary: i)
  case 0
  then show ?case by simp
next
  case (Suc n)
  then have ik: "i < k" by simp
  have "nal_loop buf a b (int (length buf)) (int (Suc i)) st = nal_loop buf a b (int (length buf)) (int k) st"
  proof (rule Suc.hyps(1))
    show "buf ! j \<noteq> b \<and> (buf ! j = a \<longrightarrow> spsIndex st \<noteq> -1)" if "Suc i \<le> j" "j < k" for j
      using Suc.prems(3) [of j] that by simp
  qed (use Suc.hyps(2) Suc.prems ik in simp_all)
  moreover have "nal_step buf a b (int i) st = Ok st"
    using Suc.prems(2) Suc.prems(3) [of i] ik by (auto simp: nal_step_def rd_nat)
  ultimately show ?case
    using ik Suc.prems(2) by (subst nal_loop.simps) (simp add: add.commute)
qed

lemma nal_loop_tag:
  "i < length buf \<Longrightarrow>
   nal_loop buf a b (int (length buf)) (int i) st =
     res_bind (nal_step buf a b (int i) st) (nal_loop buf a b (int (length buf)) (int (Suc i)))"
  by (subst nal_loop.simps) (simp add: add.commute)

lemma uint_length_byte: "n < 256 \<Longrightarrow> uint (of_nat n :: byte) = int n"
  by (simp add: uint_nat unsigned_of_nat take_bit_nat_eq_self)

lemma nal_loop_pair:
  fixes s p :: "byte list" and l m :: byte
  defines "buf \<equiv> (l # 103 # s) @ m # 104 # p"
  assumes l: "l \<noteq> 103" "l \<noteq> 104" "0 < uint l" and m: "m \<noteq> 104"
    and s: "104 \<notin> set s" and p: "104 \<notin> set p"
  shows "nal_loop buf 103 104 (int (length buf)) 0 nal_scan0
           = Ok \<lparr>spsIndex = 1, spsLength = uint l, ppsIndex = int (length s) + 3, ppsLength = uint m\<rparr>"
proof -
  let ?n = "int (length buf)" and ?k = "length s + 3"
  let ?s1 = "nal_scan0\<lparr>spsIndex := 1, spsLength := uint l\<rparr>"
  have len: "length buf = length s + length p + 4" by (simp add: buf_def)
  have "nal_loop buf 103 104 ?n (int 0) nal_scan0 = nal_loop buf 103 104 ?n (int 1) nal_scan0"
    using l len by (intro nal_loop_skip) (auto simp: buf_def)
  also have "\<dots> = nal_loop buf 103 104 ?n (int 2) ?s1"
    using l by (subst nal_loop_tag) (simp_all add: nal_step_def buf_def rd_def nal_scan0_def numeral_2_eq_2)
  also have "\<dots> = nal_loop buf 103 104 ?n (int ?k) ?s1"
  proof (rule nal_loop_skip)
    fix j
    assume j: "2 \<le> j" "j < ?k"
    define i where "i = j - 2"
    have i: "j = Suc (Suc i)" "i < Suc (length s)" using j by (simp_all add: i_def)
    then have "buf ! j = (s @ [m]) ! i" by (auto simp: buf_def nth_append less_Suc_eq)
    also have "\<dots> \<in> set (s @ [m])" using i by (intro nth_mem) simp
    finally have "buf ! j \<in> set (s @ [m])" .
    with s m show "buf ! j \<noteq> 104 \<and> (buf ! j = 103 \<longrightarrow> spsIndex ?s1 \<noteq> -1)" by auto
  qed (use len in simp_all)
  also have "\<dots> = nal_loop buf 103 104 ?n (int (Suc ?k)) (?s1\<lparr>ppsIndex := int ?k, ppsLength := uint m\<rparr>)"
    using len by (subst nal_loop_tag) (simp_all add: nal_step_def buf_def rd_def nth_append nat_add_distrib)
  also have "\<dots> = nal_loop buf 103 104 ?n ?n (?s1\<lparr>ppsIndex := int ?k, ppsLength := uint m\<rparr>)"
  proof (rule nal_loop_skip)
    fix j
    assume j: "Suc ?k \<le> j" "j < length buf"
    have "buf ! (length (l # 103 # s @ [m, 104]) + (j - Suc ?k)) = p ! (j - Suc ?k)"
      unfolding buf_def using nth_append_length_plus [of "l # 103 # s @ [m, 104]" p] by simp
    moreover have "length (l # 103 # s @ [m, 104]) + (j - Suc ?k) = j" using j by simp
    ultimately have "buf ! j \<in> set p" using j len by simp
    with p show "buf ! j \<noteq> 104 \<and>
        (buf ! j = 103 \<longrightarrow> spsIndex (?s1\<lparr>ppsIndex := int ?k, ppsLength := uint m\<rparr>) \<noteq> -1)" by auto
  qed (use len in simp_all)
  finally show ?thesis by (simp add: nal_loop_end nal_scan0_def)
qed

lemma of_nat_byte_eq: "i < 256 \<Longrightarrow> j < 256 \<Longrightarrow> (of_nat i :: byte) = of_nat j \<longleftrightarrow> i = j"
  by (metis uint_length_byte of_nat_eq_iff)

text \<open>On a frame of two length-prefixed units (a length byte, then an SPS starting with 103; a length
  byte, then a PPS starting with 104) the function reports mark 3 and puts a start code before
  each unit, but it passes the length of the unit alone as the size of the buffer: csd-0 and
  csd-1 are the start code and the unit cut to the unit's length, without its last four bytes.\<close>

theorem handleSpsPps_length_prefixed:
  assumes "length s < 255" "length p < 255" "Suc (length s) \<notin> {103, 104}" "Suc (length p) \<noteq> 104"
    and "104 \<notin> set s" "104 \<notin> set p"
  shows "handleSpsPps f ((of_nat (Suc (length s)) # 103 # s) @ of_nat (Suc (length p)) # 104 # p)
             (int (length s + length p + 4))
           = Ok (MARK3, set_csd f (take (Suc (length s)) ([0, 0, 0, 1] @ 103 # s))
                                  (take (Suc (length p)) ([0, 0, 0, 1] @ 104 # p)))"
proof -
  let ?l = "of_nat (Suc (length s)) :: byte" and ?m = "of_nat (Suc (length p)) :: byte"
  let ?b = "(?l # 103 # s) @ ?m # 104 # p"
  have ul: "uint ?l = int (Suc (length s))" "uint ?m = int (Suc (length p))"
    using assms(1,2) by (intro uint_length_byte; simp)+
  have ne: "?l \<noteq> 0" "?l \<noteq> 103" "?l \<noteq> 104" "?m \<noteq> 104"
    using of_nat_byte_eq [of "Suc (length s)" 0] of_nat_byte_eq [of "Suc (length s)" 103]
      of_nat_byte_eq [of "Suc (length s)" 104] of_nat_byte_eq [of "Suc (length p)" 104] assms
    by (simp_all del: of_nat_Suc)
  have sz: "int (length s + length p + 4) = int (length ?b)" by simp
  have "find_second_code ?b (int (length ?b)) = Ok (-1, MARK0)"
    using ne(1) by (simp add: find_second_code_def rd_def del: of_nat_Suc)
  moreover have "nal_loop ?b 103 104 (int (length ?b)) 0 nal_scan0
      = Ok \<lparr>spsIndex = 1, spsLength = uint ?l, ppsIndex = int (length s) + 3, ppsLength = uint ?m\<rparr>"
    using ne ul assms by (intro nal_loop_pair) (simp_all del: of_nat_Suc)
  moreover have "slice ?b 1 (int (Suc (length s))) = Ok (103 # s)"
    by (simp add: slice_def del: of_nat_Suc)
  moreover have "slice ((?l # 103 # s @ [?m]) @ 104 # p) (int (length s) + 3) (int (Suc (length p))) = Ok (104 # p)"
    by (rule slice_suffix) simp_all
  ultimately show ?thesis
    unfolding sz handleSpsPps_def
    by (simp add: handle_markers_def ul MARK0_def nat_add_distrib del: of_nat_Suc)
qed

lemma handleSpsPps_length_prefixed_witness:
  "handleSpsPps [] [6, 103, 66, 0, 30, 1, 2, 5, 104, 206, 60, 128, 9] 13
     = Ok (MARK3, set_csd [] [0, 0, 0, 1, 103, 66] [0, 0, 0, 1, 104])"
  using handleSpsPps_length_prefixed [of "[66, 0, 30, 1, 2]" "[206, 60, 128, 9]" "[]"]
  by simp

end
