(* ===== verification/MC_World.thy ===== *)
theory MC_World
  imports C_Library Csd_Parser
begin

section \<open>The environment: operating system, codec library and Java\<close>

text \<open>
  The native code calls three outside parties: the kernel (sockets, threads), the NDK media
  library and, through JNI, the Java half of the application. None of them is under the
  modelled files, so a call is recorded in the trace of the state (\<open>ncall\<close>) and its answer is
  read from a parameter \<open>e :: env\<close>, a function of the history up to and including the call:
  \<open>ans\<close> is the integer answer (a size, a handle with 0 for a null pointer, -1 for an error),
  \<open>ans_bytes\<close> the bytes delivered, \<open>ans_str\<close> a string delivered, \<open>ans_info\<close> the size and the
  flags of an \<open>AMediaCodecBufferInfo\<close>.
  Log output, \<open>strerror\<close>, \<open>inet_ntoa\<close>, \<open>gethostbyaddr\<close> and thread attributes do not reach the
  state and are left out.
\<close>

datatype sys_call =
    Sys_socket int | Sys_setsockopt int | Sys_bind int int | Sys_listen int int | Sys_accept int
  | Sys_connect int string int | Sys_close int | Sys_write int "byte list" | Sys_read int int
  | Sys_sendto int "byte list" | Sys_recvfrom int int | Sys_sleep int

datatype thread_call =
    Mutex_lock int | Mutex_unlock int | Cond_wait int | Cond_signal int | Thread_create string int

datatype codec_call =
    Codec_createByName string | Codec_delete int
  | Codec_configure int "fmt option" int int | Codec_start int
  | Codec_dequeueInput int | Codec_getInput int int | Room_memcpy int "byte list"
  | Codec_queueInput int int int int int int
  | Codec_dequeueOutput int | Codec_getOutput int int | Codec_releaseOutput int int bool
  | Codec_getOutputFormat int | Codec_createInputSurface int

datatype window_call =
    Format_new | Format_delete | Window_fromSurface int | Window_release int | Window_toSurface int

datatype jni_call =
    Jni_GetEnv | Jni_Attach | Jni_Detach
  | Jni_AllocObject | Jni_DeleteLocalRef int | Jni_NewGlobalRef int | Jni_DeleteGlobalRef int
  | Jni_SetField int string int | Jni_SetString int string
  | Jni_GetField int string | Jni_FindClass string | Jni_GetMember string
  | Jni_jni2Java int int | Jni_putData int "byte list" int | Jni_NewStringUTF string

datatype ncall =
    Sys sys_call | Thread thread_call | Codec codec_call | Window window_call | Jni jni_call

record env =
  ans :: "ncall list \<Rightarrow> int"
  ans_bytes :: "ncall list \<Rightarrow> byte list"
  ans_str :: "ncall list \<Rightarrow> string"
  ans_info :: "ncall list \<Rightarrow> int \<times> int"

text \<open>
  The state every component shares: the trace of calls and the number of heap blocks that were
  allocated and not yet freed.
\<close>

record world =
  trace :: "ncall list"
  live :: int

definition call :: "ncall \<Rightarrow> 'a world_scheme \<Rightarrow> 'a world_scheme" where
  "call c s = s\<lparr>trace := trace s @ [c]\<rparr>"

definition ask :: "env \<Rightarrow> ncall \<Rightarrow> 'a world_scheme \<Rightarrow> int \<times> 'a world_scheme" where
  "ask e c s = (let s' = call c s in (ans e (trace s'), s'))"

definition heap :: "int \<Rightarrow> 'a world_scheme \<Rightarrow> 'a world_scheme" where
  "heap d s = s\<lparr>live := live s + d\<rparr>"

named_theorems world_simps "facts about calls and their trace"

lemma trace_call [simp, world_simps]: "trace (call c s) = trace s @ [c]"
  by (simp add: call_def)

interpretation world_calls: call_trace trace call
  by unfold_locales simp

lemma live_call [simp, world_simps]: "live (call c s) = live s"
  by (simp add: call_def)

lemma trace_heap [simp, world_simps]: "trace (heap d s) = trace s"
  by (simp add: heap_def)

lemma live_heap [simp, world_simps]: "live (heap d s) = live s + d"
  by (simp add: heap_def)

lemma ask_eq [simp, world_simps]: "ask e c s = (ans e (trace s @ [c]), call c s)"
  by (simp add: ask_def)

text \<open>The calls a step adds to the trace, and how often some call occurs.\<close>

definition count_calls :: "(ncall \<Rightarrow> bool) \<Rightarrow> ncall list \<Rightarrow> nat" where
  "count_calls P tr = length (filter P tr)"

lemma count_calls_simps [simp]:
  "count_calls P [] = 0"
  "count_calls P (c # tr) = (if P c then 1 else 0) + count_calls P tr"
  "count_calls P (tr @ tr') = count_calls P tr + count_calls P tr'"
  by (simp_all add: count_calls_def)


end
