(* ===== verification/Jni_Callbacks.thy ===== *)
theory Jni_Callbacks
  imports MC_World
begin

section \<open>The calls from native code into Java (MyJni.cpp)\<close>

text \<open>
  \<open>getEnv\<close> and the functions that call \<open>MyJni.jni2Java\<close>. A thread the VM does not know is
  attached for the call and detached after it. A null \<open>JNIEnv\<close> or a call on a null object or
  method is \<open>Undef\<close>; \<open>jni2Java\<close> and \<open>putDataToJava\<close> test for that, the others do not.
  What the Java method itself does is not part of the model.
\<close>

datatype DO_SOMETHING_CODE =
    DO_SOMETHING_CODE_init | DO_SOMETHING_CODE_Server_accept | DO_SOMETHING_CODE_Client_connect
  | DO_SOMETHING_CODE_Client_disconnect | DO_SOMETHING_CODE_Client_send_data
  | DO_SOMETHING_CODE_Client_set_info | DO_SOMETHING_CODE_Server_set_ip
  | DO_SOMETHING_CODE_Server_close | DO_SOMETHING_CODE_get_server_port
  | DO_SOMETHING_CODE_close_all_clients | DO_SOMETHING_CODE_close_one_client
  | DO_SOMETHING_CODE_set_surface | DO_SOMETHING_CODE_start_record_screen_prepare
  | DO_SOMETHING_CODE_start_record_screen | DO_SOMETHING_CODE_is_recording
  | DO_SOMETHING_CODE_stop_record_screen | DO_SOMETHING_CODE_fromPortraitToLandscape
  | DO_SOMETHING_CODE_fromLandscapeToPortrait | DO_SOMETHING_CODE_release_sps_pps
  | DO_SOMETHING_CODE_only_output_key_frame

text \<open>The codes of calls from Java.\<close>

definition do_something_codes :: "(DO_SOMETHING_CODE \<times> int) list" where
  "do_something_codes =
     [(DO_SOMETHING_CODE_init, 1000), (DO_SOMETHING_CODE_Server_accept, 1001),
      (DO_SOMETHING_CODE_Client_connect, 1002), (DO_SOMETHING_CODE_Client_disconnect, 1003),
      (DO_SOMETHING_CODE_Client_send_data, 1004), (DO_SOMETHING_CODE_Client_set_info, 1005),
      (DO_SOMETHING_CODE_Server_set_ip, 1006), (DO_SOMETHING_CODE_Server_close, 1007),
      (DO_SOMETHING_CODE_get_server_port, 1008), (DO_SOMETHING_CODE_close_all_clients, 1009),
      (DO_SOMETHING_CODE_close_one_client, 1010), (DO_SOMETHING_CODE_set_surface, 1011),
      (DO_SOMETHING_CODE_start_record_screen_prepare, 1012),
      (DO_SOMETHING_CODE_start_record_screen, 1013), (DO_SOMETHING_CODE_is_recording, 1014),
      (DO_SOMETHING_CODE_stop_record_screen, 1015),
      (DO_SOMETHING_CODE_fromPortraitToLandscape, 1016),
      (DO_SOMETHING_CODE_fromLandscapeToPortrait, 1017),
      (DO_SOMETHING_CODE_release_sps_pps, 1018), (DO_SOMETHING_CODE_only_output_key_frame, 1019)]"

text \<open>The codes of calls to Java.\<close>

definition CODE_connected :: int where "CODE_connected = 2000"
definition CODE_disconnected :: int where "CODE_disconnected = 2001"
definition CODE_change_window :: int where "CODE_change_window = 2002"
definition CODE_find_decoder_codec_name :: int where "CODE_find_decoder_codec_name = 2003"
definition CODE_createPortraitVirtualDisplay :: int where "CODE_createPortraitVirtualDisplay = 2004"
definition CODE_createLandscapeVirtualDisplay :: int where "CODE_createLandscapeVirtualDisplay = 2005"
definition CODE_encoder_send_data_error :: int where "CODE_encoder_send_data_error = 2006"

record jni = world +
  jniObject_jclass :: int
  jfieldIDs :: "(string \<times> int) list"
  myJniJavaObject :: int
  jni2JavaMethodID :: int
  putDataMethodID :: int
  serverFrame1Object :: int
  serverFrame2Object :: int
  clientFrameObject :: int

subsection \<open>Attaching the thread\<close>

definition JNI_OK :: int where "JNI_OK = 0"
definition JNI_EDETACHED :: int where "JNI_EDETACHED = -2"

text \<open>The result: whether this call attached the thread, whether \<open>*env\<close> is not null.\<close>

definition getEnv :: "env \<Rightarrow> 'a world_scheme \<Rightarrow> bool \<times> bool \<times> 'a world_scheme" where
  "getEnv e s =
     (let (jResult, s1) = ask e (Jni Jni_GetEnv) s in
      if jResult \<noteq> JNI_OK then
        if jResult = JNI_EDETACHED then
          let (r, s2) = ask e (Jni Jni_Attach) s1 in
          if r \<noteq> JNI_OK then (False, False, s2) else (True, True, s2)
        else (False, False, s1)
      else (False, True, s1))"

definition detach :: "bool \<Rightarrow> 'a world_scheme \<Rightarrow> 'a world_scheme" where
  "detach isAttached s = (if isAttached then call (Jni Jni_Detach) s else s)"

text \<open>\<open>CallVoidMethod(myJniJavaObject, jni2JavaMethodID, code, jniObject)\<close> without a test.\<close>

definition call_jni2Java :: "int \<Rightarrow> int \<Rightarrow> 'a jni_scheme \<Rightarrow> 'a jni_scheme res" where
  "call_jni2Java code jniObject s =
     (if myJniJavaObject s = 0 \<or> jni2JavaMethodID s = 0 then Undef
      else Ok (call (Jni (Jni_jni2Java code jniObject)) s))"

definition jni2Java :: "bool \<Rightarrow> int \<Rightarrow> int \<Rightarrow> 'a jni_scheme \<Rightarrow> 'a jni_scheme" where
  "jni2Java env_ok code jniObject s =
     (if env_ok \<and> myJniJavaObject s \<noteq> 0 \<and> jni2JavaMethodID s \<noteq> 0
      then call (Jni (Jni_jni2Java code jniObject)) s else s)"

subsection \<open>The callbacks\<close>

definition notify_client :: "env \<Rightarrow> int \<Rightarrow> int \<Rightarrow> 'a jni_scheme \<Rightarrow> 'a jni_scheme res" where
  "notify_client e code which_client s =
     (let (isAttached, env_ok, s1) = getEnv e s in
      if \<not> env_ok then Undef else
      let (jniObject, s2) = ask e (Jni Jni_AllocObject) s1;
          s3 = call (Jni (Jni_SetField jniObject ''valueInt'' which_client)) s2 in
      res_map (\<lambda>s4. detach isAttached (call (Jni (Jni_DeleteLocalRef jniObject)) s4))
        (call_jni2Java code jniObject s3))"

definition connect :: "env \<Rightarrow> int \<Rightarrow> 'a jni_scheme \<Rightarrow> 'a jni_scheme res" where
  "connect e which_client s = notify_client e CODE_connected which_client s"

definition disconnect :: "env \<Rightarrow> int \<Rightarrow> 'a jni_scheme \<Rightarrow> 'a jni_scheme res" where
  "disconnect e which_client s = notify_client e CODE_disconnected which_client s"

definition changeWindow :: "env \<Rightarrow> int \<Rightarrow> int \<Rightarrow> 'a jni_scheme \<Rightarrow> 'a jni_scheme res" where
  "changeWindow e which_client orientation s =
     (let (isAttached, env_ok, s1) = getEnv e s in
      if \<not> env_ok then Undef else
      let (jniObject, s2) = ask e (Jni Jni_AllocObject) s1;
          s3 = call (Jni (Jni_SetField jniObject ''valueInt'' which_client)) s2;
          s4 = call (Jni (Jni_SetField jniObject ''valueLong'' orientation)) s3;
          s5 = jni2Java env_ok CODE_change_window jniObject s4
      in Ok (detach isAttached (call (Jni (Jni_DeleteLocalRef jniObject)) s5)))"

definition setData :: "env \<Rightarrow> int \<Rightarrow> int \<Rightarrow> string \<Rightarrow> int \<Rightarrow> 'a jni_scheme \<Rightarrow> 'a jni_scheme res" where
  "setData e code which_client dat sz s =
     (let (isAttached, env_ok, s1) = getEnv e s in
      if \<not> env_ok then Undef else
      let (jniObject, s2) = ask e (Jni Jni_AllocObject) s1;
          s3 = call (Jni (Jni_SetField jniObject ''valueInt'' which_client)) s2;
          s4 = call (Jni (Jni_SetField jniObject ''valueLong'' sz)) s3;
          s5 = call (Jni (Jni_NewStringUTF dat)) s4;
          s6 = call (Jni (Jni_SetString jniObject dat)) s5;
          s7 = jni2Java env_ok code jniObject s6
      in Ok (detach isAttached (call (Jni (Jni_DeleteLocalRef jniObject)) s7)))"

definition putDataToJava :: "env \<Rightarrow> int \<Rightarrow> byte list \<Rightarrow> int \<Rightarrow> 'a jni_scheme \<Rightarrow> 'a jni_scheme" where
  "putDataToJava e which_client encodedData sz s =
     (let (isAttached, env_ok, s1) = getEnv e s;
          s2 = (if env_ok \<and> myJniJavaObject s1 \<noteq> 0 \<and> putDataMethodID s1 \<noteq> 0
                then call (Jni (Jni_putData which_client (take (nat sz) encodedData) sz)) s1 else s1)
      in detach isAttached s2)"

text \<open>
  \<open>findDecoderCodecName\<close> returns the address of its own array \<open>tmpStr\<close>; what the caller reads
  there is the answer of the environment, the name Java chose only where the stack is unchanged.
\<close>

definition findDecoderCodecName ::
  "env \<Rightarrow> int \<Rightarrow> int \<Rightarrow> string \<Rightarrow> int \<Rightarrow> 'a jni_scheme \<Rightarrow> (string \<times> 'a jni_scheme) res" where
  "findDecoderCodecName e code which_client dat sz s =
     (let (isAttached, env_ok, s1) = getEnv e s in
      if \<not> env_ok then Undef else
      let (jniObject, s2) = ask e (Jni Jni_AllocObject) s1;
          s3 = call (Jni (Jni_SetField jniObject ''valueInt'' which_client)) s2;
          s4 = call (Jni (Jni_SetField jniObject ''valueLong'' sz)) s3;
          s5 = call (Jni (Jni_NewStringUTF dat)) s4;
          s6 = call (Jni (Jni_SetString jniObject dat)) s5;
          s7 = jni2Java env_ok code jniObject s6;
          s8 = call (Jni (Jni_GetField jniObject ''valueString'')) s7;
          s9 = detach isAttached (call (Jni (Jni_DeleteLocalRef jniObject)) s8)
      in Ok (cstr (ans_str e (trace s9)), s9))"

definition void_callback :: "env \<Rightarrow> int \<Rightarrow> 'a jni_scheme \<Rightarrow> 'a jni_scheme res" where
  "void_callback e code s =
     (let (isAttached, env_ok, s1) = getEnv e s in
      if \<not> env_ok then Undef else res_map (detach isAttached) (call_jni2Java code 0 s1))"

definition createPortraitVirtualDisplay :: "env \<Rightarrow> 'a jni_scheme \<Rightarrow> 'a jni_scheme res" where
  "createPortraitVirtualDisplay e s = void_callback e CODE_createPortraitVirtualDisplay s"

definition createLandscapeVirtualDisplay :: "env \<Rightarrow> 'a jni_scheme \<Rightarrow> 'a jni_scheme res" where
  "createLandscapeVirtualDisplay e s = void_callback e CODE_createLandscapeVirtualDisplay s"

definition sendDataError :: "env \<Rightarrow> 'a jni_scheme \<Rightarrow> 'a jni_scheme res" where
  "sendDataError e s = void_callback e CODE_encoder_send_data_error s"

definition getSdkVersion :: "env \<Rightarrow> 'a jni_scheme \<Rightarrow> int" where
  "getSdkVersion e s = atoi (cstr (ans_str e (trace s)))"

subsection \<open>What a callback leaves behind\<close>

text \<open>A step that only adds calls to the trace, and the calls it adds.\<close>

definition only_trace :: "'a world_scheme \<Rightarrow> 'a world_scheme \<Rightarrow> bool" where
  "only_trace s s' = (s' = s\<lparr>trace := trace s @ drop (length (trace s)) (trace s')\<rparr>)"

definition new_calls :: "'a world_scheme \<Rightarrow> 'a world_scheme \<Rightarrow> ncall list" where
  "new_calls s s' = drop (length (trace s)) (trace s')"

lemma only_traceI: "s' = s\<lparr>trace := trace s @ tr\<rparr> \<Longrightarrow> only_trace s s'"
  by (simp add: only_trace_def)

lemma only_trace_refl [simp]: "only_trace s s"
  by (simp add: only_trace_def)

lemma only_traceE:
  assumes "only_trace s s'"
  obtains tr where "s' = s\<lparr>trace := trace s @ tr\<rparr>"
  using assms unfolding only_trace_def by blast

lemma only_trace_call: "only_trace s (call c s)"
  by (rule only_traceI [of _ _ "[c]"]) (simp add: call_def)

lemma only_trace_trans: "only_trace s s' \<Longrightarrow> only_trace s' s'' \<Longrightarrow> only_trace s s''"
  by (elim only_traceE) (auto intro: only_traceI)

lemma getEnv_cases:
  obtains "getEnv e s = (True, True, call (Jni Jni_Attach) (call (Jni Jni_GetEnv) s))"
  | "getEnv e s = (False, True, call (Jni Jni_GetEnv) s)"
  | s1 where "getEnv e s = (False, False, s1)"
proof -
  have "getEnv e s = (True, True, call (Jni Jni_Attach) (call (Jni Jni_GetEnv) s)) \<or>
        getEnv e s = (False, True, call (Jni Jni_GetEnv) s) \<or> (\<exists>s1. getEnv e s = (False, False, s1))"
    by (simp add: getEnv_def Let_def)
  then show thesis using that by blast
qed

definition is_detach :: "ncall \<Rightarrow> bool" where
  "is_detach c = (c = Jni Jni_Detach)"

definition is_alloc :: "ncall \<Rightarrow> bool" where
  "is_alloc c = (c = Jni Jni_AllocObject)"

definition is_unref :: "ncall \<Rightarrow> bool" where
  "is_unref c = (case c of Jni (Jni_DeleteLocalRef r) \<Rightarrow> True | _ \<Rightarrow> False)"

definition is_upcall :: "int \<Rightarrow> ncall \<Rightarrow> bool" where
  "is_upcall code c = (case c of Jni (Jni_jni2Java k obj) \<Rightarrow> k = code | _ \<Rightarrow> False)"

lemmas is_call_defs = is_detach_def is_alloc_def is_unref_def is_upcall_def

definition balanced :: "env \<Rightarrow> 'a world_scheme \<Rightarrow> 'a world_scheme \<Rightarrow> bool" where
  "balanced e s s' =
     (only_trace s s' \<and>
      count_calls is_detach (new_calls s s') = (if fst (getEnv e s) then 1 else 0) \<and>
      count_calls is_alloc (new_calls s s') = count_calls is_unref (new_calls s s'))"

lemmas callback_defs = balanced_def only_trace_def new_calls_def is_call_defs call_def ask_def
  detach_def res_map_Ok_iff

lemma notify_client_balanced: "notify_client e code w s = Ok s' \<Longrightarrow> balanced e s s'"
  by (rule getEnv_cases [of e s])
     (auto simp: notify_client_def call_jni2Java_def callback_defs split: if_splits)

lemma void_callback_balanced: "void_callback e code s = Ok s' \<Longrightarrow> balanced e s s'"
  by (rule getEnv_cases [of e s])
     (auto simp: void_callback_def call_jni2Java_def callback_defs split: if_splits)

lemma changeWindow_balanced: "changeWindow e w d s = Ok s' \<Longrightarrow> balanced e s s'"
  by (rule getEnv_cases [of e s])
     (auto simp: changeWindow_def jni2Java_def callback_defs Let_def split: if_splits)

lemma setData_balanced: "setData e code w d n s = Ok s' \<Longrightarrow> balanced e s s'"
  by (rule getEnv_cases [of e s])
     (auto simp: setData_def jni2Java_def callback_defs Let_def split: if_splits)

lemma findDecoderCodecName_balanced: "findDecoderCodecName e code w d n s = Ok (r, s') \<Longrightarrow> balanced e s s'"
  by (rule getEnv_cases [of e s])
     (auto simp: findDecoderCodecName_def jni2Java_def callback_defs Let_def split: if_splits)

lemma balanced_only_trace: "balanced e s s' \<Longrightarrow> only_trace s s'"
  by (simp add: balanced_def)

lemmas callback_only_trace =
  notify_client_balanced [THEN balanced_only_trace] void_callback_balanced [THEN balanced_only_trace]
  changeWindow_balanced [THEN balanced_only_trace] setData_balanced [THEN balanced_only_trace]
  findDecoderCodecName_balanced [THEN balanced_only_trace]


definition jni_env :: env where
  "jni_env = \<lparr>ans = (\<lambda>h. if last h = Jni Jni_GetEnv then -2
                        else if last h = Jni Jni_AllocObject then 7 else 0),
              ans_bytes = (\<lambda>h. []), ans_str = (\<lambda>h. ''''), ans_info = (\<lambda>h. (0, 0))\<rparr>"

definition jni0 :: jni where
  "jni0 = \<lparr>trace = [], live = 0, jniObject_jclass = 1, jfieldIDs = [], myJniJavaObject = 2,
           jni2JavaMethodID = 3, putDataMethodID = 4, serverFrame1Object = 0,
           serverFrame2Object = 0, clientFrameObject = 0\<rparr>"


end
