(* ===== verification/Wire_Format.thy ===== *)
theory Wire_Format
  imports MC_Prelude
begin

section \<open>Little-endian integers on the wire\<close>

text \<open>
  The integer codecs of the native code: \<open>int2Bytes\<close> (MediaCodec.cpp and MediaClient.cpp),
  \<open>uint8tToInt\<close> (MediaServer.cpp and MediaClient.cpp), \<open>writeValueLE\<close> (screenrecord.cpp)
  and \<open>setValueLE\<close> (FrameOutput.cpp). The locale \<open>le_encoding\<close> is what a reader of the
  stream relies on; every writer of the code is an interpretation of it.
\<close>

unbundle bit_operations_syntax

subsection \<open>The abstract value of a byte string\<close>

fun le_value :: "byte list \<Rightarrow> nat" where
  "le_value [] = 0"
| "le_value (b # bs) = unat b + 256 * le_value bs"

lemma unat_byte_lt: "unat (b :: byte) < 256"
  using unsigned_less [of b, where ?'a = nat] by simp

lemma le_value_bound: "le_value bs < 256 ^ length bs"
proof (induction bs)
  case Nil
  then show ?case by simp
next
  case (Cons b bs)
  have "unat b < 256" by (rule unat_byte_lt)
  with Cons show ?case by simp
qed

lemma le_value_append: "le_value (xs @ ys) = le_value xs + 256 ^ length xs * le_value ys"
  by (induction xs) (auto simp: algebra_simps)

lemma le_value_inj: "length xs = length ys \<Longrightarrow> le_value xs = le_value ys \<Longrightarrow> xs = ys"
proof (induction xs ys rule: list_induct2)
  case Nil
  then show ?case by simp
next
  case (Cons x xs y ys)
  have b: "unat x < 256" "unat y < 256"
    by (rule unat_byte_lt)+
  from Cons.prems have e: "unat x + 256 * le_value xs = unat y + 256 * le_value ys" by simp
  have "unat x = (unat x + 256 * le_value xs) mod 256" and "unat y = (unat y + 256 * le_value ys) mod 256"
    using b by simp_all
  with e have "unat x = unat y" by simp
  moreover from e this have "le_value xs = le_value ys" by simp
  ultimately show ?case using Cons.IH by (simp add: word_unat_eq_iff)
qed

subsection \<open>The contract of a fixed-width little-endian writer\<close>

locale le_encoding =
  fixes enc :: "'a::len word \<Rightarrow> byte list"
    and width :: nat
  assumes width_enc: "length (enc v) = width"
    and value_enc: "le_value (enc v) = unat v"
begin

lemma enc_inj: "enc v = enc w \<longleftrightarrow> v = w"
  using value_enc by (metis word_unat_eq_iff)

lemma enc_append_inj: "enc v @ xs = enc w @ ys \<longleftrightarrow> v = w \<and> xs = ys"
  by (auto simp: width_enc append_eq_append_conv enc_inj)

lemma take_enc: "take width (enc v @ xs) = enc v"
  by (simp add: width_enc)

lemma drop_enc: "drop width (enc v @ xs) = xs"
  by (simp add: width_enc)

lemma concat_enc_length: "length (concat (map enc vs)) = width * length vs"
  by (induction vs) (auto simp: width_enc)

lemma concat_enc_nth:
  "i < length vs \<Longrightarrow> take width (drop (width * i) (concat (map enc vs))) = enc (vs ! i)"
proof (induction vs arbitrary: i)
  case Nil
  then show ?case by simp
next
  case (Cons v vs)
  then show ?case by (cases i) (auto simp: width_enc)
qed

lemma concat_enc_inj:
  "length vs = length ws \<Longrightarrow> concat (map enc vs) @ xs = concat (map enc ws) @ ys
   \<longleftrightarrow> vs = ws \<and> xs = ys"
  by (induction vs ws rule: list_induct2) (auto simp: enc_append_inj)

end

lemma unat_drop_bit_div: "unat (drop_bit n v) = unat v div 2 ^ n"
  by (rule trans [OF unat_drop_bit_eq drop_bit_eq_div])

subsection \<open>writeValueLE and setValueLE\<close>

text \<open>The loop of \<open>writeValueLE\<close>: \<open>n\<close> iterations are left.\<close>

fun writeValueLE_loop :: "nat \<Rightarrow> 'a::len word \<Rightarrow> byte list" where
  "writeValueLE_loop 0 value = []"
| "writeValueLE_loop (Suc n) value = ucast value # writeValueLE_loop n (drop_bit 8 value)"

definition writeValueLE32 :: "u32 \<Rightarrow> byte list" where
  "writeValueLE32 value = writeValueLE_loop 4 value"

definition writeValueLE64 :: "u64 \<Rightarrow> byte list" where
  "writeValueLE64 value = writeValueLE_loop 8 value"

definition setValueLE :: "u32 \<Rightarrow> byte list" where
  "setValueLE value =
     [ucast value, ucast (drop_bit 8 value), ucast (drop_bit 16 value), ucast (drop_bit 24 value)]"

lemma length_writeValueLE_loop [simp]: "length (writeValueLE_loop n v) = n"
  by (induction n arbitrary: v) auto

lemma unat_ucast_byte: "unat (ucast (v :: 'a::len word) :: byte) = unat v mod 256"
  by (simp add: unsigned_ucast_eq take_bit_eq_mod)

lemma le_value_writeValueLE_loop:
  "le_value (writeValueLE_loop n (v :: 'a::len word)) = unat v mod 256 ^ n"
proof (induction n arbitrary: v)
  case 0
  then show ?case by simp
next
  case (Suc n)
  have "unat v mod 256 + 256 * (unat v div 256 mod 256 ^ n) = unat v mod (256 * 256 ^ n)"
    by (simp add: mod_mult2_eq)
  then show ?case
    by (simp add: Suc.IH unat_ucast_byte unat_drop_bit_div)
qed

interpretation le32: le_encoding writeValueLE32 4
proof
  fix v :: u32
  show "length (writeValueLE32 v) = 4" by (simp add: writeValueLE32_def)
  have "unat v < 2 ^ 32" using unsigned_less [of v, where ?'a = nat] by simp
  then show "le_value (writeValueLE32 v) = unat v"
    by (simp add: writeValueLE32_def le_value_writeValueLE_loop)
qed

interpretation le64: le_encoding writeValueLE64 8
proof
  fix v :: u64
  show "length (writeValueLE64 v) = 8" by (simp add: writeValueLE64_def)
  have "unat v < 2 ^ 64" using unsigned_less [of v, where ?'a = nat] by simp
  then show "le_value (writeValueLE64 v) = unat v"
    by (simp add: writeValueLE64_def le_value_writeValueLE_loop)
qed

subsection \<open>int2Bytes\<close>

text \<open>
  \<open>length\<close> is a C \<open>int\<close>, so \<open>>>\<close> is the arithmetic shift; the result is \<open>Undef\<close> where the
  frame has fewer than four cells.
\<close>

definition int2Bytes :: "byte list \<Rightarrow> u32 \<Rightarrow> byte list res" where
  "int2Bytes frame len =
     (if length frame < 4 then Undef
      else Ok (frame[0 := ucast len,
                     1 := ucast (signed_drop_bit 8 len),
                     2 := ucast (signed_drop_bit 16 len),
                     3 := ucast (signed_drop_bit 24 len)]))"

text \<open>The four bytes themselves, for a frame that has them.\<close>

definition le4 :: "u32 \<Rightarrow> byte list" where
  "le4 v = [ucast v, ucast (drop_bit 8 v), ucast (drop_bit 16 v), ucast (drop_bit 24 v)]"

lemma length_le4 [simp]: "length (le4 v) = 4"
  by (simp add: le4_def)

lemma ucast_signed_drop_bit:
  "n + 8 \<le> 32 \<Longrightarrow> (ucast (signed_drop_bit n (v :: u32)) :: byte) = ucast (drop_bit n v)"
  by (rule bit_word_eqI)
     (auto simp: bit_simps)

lemma int2Bytes_eq: "4 \<le> length frame \<Longrightarrow> int2Bytes frame v = Ok (le4 v @ drop 4 frame)"
proof -
  assume len: "4 \<le> length frame"
  then obtain a b c d rest where f: "frame = a # b # c # d # rest"
    by (auto simp: numeral_eq_Suc Suc_le_length_iff)
  show ?thesis
    by (simp add: int2Bytes_def f le4_def ucast_signed_drop_bit)
qed

lemma le4_eq_writeValueLE32: "le4 v = writeValueLE32 v"
  by (simp add: le4_def writeValueLE32_def eval_nat_numeral)

lemma le_value_le4: "le_value (le4 v) = unat v"
  by (simp add: le4_eq_writeValueLE32 le32.value_enc)

interpretation wire: le_encoding le4 4
  by unfold_locales (simp_all add: le_value_le4)

subsection \<open>uint8tToInt\<close>

definition uint8tToInt :: "cbuf \<Rightarrow> u32" where
  "uint8tToInt src =
     (ucast (at src 0) AND 0xFF)
     OR push_bit 8 (ucast (at src 1) AND 0xFF)
     OR push_bit 16 (ucast (at src 2) AND 0xFF)
     OR push_bit 24 (ucast (at src 3) AND 0xFF)"

lemma bit_byte_lt: "bit (b :: byte) n \<Longrightarrow> n < 8"
  using bit_imp_le_length [of b n] by simp

lemma mask_ucast_byte: "(ucast (b :: byte) :: u32) AND 0xFF = ucast b"
proof -
  have "(ucast b :: u32) AND mask 8 = ucast b"
    by (auto intro!: bit_word_eqI simp: bit_simps dest: bit_byte_lt)
  then show ?thesis by (simp add: mask_eq_exp_minus_1)
qed

lemma uint8tToInt_le4: "uint8tToInt (le4 v @ rest) = v"
proof (rule bit_word_eqI)
  fix n
  assume "n < LENGTH(32)"
  then consider "n < 8" | "8 \<le> n" "n - 8 < 8" | "16 \<le> n" "n - 16 < 8" "\<not> n - 8 < 8"
    | "24 \<le> n" "n - 24 < 8" "\<not> n - 8 < 8" "\<not> n - 16 < 8" "n < 32" by fastforce
  then show "bit (uint8tToInt (le4 v @ rest)) n = bit v n"
    unfolding uint8tToInt_def mask_ucast_byte
    by cases (auto simp add: at_def le4_def bit_simps)
qed

lemma uint8tToInt_value: "unat (uint8tToInt buf) = le_value (prefix_of buf 4)"
proof -
  let ?p = "prefix_of buf 4"
  define v :: u32 where "v = word_of_nat (le_value ?p)"
  have "le_value ?p < 2 ^ 32" using le_value_bound [of ?p] by simp
  then have v: "unat v = le_value ?p" by (simp add: v_def unsigned_of_nat take_bit_nat_eq_self)
  then have "le_value (le4 v) = le_value ?p" by (simp add: le_value_le4)
  then have "le4 v = ?p" by (intro le_value_inj) simp_all
  moreover have "i < 4 \<Longrightarrow> at ?p i = at buf i" for i
    using nth_prefix_of [of i 4 buf] by (simp add: at_def [of ?p])
  then have "uint8tToInt buf = uint8tToInt ?p"
    by (simp add: uint8tToInt_def)
  ultimately show ?thesis using v uint8tToInt_le4 [of v "[]"] by simp
qed

lemma setValueLE_eq_le4: "setValueLE v = le4 v"
  by (simp add: setValueLE_def le4_def)

interpretation set_le: le_encoding setValueLE 4
  by unfold_locales (simp_all add: setValueLE_eq_le4 le_value_le4)

end
