(* ===== verification/Client_Net.thy ===== *)
theory Client_Net
  imports Jni_Callbacks Wire_Format
begin

section \<open>The casting side of the connection (MediaClient.cpp)\<close>

text \<open>
  The state is the group of globals MediaServer.cpp and MediaClient.cpp share. Character arrays
  hold their whole contents; a read of one as a C string with no NUL in it is \<open>Undef\<close>, and so
  is a copy past its end. Port numbers are \<open>int\<close> with \<open>htons\<close> written as \<open>mod 65536\<close>.
\<close>

record net = jni +
  server_sock_fd :: int
  client_sock_fd1 :: int
  client_sock_fd2 :: int
  IP :: string
  SERVER_PROT :: int
  what_is_device :: int
  MAXIMUM_NUMBER :: int
  which_replace :: int
  server_is_live :: bool
  MEDIA_CODEC_GO_JNI :: bool
  client_info_length :: int
  client_info :: string
  client_info_length1 :: int
  client_info1 :: string
  client_info_length2 :: int
  client_info2 :: string

definition IP_size :: nat where "IP_size = 15"
definition client_info_size :: nat where "client_info_size = 1024"

definition c_string :: "string \<Rightarrow> string res" where
  "c_string buf = (if nul \<in> set buf then Ok (cstr buf) else Undef)"

definition chars_to_bytes :: "string \<Rightarrow> byte list" where
  "chars_to_bytes s = map (\<lambda>c. of_nat (of_char c)) s"

lemma bytes_to_chars_to_bytes [simp]: "bytes_to_chars (chars_to_bytes s) = s"
proof -
  have "char_of (unat (of_nat (of_char c) :: byte)) = c" for c
  proof -
    have "(of_char c :: nat) < 256" by (rule nat_of_char_less_256)
    then show ?thesis by (simp add: unsigned_of_nat take_bit_nat_eq_self)
  qed
  then show ?thesis by (simp add: bytes_to_chars_def chars_to_bytes_def o_def)
qed

lemma length_chars_to_bytes [simp]: "length (chars_to_bytes s) = length s"
  by (simp add: chars_to_bytes_def)

subsection \<open>Shared helpers of MediaServer.cpp\<close>

definition close_server_sock :: "'a net_scheme \<Rightarrow> 'a net_scheme" where
  "close_server_sock s =
     (if server_sock_fd s \<noteq> -1
      then (call (Sys (Sys_close (server_sock_fd s))) s)\<lparr>server_sock_fd := -1\<rparr> else s)"

text \<open>\<open>ip\<close> is \<open>None\<close> for a null pointer.\<close>

definition setIP :: "string option \<Rightarrow> 'a net_scheme \<Rightarrow> 'a net_scheme" where
  "setIP ip s = (case ip of None \<Rightarrow> s | Some t \<Rightarrow> s\<lparr>IP := strncpy (cstr t) IP_size\<rparr>)"

subsection \<open>MediaClient.cpp\<close>

definition set_client_info :: "string \<Rightarrow> int \<Rightarrow> 'a net_scheme \<Rightarrow> 'a net_scheme res" where
  "set_client_info info len s =
     (let s1 = s\<lparr>client_info_length := len, client_info := replicate client_info_size nul\<rparr> in
      if 0 \<le> len \<and> len \<le> int client_info_size
      then Ok (s1\<lparr>client_info :=
                 strncpy (cstr info) (nat len) @ replicate (client_info_size - nat len) nul\<rparr>)
      else Undef)"

text \<open>\<open>write(fd, buf, n)\<close> of the first \<open>n\<close> bytes of an array.\<close>

definition write_array :: "env \<Rightarrow> int \<Rightarrow> byte list \<Rightarrow> int \<Rightarrow> 'a world_scheme \<Rightarrow> (int \<times> 'a world_scheme) res" where
  "write_array e fd buf n s = res_map (\<lambda>bs. ask e (Sys (Sys_write fd bs)) s) (slice buf 0 n)"

definition client_connect :: "env \<Rightarrow> 'a net_scheme \<Rightarrow> (bool \<times> 'a net_scheme) res" where
  "client_connect e s =
     (let (fd, s1) = ask e (Sys (Sys_socket 1)) s;
          s2 = s1\<lparr>server_sock_fd := fd\<rparr> in
      if fd = -1 then Ok (False, s2) else
      res_bind (c_string (IP s2)) (\<lambda>ip.
      let (err, s3) = ask e (Sys (Sys_connect fd ip (SERVER_PROT s2 mod 65536))) s2 in
      if err = -1 then Ok (False, close_server_sock s3)
      else if \<not> server_is_live s3 then Ok (False, close_server_sock s3)
      else
        let dnl = le4 (word_of_int (client_info_length s3));
            (w1, s4) = ask e (Sys (Sys_write fd dnl)) s3 in
        res_map (\<lambda>(w2, s5). (True, s5))
          (write_array e fd (chars_to_bytes (client_info s4)) (client_info_length s4) s4)))"

definition client_disconnect :: "'a net_scheme \<Rightarrow> 'a net_scheme" where
  "client_disconnect s = close_server_sock s"

definition client_close_all :: "'a net_scheme \<Rightarrow> 'a net_scheme" where
  "client_close_all s = client_disconnect s"

definition send_data :: "env \<Rightarrow> byte list \<Rightarrow> int \<Rightarrow> 'a net_scheme \<Rightarrow> (int \<times> 'a net_scheme) res" where
  "send_data e data_buffer len s =
     (if server_sock_fd s \<noteq> -1 then write_array e (server_sock_fd s) data_buffer len s
      else Ok (-1, s))"

subsection \<open>The datagram variant\<close>

definition sendto_slice ::
  "env \<Rightarrow> int \<Rightarrow> byte list \<Rightarrow> int \<Rightarrow> int \<Rightarrow> 'a world_scheme \<Rightarrow> (int \<times> 'a world_scheme) res" where
  "sendto_slice e fd buf off n s = res_map (\<lambda>bs. ask e (Sys (Sys_sendto fd bs)) s) (slice buf off n)"

definition client_connect_udp :: "env \<Rightarrow> 'a net_scheme \<Rightarrow> (bool \<times> 'a net_scheme) res" where
  "client_connect_udp e s =
     (let (fd, s1) = ask e (Sys (Sys_socket 2)) s;
          s2 = s1\<lparr>server_sock_fd := fd\<rparr> in
      if fd = -1 then Ok (False, s2) else
      res_bind (c_string (IP s2)) (\<lambda>ip.
      if \<not> server_is_live s2 then Ok (False, close_server_sock s2)
      else
        let dnl = le4 (word_of_int (client_info_length s2));
            (l1, s3) = ask e (Sys (Sys_sendto fd dnl)) s2 in
        res_map (\<lambda>(l2, s4). (True, s4))
          (sendto_slice e fd (chars_to_bytes (client_info s3)) 0 (client_info_length s3) s3)))"

text \<open>
  The frame is sent twice when it fits a datagram. A longer one goes out in two datagrams; the
  four length bytes \<open>int2Bytes\<close> prepares for each part are never sent. \<open>data_buffer[9]\<close> is read
  for the log.
\<close>

definition send_data_udp :: "env \<Rightarrow> byte list \<Rightarrow> int \<Rightarrow> 'a net_scheme \<Rightarrow> (int \<times> 'a net_scheme) res" where
  "send_data_udp e data_buffer len s =
     (let fd = server_sock_fd s in
      if fd = -1 then Ok (-1, s)
      else if len \<le> 65506 then
        res_bind (sendto_slice e fd data_buffer 0 len s) (\<lambda>(l1, s1).
        res_bind (sendto_slice e fd data_buffer 0 len s1) (\<lambda>(write_size, s2).
        res_bind (rd data_buffer 9) (\<lambda>b. Ok (write_size, s2))))
      else
        res_bind (int2Bytes (replicate 4 0) 65502) (\<lambda>frame.
        res_bind (sendto_slice e fd data_buffer 0 65506 s) (\<lambda>(l1, s1).
        res_bind (int2Bytes frame (word_of_int (len - 65506 - 4))) (\<lambda>frame'.
          sendto_slice e fd data_buffer 65506 (len - 65506) s1))))"

subsection \<open>The client information and the address\<close>

lemma client_info_set:
  "set_client_info info len s = Ok s' \<Longrightarrow>
   length (client_info s') = client_info_size \<and> client_info_length s' = len \<and>
   take (nat len) (client_info s') = strncpy (cstr info) (nat len)"
  by (auto simp: set_client_info_def Let_def client_info_size_def split: if_splits)

text \<open>\<open>setIP\<close> copies at most 15 characters into an array of 15: a dotted address of 15 characters
  leaves no room for the terminator, and reading it as a string, as \<open>client_connect\<close> does to convert
  the address, runs past the array; a shorter address is read back unchanged.\<close>

theorem setIP_terminator:
  assumes "nul \<notin> set ip"
  shows "c_string (IP (setIP (Some ip) s)) = (if length ip < 15 then Ok ip else Undef)"
proof -
  have c: "cstr ip = ip" using assms by (rule cstr_id)
  show ?thesis
  proof (cases "length ip < 15")
    case True
    have "replicate (IP_size - length ip) nul = nul # replicate (14 - length ip) nul"
      using True by (simp add: IP_size_def Suc_diff_Suc flip: replicate_Suc)
    with True c assms show ?thesis
      by (simp add: c_string_def setIP_def strncpy_def cstr_append_nul IP_size_def)
  next
    case False
    with c assms have "nul \<notin> set (strncpy ip IP_size)"
      by (auto simp: strncpy_def IP_size_def dest: in_set_takeD)
    with False c show ?thesis by (simp add: c_string_def setIP_def)
  qed
qed

lemma setIP_terminator_witness:
  "c_string (IP (setIP (Some ''192.168.100.100'') (undefined :: net))) = Undef \<and>
   c_string (IP (setIP (Some ''192.168.1.7'') (undefined :: net))) = Ok ''192.168.1.7''"
  using setIP_terminator [of "''192.168.100.100''" "undefined :: net"]
    setIP_terminator [of "''192.168.1.7''" "undefined :: net"]
  by (simp add: nul_def)

subsection \<open>Connecting\<close>

lemma server_sock_fd_call [simp]: "server_sock_fd (call c s) = server_sock_fd s"
  by (simp add: call_def)

lemma net_call [simp]:
  "IP (call c s) = IP s" "SERVER_PROT (call c s) = SERVER_PROT s"
  "server_is_live (call c s) = server_is_live s"
  "client_info (call c s) = client_info s" "client_info_length (call c s) = client_info_length s"
  "client_sock_fd1 (call c s) = client_sock_fd1 s" "client_sock_fd2 (call c s) = client_sock_fd2 s"
  "what_is_device (call c s) = what_is_device s" "MAXIMUM_NUMBER (call c s) = MAXIMUM_NUMBER s"
  "which_replace (call c s) = which_replace s"
  by (simp_all add: call_def)

lemma close_server_sock_simps [simp]:
  "server_sock_fd (close_server_sock s) = -1"
  "live (close_server_sock s) = live s"
  "server_is_live (close_server_sock s) = server_is_live s"
  by (simp_all add: close_server_sock_def)

text \<open>What the client announces: the length of its information and the information itself.\<close>

definition announce :: "'a net_scheme \<Rightarrow> byte list list" where
  "announce s =
     [le4 (word_of_int (client_info_length s)),
      take (nat (client_info_length s)) (chars_to_bytes (client_info s))]"

definition writes_to :: "int \<Rightarrow> ncall list \<Rightarrow> byte list list" where
  "writes_to fd tr =
     concat (map (\<lambda>c. case c of Sys (Sys_write f bs) \<Rightarrow> if f = fd then [bs] else [] | _ \<Rightarrow> []) tr)"

lemma writes_to_simps [simp]:
  "writes_to fd [] = []"
  "writes_to fd (c # tr) =
     (case c of Sys (Sys_write f bs) \<Rightarrow> if f = fd then [bs] else [] | _ \<Rightarrow> []) @ writes_to fd tr"
  "writes_to fd (tr @ tr') = writes_to fd tr @ writes_to fd tr'"
  by (simp_all add: writes_to_def)

text \<open>\<open>client_connect\<close> that returns either succeeded, and then the socket is open, the announcement
  (four length bytes, then that many bytes of the client information) is all it wrote to the
  socket, or failed, and then no socket is left open in \<open>server_sock_fd\<close> and nothing was written.\<close>

theorem client_connect_result:
  assumes "client_connect e s = Ok (ok, s')"
  shows "if ok then server_sock_fd s' \<noteq> -1 \<and>
                    writes_to (server_sock_fd s') (new_calls s s') = announce s
               else server_sock_fd s' = -1 \<and> (\<forall>fd. writes_to fd (new_calls s s') = [])"
  using assms
  by (auto simp: client_connect_def Let_def res_simps write_array_def close_server_sock_def announce_def
      new_calls_def slice_def split: if_splits)

definition net0 :: net where
  "net0 = \<lparr>trace = [], live = 0, jniObject_jclass = 1, jfieldIDs = [], myJniJavaObject = 2,
           jni2JavaMethodID = 3, putDataMethodID = 4, serverFrame1Object = 0,
           serverFrame2Object = 0, clientFrameObject = 0,
           server_sock_fd = -1, client_sock_fd1 = -1, client_sock_fd2 = -1,
           IP = replicate 15 nul, SERVER_PROT = 5857, what_is_device = 1, MAXIMUM_NUMBER = 1,
           which_replace = 1, server_is_live = True, MEDIA_CODEC_GO_JNI = True,
           client_info_length = 0, client_info = replicate 1024 nul,
           client_info_length1 = 0, client_info1 = [], client_info_length2 = 0, client_info2 = []\<rparr>"

definition connect_env :: env where
  "connect_env = \<lparr>ans = (\<lambda>h. if last h = Sys (Sys_socket 1) then 5 else 0),
              ans_bytes = (\<lambda>h. []), ans_str = (\<lambda>h. ''''), ans_info = (\<lambda>h. (0, 0))\<rparr>"

lemma client_connect_result_witness:
  "announce net0 = [[0, 0, 0, 0], []]"
proof -
  define s' where "s' = net0\<lparr>server_sock_fd := 5,
      trace := [Sys (Sys_socket 1), Sys (Sys_connect 5 '''' 5857), Sys (Sys_write 5 [0, 0, 0, 0]),
                Sys (Sys_write 5 [])]\<rparr>"
  have "client_connect connect_env net0 = Ok (True, s')"
    by (simp add: client_connect_def connect_env_def net0_def s'_def c_string_def cstr_def Let_def
        write_array_def slice_def le4_def call_def ask_def numeral_eq_Suc nul_def)
  from client_connect_result [OF this] show ?thesis by (simp add: s'_def net0_def new_calls_def)
qed

end
