(* ===== verification/Media_Codec.thy ===== *)
theory Media_Codec
  imports Client_Net
begin

section \<open>Codec sessions: decoding and screen recording (MediaCodec.cpp)\<close>

text \<open>
  The two groups of globals of MediaCodec.cpp (\<open>surface1\<close>, \<open>format1\<close>, ... and \<open>surface2\<close>, ...) are
  two values of the record \<open>window\<close>; where the source tests \<open>which_client\<close> the functions here
  select one with \<open>win\<close> and \<open>upd_win\<close>. A handle is an \<open>int\<close>, 0 for the null pointer; a format is
  \<open>None\<close> for a null pointer and otherwise the setter calls made on it; a \<open>malloc\<close>ed array is a
  byte list, \<open>None\<close> for a null pointer. Loops that poll the codec take fuel.
\<close>

unbundle bit_operations_syntax

record window =
  w_surface :: int
  w_format :: "fmt option"
  w_codec :: int
  w_mime :: string
  w_codecName :: string
  w_mimeLength :: int
  w_codecNameLength :: int
  w_width :: int
  w_height :: int
  w_orientation :: int
  w_isPlaying :: bool
  w_sps_pps_portrait :: "byte list option"
  w_sps_pps_landscape :: "byte list option"
  w_sps_pps_size_portrait :: int
  w_sps_pps_size_landscape :: int
  w_isKeyFrameWrite :: bool

record mc = net +
  ONLY_OUTPUT_KEY_FRAME :: bool
  isRecording :: bool
  win1 :: window
  win2 :: window
  ORIENTATION_PORTRAIT :: "byte list"
  ORIENTATION_LANDSCAPE :: "byte list"

definition win :: "int \<Rightarrow> 'a mc_scheme \<Rightarrow> window" where
  "win which_client s = (if which_client = 1 then win1 s else win2 s)"

definition upd_win :: "int \<Rightarrow> (window \<Rightarrow> window) \<Rightarrow> 'a mc_scheme \<Rightarrow> 'a mc_scheme" where
  "upd_win which_client f s =
     (if which_client = 1 then s\<lparr>win1 := f (win1 s)\<rparr>
      else if which_client = 2 then s\<lparr>win2 := f (win2 s)\<rparr> else s)"

interpretation windows: client_slots win upd_win
  by unfold_locales (auto simp: is_client_def win_def upd_win_def)

text \<open>\<open>int\<close> multiplication, undefined on overflow.\<close>

definition mul_int32 :: "int \<Rightarrow> int \<Rightarrow> int res" where
  "mul_int32 a b = (if - (2 ^ 31) \<le> a * b \<and> a * b < 2 ^ 31 then Ok (a * b) else Undef)"

subsection \<open>Talking to the codec\<close>

definition dequeueOutputBuffer :: "env \<Rightarrow> int \<Rightarrow> 'a world_scheme \<Rightarrow> int \<times> (int \<times> int) \<times> 'a world_scheme" where
  "dequeueOutputBuffer e codec s =
     (let (i, s1) = ask e (Codec (Codec_dequeueOutput codec)) s in (i, ans_info e (trace s1), s1))"

definition getOutputBuffer :: "env \<Rightarrow> int \<Rightarrow> int \<Rightarrow> 'a world_scheme \<Rightarrow> byte list option \<times> 'a world_scheme" where
  "getOutputBuffer e codec i s =
     (let (p, s1) = ask e (Codec (Codec_getOutput codec i)) s
      in (if p = 0 then None else Some (ans_bytes e (trace s1)), s1))"

definition releaseOutputBuffer :: "int \<Rightarrow> int \<Rightarrow> bool \<Rightarrow> 'a world_scheme \<Rightarrow> 'a world_scheme" where
  "releaseOutputBuffer codec i render s = call (Codec (Codec_releaseOutput codec i render)) s"

text \<open>The \<open>switch\<close> on a negative index: only a changed format leads to calls.\<close>

definition output_info :: "env \<Rightarrow> int \<Rightarrow> int \<Rightarrow> 'a world_scheme \<Rightarrow> 'a world_scheme" where
  "output_info e codec roomIndex s =
     (if roomIndex = -2
      then call (Window Format_delete) (call (Codec (Codec_getOutputFormat codec)) s) else s)"

definition key_flag :: "int \<Rightarrow> bool" where
  "key_flag flags = (flags AND 1 \<noteq> 0)"

definition config_flag :: "int \<Rightarrow> bool" where
  "config_flag flags = (flags AND 2 \<noteq> 0)"

subsection \<open>Sending encoded frames\<close>

definition sendData :: "env \<Rightarrow> byte list \<Rightarrow> int \<Rightarrow> 'a mc_scheme \<Rightarrow> 'a mc_scheme res" where
  "sendData e data_buffer len s =
     (let s1 = call (Thread (Mutex_lock 1)) s in
      res_map (call (Thread (Mutex_unlock 1)))
        (if isRecording s1 then
           res_bind (send_data e data_buffer len s1) (\<lambda>(sendLength, s2).
             if sendLength \<le> 0 then
               sendDataError e (s2\<lparr>isRecording := False,
                                   win1 := (win1 s2)\<lparr>w_isPlaying := False\<rparr>,
                                   win2 := (win2 s2)\<lparr>w_isPlaying := False\<rparr>\<rparr>)
             else Ok s2)
         else Ok s1))"

text \<open>The frame \<open>handleOutputBufferImpl\<close> builds: length, data, orientation mark, flags.\<close>

definition encode_frame :: "byte list \<Rightarrow> int \<times> int \<Rightarrow> bool \<Rightarrow> byte list res" where
  "encode_frame room roomInfo isPortrait =
     (let (sz, flags) = roomInfo in
      if sz < 0 then Undef else
      res_bind (int2Bytes (replicate (nat sz + 6) 0) (word_of_int (sz + 2))) (\<lambda>frame.
      res_bind (slice room 0 sz) (\<lambda>bs.
      res_bind (memcpy_to (nat sz + 6) frame 4 bs) (\<lambda>frame'.
        Ok (frame'[nat sz + 5 := word_of_int flags, nat sz + 4 := (if isPortrait then 1 else 2)])))))"

definition handleOutputBufferImpl ::
  "env \<Rightarrow> byte list \<Rightarrow> int \<times> int \<Rightarrow> bool \<Rightarrow> 'a mc_scheme \<Rightarrow> 'a mc_scheme res" where
  "handleOutputBufferImpl e room roomInfo isPortrait s0 =
     res_bind (encode_frame room roomInfo isPortrait) (\<lambda>frame.
     let s = heap 1 s0; len = fst roomInfo + 6 in
     if isPortrait then
       if \<not> w_isKeyFrameWrite (win1 s) then
         if key_flag (snd roomInfo) then
           res_map (heap (-1))
             (sendData e frame len (s\<lparr>win1 := (win1 s)\<lparr>w_isKeyFrameWrite := True\<rparr>\<rparr>))
         else Ok (heap (-1) s)
       else res_map (heap (-1)) (sendData e frame len s)
     else if \<not> w_isKeyFrameWrite (win2 s) then
       if key_flag (snd roomInfo) then
         res_map (heap (-1))
           (sendData e frame len (s\<lparr>win2 := (win2 s)\<lparr>w_isKeyFrameWrite := True\<rparr>\<rparr>))
       else Ok (heap (-1) s)
     else res_map (heap (-1)) (sendData e frame len s))"

definition handleOutputBuffer ::
  "env \<Rightarrow> byte list option \<Rightarrow> int \<times> int \<Rightarrow> bool \<Rightarrow> 'a mc_scheme \<Rightarrow> 'a mc_scheme res" where
  "handleOutputBuffer e room roomInfo isPortrait s =
     (case room of None \<Rightarrow> Ok s
      | Some r \<Rightarrow>
          if ONLY_OUTPUT_KEY_FRAME s then
            if key_flag (snd roomInfo) then handleOutputBufferImpl e r roomInfo isPortrait s else Ok s
          else handleOutputBufferImpl e r roomInfo isPortrait s)"

subsection \<open>Configuration frames of the encoder\<close>

text \<open>\<open>malloc\<close> of the size plus 4, the length in front, the frame behind it.\<close>

definition csd_array :: "byte list \<Rightarrow> int \<Rightarrow> byte list res" where
  "csd_array room sz =
     (if sz < 0 then Undef
      else res_bind (int2Bytes (replicate (nat sz + 4) 0) (word_of_int sz)) (\<lambda>arr.
           res_bind (slice room 0 sz) (memcpy_to (nat sz + 4) arr 4)))"

definition store_portrait1 :: "byte list \<Rightarrow> int \<Rightarrow> 'a mc_scheme \<Rightarrow> 'a mc_scheme res" where
  "store_portrait1 room sz s =
     res_map (\<lambda>arr. heap 1 (s\<lparr>win1 := (win1 s)\<lparr>w_sps_pps_portrait := Some arr,
                                              w_sps_pps_size_portrait := sz + 4\<rparr>\<rparr>))
       (csd_array room sz)"

definition store_landscape2 :: "byte list \<Rightarrow> int \<Rightarrow> 'a mc_scheme \<Rightarrow> 'a mc_scheme res" where
  "store_landscape2 room sz s =
     res_map (\<lambda>arr. heap 1 (s\<lparr>win2 := (win2 s)\<lparr>w_sps_pps_landscape := Some arr,
                                              w_sps_pps_size_landscape := sz + 4\<rparr>\<rparr>))
       (csd_array room sz)"

text \<open>
  \<open>while (isGettingSpsPps) for (;;)\<close>: one unit of fuel per poll. A negative index leaves the
  inner loop and the outer one polls again.
\<close>

fun await_config ::
  "nat \<Rightarrow> env \<Rightarrow> int \<Rightarrow> (byte list \<Rightarrow> int \<Rightarrow> 'a mc_scheme \<Rightarrow> 'a mc_scheme res) \<Rightarrow> 'a mc_scheme \<Rightarrow> 'a mc_scheme res" where
  "await_config 0 e codec store s = NoFuel"
| "await_config (Suc fuel) e codec store s =
     (let (roomIndex, roomInfo, s1) = dequeueOutputBuffer e codec s in
      if roomIndex < 0 then await_config fuel e codec store s1
      else
        let (room, s2) = getOutputBuffer e codec roomIndex s1 in
        case room of
          Some r \<Rightarrow>
            if config_flag (snd roomInfo)
            then res_map (releaseOutputBuffer codec roomIndex False) (store r (fst roomInfo) s2)
            else await_config fuel e codec store (releaseOutputBuffer codec roomIndex False s2)
        | None \<Rightarrow> await_config fuel e codec store (releaseOutputBuffer codec roomIndex False s2))"

text \<open>With neither orientation set, \<open>codec\<close> is an uninitialised pointer.\<close>

definition getSpsPps :: "nat \<Rightarrow> env \<Rightarrow> 'a mc_scheme \<Rightarrow> 'a mc_scheme res" where
  "getSpsPps fuel e s =
     (if w_orientation (win1 s) = 1 then
        res_bind (createPortraitVirtualDisplay e s) (\<lambda>s1.
        res_bind (await_config fuel e (w_codec (win1 s1)) store_portrait1 s1) (\<lambda>s2.
        res_bind (createLandscapeVirtualDisplay e s2) (\<lambda>s3.
          await_config fuel e (w_codec (win2 s3)) store_landscape2 s3)))
      else if w_orientation (win2 s) = 2 then
        res_bind (createLandscapeVirtualDisplay e s) (\<lambda>s1.
        res_bind (await_config fuel e (w_codec (win2 s1)) store_landscape2 s1) (\<lambda>s2.
        res_bind (createPortraitVirtualDisplay e s2) (\<lambda>s3.
          await_config fuel e (w_codec (win1 s3)) store_portrait1 s3)))
      else Undef)"

subsection \<open>The decoder side\<close>

definition getCodec :: "int \<Rightarrow> 'a mc_scheme \<Rightarrow> int" where
  "getCodec which_client s =
     (if which_client = 1 then w_codec (win1 s)
      else if which_client = 2 then w_codec (win2 s) else 0)"

definition setSpsPps :: "int \<Rightarrow> int \<Rightarrow> byte list \<Rightarrow> int \<Rightarrow> 'a mc_scheme \<Rightarrow> 'a mc_scheme res" where
  "setSpsPps which_client orientation sps_pps sz s =
     (if which_client = 1 \<or> which_client = 2 then
        res_map (\<lambda>bs. heap 1
           (if orientation = 1
            then upd_win which_client (\<lambda>w. w\<lparr>w_sps_pps_portrait := Some bs,
                                             w_sps_pps_size_portrait := sz\<rparr>) s
            else upd_win which_client (\<lambda>w. w\<lparr>w_sps_pps_landscape := Some bs,
                                             w_sps_pps_size_landscape := sz\<rparr>) s))
          (slice sps_pps 0 sz)
      else Ok s)"

definition startMediaCodec :: "int \<Rightarrow> int \<Rightarrow> 'a mc_scheme \<Rightarrow> 'a mc_scheme" where
  "startMediaCodec which_client flags s =
     (if which_client = 1 \<or> which_client = 2 then
        let w = win which_client s in
        if w_isPlaying w then s
        else if w_codec w = 0 \<or> w_format w = None \<or> w_surface w = 0 then s
        else
          let s1 = call (Codec (Codec_configure (w_codec w) (w_format w) (w_surface w) flags)) s;
              s2 = call (Codec (Codec_start (w_codec w))) s1;
              s3 = upd_win which_client (\<lambda>w. w\<lparr>w_isPlaying := True\<rparr>) s2
          in call (Thread (Thread_create ''startDecoder'' which_client)) s3
      else s)"

definition release_surface :: "int \<Rightarrow> 'a mc_scheme \<Rightarrow> 'a mc_scheme" where
  "release_surface which_client s =
     (if w_surface (win which_client s) \<noteq> 0
      then upd_win which_client (\<lambda>w. w\<lparr>w_surface := 0\<rparr>)
             (call (Window (Window_release (w_surface (win which_client s)))) s)
      else s)"

definition delete_format :: "int \<Rightarrow> 'a mc_scheme \<Rightarrow> 'a mc_scheme" where
  "delete_format which_client s =
     (if w_format (win which_client s) \<noteq> None
      then upd_win which_client (\<lambda>w. w\<lparr>w_format := None\<rparr>) (call (Window Format_delete) s)
      else s)"

definition delete_codec :: "int \<Rightarrow> 'a mc_scheme \<Rightarrow> 'a mc_scheme" where
  "delete_codec which_client s =
     (if w_codec (win which_client s) \<noteq> 0
      then upd_win which_client (\<lambda>w. w\<lparr>w_codec := 0\<rparr>)
             (call (Codec (Codec_delete (w_codec (win which_client s)))) s)
      else s)"

definition setSurface :: "env \<Rightarrow> int \<Rightarrow> int \<Rightarrow> 'a mc_scheme \<Rightarrow> 'a mc_scheme" where
  "setSurface e which_client surface_obj s =
     startMediaCodec which_client 0
       (if which_client = 1 \<or> which_client = 2 then
          let s1 = release_surface which_client s;
              (h, s2) = ask e (Window (Window_fromSurface surface_obj)) s1
          in upd_win which_client (\<lambda>w. w\<lparr>w_surface := h\<rparr>) s2
        else s)"

definition createMediaCodec :: "env \<Rightarrow> int \<Rightarrow> 'a mc_scheme \<Rightarrow> 'a mc_scheme res" where
  "createMediaCodec e which_client s =
     (if which_client = 1 \<or> which_client = 2 then
        let s1 = delete_codec which_client s in
        res_map (\<lambda>name.
            let (h, s2) = ask e (Codec (Codec_createByName name)) s1
            in upd_win which_client (\<lambda>w. w\<lparr>w_codec := h\<rparr>) s2)
          (c_string (w_codecName (win which_client s1)))
      else Ok s)"

text \<open>The \<open>sps_pps\<close> array and size a window decodes with.\<close>

definition sps_pps_of :: "window \<Rightarrow> int \<Rightarrow> byte list option \<times> int" where
  "sps_pps_of w orientation =
     (if orientation = 1 then (w_sps_pps_portrait w, w_sps_pps_size_portrait w)
      else (w_sps_pps_landscape w, w_sps_pps_size_landscape w))"

text \<open>\<open>AMediaFormat_setBuffer(pFormat, "csd-0", p, n)\<close> copies \<open>n\<close> bytes at \<open>p\<close>.\<close>

definition setBuffer_csd0 :: "fmt \<Rightarrow> byte list option \<Rightarrow> int \<Rightarrow> fmt res" where
  "setBuffer_csd0 pFormat p n =
     (case p of None \<Rightarrow> if n = 0 then Ok (pFormat @ [(''csd-0'', FBuf [])]) else Undef
      | Some arr \<Rightarrow> res_map (\<lambda>bs. pFormat @ [(''csd-0'', FBuf bs)]) (slice arr 0 n))"

text \<open>
  With a client other than 1 and 2, \<open>mime\<close> stays a null pointer and \<open>strcmp\<close> reads through it. The two
  blocks \<open>handleSpsPps\<close> allocates for csd-0 and csd-1 (unless it finds none, \<open>MARK0\<close>) are copied by
  \<open>AMediaFormat_setBuffer\<close> and never freed.
\<close>

definition createMediaFormat :: "int \<Rightarrow> int \<Rightarrow> 'a mc_scheme \<Rightarrow> 'a mc_scheme res" where
  "createMediaFormat which_client orientation s =
     (if which_client \<noteq> 1 \<and> which_client \<noteq> 2 then Undef else
      let w = win which_client s;
          maxLength = (if which_client = 1 then w_height w else w_width w) in
      res_bind (c_string (w_mime w)) (\<lambda>mime.
      res_bind (mul_int32 maxLength maxLength) (\<lambda>maxInput.
      let pFormat = [(''mime'', FStr mime), (''width'', FInt (w_width w)), (''height'', FInt (w_height w)),
                     (''max-width'', FInt maxLength), (''max-height'', FInt maxLength),
                     (''max-input-size'', FInt maxInput)];
          (p, n) = sps_pps_of w orientation;
          s1 = call (Window Format_new) s in
      res_map (\<lambda>(f, csd). upd_win which_client (\<lambda>w. w\<lparr>w_format := Some f\<rparr>) (delete_format which_client (heap csd s1)))
        (if mime = ''video/hevc'' then res_map (\<lambda>f. (f, 0)) (setBuffer_csd0 pFormat p n)
         else if mime = ''video/avc'' then
           case p of None \<Rightarrow> Undef
           | Some arr \<Rightarrow> res_map (\<lambda>(mark, f). (f, if mark = MARK0 then 0 else 2)) (handleSpsPps pFormat arr n)
         else Ok (pFormat, 0)))))"

text \<open>\<open>data\<close> is \<open>None\<close> for a null pointer; the size of the input buffer is not tested.\<close>

definition feedInputBuffer ::
  "env \<Rightarrow> int \<Rightarrow> byte list option \<Rightarrow> int \<Rightarrow> int \<Rightarrow> int \<Rightarrow> int \<Rightarrow> 'a world_scheme \<Rightarrow> (bool \<times> 'a world_scheme) res" where
  "feedInputBuffer e codec dat offset sz time flags s =
     (let (roomIndex, s1) = ask e (Codec (Codec_dequeueInput codec)) s in
      if roomIndex < 0 then Ok (True, s1)
      else
        let (room, s2) = ask e (Codec (Codec_getInput codec roomIndex)) s1;
            out_size = fst (ans_info e (trace s2)) in
        if room = 0 then Ok (False, s2)
        else if out_size < sz then Undef
        else res_map (\<lambda>bs. (True, call (Codec (Codec_queueInput codec roomIndex offset sz time flags))
                                   (call (Codec (Room_memcpy roomIndex bs)) s2)))
               (case dat of None \<Rightarrow> if sz = 0 then Ok [] else Undef | Some d \<Rightarrow> slice d 0 sz))"

fun drainOutputBuffer ::
  "nat \<Rightarrow> env \<Rightarrow> int \<Rightarrow> int \<Rightarrow> bool \<Rightarrow> 'a mc_scheme \<Rightarrow> (bool \<times> 'a mc_scheme) res" where
  "drainOutputBuffer 0 e which_client codec render s = NoFuel"
| "drainOutputBuffer (Suc fuel) e which_client codec render s =
     (if which_client = 1 \<and> \<not> w_isPlaying (win1 s) then Ok (True, s)
      else if which_client = 2 \<and> \<not> w_isPlaying (win2 s) then Ok (True, s)
      else
        let (roomIndex, info, s1) = dequeueOutputBuffer e codec s in
        if roomIndex < 0 then Ok (True, output_info e codec roomIndex s1)
        else
          let (room, s2) = getOutputBuffer e codec roomIndex s1 in
          case room of None \<Rightarrow> Ok (False, s2)
          | Some r \<Rightarrow> drainOutputBuffer fuel e which_client codec render
                       (releaseOutputBuffer codec roomIndex render s2))"

fun drainOutputBufferForEncoder ::
  "nat \<Rightarrow> env \<Rightarrow> int \<Rightarrow> int \<Rightarrow> bool \<Rightarrow> bool \<Rightarrow> 'a mc_scheme \<Rightarrow> (bool \<times> 'a mc_scheme) res" where
  "drainOutputBufferForEncoder 0 e orientation codec render isPortrait s = NoFuel"
| "drainOutputBufferForEncoder (Suc fuel) e orientation codec render isPortrait s =
     (if orientation = 1 \<and> \<not> w_isPlaying (win1 s) then Ok (True, s)
      else if orientation = 2 \<and> \<not> w_isPlaying (win2 s) then Ok (True, s)
      else
        let (roomIndex, roomInfo, s1) = dequeueOutputBuffer e codec s in
        if roomIndex < 0 then Ok (True, output_info e codec roomIndex s1)
        else
          let (room, s2) = getOutputBuffer e codec roomIndex s1 in
          res_bind (handleOutputBuffer e room roomInfo isPortrait s2) (\<lambda>s3.
            drainOutputBufferForEncoder fuel e orientation codec render isPortrait
              (releaseOutputBuffer codec roomIndex render s3)))"

definition feedInputBufferAndDrainOutputBuffer ::
  "nat \<Rightarrow> env \<Rightarrow> int \<Rightarrow> int \<Rightarrow> byte list option \<Rightarrow> int \<Rightarrow> int \<Rightarrow> int \<Rightarrow> int \<Rightarrow> bool \<Rightarrow> bool
   \<Rightarrow> 'a mc_scheme \<Rightarrow> (bool \<times> 'a mc_scheme) res" where
  "feedInputBufferAndDrainOutputBuffer fuel e which_client codec dat offset sz time flags render
       needFeedInputBuffer s =
     (if needFeedInputBuffer then
        res_bind (feedInputBuffer e codec dat offset sz time flags s) (\<lambda>(r, s1).
          if r then drainOutputBuffer fuel e which_client codec render s1 else Ok (False, s1))
      else drainOutputBuffer fuel e which_client codec render s)"

subsection \<open>Release\<close>

definition free_sps_pps :: "byte list option \<Rightarrow> 'a world_scheme \<Rightarrow> 'a world_scheme" where
  "free_sps_pps p s = (if p \<noteq> None then heap (-1) s else s)"

definition release1 :: "bool \<Rightarrow> 'a mc_scheme \<Rightarrow> 'a mc_scheme" where
  "release1 isDecoder s =
     (let s1 = s\<lparr>win1 := (win1 s)\<lparr>w_isPlaying := False\<rparr>\<rparr>;
          s2 = release_surface 1 s1;
          s3 = delete_format 1 s2;
          s4 = delete_codec 1 s3;
          s5 = (if isDecoder
                then upd_win 1 (\<lambda>w. w\<lparr>w_sps_pps_portrait := None, w_sps_pps_size_portrait := 0\<rparr>)
                       (free_sps_pps (w_sps_pps_portrait (win1 s4)) s4)
                else s4);
          s6 = upd_win 1 (\<lambda>w. w\<lparr>w_sps_pps_landscape := None, w_sps_pps_size_landscape := 0\<rparr>)
                 (free_sps_pps (w_sps_pps_landscape (win1 s5)) s5)
      in upd_win 1 (\<lambda>w. w\<lparr>w_mimeLength := 0, w_codecNameLength := 0, w_width := 0, w_height := 0,
                          w_orientation := 0, w_isKeyFrameWrite := False\<rparr>) s6)"

definition release2 :: "bool \<Rightarrow> 'a mc_scheme \<Rightarrow> 'a mc_scheme" where
  "release2 isDecoder s =
     (let s1 = s\<lparr>win2 := (win2 s)\<lparr>w_isPlaying := False\<rparr>\<rparr>;
          s2 = release_surface 2 s1;
          s3 = delete_format 2 s2;
          s4 = delete_codec 2 s3;
          s5 = upd_win 2 (\<lambda>w. w\<lparr>w_sps_pps_portrait := None, w_sps_pps_size_portrait := 0\<rparr>)
                 (free_sps_pps (w_sps_pps_portrait (win2 s4)) s4);
          s6 = (if isDecoder
                then upd_win 2 (\<lambda>w. w\<lparr>w_sps_pps_landscape := None, w_sps_pps_size_landscape := 0\<rparr>)
                       (free_sps_pps (w_sps_pps_landscape (win2 s5)) s5)
                else s5)
      in upd_win 2 (\<lambda>w. w\<lparr>w_mimeLength := 0, w_codecNameLength := 0, w_width := 0, w_height := 0,
                          w_orientation := 0, w_isKeyFrameWrite := False\<rparr>) s6)"

subsection \<open>The encoder side\<close>

definition encoder_keys :: "string \<Rightarrow> int \<Rightarrow> int \<Rightarrow> fmt" where
  "encoder_keys mime width height =
     [(''mime'', FStr mime), (''width'', FInt width), (''height'', FInt height),
      (''max-width'', FInt width), (''max-height'', FInt height)]"

definition encoder_rates :: "int \<Rightarrow> fmt" where
  "encoder_rates maxInput =
     [(''max-input-size'', FInt maxInput), (''color-format'', FInt 0x7F000789),
      (''bitrate'', FInt 10000000), (''frame-rate'', FInt 25), (''i-frame-interval'', FInt 1)]"

definition createEncoderMediaFormat :: "string \<Rightarrow> int \<Rightarrow> int \<Rightarrow> int \<Rightarrow> 'a mc_scheme \<Rightarrow> 'a mc_scheme res" where
  "createEncoderMediaFormat mime orientation width height s =
     (let s1 = delete_format 2 (delete_format 1 s);
          s2 = call (Window Format_new) (call (Window Format_new) s1);
          (s3, f1, f2) =
            (if orientation = 1 then
               (upd_win 2 (\<lambda>w. w\<lparr>w_orientation := 0\<rparr>)
                  (upd_win 1 (\<lambda>w. w\<lparr>w_width := width, w_height := height, w_orientation := 1\<rparr>) s2),
                encoder_keys mime width height, encoder_keys mime height width)
             else
               (upd_win 1 (\<lambda>w. w\<lparr>w_orientation := 0\<rparr>)
                  (upd_win 2 (\<lambda>w. w\<lparr>w_width := width, w_height := height, w_orientation := 2\<rparr>) s2),
                encoder_keys mime height width, encoder_keys mime width height))
      in res_map (\<lambda>m. upd_win 2 (\<lambda>w. w\<lparr>w_format := Some (f2 @ encoder_rates m)\<rparr>)
                       (upd_win 1 (\<lambda>w. w\<lparr>w_format := Some (f1 @ encoder_rates m)\<rparr>) s3))
           (mul_int32 width height))"

definition createEncoderMediaCodec :: "env \<Rightarrow> string \<Rightarrow> 'a mc_scheme \<Rightarrow> 'a mc_scheme" where
  "createEncoderMediaCodec e codec_name s =
     (let s1 = delete_codec 2 (delete_codec 1 s);
          (c1, s2) = ask e (Codec (Codec_createByName codec_name)) s1;
          s3 = upd_win 1 (\<lambda>w. w\<lparr>w_codec := c1\<rparr>) s2;
          (c2, s4) = ask e (Codec (Codec_createByName codec_name)) s3;
          s5 = upd_win 2 (\<lambda>w. w\<lparr>w_codec := c2\<rparr>) s4;
          s6 = call (Codec (Codec_configure c1 (w_format (win1 s5)) 0 1)) s5
      in call (Codec (Codec_configure c2 (w_format (win2 s6)) 0 1)) s6)"

definition createEncoderSurface :: "env \<Rightarrow> 'a mc_scheme \<Rightarrow> 'a mc_scheme" where
  "createEncoderSurface e s =
     (let (h1, s1) = ask e (Codec (Codec_createInputSurface (w_codec (win1 s)))) s;
          s2 = upd_win 1 (\<lambda>w. w\<lparr>w_surface := h1\<rparr>) s1;
          (h2, s3) = ask e (Codec (Codec_createInputSurface (w_codec (win2 s2)))) s2
      in upd_win 2 (\<lambda>w. w\<lparr>w_surface := h2\<rparr>) s3)"

definition getSurface :: "int \<Rightarrow> 'a mc_scheme \<Rightarrow> int" where
  "getSurface orientation s = (if orientation = 1 then w_surface (win1 s) else w_surface (win2 s))"

definition startEncoderMediaCodec :: "'a mc_scheme \<Rightarrow> 'a mc_scheme" where
  "startEncoderMediaCodec s =
     call (Codec (Codec_start (w_codec (win2 s)))) (call (Codec (Codec_start (w_codec (win1 s)))) s)"

definition fromPortraitToLandscape :: "env \<Rightarrow> 'a mc_scheme \<Rightarrow> 'a mc_scheme res" where
  "fromPortraitToLandscape e s =
     res_bind (createLandscapeVirtualDisplay e s) (\<lambda>s1.
       sendData e (ORIENTATION_LANDSCAPE s1) 5
         (s1\<lparr>win1 := (win1 s1)\<lparr>w_isPlaying := False\<rparr>,
             win2 := (win2 s1)\<lparr>w_isPlaying := True, w_isKeyFrameWrite := False\<rparr>\<rparr>))"

definition fromLandscapeToPortrait :: "env \<Rightarrow> 'a mc_scheme \<Rightarrow> 'a mc_scheme res" where
  "fromLandscapeToPortrait e s =
     res_bind (createPortraitVirtualDisplay e s) (\<lambda>s1.
       sendData e (ORIENTATION_PORTRAIT s1) 5
         (s1\<lparr>win1 := (win1 s1)\<lparr>w_isPlaying := True, w_isKeyFrameWrite := False\<rparr>,
             win2 := (win2 s1)\<lparr>w_isPlaying := False\<rparr>\<rparr>))"

text \<open>
  The encoder thread. \<open>others\<close> is what the other threads did before each test of the loop
  condition (rotation and stop requests come from Java threads).
\<close>

fun startEncoder_loop ::
  "nat \<Rightarrow> env \<Rightarrow> ('a mc_scheme \<Rightarrow> 'a mc_scheme) \<Rightarrow> 'a mc_scheme \<Rightarrow> 'a mc_scheme res" where
  "startEncoder_loop 0 e others s = NoFuel"
| "startEncoder_loop (Suc fuel) e others s0 =
     (let s = others s0 in
      if \<not> isRecording s then Ok s
      else if w_isPlaying (win1 s) then
        res_bind (drainOutputBufferForEncoder fuel e 1 (w_codec (win1 s)) False True s)
          (\<lambda>(r, s1). startEncoder_loop fuel e others s1)
      else if w_isPlaying (win2 s) then
        res_bind (drainOutputBufferForEncoder fuel e 2 (w_codec (win2 s)) False False s)
          (\<lambda>(r, s1). startEncoder_loop fuel e others s1)
      else startEncoder_loop fuel e others s)"

definition startEncoder ::
  "nat \<Rightarrow> env \<Rightarrow> ('a mc_scheme \<Rightarrow> 'a mc_scheme) \<Rightarrow> 'a mc_scheme \<Rightarrow> 'a mc_scheme res" where
  "startEncoder fuel e others s =
     res_map (\<lambda>s1. let s2 = (call (Thread (Mutex_lock 1)) s1)\<lparr>isRecording := False\<rparr>
                   in call (Thread (Mutex_unlock 1)) (release2 False (release1 False s2)))
       (startEncoder_loop fuel e others s)"

text \<open>The two orientation messages: length 1, then -1 or -2 as a byte.\<close>

definition orientation_message :: "byte \<Rightarrow> byte list res" where
  "orientation_message b = res_map (\<lambda>f. f[4 := b]) (int2Bytes (replicate 5 0) 1)"

definition send_sps_pps :: "env \<Rightarrow> byte list option \<Rightarrow> int \<Rightarrow> 'a mc_scheme \<Rightarrow> 'a mc_scheme res" where
  "send_sps_pps e p n s =
     (case p of Some arr \<Rightarrow> sendData e arr n s
      | None \<Rightarrow> if n = 0 then sendData e [] 0 s else Undef)"

definition startRecordScreen :: "nat \<Rightarrow> env \<Rightarrow> 'a mc_scheme \<Rightarrow> 'a mc_scheme res" where
  "startRecordScreen fuel e s =
     (if isRecording s then Ok s else
      res_bind (orientation_message (- 1)) (\<lambda>port.
      res_bind (orientation_message (- 2)) (\<lambda>land.
      let s1 = s\<lparr>isRecording := True, ORIENTATION_PORTRAIT := port, ORIENTATION_LANDSCAPE := land\<rparr> in
      res_bind (if w_sps_pps_portrait (win1 s1) = None \<or> w_sps_pps_landscape (win2 s1) = None
                then getSpsPps fuel e s1 else Ok s1) (\<lambda>s2.
      res_map (call (Thread (Thread_create ''startEncoder'' 0)))
       (if w_orientation (win1 s2) = 1 then
          res_bind (createPortraitVirtualDisplay e
                     (s2\<lparr>win1 := (win1 s2)\<lparr>w_isPlaying := True, w_isKeyFrameWrite := False\<rparr>,
                         win2 := (win2 s2)\<lparr>w_isPlaying := False\<rparr>\<rparr>)) (\<lambda>s3.
          res_bind (send_sps_pps e (w_sps_pps_portrait (win1 s3)) (w_sps_pps_size_portrait (win1 s3)) s3) (\<lambda>s4.
            send_sps_pps e (w_sps_pps_landscape (win2 s4)) (w_sps_pps_size_landscape (win2 s4)) s4))
        else if w_orientation (win2 s2) = 2 then
          res_bind (createLandscapeVirtualDisplay e
                     (s2\<lparr>win1 := (win1 s2)\<lparr>w_isPlaying := False\<rparr>,
                         win2 := (win2 s2)\<lparr>w_isPlaying := True, w_isKeyFrameWrite := False\<rparr>\<rparr>)) (\<lambda>s3.
          res_bind (send_sps_pps e (w_sps_pps_landscape (win2 s3)) (w_sps_pps_size_landscape (win2 s3)) s3) (\<lambda>s4.
            send_sps_pps e (w_sps_pps_portrait (win1 s4)) (w_sps_pps_size_portrait (win1 s4)) s4))
        else Ok s2)))))"

definition stopRecordScreen :: "bool \<Rightarrow> 'a mc_scheme \<Rightarrow> 'a mc_scheme" where
  "stopRecordScreen needToRelease s =
     (let s1 = s\<lparr>isRecording := False, win1 := (win1 s)\<lparr>w_isPlaying := False\<rparr>,
                 win2 := (win2 s)\<lparr>w_isPlaying := False\<rparr>\<rparr> in
      if needToRelease
      then call (Thread (Mutex_unlock 1)) (release2 True (release1 True (call (Thread (Mutex_lock 1)) s1)))
      else s1)"

subsection \<open>The frame format\<close>

text \<open>A frame on the wire, as the receiver describes it: length, payload, orientation, flags.\<close>

definition wire_frame :: "byte list \<Rightarrow> int \<Rightarrow> bool \<Rightarrow> byte list" where
  "wire_frame payload flags isPortrait =
     le4 (word_of_int (int (length payload) + 2)) @ payload @
       [if isPortrait then 1 else 2, word_of_int flags]"

lemma slice_all: "slice buf 0 (int (length buf)) = Ok buf"
  by (simp add: slice_def)

lemma length_wire_frame: "length (wire_frame payload flags p) = length payload + 6"
  by (simp add: wire_frame_def)

lemma encode_frame_wire_lemma:
  "encode_frame room (int (length room), flags) isPortrait = Ok (wire_frame room flags isPortrait)"
proof -
  let ?n = "length room" and ?h = "le4 (word_of_int (int (length room) + 2))"
  have i: "int2Bytes (replicate (?n + 6) 0) (word_of_int (int ?n + 2)) = Ok (?h @ replicate (?n + 2) 0)"
    by (subst int2Bytes_eq) simp_all
  have m: "memcpy_to (?n + 6) (?h @ replicate (?n + 2) 0) 4 room = Ok (?h @ room @ [0, 0])"
  proof -
    have "replicate (?n + 2) (0 :: byte) = replicate ?n 0 @ [0, 0]"
      by (subst replicate_add) (simp add: numeral_2_eq_2)
    then show ?thesis by (simp only: memcpy_to_def) simp
  qed
  have u: "(?h @ room @ [0, 0])[?n + 5 := f, ?n + 4 := o'] = ?h @ room @ [o', f]" for f o' :: byte
    by (simp add: list_update_append numeral_eq_Suc Suc_diff_le)
  show ?thesis
    using i m u by (simp add: encode_frame_def slice_all wire_frame_def)
qed

text \<open>\<open>handleOutputBufferImpl\<close> builds, for an encoder buffer of any length, exactly the frame of the
  protocol: four little-endian bytes holding the length plus 2, the encoded data unchanged, the
  orientation mark (1 portrait, 2 landscape) and the low byte of the flags; no cell of the
  array of size plus 6 is written out of bounds.\<close>

theorem encode_frame_wire:
  "encode_frame room (int (length room), flags) isPortrait = Ok (wire_frame room flags isPortrait)"
  by (rule encode_frame_wire_lemma)

subsection \<open>Sending\<close>

definition send_calls :: "int \<Rightarrow> byte list \<Rightarrow> ncall list" where
  "send_calls fd bs = [Thread (Mutex_lock 1), Sys (Sys_write fd bs), Thread (Mutex_unlock 1)]"

lemma mc_call [simp]:
  "win1 (call c s) = win1 s" "win2 (call c s) = win2 s" "isRecording (call c s) = isRecording s"
  "ONLY_OUTPUT_KEY_FRAME (call c s) = ONLY_OUTPUT_KEY_FRAME s"
  "ORIENTATION_PORTRAIT (call c s) = ORIENTATION_PORTRAIT s"
  "ORIENTATION_LANDSCAPE (call c s) = ORIENTATION_LANDSCAPE s"
  "myJniJavaObject (call c s) = myJniJavaObject s" "jni2JavaMethodID (call c s) = jni2JavaMethodID s"
  by (simp_all add: call_def)

lemma mc_heap [simp]:
  "win1 (heap d s) = win1 s" "win2 (heap d s) = win2 s" "isRecording (heap d s) = isRecording s"
  "server_sock_fd (heap d s) = server_sock_fd s"
  "ONLY_OUTPUT_KEY_FRAME (heap d s) = ONLY_OUTPUT_KEY_FRAME s"
  by (simp_all add: heap_def)

lemma void_callback_upcall:
  "void_callback e code s = Ok s' \<Longrightarrow> count_calls (is_upcall code) (new_calls s s') = 1"
  by (rule getEnv_cases [of e s])
     (auto simp: void_callback_def call_jni2Java_def callback_defs split: if_splits)

lemma sendData_sent:
  assumes "isRecording s" "server_sock_fd s \<noteq> -1"
    and "0 < ans e (trace s @ [Thread (Mutex_lock 1), Sys (Sys_write (server_sock_fd s) bs)])"
  shows "sendData e bs (int (length bs)) s = Ok (s\<lparr>trace := trace s @ send_calls (server_sock_fd s) bs\<rparr>)"
  using assms
  by (simp add: sendData_def send_data_def write_array_def slice_all Let_def send_calls_def)
     (simp add: call_def)

lemma sendData_idle: "\<not> isRecording s \<Longrightarrow>
  sendData e bs n s = Ok (s\<lparr>trace := trace s @ [Thread (Mutex_lock 1), Thread (Mutex_unlock 1)]\<rparr>)"
  by (simp add: sendData_def Let_def) (simp add: call_def)

text \<open>C20: A failed send ends the recording: when the socket is closed or \<open>write\<close> reports no progress,
  \<open>sendData\<close> clears \<open>isRecording\<close> and both \<open>isPlaying\<close> flags, tells Java once, and releases the mutex;
  from then on no frame is written, whatever is sent.\<close>

theorem sendData_failure:
  assumes "isRecording s" and "sendData e bs (int (length bs)) s = Ok s'"
    and "server_sock_fd s = -1 \<or>
         ans e (trace s @ [Thread (Mutex_lock 1), Sys (Sys_write (server_sock_fd s) bs)]) \<le> 0"
  shows "\<not> isRecording s' \<and> \<not> w_isPlaying (win1 s') \<and> \<not> w_isPlaying (win2 s') \<and>
         count_calls (is_upcall CODE_encoder_send_data_error) (new_calls s s') = 1 \<and>
         last (trace s') = Thread (Mutex_unlock 1) \<and>
         (\<forall>bs2 n. \<exists>s2. sendData e bs2 n s' = Ok s2 \<and> (\<forall>fd. writes_to fd (new_calls s' s2) = []))"
proof -
  obtain pre s2 where pre: "count_calls (is_upcall CODE_encoder_send_data_error) pre = 0"
    and s2: "sendDataError e (s\<lparr>trace := trace s @ pre, isRecording := False,
               win1 := (win1 s)\<lparr>w_isPlaying := False\<rparr>, win2 := (win2 s)\<lparr>w_isPlaying := False\<rparr>\<rparr>) = Ok s2"
    and s': "s' = call (Thread (Mutex_unlock 1)) s2"
  proof (cases "server_sock_fd s = -1")
    case True
    with assms that [of "[Thread (Mutex_lock 1)]"] show thesis
      by (auto simp: sendData_def send_data_def Let_def res_simps is_upcall_def) (simp add: call_def)
  next
    case False
    with assms that [of "[Thread (Mutex_lock 1), Sys (Sys_write (server_sock_fd s) bs)]"] show thesis
      by (auto simp: sendData_def send_data_def write_array_def slice_all Let_def res_simps is_upcall_def)
         (simp add: call_def)
  qed
  from s2 have vc: "void_callback e CODE_encoder_send_data_error
      (s\<lparr>trace := trace s @ pre, isRecording := False,
         win1 := (win1 s)\<lparr>w_isPlaying := False\<rparr>, win2 := (win2 s)\<lparr>w_isPlaying := False\<rparr>\<rparr>) = Ok s2"
    (is "void_callback e _ ?x = _") by (simp add: sendDataError_def)
  obtain tr where tr: "s2 = ?x\<lparr>trace := trace ?x @ tr\<rparr>"
    using callback_only_trace(2) [OF vc] by (rule only_traceE)
  have one: "count_calls (is_upcall CODE_encoder_send_data_error) tr = 1"
    using void_callback_upcall [OF vc] by (simp add: new_calls_def tr)
  have idle: "\<exists>s3. sendData e bs2 n s' = Ok s3 \<and> (\<forall>fd. writes_to fd (new_calls s' s3) = [])" for bs2 n
    using sendData_idle [of s' e bs2 n] by (simp add: s' tr new_calls_def)
  show ?thesis
    using pre one idle by (simp add: s' tr new_calls_def is_upcall_def)
qed

subsection \<open>The stream starts with a key frame\<close>

text \<open>The outputs of the encoder, handed over one after the other.\<close>

fun handle_frames :: "env \<Rightarrow> bool \<Rightarrow> (byte list \<times> int) list \<Rightarrow> 'a mc_scheme \<Rightarrow> 'a mc_scheme res" where
  "handle_frames e isPortrait [] s = Ok s"
| "handle_frames e isPortrait ((room, flags) # fs) s =
     res_bind (handleOutputBuffer e (Some room) (int (length room), flags) isPortrait s)
       (handle_frames e isPortrait fs)"

definition gate :: "bool \<Rightarrow> 'a mc_scheme \<Rightarrow> bool" where
  "gate isPortrait s = w_isKeyFrameWrite (if isPortrait then win1 s else win2 s)"

definition open_gate :: "bool \<Rightarrow> 'a mc_scheme \<Rightarrow> 'a mc_scheme" where
  "open_gate isPortrait s =
     (if isPortrait then s\<lparr>win1 := (win1 s)\<lparr>w_isKeyFrameWrite := True\<rparr>\<rparr>
      else s\<lparr>win2 := (win2 s)\<lparr>w_isKeyFrameWrite := True\<rparr>\<rparr>)"

definition sending :: "env \<Rightarrow> 'a mc_scheme \<Rightarrow> bool" where
  "sending e s = (isRecording s \<and> server_sock_fd s \<noteq> -1)"

definition writes_succeed :: "env \<Rightarrow> int \<Rightarrow> bool" where
  "writes_succeed e fd = (\<forall>h bs. 0 < ans e (h @ [Sys (Sys_write fd bs)]))"

definition trace_on :: "ncall list \<Rightarrow> 'a world_scheme \<Rightarrow> 'a world_scheme" where
  "trace_on tr s = s\<lparr>trace := trace s @ tr\<rparr>"

lemma trace_on_simps [simp]:
  "win1 (trace_on tr s) = win1 s" "win2 (trace_on tr s) = win2 s"
  "gate p (trace_on tr s) = gate p s" "sending e (trace_on tr s) = sending e s"
  "server_sock_fd (trace_on tr s) = server_sock_fd s"
  "ONLY_OUTPUT_KEY_FRAME (trace_on tr s) = ONLY_OUTPUT_KEY_FRAME s"
  "trace (trace_on tr s) = trace s @ tr" "live (trace_on tr s) = live s"
  "trace_on tr' (trace_on tr s) = trace_on (tr @ tr') s"
  "trace_on [] s = s"
  by (simp_all add: trace_on_def gate_def sending_def)

lemma open_gate_simps [simp]:
  "gate p (open_gate p s)" "sending e (open_gate p s) = sending e s"
  "server_sock_fd (open_gate p s) = server_sock_fd s"
  "ONLY_OUTPUT_KEY_FRAME (open_gate p s) = ONLY_OUTPUT_KEY_FRAME s"
  "trace (open_gate p s) = trace s" "live (open_gate p s) = live s"
  by (simp_all add: open_gate_def gate_def sending_def)

lemma heap_cancel: "heap (-1) (trace_on tr (heap 1 s)) = trace_on tr s"
  by (simp add: heap_def trace_on_def)

lemma heap_cancel0: "heap (-1) (heap 1 s) = s"
  by (simp add: heap_def)

lemma open_gate_heap: "open_gate p (heap d s) = heap d (open_gate p s)"
  by (simp add: open_gate_def heap_def)

lemma sendData_sent':
  "sending e s \<Longrightarrow> writes_succeed e (server_sock_fd s) \<Longrightarrow> n = int (length bs) \<Longrightarrow>
   sendData e bs n s = Ok (trace_on (send_calls (server_sock_fd s) bs) s)"
  using sendData_sent [of s e bs]
  unfolding writes_succeed_def sending_def trace_on_def
  by (metis append.assoc append_Cons append_Nil)

lemma upd_win_heap:
  "(heap d s)\<lparr>win1 := w\<rparr> = heap d (s\<lparr>win1 := w\<rparr>)"
  "(heap d s)\<lparr>win2 := w\<rparr> = heap d (s\<lparr>win2 := w\<rparr>)"
  by (simp_all add: heap_def)

lemma handleOutputBufferImpl_cases:
  "handleOutputBufferImpl e room (int (length room), flags) p s =
     (if \<not> gate p s \<and> \<not> key_flag flags then Ok s
      else res_map (heap (-1))
             (sendData e (wire_frame room flags p) (int (length room) + 6)
               (heap 1 (if gate p s then s else open_gate p s))))"
  unfolding handleOutputBufferImpl_def encode_frame_wire_lemma
  by (auto simp: gate_def open_gate_def heap_cancel0 Let_def upd_win_heap)

lemma handleOutputBuffer_step:
  assumes "sending e s" "writes_succeed e (server_sock_fd s)" "\<not> ONLY_OUTPUT_KEY_FRAME s"
  shows "handleOutputBuffer e (Some room) (int (length room), flags) p s =
     (if \<not> gate p s \<and> \<not> key_flag flags then Ok s
      else Ok (trace_on (send_calls (server_sock_fd s) (wire_frame room flags p))
                 (if gate p s then s else open_gate p s)))"
proof -
  have "sendData e (wire_frame room flags p) (int (length room) + 6) (heap 1 t)
      = Ok (trace_on (send_calls (server_sock_fd t) (wire_frame room flags p)) (heap 1 t))"
    if "sending e t" "writes_succeed e (server_sock_fd t)" for t :: "'a mc_scheme"
    using that by (subst sendData_sent') (auto simp: length_wire_frame sending_def)
  then show ?thesis
    using assms by (simp add: handleOutputBuffer_def handleOutputBufferImpl_cases heap_cancel)
qed

lemma handle_frames_open:
  "sending e s \<Longrightarrow> writes_succeed e (server_sock_fd s) \<Longrightarrow> \<not> ONLY_OUTPUT_KEY_FRAME s \<Longrightarrow> gate p s \<Longrightarrow>
   handle_frames e p fs s =
     Ok (trace_on (concat (map (\<lambda>(r, f). send_calls (server_sock_fd s) (wire_frame r f p)) fs)) s)"
proof (induction fs arbitrary: s)
  case Nil
  then show ?case by simp
next
  case (Cons x fs)
  obtain r f where x: "x = (r, f)" by force
  show ?case
    using Cons.prems Cons.IH [of "trace_on (send_calls (server_sock_fd s) (wire_frame r f p)) s"]
    by (simp add: x handleOutputBuffer_step)
qed

lemma writes_to_send_calls: "writes_to fd (send_calls fd bs) = [bs]"
  by (simp add: send_calls_def)

lemma writes_to_concat_sends: "writes_to fd (concat (map (\<lambda>(r, f). send_calls fd (g r f)) fs)) = map (\<lambda>(r, f). g r f) fs"
  by (induction fs) (auto simp: writes_to_send_calls)

lemma stream_starts_with_key_frame_lemma:
  assumes "isRecording s" "server_sock_fd s \<noteq> -1" "writes_succeed e (server_sock_fd s)"
    and "\<not> ONLY_OUTPUT_KEY_FRAME s" "\<not> gate isPortrait s"
  shows "\<exists>s'. handle_frames e isPortrait fs s = Ok s' \<and> live s' = live s \<and>
           writes_to (server_sock_fd s) (new_calls s s') =
             map (\<lambda>(r, f). wire_frame r f isPortrait) (dropWhile (\<lambda>(r, f). \<not> key_flag f) fs)"
  using assms
proof (induction fs)
  case Nil
  then show ?case by (simp add: new_calls_def)
next
  case (Cons x fs)
  obtain r f where x: "x = (r, f)" by force
  from Cons.prems have snd: "sending e s" by (simp add: sending_def)
  show ?case
  proof (cases "key_flag f")
    case False
    then show ?thesis
      using Cons snd by (simp add: x handleOutputBuffer_step)
  next
    case True
    let ?s1 = "trace_on (send_calls (server_sock_fd s) (wire_frame r f isPortrait)) (open_gate isPortrait s)"
    have "handle_frames e isPortrait (x # fs) s = handle_frames e isPortrait fs ?s1"
      using Cons.prems snd True by (simp add: x handleOutputBuffer_step)
    then show ?thesis
      using Cons.prems snd True
      by (simp add: x handle_frames_open new_calls_def writes_to_send_calls writes_to_concat_sends)
  qed
qed

text \<open>C3: After a start or a rotation (\<open>isKeyFrameWrite\<close> false), while recording on a socket whose
  writes succeed, the encoder outputs of an orientation reach the socket from the first key frame
  on: everything before it is dropped, nothing after it is, the order is kept, and every frame
  has the wire format. No block of memory is left allocated.\<close>

theorem stream_starts_with_key_frame:
  assumes "isRecording s" "server_sock_fd s \<noteq> -1" "writes_succeed e (server_sock_fd s)"
    and "\<not> ONLY_OUTPUT_KEY_FRAME s" "\<not> gate isPortrait s"
  shows "\<exists>s'. handle_frames e isPortrait fs s = Ok s' \<and> live s' = live s \<and>
           writes_to (server_sock_fd s) (new_calls s s') =
             map (\<lambda>(r, f). wire_frame r f isPortrait) (dropWhile (\<lambda>(r, f). \<not> key_flag f) fs)"
  using assms by (rule stream_starts_with_key_frame_lemma)

definition window0 :: window where
  "window0 = \<lparr>w_surface = 0, w_format = None, w_codec = 0, w_mime = replicate 50 nul,
     w_codecName = replicate 50 nul, w_mimeLength = 0, w_codecNameLength = 0, w_width = 0,
     w_height = 0, w_orientation = 0, w_isPlaying = False, w_sps_pps_portrait = None,
     w_sps_pps_landscape = None, w_sps_pps_size_portrait = 0, w_sps_pps_size_landscape = 0,
     w_isKeyFrameWrite = False\<rparr>"

definition mc0 :: mc where
  "mc0 = net.extend net0 (mc.fields False False window0 window0 (replicate 5 0) (replicate 5 0))"

lemma mc0_simps [simp]:
  "trace mc0 = []" "live mc0 = 0" "server_sock_fd mc0 = -1" "isRecording mc0 = False"
  "ONLY_OUTPUT_KEY_FRAME mc0 = False" "win1 mc0 = window0" "win2 mc0 = window0"
  "myJniJavaObject mc0 = 2" "jni2JavaMethodID mc0 = 3"
  by (simp_all add: mc0_def net0_def mc.defs net.defs jni.defs world.defs)

definition ok_env :: env where
  "ok_env = \<lparr>ans = (\<lambda>h. 1), ans_bytes = (\<lambda>h. []), ans_str = (\<lambda>h. ''''), ans_info = (\<lambda>h. (0, 0))\<rparr>"

lemma stream_starts_with_key_frame_witness:
  "\<exists>s'. handle_frames ok_env True [([5], 0), ([6, 7], 1), ([8], 0)] (mc0\<lparr>isRecording := True, server_sock_fd := 9\<rparr>) = Ok s' \<and>
     writes_to 9 (trace s') = [[4, 0, 0, 0, 6, 7, 1, 1], [3, 0, 0, 0, 8, 1, 0]]"
proof -
  let ?s = "mc0\<lparr>isRecording := True, server_sock_fd := 9\<rparr>"
  have "isRecording ?s" "server_sock_fd ?s \<noteq> -1" "writes_succeed ok_env (server_sock_fd ?s)"
    "\<not> ONLY_OUTPUT_KEY_FRAME ?s" "\<not> gate True ?s"
    by (simp_all add: writes_succeed_def ok_env_def gate_def window0_def)
  from stream_starts_with_key_frame [OF this, of "[([5], 0), ([6, 7], 1), ([8], 0)]"] show ?thesis
    by (auto simp: key_flag_def wire_frame_def le4_def new_calls_def simp del: handle_frames.simps)
qed

definition zero_env :: env where
  "zero_env = \<lparr>ans = (\<lambda>h. 0), ans_bytes = (\<lambda>h. []), ans_str = (\<lambda>h. ''''), ans_info = (\<lambda>h. (0, 0))\<rparr>"

lemma sendData_failure_witness:
  "\<exists>s'. sendData zero_env [1, 2] 2 (mc0\<lparr>isRecording := True\<rparr>) = Ok s' \<and> \<not> isRecording s'"
proof -
  let ?s = "mc0\<lparr>isRecording := True\<rparr>"
  obtain s' where s': "sendData zero_env [1, 2] (int (length [1, 2 :: byte])) ?s = Ok s'"
    by (simp add: sendData_def send_data_def sendDataError_def void_callback_def getEnv_def zero_env_def
        JNI_OK_def JNI_EDETACHED_def call_jni2Java_def Let_def)
  have "\<not> isRecording s'"
    using sendData_failure [of ?s zero_env "[1, 2]" s'] s' by simp
  with s' show ?thesis by auto
qed

subsection \<open>Release\<close>

definition released :: "window \<Rightarrow> bool" where
  "released w =
     (w_surface w = 0 \<and> w_format w = None \<and> w_codec w = 0 \<and> \<not> w_isPlaying w \<and> w_width w = 0 \<and>
      w_height w = 0 \<and> w_orientation w = 0 \<and> w_mimeLength w = 0 \<and> w_codecNameLength w = 0 \<and>
      \<not> w_isKeyFrameWrite w)"

definition blocks :: "window \<Rightarrow> int" where
  "blocks w = (if w_sps_pps_portrait w = None then 0 else 1) + (if w_sps_pps_landscape w = None then 0 else 1)"

lemma release_step_simps [simp]:
  "live (release_surface c s) = live s" "live (delete_format c s) = live s" "live (delete_codec c s) = live s"
  "win1 (release_surface 2 s) = win1 s" "win1 (delete_format 2 s) = win1 s" "win1 (delete_codec 2 s) = win1 s"
  "win2 (release_surface 1 s) = win2 s" "win2 (delete_format 1 s) = win2 s" "win2 (delete_codec 1 s) = win2 s"
  "win1 (release_surface 1 s) = (win1 s)\<lparr>w_surface := 0\<rparr>"
  "win1 (delete_format 1 s) = (win1 s)\<lparr>w_format := None\<rparr>"
  "win1 (delete_codec 1 s) = (win1 s)\<lparr>w_codec := 0\<rparr>"
  "win2 (release_surface 2 s) = (win2 s)\<lparr>w_surface := 0\<rparr>"
  "win2 (delete_format 2 s) = (win2 s)\<lparr>w_format := None\<rparr>"
  "win2 (delete_codec 2 s) = (win2 s)\<lparr>w_codec := 0\<rparr>"
  by (simp_all add: release_surface_def delete_format_def delete_codec_def win_def upd_win_def)

lemma upd_win_simps [simp]:
  "win1 (upd_win 1 f s) = f (win1 s)" "win2 (upd_win 1 f s) = win2 s"
  "win2 (upd_win 2 f s) = f (win2 s)" "win1 (upd_win 2 f s) = win1 s"
  "live (upd_win c f s) = live s" "trace (upd_win c f s) = trace s"
  by (simp_all add: upd_win_def)

lemma free_sps_pps_simps [simp]:
  "win1 (free_sps_pps p s) = win1 s" "win2 (free_sps_pps p s) = win2 s"
  "live (free_sps_pps p s) = live s - (if p = None then 0 else 1)"
  by (simp_all add: free_sps_pps_def)

lemma release1_eff:
  "released (win1 (release1 d s))" "win2 (release1 d s) = win2 s"
  "w_sps_pps_landscape (win1 (release1 d s)) = None"
  "w_sps_pps_portrait (win1 (release1 d s)) = (if d then None else w_sps_pps_portrait (win1 s))"
  "live (release1 d s) = live s - blocks (win1 s) + blocks (win1 (release1 d s))"
  by (simp_all add: release1_def Let_def released_def blocks_def)

lemma release2_eff:
  "released (win2 (release2 d s))" "win1 (release2 d s) = win1 s"
  "w_sps_pps_portrait (win2 (release2 d s)) = None"
  "w_sps_pps_landscape (win2 (release2 d s)) = (if d then None else w_sps_pps_landscape (win2 s))"
  "live (release2 d s) = live s - blocks (win2 s) + blocks (win2 (release2 d s))"
  by (simp_all add: release2_def Let_def released_def blocks_def)

lemma release_trace:
  "trace (release_surface 1 s) = (if w_surface (win1 s) = 0 then trace s
     else trace s @ [Window (Window_release (w_surface (win1 s)))])"
  "trace (release_surface 2 s) = (if w_surface (win2 s) = 0 then trace s
     else trace s @ [Window (Window_release (w_surface (win2 s)))])"
  "trace (delete_format 1 s) = (if w_format (win1 s) = None then trace s else trace s @ [Window Format_delete])"
  "trace (delete_format 2 s) = (if w_format (win2 s) = None then trace s else trace s @ [Window Format_delete])"
  "trace (delete_codec 1 s) = (if w_codec (win1 s) = 0 then trace s
     else trace s @ [Codec (Codec_delete (w_codec (win1 s)))])"
  "trace (delete_codec 2 s) = (if w_codec (win2 s) = 0 then trace s
     else trace s @ [Codec (Codec_delete (w_codec (win2 s)))])"
  "trace (free_sps_pps p s) = trace s"
  by (simp_all add: release_surface_def delete_format_def delete_codec_def win_def free_sps_pps_def)

lemma release_idle:
  "released (win1 s) \<Longrightarrow> trace (release1 d s) = trace s"
  "released (win2 s) \<Longrightarrow> trace (release2 d s) = trace s"
  by (simp_all add: release1_def release2_def Let_def released_def release_trace)


subsection \<open>Starting, configuring and draining a decoder\<close>

lemma startMediaCodec_idle:
  "w_isPlaying (win c s) \<or> w_codec (win c s) = 0 \<or> w_format (win c s) = None \<or> w_surface (win c s) = 0
   \<Longrightarrow> startMediaCodec c flags s = s"
  by (cases "c = 1 \<or> c = 2"; simp only: startMediaCodec_def Let_def if_True if_False) auto

lemma startMediaCodec_playing:
  "c = 1 \<or> c = 2 \<Longrightarrow> w_codec (win c s) \<noteq> 0 \<Longrightarrow> w_format (win c s) \<noteq> None \<Longrightarrow> w_surface (win c s) \<noteq> 0
   \<Longrightarrow> w_isPlaying (win c (startMediaCodec c flags s))"
  unfolding startMediaCodec_def Let_def by (auto simp: win_def)

text \<open>A decoder is configured and started, and its thread created, only once per session: after
  \<open>startMediaCodec\<close>, another call (from a second \<open>setSurface\<close>, say) changes nothing at all, whether
  the first one started the codec or found something missing.\<close>

theorem startMediaCodec_once:
  "startMediaCodec c flags2 (startMediaCodec c flags s) = startMediaCodec c flags s"
proof (cases "c = 1 \<or> c = 2")
  case False
  then show ?thesis by (simp add: startMediaCodec_def)
next
  case True
  then show ?thesis
    using startMediaCodec_idle [of c s flags] startMediaCodec_playing [of c s flags]
      startMediaCodec_idle [of c "startMediaCodec c flags s" flags2] startMediaCodec_idle [of c s flags2]
    by metis
qed

text \<open>\<open>setSpsPps\<close> stores the received configuration under the right client and orientation, but it
  overwrites the pointer without freeing what it held: a second configuration for the same slot
  leaves one heap block that no pointer of the program refers to.\<close>

theorem setSpsPps_leak:
  assumes "c = 1 \<or> c = 2" and "setSpsPps c orient buf n s = Ok s'"
  shows "sps_pps_of (win c s') (if orient = 1 then 1 else 2) = (Some (take (nat n) buf), n) \<and>
         live s' - live s = 1 \<and>
         (fst (sps_pps_of (win c s) (if orient = 1 then 1 else 2)) \<noteq> None \<longrightarrow>
          blocks (win c s') = blocks (win c s))"
proof -
  from assms have sl: "slice buf 0 n = Ok (take (nat n) buf)"
    using slice_Ok [of buf 0 n] by (fastforce simp: setSpsPps_def res_simps)
  from assms(1) show ?thesis
  proof
    assume c: "c = 1"
    show ?thesis
      using assms(2) unfolding setSpsPps_def c sl
      by (cases "orient = 1") (auto simp: sps_pps_of_def win_def heap_def blocks_def)
  next
    assume c: "c = 2"
    show ?thesis
      using assms(2) unfolding setSpsPps_def c sl
      by (cases "orient = 1") (auto simp: sps_pps_of_def win_def heap_def blocks_def)
  qed
qed

lemma setSpsPps_leak_witness:
  "\<exists>s'. setSpsPps 1 1 [1, 2, 3] 2 (mc0\<lparr>win1 := window0\<lparr>w_sps_pps_portrait := Some [9]\<rparr>\<rparr>) = Ok s' \<and>
        live s' = 1 \<and> blocks (win1 s') = 1"
proof -
  let ?s = "mc0\<lparr>win1 := window0\<lparr>w_sps_pps_portrait := Some [9]\<rparr>\<rparr>"
  obtain s' where s': "setSpsPps 1 1 [1, 2, 3] 2 ?s = Ok s'"
    by (simp add: setSpsPps_def slice_def)
  from setSpsPps_leak [OF _ this] s' show ?thesis
    by (auto simp: sps_pps_of_def win_def blocks_def window0_def split: if_splits)
qed

definition is_poll :: "ncall \<Rightarrow> bool" where
  "is_poll c = (case c of Codec (Codec_dequeueOutput k) \<Rightarrow> True | _ \<Rightarrow> False)"

lemma drainOutputBuffer_step:
  fixes s :: "'a mc_scheme"
  assumes "\<And>s1 :: 'a mc_scheme. count_calls is_poll (trace s) < count_calls is_poll (trace s1) \<Longrightarrow>
            drainOutputBuffer fuel e c codec render s1 \<noteq> NoFuel"
  shows "drainOutputBuffer (Suc fuel) e c codec render s \<noteq> NoFuel"
  using assms [of "releaseOutputBuffer codec i render (call (Codec (Codec_getOutput codec i))
                    (call (Codec (Codec_dequeueOutput codec)) s))" for i]
  by (simp add: dequeueOutputBuffer_def getOutputBuffer_def releaseOutputBuffer_def Let_def is_poll_def)

text \<open>C28: \<open>drainOutputBuffer\<close> returns: when the codec has only a bounded number of output buffers ready
  (from the n-th poll on it answers with a negative index), n + 1 units of fuel are enough for
  the loop to end, whatever the codec answers before.\<close>

theorem drainOutputBuffer_terminates:
  assumes "\<And>h. n \<le> count_calls is_poll h \<Longrightarrow> ans e (h @ [Codec (Codec_dequeueOutput codec)]) < 0"
    and "n - count_calls is_poll (trace s) < fuel"
  shows "drainOutputBuffer fuel e c codec render s \<noteq> NoFuel"
  using assms(2)
proof (induction fuel arbitrary: s)
  case 0
  then show ?case by simp
next
  case (Suc fuel)
  show ?case
  proof (cases "n \<le> count_calls is_poll (trace s)")
    case True
    from assms(1) [OF this] show ?thesis
      by (simp add: dequeueOutputBuffer_def Let_def)
  next
    case False
    show ?thesis using Suc False by (intro drainOutputBuffer_step) simp
  qed
qed

lemma drainOutputBuffer_terminates_witness:
  "drainOutputBuffer 2 \<lparr>ans = (\<lambda>h. if count_calls is_poll h \<le> 1 then 1 else -1),
      ans_bytes = (\<lambda>h. []), ans_str = (\<lambda>h. ''''), ans_info = (\<lambda>h. (0, 0))\<rparr> 1 7 True mc0 \<noteq> NoFuel"
  by (rule drainOutputBuffer_terminates [where n = 1]) (simp_all add: is_poll_def)

text \<open>The mark \<open>handleSpsPps\<close> returns does not depend on the format it writes to.\<close>

lemma handle_markers_mark:
  assumes "handle_markers base arr n = Ok (mark, f)"
  shows "\<exists>f'. handle_markers base' arr n = Ok (mark, f')"
proof -
  obtain st3 where st3: "nal_loop arr 103 104 n 0 nal_scan0 = Ok st3"
    using assms by (auto simp: handle_markers_def res_bind_Ok_iff)
  let ?r = "if spsIndex st3 = -1 \<or> ppsIndex st3 = -1 then res_map (\<lambda>st. (MARK4, st)) (nal_loop arr 39 40 n 0 nal_scan0)
            else Ok (MARK3, st3)"
  obtain mk st where st: "?r = Ok (mk, st)" using assms by (auto simp: handle_markers_def st3 res_bind_Ok_iff)
  show ?thesis
    using assms unfolding handle_markers_def st3 res_bind.simps st prod.case
    by (cases "spsIndex st \<noteq> -1 \<and> ppsIndex st \<noteq> -1") (auto simp: res_bind_Ok_iff)
qed

lemma handleSpsPps_mark:
  assumes "handleSpsPps base arr n = Ok (mark, f)"
  shows "\<exists>f'. handleSpsPps base' arr n = Ok (mark, f')"
proof -
  obtain i m where i: "find_second_code arr n = Ok (i, m)" using assms by (auto simp: handleSpsPps_def res_bind_Ok_iff)
  show ?thesis
    using assms handle_markers_mark [of base arr n mark f base']
    unfolding handleSpsPps_def i res_bind.simps prod.case
    by (cases "i = -1") (auto simp: res_bind_Ok_iff)
qed

text \<open>The two blocks for csd-0 and csd-1 are lost: every decoder format for H.264 in which the two units were
  found leaves two heap blocks more, while the window holds no pointer more than before.\<close>

theorem csd_blocks_leak:
  assumes "c = 1 \<or> c = 2" and "c_string (w_mime (win c s)) = Ok ''video/avc''"
    and "sps_pps_of (win c s) k = (Some arr, n)" "handleSpsPps base arr n = Ok (mark, f)" "mark \<noteq> MARK0"
    and "createMediaFormat c k s = Ok s'"
  shows "live s' = live s + 2 \<and> blocks (win c s') = blocks (win c s)"
proof -
  have c: "(c \<noteq> 1 \<and> c \<noteq> 2) = False" using assms(1) by blast
  have m: "mark' = mark" if "handleSpsPps base' arr n = Ok (mark', f')" for base' mark' f'
    using handleSpsPps_mark [OF assms(4), of base'] that by auto
  obtain g where "s' = upd_win c (\<lambda>w. w\<lparr>w_format := Some g\<rparr>) (delete_format c (heap 2 (call (Window Format_new) s)))"
    using assms(2,5,6) m unfolding createMediaFormat_def c if_False Let_def assms(3) prod.case
    by (auto simp: res_bind_Ok_iff res_map_Ok_iff)
  then show ?thesis using assms(1) by (auto simp: blocks_def win_def delete_format_def upd_win_def heap_def call_def)
qed

lemma csd_blocks_leak_witness:
  "\<exists>s'. createMediaFormat 1 1 (mc0\<lparr>win1 := window0\<lparr>w_mime := ''video/avc'' @ [nul],
      w_sps_pps_portrait := Some [2, 103, 66, 1, 104], w_sps_pps_size_portrait := 5\<rparr>\<rparr>) = Ok s' \<and> live s' = 2"
proof -
  let ?s = "mc0\<lparr>win1 := window0\<lparr>w_mime := ''video/avc'' @ [nul],
      w_sps_pps_portrait := Some [2, 103, 66, 1, 104], w_sps_pps_size_portrait := 5\<rparr>\<rparr>"
  have h: "\<exists>f. handleSpsPps base [2, 103, 66, 1, 104] 5 = Ok (MARK3, f)" for base
    by (simp add: handleSpsPps_def find_second_code_def handle_markers_def nal_loop.simps nal_step_def nal_scan0_def
        rd_def slice_def)
  have w: "c_string (w_mime (win 1 ?s)) = Ok ''video/avc''" by (simp add: win_def c_string_def cstr_def nul_def)
  obtain s' where s': "createMediaFormat 1 1 ?s = Ok s'"
    using h by (fastforce simp: createMediaFormat_def win_def sps_pps_of_def c_string_def cstr_def nul_def mul_int32_def
        window0_def res_map_Ok_iff Let_def)
  obtain f where f: "handleSpsPps [] [2, 103, 66, 1, 104] 5 = Ok (MARK3, f)" using h by blast
  have "sps_pps_of (win 1 ?s) 1 = (Some [2, 103, 66, 1, 104], 5)" by (simp add: sps_pps_of_def win_def)
  from csd_blocks_leak [OF _ w this f _ s'] s' show ?thesis by (simp add: MARK3_def MARK0_def)
qed

end
