(* ===== verification/Frame_Queue.thy ===== *)
theory Frame_Queue
  imports Media_Codec
begin

section \<open>The queues between receiver and decoder (MediaData.cpp)\<close>

text \<open>
  \<open>putData\<close>, \<open>drainFrame\<close>, \<open>getData\<close>, the decoder thread and the cleanup. A queue element is the
  \<open>Data\<close> struct; its array is \<open>None\<close> for a null pointer. \<open>front()\<close> and \<open>pop_front()\<close> on an empty
  list and reads outside an array are \<open>Undef\<close>.
\<close>

unbundle bit_operations_syntax

record Data =
  data :: "byte list option"
  size_of :: int

record md = mc +
  list1 :: "Data list"
  list2 :: "Data list"
  isCurPortrait1 :: bool
  isCurPortrait2 :: bool
  isPrePortrait1 :: bool
  isPrePortrait2 :: bool

subsection \<open>drainFrame\<close>

definition rd_data :: "Data \<Rightarrow> int \<Rightarrow> byte res" where
  "rd_data d i = (case data d of None \<Rightarrow> Undef | Some arr \<Rightarrow> rd arr i)"

text \<open>\<open>(data->data[data->size - 1] & 1) != 0\<close>\<close>

definition is_key :: "Data \<Rightarrow> bool res" where
  "is_key d = res_map (\<lambda>b. b AND 1 \<noteq> 0) (rd_data d (size_of d - 1))"

text \<open>The blocks \<open>free(data->data); free(data)\<close> gives back.\<close>

definition data_blocks :: "Data \<Rightarrow> int" where
  "data_blocks d = (case data d of None \<Rightarrow> 1 | Some arr \<Rightarrow> 2)"

text \<open>The first scan: \<open>firstKeyFrame\<close> and \<open>count\<close> when the loop ends.\<close>

fun drain_scan :: "Data list \<Rightarrow> bool \<Rightarrow> nat \<Rightarrow> (bool \<times> nat) res" where
  "drain_scan [] firstKeyFrame count = Ok (firstKeyFrame, count)"
| "drain_scan (d # ds) firstKeyFrame count =
     res_bind (is_key d) (\<lambda>k. if k then Ok (True, count + 1) else drain_scan ds False (count + 1))"

text \<open>The first dropping loop: the list it leaves and the blocks it freed.\<close>

fun drain_drop :: "Data list \<Rightarrow> int \<Rightarrow> (Data list \<times> int) res" where
  "drain_drop [] freed = Undef"
| "drain_drop (d # ds) freed =
     res_bind (is_key d) (\<lambda>k. if \<not> k then drain_drop ds (freed + data_blocks d) else Ok (d # ds, freed))"

text \<open>The second scan looks for a second key frame.\<close>

fun drain_scan2 :: "Data list \<Rightarrow> bool \<Rightarrow> bool \<Rightarrow> nat \<Rightarrow> (bool \<times> bool \<times> nat) res" where
  "drain_scan2 [] firstKeyFrame secondKeyFrame count = Ok (firstKeyFrame, secondKeyFrame, count)"
| "drain_scan2 (d # ds) firstKeyFrame secondKeyFrame count =
     res_bind (is_key d) (\<lambda>k.
       if k \<and> secondKeyFrame then Ok (k, secondKeyFrame, count + 1)
       else if k \<and> \<not> secondKeyFrame then drain_scan2 ds k True (count + 1)
       else drain_scan2 ds k secondKeyFrame (count + 1))"

text \<open>The second dropping loop; an iteration that meets a key frame pops nothing.\<close>

function drain_drop2 :: "Data list \<Rightarrow> bool \<Rightarrow> int \<Rightarrow> (Data list \<times> int) res" where
  "drain_drop2 [] secondKeyFrame freed = Undef"
| "drain_drop2 (d # ds) secondKeyFrame freed =
     res_bind (is_key d) (\<lambda>k.
       if \<not> k then drain_drop2 ds secondKeyFrame (freed + data_blocks d)
       else if secondKeyFrame then Ok (d # ds, freed)
       else drain_drop2 (d # ds) True freed)"
  by pat_completeness auto
termination
  by (relation "measure (\<lambda>(ds, sk, fr). 2 * length ds + (if sk then 0 else 1))") auto

definition drainFrame :: "Data list \<Rightarrow> (Data list \<times> int) res" where
  "drainFrame ds =
     (let size1 = length ds in
      res_bind (drain_scan ds False 0) (\<lambda>(firstKeyFrame, count).
      if firstKeyFrame \<and> count > 1 then
        res_bind (drain_drop ds 0) (\<lambda>(ds1, freed1).
        let size2 = length ds1 in
        if size1 > size2 then
          res_bind (drain_scan2 ds1 False False 0) (\<lambda>(firstKeyFrame, secondKeyFrame, count).
            if firstKeyFrame \<and> secondKeyFrame \<and> count > 2 then drain_drop2 ds1 False freed1
            else Ok (ds1, freed1))
        else Ok (ds1, freed1))
      else Ok (ds, 0)))"

subsection \<open>What drainFrame does\<close>

text \<open>A frame as \<open>putData\<close> makes it, with at least one byte; its key flag is the low bit of the last one.\<close>

definition wf_data :: "Data \<Rightarrow> bool" where
  "wf_data d = (case data d of None \<Rightarrow> False | Some arr \<Rightarrow> arr \<noteq> [] \<and> size_of d = int (length arr))"

definition keyd :: "Data \<Rightarrow> bool" where
  "keyd d = (case data d of None \<Rightarrow> False | Some arr \<Rightarrow> last arr AND 1 \<noteq> 0)"

lemma is_key_wf [res_simps]: "wf_data d \<Longrightarrow> is_key d = Ok (keyd d)"
  by (auto simp: wf_data_def is_key_def keyd_def rd_data_def rd_def last_conv_nth nat_diff_distrib
      split: option.splits)

lemma data_blocks_wf: "wf_data d \<Longrightarrow> data_blocks d = 2"
  by (auto simp: wf_data_def data_blocks_def split: option.splits)

lemma drain_scan_eq:
  "\<forall>d \<in> set ds. wf_data d \<Longrightarrow>
   drain_scan ds b c =
     Ok (if \<exists>d \<in> set ds. keyd d then (True, c + length (takeWhile (Not \<circ> keyd) ds) + 1)
         else (ds = [] \<and> b, c + length ds))"
  by (induction ds arbitrary: b c) (auto simp: res_simps)

lemma drain_drop_eq:
  "\<forall>d \<in> set ds. wf_data d \<Longrightarrow> \<exists>d \<in> set ds. keyd d \<Longrightarrow>
   drain_drop ds n = Ok (dropWhile (Not \<circ> keyd) ds, n + 2 * int (length (takeWhile (Not \<circ> keyd) ds)))"
proof (induction ds arbitrary: n)
  case (Cons a ds)
  show ?case
  proof (cases "keyd a")
    case False
    with Cons.prems have "\<exists>d \<in> set ds. keyd d" by simp
    from Cons.IH [OF _ this, of "n + 2"] Cons.prems False show ?thesis
      by (simp add: res_simps data_blocks_wf)
  qed (use Cons.prems in \<open>simp add: res_simps\<close>)
qed simp

lemma drain_scan2_Ok: "\<forall>d \<in> set ds. wf_data d \<Longrightarrow> \<exists>r. drain_scan2 ds b1 b2 c = Ok r"
  by (induction ds arbitrary: b1 b2 c) (auto simp: res_simps)

text \<open>The second dropping loop never drops: both its iterations look at the same key frame.\<close>

lemma drain_drop2_key: "wf_data d \<Longrightarrow> keyd d \<Longrightarrow> drain_drop2 (d # ds) False n = Ok (d # ds, n)"
  by (simp add: res_simps)

lemma dropWhile_split: "\<exists>d \<in> set ds. P d \<Longrightarrow> \<exists>d r. dropWhile (Not \<circ> P) ds = d # r \<and> P d \<and> d \<in> set ds"
  by (induction ds) auto

lemma drainFrame_correct_lemma:
  assumes "\<forall>d \<in> set ds. wf_data d"
  shows "drainFrame ds =
     Ok (if \<exists>d \<in> set ds. keyd d
         then (dropWhile (Not \<circ> keyd) ds, 2 * int (length (takeWhile (Not \<circ> keyd) ds)))
         else (ds, 0))"
proof (cases "\<exists>d \<in> set ds. keyd d")
  case False
  with assms show ?thesis by (auto simp: drainFrame_def drain_scan_eq)
next
  case True
  let ?r = "dropWhile (Not \<circ> keyd) ds" and ?n = "2 * int (length (takeWhile (Not \<circ> keyd) ds))"
  obtain d r where r: "?r = d # r" "keyd d" "d \<in> set ds" using dropWhile_split [OF True] by blast
  show ?thesis
  proof (cases "takeWhile (Not \<circ> keyd) ds = []")
    case t: True
    then have "?r = ds" by (metis append_Nil takeWhile_dropWhile_id)
    with t True assms show ?thesis by (simp add: drainFrame_def drain_scan_eq)
  next
    case False
    have wf: "\<forall>d \<in> set ?r. wf_data d" using assms by (auto dest: set_dropWhileD)
    from drain_scan2_Ok [OF this] obtain f s c where s2: "drain_scan2 ?r False False 0 = Ok (f, s, c)"
      by (metis prod_cases3)
    have d2: "drain_drop2 ?r False n = Ok (?r, n)" for n
      using drain_drop2_key [of d r n] r assms by metis
    show ?thesis
      using True False assms s2 d2 by (simp add: drainFrame_def drain_scan_eq drain_drop_eq)
  qed
qed

text \<open>C10: On frames as \<open>putData\<close> queues them, \<open>drainFrame\<close> drops exactly the frames before the first key
  frame (none, when no key frame is queued yet), frees both blocks of each, keeps the order of the
  rest and has no undefined access. The second pass, which the comment says drops once more down to
  the second key frame, never drops a frame.\<close>

theorem drainFrame_correct:
  assumes "\<forall>d \<in> set ds. wf_data d"
  shows "drainFrame ds =
     Ok (if \<exists>d \<in> set ds. keyd d
         then (dropWhile (Not \<circ> keyd) ds, 2 * int (length (takeWhile (Not \<circ> keyd) ds)))
         else (ds, 0))"
  using assms by (rule drainFrame_correct_lemma)

lemma drainFrame_correct_witness:
  "drainFrame [\<lparr>data = Some [7, 1, 0], size_of = 3\<rparr>, \<lparr>data = Some [8, 1, 1], size_of = 3\<rparr>,
               \<lparr>data = Some [9, 1, 0], size_of = 3\<rparr>, \<lparr>data = Some [5, 1, 1], size_of = 3\<rparr>]
     = Ok ([\<lparr>data = Some [8, 1, 1], size_of = 3\<rparr>, \<lparr>data = Some [9, 1, 0], size_of = 3\<rparr>,
            \<lparr>data = Some [5, 1, 1], size_of = 3\<rparr>], 2)"
  by (subst drainFrame_correct) (simp_all add: wf_data_def keyd_def)

subsection \<open>Orientation, putData, getData\<close>

definition queue :: "int \<Rightarrow> 'a md_scheme \<Rightarrow> Data list" where
  "queue which_client s = (if which_client = 1 then list1 s else list2 s)"

definition upd_queue :: "int \<Rightarrow> (Data list \<Rightarrow> Data list) \<Rightarrow> 'a md_scheme \<Rightarrow> 'a md_scheme" where
  "upd_queue which_client f s =
     (if which_client = 1 then s\<lparr>list1 := f (list1 s)\<rparr>
      else if which_client = 2 then s\<lparr>list2 := f (list2 s)\<rparr> else s)"

interpretation queues: client_slots queue upd_queue
  by unfold_locales (auto simp: is_client_def queue_def upd_queue_def)

definition setOrientation :: "int \<Rightarrow> int \<Rightarrow> 'a md_scheme \<Rightarrow> 'a md_scheme" where
  "setOrientation which_client orientation s =
     (if which_client = 1 then s\<lparr>isCurPortrait1 := (orientation = 1)\<rparr>
      else if which_client = 2 then s\<lparr>isCurPortrait2 := (orientation = 1)\<rparr> else s)"

definition putData :: "int \<Rightarrow> byte list \<Rightarrow> int \<Rightarrow> 'a md_scheme \<Rightarrow> 'a md_scheme res" where
  "putData which_client encodedData sz s0 =
     res_map (\<lambda>frame.
       let s = heap 2 s0; d = \<lparr>data = Some frame, size_of = sz\<rparr> in
       if which_client = 1 \<or> which_client = 2 then
         call (Thread (Mutex_unlock which_client)) (call (Thread (Cond_signal which_client))
           (upd_queue which_client (\<lambda>q. q @ [d]) (call (Thread (Mutex_lock which_client)) s)))
       else s)
     (slice encodedData 0 sz)"

text \<open>
  \<open>wake\<close> is what the other threads did between the start of \<open>pthread_cond_wait\<close> and its return
  (nothing, for a spurious wake-up).
\<close>

definition getData ::
  "int \<Rightarrow> ('a md_scheme \<Rightarrow> 'a md_scheme) \<Rightarrow> 'a md_scheme \<Rightarrow> (Data option \<times> 'a md_scheme) res" where
  "getData which_client wake s =
     (if which_client \<noteq> 1 \<and> which_client \<noteq> 2 then Ok (None, s) else
      let s1 = call (Thread (Mutex_lock which_client)) s in
      res_bind (drainFrame (queue which_client s1)) (\<lambda>(q, freed).
      let s2 = heap (- freed) (upd_queue which_client (\<lambda>_. q) s1);
          s3 = (if q = [] then wake (call (Thread (Cond_wait which_client)) s2) else s2) in
      if q = [] \<and> \<not> w_isPlaying (win which_client s3)
      then Ok (None, call (Thread (Mutex_unlock which_client)) s3)
      else case queue which_client s3 of
             [] \<Rightarrow> Undef
           | d # ds \<Rightarrow> Ok (Some d, call (Thread (Mutex_unlock which_client))
                                     (upd_queue which_client (\<lambda>_. ds) s3))))"

subsection \<open>The decoder thread\<close>

definition curPortrait :: "int \<Rightarrow> 'a md_scheme \<Rightarrow> bool" where
  "curPortrait which_client s = (if which_client = 1 then isCurPortrait1 s else isCurPortrait2 s)"

definition prePortrait :: "int \<Rightarrow> 'a md_scheme \<Rightarrow> bool" where
  "prePortrait which_client s = (if which_client = 1 then isPrePortrait1 s else isPrePortrait2 s)"

definition set_prePortrait :: "int \<Rightarrow> 'a md_scheme \<Rightarrow> 'a md_scheme" where
  "set_prePortrait which_client s =
     (if which_client = 1 then s\<lparr>isPrePortrait1 := isCurPortrait1 s\<rparr>
      else if which_client = 2 then s\<lparr>isPrePortrait2 := isCurPortrait2 s\<rparr> else s)"

text \<open>The configuration frame written after a change of orientation.\<close>

definition feed_sps_pps :: "nat \<Rightarrow> env \<Rightarrow> int \<Rightarrow> int \<Rightarrow> 'a md_scheme \<Rightarrow> 'a md_scheme res" where
  "feed_sps_pps fuel e which_client codec s =
     (if prePortrait which_client s \<noteq> curPortrait which_client s then
        let (p, n) = sps_pps_of (win which_client s) (if curPortrait which_client s then 1 else 2) in
        res_map (\<lambda>(r, s1). set_prePortrait which_client s1)
          (feedInputBufferAndDrainOutputBuffer fuel e which_client codec p 0 n 0 0 True True s)
      else Ok s)"

text \<open>
  The loop of \<open>startDecoder\<close>; one unit of fuel per iteration. A frame of the other orientation is
  skipped by \<open>continue\<close>, without the two calls of \<open>free\<close> at the end of the body.
\<close>

fun startDecoder_loop ::
  "nat \<Rightarrow> env \<Rightarrow> ('a md_scheme \<Rightarrow> 'a md_scheme) \<Rightarrow> int \<Rightarrow> int \<Rightarrow> 'a md_scheme \<Rightarrow> 'a md_scheme res" where
  "startDecoder_loop 0 e wake which_client codec s = NoFuel"
| "startDecoder_loop (Suc fuel) e wake which_client codec s =
     (if \<not> w_isPlaying (win which_client s) then Ok s else
      res_bind (getData which_client wake s) (\<lambda>(dat, s1).
      case dat of None \<Rightarrow> Ok s1
      | Some d \<Rightarrow> (case data d of None \<Rightarrow> Ok s1
        | Some frame \<Rightarrow>
            res_bind (rd frame (size_of d - 2)) (\<lambda>mark.
            if mark = 1 \<and> \<not> curPortrait which_client s1
            then startDecoder_loop fuel e wake which_client codec s1
            else if mark = 2 \<and> curPortrait which_client s1
            then startDecoder_loop fuel e wake which_client codec s1
            else
              res_bind (feed_sps_pps fuel e which_client codec s1) (\<lambda>s2.
              res_bind (feedInputBufferAndDrainOutputBuffer fuel e which_client codec (Some frame) 0
                          (size_of d - 2) 0 0 True True s2) (\<lambda>(ret, s3).
              let s4 = heap (-2) s3 in
              if \<not> ret then Ok s4 else startDecoder_loop fuel e wake which_client codec s4))))))"

text \<open>
  The cleanup frees \<open>&data\<close>, the address of a local variable, for every queued frame.
\<close>

definition free1 :: "'a md_scheme \<Rightarrow> 'a md_scheme res" where
  "free1 s =
     (let s1 = release1 True s in
      if list1 s1 \<noteq> [] then Undef
      else Ok (s1\<lparr>isCurPortrait1 := True, isPrePortrait1 := True\<rparr>))"

definition free2 :: "'a md_scheme \<Rightarrow> 'a md_scheme res" where
  "free2 s =
     (let s1 = release2 True s in
      if list2 s1 \<noteq> [] then Undef
      else Ok (s1\<lparr>isCurPortrait2 := True, isPrePortrait2 := True\<rparr>))"

definition freeAll :: "'a md_scheme \<Rightarrow> 'a md_scheme res" where
  "freeAll s = res_bind (free1 s) free2"

definition startDecoder ::
  "nat \<Rightarrow> env \<Rightarrow> ('a md_scheme \<Rightarrow> 'a md_scheme) \<Rightarrow> int \<Rightarrow> 'a md_scheme \<Rightarrow> 'a md_scheme res" where
  "startDecoder fuel e wake arg s =
     (if arg \<noteq> 1 \<and> arg \<noteq> 2 then Ok s
      else
        let s1 = set_prePortrait arg s in
        res_bind (startDecoder_loop fuel e wake arg (getCodec arg s1) s1)
          (if arg = 1 then free1 else free2))"

subsection \<open>Queue operations\<close>

lemma md_call [simp]:
  "list1 (call c s) = list1 s" "list2 (call c s) = list2 s"
  "isCurPortrait1 (call c s) = isCurPortrait1 s" "isCurPortrait2 (call c s) = isCurPortrait2 s"
  "isPrePortrait1 (call c s) = isPrePortrait1 s" "isPrePortrait2 (call c s) = isPrePortrait2 s"
  by (simp_all add: call_def)

lemma md_heap [simp]:
  "list1 (heap d s) = list1 s" "list2 (heap d s) = list2 s"
  "isCurPortrait1 (heap d s) = isCurPortrait1 s" "isCurPortrait2 (heap d s) = isCurPortrait2 s"
  "isPrePortrait1 (heap d s) = isPrePortrait1 s" "isPrePortrait2 (heap d s) = isPrePortrait2 s"
  by (simp_all add: heap_def)

lemma queue_simps [simp]:
  "queue c (call x s) = queue c s" "queue c (heap d s) = queue c s"
  "c = 1 \<or> c = 2 \<Longrightarrow> queue c (upd_queue c f s) = f (queue c s)"
  "win k (upd_queue c f s) = win k s" "win k (call x s) = win k s" "win k (heap d s) = win k s"
  "curPortrait k (upd_queue c f s) = curPortrait k s" "curPortrait k (call x s) = curPortrait k s"
  "curPortrait k (heap d s) = curPortrait k s"
  "prePortrait k (upd_queue c f s) = prePortrait k s" "prePortrait k (call x s) = prePortrait k s"
  "prePortrait k (heap d s) = prePortrait k s"
  "live (upd_queue c f s) = live s" "trace (upd_queue c f s) = trace s"
  by (auto simp: queue_def upd_queue_def win_def curPortrait_def prePortrait_def)

lemma getData_queue_other:
  assumes "getData c wake s = Ok (r, s')" "is_client c" "is_client d" "c \<noteq> d"
    and "\<And>t. queue d (wake t) = queue d t"
  shows "queue d s' = queue d s"
proof -
  have q: "queue d (upd_queue c f t) = queue d t" for f and t :: "'a md_scheme"
    by (rule queues.slot_other [OF assms(2-4)])
  have c: "(c \<noteq> 1 \<and> c \<noteq> 2) = False" using assms(2) by (auto simp: is_client_def)
  show ?thesis
    using assms(1,5) unfolding getData_def c if_False
    by (auto simp: Let_def res_bind_Ok_iff q split: if_splits list.splits)
qed

text \<open>What the consumer sees: the queue after the frames before the first key frame are dropped.\<close>

definition drained :: "Data list \<Rightarrow> Data list" where
  "drained ds = (if \<exists>d \<in> set ds. keyd d then dropWhile (Not \<circ> keyd) ds else ds)"

lemma drained_eq_Nil [simp]: "drained ds = [] \<longleftrightarrow> ds = []"
  by (auto simp: drained_def dropWhile_eq_Nil_conv)

lemma length_drained_le: "length (drained ds) \<le> length ds"
  by (simp add: drained_def length_dropWhile_le)

lemma drainFrame_drained:
  "\<forall>d \<in> set ds. wf_data d \<Longrightarrow> drainFrame ds = Ok (drained ds, 2 * int (length ds - length (drained ds)))"
  by (simp add: drainFrame_correct_lemma drained_def) (metis add_diff_cancel_right' length_append takeWhile_dropWhile_id)

text \<open>\<open>getData\<close> on a queue with frames never waits: it returns the first key frame when one is queued
  and the oldest frame otherwise, leaves the frames behind it in order, and frees exactly the two
  blocks of every frame it skipped. The mutex is locked once and unlocked once.\<close>

theorem getData_nonempty:
  assumes "c = 1 \<or> c = 2" and "queue c s \<noteq> []" and "\<forall>d \<in> set (queue c s). wf_data d"
  shows "\<exists>d ds s'. drained (queue c s) = d # ds \<and> getData c wake s = Ok (Some d, s') \<and>
           queue c s' = ds \<and> win c s' = win c s \<and>
           live s' = live s - 2 * int (length (queue c s) - length (d # ds)) \<and>
           new_calls s s' = [Thread (Mutex_lock c), Thread (Mutex_unlock c)]"
proof -
  obtain d ds where d: "drained (queue c s) = d # ds" using assms(2) by (cases "drained (queue c s)") auto
  show ?thesis
    using assms d by (auto simp: getData_def drainFrame_drained Let_def new_calls_def)
qed

text \<open>\<open>pthread_cond_wait\<close> stands behind an \<open>if\<close>, not in a loop: a wake-up without a frame while the
  window is playing (a spurious one) makes \<open>getData\<close> take the front of an empty list.\<close>

theorem getData_spurious_wakeup:
  assumes "c = 1 \<or> c = 2" and "queue c s = []" and "w_isPlaying (win c s)"
  shows "getData c (\<lambda>t. t) s = Undef"
  using assms by (auto simp: getData_def drainFrame_drained drained_def Let_def)

text \<open>What the receiver puts into an empty queue is what the decoder gets out: one \<open>putData\<close> and one
  \<open>getData\<close> give back the bytes and the size, leave the queue empty, and the two blocks of the frame
  are then the consumer's.\<close>

theorem putData_getData:
  assumes "c = 1 \<or> c = 2" and "queue c s = []" and "bs \<noteq> []"
  shows "\<exists>s1 s2. putData c bs (int (length bs)) s = Ok s1 \<and>
           getData c wake s1 = Ok (Some \<lparr>data = Some bs, size_of = int (length bs)\<rparr>, s2) \<and>
           queue c s2 = [] \<and> live s2 = live s + 2"
proof -
  let ?d = "\<lparr>data = Some bs, size_of = int (length bs)\<rparr>"
  let ?s1 = "call (Thread (Mutex_unlock c)) (call (Thread (Cond_signal c))
      (upd_queue c (\<lambda>q. q @ [?d]) (call (Thread (Mutex_lock c)) (heap 2 s))))"
  have p: "putData c bs (int (length bs)) s = Ok ?s1"
    using assms(1) by (auto simp: putData_def slice_all Let_def)
  have "queue c ?s1 = [?d]" and "\<forall>d \<in> set (queue c ?s1). wf_data d"
    using assms by (simp_all add: wf_data_def)
  with getData_nonempty [of c ?s1 wake] assms(1) p show ?thesis
    by (auto simp: drained_def split: if_splits)
qed

lemma release_queue [simp]:
  "list1 (release1 d s) = list1 s" "list2 (release2 d s) = list2 s"
  by (simp_all add: release1_def release2_def Let_def release_surface_def delete_format_def
      delete_codec_def upd_win_def free_sps_pps_def)

text \<open>A decoder that is stopped while frames are queued has no defined end: the loop leaves at the
  test of \<open>isPlaying\<close>, and the cleanup then calls \<open>free\<close> on the address of its local variable for
  the first queued frame. With an empty queue the thread ends with the window released.\<close>

theorem startDecoder_stopped:
  assumes "c = 1 \<or> c = 2" and "\<not> w_isPlaying (win c s)"
  shows "startDecoder (Suc fuel) e wake c s =
     (if queue c s \<noteq> [] then Undef
      else if c = 1 then Ok ((release1 True (set_prePortrait 1 s))\<lparr>isCurPortrait1 := True, isPrePortrait1 := True\<rparr>)
      else Ok ((release2 True (set_prePortrait 2 s))\<lparr>isCurPortrait2 := True, isPrePortrait2 := True\<rparr>))"
  using assms
  by (auto simp: startDecoder_def set_prePortrait_def win_def queue_def free1_def free2_def Let_def)

definition md0 :: md where
  "md0 = mc.extend mc0 (md.fields [] [] True True True True)"

lemma md0_simps [simp]:
  "win1 md0 = window0" "win2 md0 = window0" "list1 md0 = []" "list2 md0 = []" "live md0 = 0" "trace md0 = []"
  "isCurPortrait1 md0" "isCurPortrait2 md0" "isPrePortrait1 md0" "isPrePortrait2 md0"
  by (simp_all add: md0_def mc0_def net0_def md.defs mc.defs net.defs jni.defs world.defs)

lemma startDecoder_stopped_witness:
  "startDecoder 1 zero_env (\<lambda>t. t) 1 (md0\<lparr>list1 := [\<lparr>data = Some [7, 1, 1], size_of = 3\<rparr>]\<rparr>) = Undef"
  using startDecoder_stopped [of 1 "md0\<lparr>list1 := [\<lparr>data = Some [7, 1, 1], size_of = 3\<rparr>]\<rparr>" 0 zero_env "\<lambda>t. t"]
  by (simp add: win_def window0_def queue_def)

lemma getData_nonempty_witness:
  "\<exists>s'. getData 1 (\<lambda>t. t) (md0\<lparr>list1 := [\<lparr>data = Some [7, 1, 0], size_of = 3\<rparr>, \<lparr>data = Some [8, 1, 1], size_of = 3\<rparr>]\<rparr>)
        = Ok (Some \<lparr>data = Some [8, 1, 1], size_of = 3\<rparr>, s') \<and> list1 s' = [] \<and> live s' = -2"
  using getData_nonempty [of 1 "md0\<lparr>list1 := [\<lparr>data = Some [7, 1, 0], size_of = 3\<rparr>, \<lparr>data = Some [8, 1, 1], size_of = 3\<rparr>]\<rparr>" "\<lambda>t. t"]
  by (simp add: queue_def wf_data_def drained_def keyd_def) auto

lemma getData_spurious_wakeup_witness:
  "getData 1 (\<lambda>t. t) (md0\<lparr>win1 := window0\<lparr>w_isPlaying := True\<rparr>\<rparr>) = Undef"
  by (rule getData_spurious_wakeup) (simp_all add: queue_def win_def)

lemma putData_getData_witness:
  "\<exists>s1 s2. putData 2 [4, 1, 1] 3 md0 = Ok s1 \<and>
     getData 2 (\<lambda>t. t) s1 = Ok (Some \<lparr>data = Some [4, 1, 1], size_of = 3\<rparr>, s2) \<and> live s2 = 2"
  using putData_getData [of 2 md0 "[4, 1, 1]" "\<lambda>t. t"] by (simp add: queue_def) blast

subsection \<open>What reaches the codec\<close>

lemma feedInputBuffer_fed:
  assumes "0 \<le> idx" "idx = ans e (trace s @ [Codec (Codec_dequeueInput codec)])"
    and "ans e (trace s @ [Codec (Codec_dequeueInput codec), Codec (Codec_getInput codec idx)]) \<noteq> 0"
    and "int n \<le> fst (ans_info e (trace s @ [Codec (Codec_dequeueInput codec), Codec (Codec_getInput codec idx)]))"
    and "n \<le> length frame"
  shows "feedInputBuffer e codec (Some frame) 0 (int n) 0 0 s =
     Ok (True, s\<lparr>trace := trace s @ [Codec (Codec_dequeueInput codec), Codec (Codec_getInput codec idx),
                   Codec (Room_memcpy idx (take n frame)), Codec (Codec_queueInput codec idx 0 (int n) 0 0)]\<rparr>)"
  using assms by (simp add: feedInputBuffer_def Let_def slice_def) (simp add: call_def)

definition mismatch :: "byte \<Rightarrow> bool \<Rightarrow> bool" where
  "mismatch mark portrait = (mark = 1 \<and> \<not> portrait \<or> mark = 2 \<and> portrait)"

text \<open>The state after \<open>getData\<close> took the head of a queue that starts with a key frame.\<close>

definition popped :: "int \<Rightarrow> 'a md_scheme \<Rightarrow> 'a md_scheme" where
  "popped c s =
     call (Thread (Mutex_unlock c)) (upd_queue c tl (call (Thread (Mutex_lock c)) s))"

lemma popped_simps [simp]:
  "c = 1 \<or> c = 2 \<Longrightarrow> queue c (popped c s) = tl (queue c s)"
  "live (popped c s) = live s" "win k (popped c s) = win k s"
  "curPortrait k (popped c s) = curPortrait k s" "prePortrait k (popped c s) = prePortrait k s"
  "trace (popped c s) = trace s @ [Thread (Mutex_lock c), Thread (Mutex_unlock c)]"
  by (simp_all add: popped_def)

lemma upd_queue_twice:
  assumes "c = 1 \<or> c = 2"
  shows "upd_queue c f (upd_queue c g t) = upd_queue c (\<lambda>q. f (g q)) t"
  using assms by (simp add: queues.change_change is_client_def)

lemma upd_queue_queue: "upd_queue c f t = upd_queue c (\<lambda>_. f (queue c t)) t"
  unfolding upd_queue_def queue_def by simp

lemma heap_0: "heap 0 t = t"
  by (simp add: heap_def)

lemma getData_head:
  assumes "c = 1 \<or> c = 2" "queue c s = d # ds" "\<forall>x \<in> set (d # ds). wf_data x" "keyd d"
  shows "getData c wake s = Ok (Some d, popped c s)"
proof -
  have "drained (d # ds) = d # ds" using assms(4) by (auto simp: drained_def)
  moreover have "upd_queue c (\<lambda>_. ds) (upd_queue c (\<lambda>_. d # ds) (call x s)) = upd_queue c tl (call x s)" for x
    using upd_queue_queue [of c tl "call x s"] assms(1,2) by (simp add: upd_queue_twice)
  moreover have "c \<noteq> 1 \<and> c \<noteq> 2 \<longleftrightarrow> False" using assms(1) by blast
  ultimately show ?thesis
    using assms(1-3) by (simp only: getData_def if_False) (simp add: drainFrame_drained Let_def popped_def heap_0)
qed

text \<open>A frame of the other orientation is skipped by the decoder but never freed: the iteration takes
  it off the queue and goes on with the loop while the two heap blocks of the frame stay
  allocated, with no pointer to them left.\<close>

theorem decoder_leaks_other_orientation:
  assumes "c = 1 \<or> c = 2" and "w_isPlaying (win c s)" and "queue c s = d # ds"
    and "\<forall>x \<in> set (d # ds). wf_data x" and "keyd d"
    and "d = \<lparr>data = Some (payload @ [mark, flag]), size_of = int (length payload) + 2\<rparr>"
    and "mismatch mark (curPortrait c s)"
  shows "\<exists>s1. startDecoder_loop (Suc fuel) e wake c codec s = startDecoder_loop fuel e wake c codec s1 \<and>
           queue c s1 = ds \<and> live s1 = live s"
proof -
  note g = getData_head [OF assms(1,3,4,5), of wake]
  have m: "rd (payload @ [mark, flag]) (int (length payload)) = Ok mark"
    by (simp add: rd_def)
  have "startDecoder_loop (Suc fuel) e wake c codec s = startDecoder_loop fuel e wake c codec (popped c s)"
    using assms(2,6,7) g m by (auto simp: mismatch_def)
  then show ?thesis using assms(1,3) by (intro exI [of _ "popped c s"]) auto
qed

definition md1 :: "Data list \<Rightarrow> md" where
  "md1 ds = md0\<lparr>win1 := window0\<lparr>w_isPlaying := True\<rparr>, list1 := ds\<rparr>"

lemma md1_simps [simp]:
  "w_isPlaying (win1 (md1 ds))" "win 1 (md1 ds) = win1 (md1 ds)" "queue 1 (md1 ds) = ds" "list1 (md1 ds) = ds"
  "curPortrait 1 (md1 ds)" "isCurPortrait1 (md1 ds)" "isPrePortrait1 (md1 ds)" "live (md1 ds) = 0" "trace (md1 ds) = []"
  by (simp_all add: md1_def win_def queue_def curPortrait_def)

lemma decoder_leaks_other_orientation_witness:
  "\<exists>s1. startDecoder_loop (Suc 1) zero_env (\<lambda>t. t) 1 5 (md1 [\<lparr>data = Some [7, 2, 1], size_of = 3\<rparr>])
          = startDecoder_loop 1 zero_env (\<lambda>t. t) 1 5 s1 \<and> queue 1 s1 = [] \<and>
        live s1 = live (md1 [\<lparr>data = Some [7, 2, 1], size_of = 3\<rparr>])"
  by (rule decoder_leaks_other_orientation [where payload = "[7]" and mark = 2 and flag = 1])
     (simp_all add: wf_data_def keyd_def mismatch_def)

text \<open>A codec that always has an input buffer of at least \<open>cap\<close> bytes.\<close>

definition input_ready :: "env \<Rightarrow> int \<Rightarrow> int \<Rightarrow> bool" where
  "input_ready e codec cap =
     (\<forall>h i. 0 \<le> ans e (h @ [Codec (Codec_dequeueInput codec)]) \<and>
            ans e (h @ [Codec (Codec_getInput codec i)]) \<noteq> 0 \<and>
            cap \<le> fst (ans_info e (h @ [Codec (Codec_getInput codec i)])))"

definition fed_with :: "int \<Rightarrow> byte list \<Rightarrow> ncall list \<Rightarrow> bool" where
  "fed_with codec payload tr =
     (\<exists>idx. tr = [Thread (Mutex_lock 1), Thread (Mutex_unlock 1), Codec (Codec_dequeueInput codec),
                  Codec (Codec_getInput codec idx), Codec (Room_memcpy idx payload),
                  Codec (Codec_queueInput codec idx 0 (int (length payload)) 0 0)])"

text \<open>For a queued key frame of the current orientation the decoder hands the codec exactly the
  encoded data: the orientation and the flag byte the sender appended are cut off, nothing else is,
  and both blocks of the frame are freed after the outputs were drained.\<close>

theorem decoder_feeds_payload:
  assumes "w_isPlaying (win1 s)" and "list1 s = d # ds"
    and "\<forall>x \<in> set (d # ds). wf_data x" and "keyd d"
    and d: "d = \<lparr>data = Some (payload @ [mark, flag]), size_of = int (length payload) + 2\<rparr>"
    and "\<not> mismatch mark (isCurPortrait1 s)" and "isPrePortrait1 s = isCurPortrait1 s"
    and "input_ready e codec (int (length payload))"
  shows "\<exists>s1. list1 s1 = ds \<and> live s1 = live s \<and> fed_with codec payload (new_calls s s1) \<and>
           startDecoder_loop (Suc fuel) e wake 1 codec s =
             res_bind (drainOutputBuffer fuel e 1 codec True s1) (\<lambda>(ret, s2).
               if \<not> ret then Ok (heap (-2) s2) else startDecoder_loop fuel e wake 1 codec (heap (-2) s2))"
proof -
  have q: "queue 1 s = d # ds" using assms(2) by (simp add: queue_def)
  note g = getData_head [OF _ q assms(3,4), of wake, simplified]
  let ?s1 = "popped 1 s"
  define idx where "idx = ans e (trace ?s1 @ [Codec (Codec_dequeueInput codec)])"
  let ?tr = "[Codec (Codec_dequeueInput codec), Codec (Codec_getInput codec idx),
              Codec (Room_memcpy idx payload), Codec (Codec_queueInput codec idx 0 (int (length payload)) 0 0)]"
  let ?s2 = "?s1\<lparr>trace := trace ?s1 @ ?tr\<rparr>"
  have m: "rd (payload @ [mark, flag]) (int (length payload)) = Ok mark"
    by (simp add: rd_def)
  have r: "0 \<le> idx" "ans e (trace ?s1 @ [Codec (Codec_dequeueInput codec), Codec (Codec_getInput codec idx)]) \<noteq> 0"
    "int (length payload) \<le> fst (ans_info e (trace ?s1 @ [Codec (Codec_dequeueInput codec), Codec (Codec_getInput codec idx)]))"
    using assms(8) unfolding input_ready_def idx_def
    by (metis, metis append.assoc append_Cons append_Nil, metis append.assoc append_Cons append_Nil)
  have f: "feedInputBuffer e codec (Some (payload @ [mark, flag])) 0 (int (length payload)) 0 0 ?s1 = Ok (True, ?s2)"
    using feedInputBuffer_fed [OF r(1) idx_def r(2,3), of "payload @ [mark, flag]"] by simp
  have c: "curPortrait 1 ?s1 = isCurPortrait1 s" "prePortrait 1 ?s1 = isPrePortrait1 s"
    by (simp_all add: curPortrait_def prePortrait_def popped_def upd_queue_def)
  have p: "feed_sps_pps fuel e 1 codec ?s1 = Ok ?s1"
    using assms(7) c by (simp add: feed_sps_pps_def)
  have w: "win 1 s = win1 s" "\<not> (mark = 1 \<and> \<not> curPortrait 1 ?s1)" "\<not> (mark = 2 \<and> curPortrait 1 ?s1)"
    using assms(6) c by (auto simp: win_def mismatch_def)
  have "startDecoder_loop (Suc fuel) e wake 1 codec s =
      res_bind (drainOutputBuffer fuel e 1 codec True ?s2) (\<lambda>(ret, s2).
        if \<not> ret then Ok (heap (-2) s2) else startDecoder_loop fuel e wake 1 codec (heap (-2) s2))"
    unfolding startDecoder_loop.simps g w(1)
    using assms(1) m f p w(2,3)
    by (auto simp: d feedInputBufferAndDrainOutputBuffer_def Let_def cong: if_cong)
  moreover have "list1 ?s2 = ds" using assms(2) by (simp add: popped_def upd_queue_def)
  moreover have "fed_with codec payload (new_calls s ?s2)"
    by (simp add: fed_with_def new_calls_def)
  ultimately show ?thesis by (intro exI [of _ ?s2]) simp
qed

definition ready_env :: env where
  "ready_env = \<lparr>ans = (\<lambda>h. 1), ans_bytes = (\<lambda>h. []), ans_str = (\<lambda>h. ''''), ans_info = (\<lambda>h. (100, 0))\<rparr>"

lemma decoder_feeds_payload_witness:
  "\<exists>s1. list1 s1 = [] \<and> fed_with 5 [7, 8] (new_calls (md1 [\<lparr>data = Some [7, 8, 1, 1], size_of = 4\<rparr>]) s1)"
proof -
  let ?d = "\<lparr>data = Some [7, 8, 1, 1], size_of = 4\<rparr>"
  have "\<exists>s1. list1 s1 = [] \<and> live s1 = live (md1 [?d]) \<and> fed_with 5 [7, 8] (new_calls (md1 [?d]) s1) \<and>
      startDecoder_loop (Suc 0) ready_env (\<lambda>t. t) 1 5 (md1 [?d]) =
        res_bind (drainOutputBuffer 0 ready_env 1 5 True s1) (\<lambda>(ret, s2).
          if \<not> ret then Ok (heap (-2) s2) else startDecoder_loop 0 ready_env (\<lambda>t. t) 1 5 (heap (-2) s2))"
    by (rule decoder_feeds_payload [where mark = 1 and flag = 1])
       (simp_all add: wf_data_def keyd_def mismatch_def input_ready_def ready_env_def)
  then show ?thesis by blast
qed

text \<open>The two clients do not disturb one another: what is put into or taken from one client's queue, and
  whatever the wait of the other lets happen to it, leaves the other queue as it is.\<close>

theorem clients_isolated:
  fixes s :: "'a md_scheme"
  assumes "is_client c" "is_client d" "c \<noteq> d"
  shows "(putData c bs n s = Ok s' \<longrightarrow> queue d s' = queue d s) \<and>
         (getData c wake s = Ok (r, s') \<and> (\<forall>t. queue d (wake t) = queue d t) \<longrightarrow> queue d s' = queue d s)"
proof (intro conjI impI)
  have q: "queue d (upd_queue c f t) = queue d t" for f and t :: "'a md_scheme" by (rule queues.slot_other [OF assms])
  have c: "(c = 1 \<or> c = 2) = True" using assms(1) by (simp add: is_client_def)
  assume "putData c bs n s = Ok s'"
  then show "queue d s' = queue d s"
    unfolding putData_def c if_True by (auto simp: res_map_Ok_iff Let_def q)
next
  assume "getData c wake s = Ok (r, s') \<and> (\<forall>t. queue d (wake t) = queue d t)"
  then show "queue d s' = queue d s" using getData_queue_other [OF _ assms] by blast
qed

theorem clients_isolated_witness:
  "\<exists>s'. putData 1 [0, 0, 1, 1] 4 md0 = Ok s' \<and> queue 2 s' = []"
proof -
  have "\<exists>s'. putData 1 [0, 0, 1, 1] 4 md0 = Ok s'" by (simp add: putData_def slice_def Let_def)
  then obtain s' where s': "putData 1 [0, 0, 1, 1] 4 md0 = Ok s'" ..
  then show ?thesis
    using clients_isolated [of 1 2 "[0, 0, 1, 1]" 4 md0 s'] by (auto simp: is_client_def queue_def)
qed

end
