(* ===== verification/Media_Server.thy ===== *)
theory Media_Server
  imports Frame_Queue
begin

section \<open>The receiving side of the connection (MediaServer.cpp)\<close>

text \<open>
  Sockets of the server, the accept loop and the receiver thread. \<open>inbox fd\<close> is what the peer
  of a connected socket has sent and will send before it closes; \<open>read\<close> delivers a non-empty
  prefix of it, as long as the environment decides, nothing at its end, and nothing where the
  environment answers with an error. A loop that consumes no input has fuel.
\<close>

unbundle bit_operations_syntax

record sv = md +
  inbox :: "int \<Rightarrow> byte list"
  data_buffer1 :: cbuf
  data_buffer2 :: cbuf

definition DATA_BUFFER :: nat where "DATA_BUFFER = 2073600"
definition EXIT_SUCCESS :: int where "EXIT_SUCCESS = 0"
definition EXIT_FAILURE :: int where "EXIT_FAILURE = 1"

subsection \<open>read_data\<close>

definition sys_read :: "env \<Rightarrow> int \<Rightarrow> nat \<Rightarrow> 'a sv_scheme \<Rightarrow> byte list \<times> 'a sv_scheme" where
  "sys_read e fd n s =
     (let (k, s1) = ask e (Sys (Sys_read fd (int n))) s in
      if k < 0 then ([], s1)
      else let m = min n (max 1 (nat k)) in
        (take m (inbox s1 fd), s1\<lparr>inbox := (inbox s1)(fd := drop m (inbox s1 fd))\<rparr>))"

text \<open>
  The loop of \<open>read_data\<close> with \<open>tot\<close> bytes read; \<open>rcap\<close> and \<open>dcap\<close> are the sizes of
  \<open>read_buffer\<close> and \<open>data_buffer\<close>. The two overloads, on \<open>char\<close> and on \<open>uint8_t\<close>, are the same code.
\<close>

function read_data_loop ::
  "env \<Rightarrow> int \<Rightarrow> nat \<Rightarrow> nat \<Rightarrow> nat \<Rightarrow> nat \<Rightarrow> cbuf \<Rightarrow> 'a sv_scheme \<Rightarrow> (int \<times> cbuf \<times> 'a sv_scheme) res" where
  "read_data_loop e fd want rcap dcap tot buf s =
     (if tot < want then
        let (bs, s1) = sys_read e fd (want - tot) s in
        if rcap < length bs then Undef
        else if bs = [] then Ok (EXIT_FAILURE, buf, s1)
        else res_bind (memcpy_to dcap buf tot bs)
               (\<lambda>buf'. read_data_loop e fd want rcap dcap (tot + length bs) buf' s1)
      else Ok (EXIT_SUCCESS, buf, s))"
  by pat_completeness auto
termination
  by (relation "measure (\<lambda>(e, fd, want, rcap, dcap, tot, buf, s). want - tot)")
     (auto intro!: diff_less_mono2)

declare read_data_loop.simps [simp del]

definition read_data ::
  "env \<Rightarrow> int \<Rightarrow> int \<Rightarrow> nat \<Rightarrow> nat \<Rightarrow> cbuf \<Rightarrow> 'a sv_scheme \<Rightarrow> (int \<times> cbuf \<times> 'a sv_scheme) res" where
  "read_data e fd want rcap dcap buf s = read_data_loop e fd (nat want) rcap dcap 0 buf s"

text \<open>No read on a socket fails.\<close>

definition reads_succeed :: "env \<Rightarrow> int \<Rightarrow> bool" where
  "reads_succeed e fd = (\<forall>h n. 0 \<le> ans e (h @ [Sys (Sys_read fd n)]))"

text \<open>The state after reading from a socket: the input is consumed and the trace is longer.\<close>

definition consumed :: "int \<Rightarrow> nat \<Rightarrow> 'a sv_scheme \<Rightarrow> 'a sv_scheme \<Rightarrow> bool" where
  "consumed fd n s s' =
     (\<exists>tr. s' = s\<lparr>trace := trace s @ tr, inbox := (inbox s)(fd := drop n (inbox s fd))\<rparr>)"

lemma sv_upd_twice:
  "s\<lparr>trace := t1, inbox := i1\<rparr>\<lparr>trace := t2, inbox := i2\<rparr> = s\<lparr>trace := t2, inbox := i2\<rparr>"
  by simp

lemma sys_read_ok:
  assumes "reads_succeed e fd" "inbox s fd \<noteq> []" "0 < n"
  shows "\<exists>m s1. sys_read e fd n s = (take m (inbox s fd), s1) \<and> 0 < m \<and> m \<le> n \<and> consumed fd m s s1"
proof -
  have k: "0 \<le> ans e (trace s @ [Sys (Sys_read fd (int n))])" (is "0 \<le> ?k")
    using assms(1) by (simp add: reads_succeed_def)
  let ?m = "min n (max 1 (nat ?k))"
  have "sys_read e fd n s = (take ?m (inbox s fd),
      s\<lparr>trace := trace s @ [Sys (Sys_read fd (int n))], inbox := (inbox s)(fd := drop ?m (inbox s fd))\<rparr>)"
    using k by (simp add: sys_read_def Let_def) (simp add: call_def)
  moreover have "0 < ?m" "?m \<le> n" using assms(3) by auto
  ultimately show ?thesis unfolding consumed_def by blast
qed

lemma consumed_trans:
  assumes "consumed fd m s s1" "consumed fd n s1 s2"
  shows "consumed fd (m + n) s s2"
proof -
  obtain t1 where 1: "s1 = s\<lparr>trace := trace s @ t1, inbox := (inbox s)(fd := drop m (inbox s fd))\<rparr>"
    using assms(1) by (auto simp: consumed_def)
  obtain t2 where 2: "s2 = s1\<lparr>trace := trace s1 @ t2, inbox := (inbox s1)(fd := drop n (inbox s1 fd))\<rparr>"
    using assms(2) by (auto simp: consumed_def)
  have "s2 = s\<lparr>trace := trace s @ (t1 @ t2), inbox := (inbox s)(fd := drop (m + n) (inbox s fd))\<rparr>"
    by (simp add: 1 2 add.commute)
  then show ?thesis unfolding consumed_def by blast
qed

lemma consumed_inbox: "consumed fd n s s1 \<Longrightarrow> inbox s1 fd = drop n (inbox s fd)"
  by (auto simp: consumed_def)

lemma consumed_0: "consumed fd 0 s s"
  unfolding consumed_def by (intro exI [of _ "[]"]) simp

text \<open>
  Enough input and room: whatever the pieces \<open>read\<close> delivers, the loop ends with the bytes in
  place and exactly them consumed.
\<close>

lemma read_data_loop_ok:
  assumes "reads_succeed e fd"
  shows "want - tot \<le> length (inbox s fd) \<Longrightarrow> want \<le> dcap \<Longrightarrow> want \<le> rcap \<Longrightarrow> tot \<le> want \<Longrightarrow>
    length pre = tot \<Longrightarrow> prefix_of buf tot = pre \<Longrightarrow>
    \<exists>buf' s'. read_data_loop e fd want rcap dcap tot buf s = Ok (EXIT_SUCCESS, buf', s') \<and>
       prefix_of buf' want = pre @ take (want - tot) (inbox s fd) \<and> consumed fd (want - tot) s s'"
proof (induction "want - tot" arbitrary: tot buf s pre rule: less_induct)
  case less
  show ?case
  proof (cases "tot < want")
    case False
    then show ?thesis
      using less.prems by (subst read_data_loop.simps) (simp add: consumed_0)
  next
    case True
    then have "inbox s fd \<noteq> []" using less.prems(1) by auto
    from sys_read_ok [OF assms this, of "want - tot"] True
    obtain m s1 where r: "sys_read e fd (want - tot) s = (take m (inbox s fd), s1)"
      and m: "0 < m" "m \<le> want - tot" and c: "consumed fd m s s1" by auto
    let ?bs = "take m (inbox s fd)"
    have lb: "length ?bs = m" using m less.prems(1) by simp
    obtain buf1 where b: "memcpy_to dcap buf tot ?bs = Ok buf1"
      using memcpy_to_Ok_iff [of dcap buf tot ?bs] lb m less.prems(2) by auto
    have "prefix_of buf1 (tot + m) = pre @ ?bs"
      using memcpy_to_prefix [OF b less.prems(6)] lb by simp
    moreover have "want - (tot + m) < want - tot" using m True by simp
    moreover have "want - (tot + m) \<le> length (inbox s1 fd)"
      using less.prems(1) m consumed_inbox [OF c] by simp
    moreover have "length (pre @ ?bs) = tot + m" using less.prems(5) lb by simp
    moreover have "tot + m \<le> want" using m True by simp
    ultimately obtain buf' s' where
      l: "read_data_loop e fd want rcap dcap (tot + m) buf1 s1 = Ok (EXIT_SUCCESS, buf', s')"
      and p: "prefix_of buf' want = (pre @ ?bs) @ take (want - (tot + m)) (inbox s1 fd)"
      and c': "consumed fd (want - (tot + m)) s1 s'"
      using less.hyps [of "tot + m" s1 "pre @ ?bs" buf1] less.prems(2,3) m True by auto
    have "want - tot = m + (want - (tot + m))" using m True by simp
    then have "?bs @ take (want - (tot + m)) (inbox s1 fd) = take (want - tot) (inbox s fd)"
      using consumed_inbox [OF c] by (metis take_add)
    moreover have "consumed fd (want - tot) s s'"
      using consumed_trans [OF c c'] m True by simp
    moreover have "?bs \<noteq> []" "\<not> rcap < m" using lb m True less.prems(3) by auto
    then have "read_data_loop e fd want rcap dcap tot buf s = Ok (EXIT_SUCCESS, buf', s')"
      using True r b l lb by (subst read_data_loop.simps) (simp add: Let_def)
    ultimately show ?thesis using p by auto
  qed
qed

lemma read_data_complete_lemma:
  assumes "reads_succeed e fd" and "nat want \<le> length (inbox s fd)" and "nat want \<le> dcap" and "nat want \<le> rcap"
  shows "\<exists>buf' s'. read_data e fd want rcap dcap buf s = Ok (EXIT_SUCCESS, buf', s') \<and>
           prefix_of buf' (nat want) = take (nat want) (inbox s fd) \<and> consumed fd (nat want) s s'"
  using read_data_loop_ok [OF assms(1), of "nat want" 0 s dcap rcap "[]" buf] assms(2-4)
  by (simp add: read_data_def prefix_of_def)

text \<open>C11: However the network cuts the stream into pieces, \<open>read_data\<close> on a socket with enough input and
  buffers of at least the wanted size returns success with exactly the wanted bytes at the start
  of the data buffer, in order, and leaves exactly the rest of the stream to be read; a wanted
  length of zero or less succeeds at once.\<close>

theorem read_data_complete:
  assumes "reads_succeed e fd" and "nat want \<le> length (inbox s fd)" and "nat want \<le> dcap" and "nat want \<le> rcap"
  shows "\<exists>buf' s'. read_data e fd want rcap dcap buf s = Ok (EXIT_SUCCESS, buf', s') \<and>
           prefix_of buf' (nat want) = take (nat want) (inbox s fd) \<and> consumed fd (nat want) s s'"
  using assms by (rule read_data_complete_lemma)

subsection \<open>Sockets of the server\<close>

definition close_client_sock :: "int \<Rightarrow> 'a net_scheme \<Rightarrow> 'a net_scheme" where
  "close_client_sock which_client s =
     (if which_client = 1 then
        if client_sock_fd1 s \<noteq> -1
        then (call (Sys (Sys_close (client_sock_fd1 s))) s)\<lparr>client_sock_fd1 := -1\<rparr> else s
      else
        if client_sock_fd2 s \<noteq> -1
        then (call (Sys (Sys_close (client_sock_fd2 s))) s)\<lparr>client_sock_fd2 := -1\<rparr> else s)"

definition server_close_all :: "'a net_scheme \<Rightarrow> 'a net_scheme" where
  "server_close_all s = close_server_sock (close_client_sock 2 (close_client_sock 1 s))"

definition BACKLOG :: int where "BACKLOG = 1"

text \<open>
  \<open>while (1)\<close> of \<open>server_bind\<close>: one unit of fuel per port tried. \<open>++SERVER_PROT\<close> is an \<open>int\<close>
  increment, undefined at the largest \<open>int\<close>; \<open>htons\<close> keeps 16 bits.
\<close>

fun server_bind :: "nat \<Rightarrow> env \<Rightarrow> 'a net_scheme \<Rightarrow> (bool \<times> 'a net_scheme) res" where
  "server_bind 0 e s = NoFuel"
| "server_bind (Suc fuel) e s =
     (if SERVER_PROT s = 2 ^ 31 - 1 then Undef else
      let s1 = s\<lparr>SERVER_PROT := SERVER_PROT s + 1\<rparr>;
          (fd, s2) = ask e (Sys (Sys_socket 1)) s1;
          s3 = s2\<lparr>server_sock_fd := fd\<rparr> in
      if fd = -1 then Ok (False, s3) else
      let (err, s4) = ask e (Sys (Sys_setsockopt fd)) s3 in
      if err = -1 then Ok (False, close_server_sock s4) else
      let (err, s5) = ask e (Sys (Sys_bind fd (SERVER_PROT s4 mod 65536))) s4 in
      if err = -1 then server_bind fuel e (close_server_sock s5) else
      let (err, s6) = ask e (Sys (Sys_listen fd BACKLOG)) s5 in
      if err = -1 then Ok (False, close_server_sock s6)
      else Ok (True, s6))"

text \<open>
  The choice of the slot for an accepted socket: the client number (0 where no slot is taken) and
  the new state. A replaced client is closed, and its thread is given three seconds to end.
\<close>

definition take_slot :: "int \<Rightarrow> int \<Rightarrow> 'a net_scheme \<Rightarrow> int \<times> 'a net_scheme" where
  "take_slot which_client fd s =
     (which_client, if which_client = 1 then s\<lparr>client_sock_fd1 := fd\<rparr> else s\<lparr>client_sock_fd2 := fd\<rparr>)"

definition replace_slot :: "int \<Rightarrow> int \<Rightarrow> 'a net_scheme \<Rightarrow> int \<times> 'a net_scheme" where
  "replace_slot which_client fd s =
     take_slot which_client fd (call (Sys (Sys_sleep 3)) (close_client_sock which_client s))"

definition onlyOne :: "'a net_scheme \<Rightarrow> bool" where
  "onlyOne s = (if what_is_device s \<noteq> 4 then True else if MAXIMUM_NUMBER s = 1 then True else False)"

definition assign_client :: "int \<Rightarrow> 'a net_scheme \<Rightarrow> int \<times> 'a net_scheme" where
  "assign_client fd s =
     (if onlyOne s then
        if client_sock_fd1 s = -1 then take_slot 1 fd s else replace_slot 1 fd s
      else
        if client_sock_fd1 s = -1 then take_slot 1 fd s
        else if client_sock_fd2 s = -1 then take_slot 2 fd s
        else if which_replace s = 1 then replace_slot 1 fd s
        else if which_replace s = 2 then replace_slot 2 fd s
        else (0, s))"

text \<open>
  The accept loop; one unit of fuel per connection or error. \<open>others\<close> is what other threads did
  while \<open>accept\<close> waited.
\<close>

fun accept_loop :: "nat \<Rightarrow> env \<Rightarrow> ('a net_scheme \<Rightarrow> 'a net_scheme) \<Rightarrow> 'a net_scheme \<Rightarrow> 'a net_scheme res" where
  "accept_loop 0 e others s = NoFuel"
| "accept_loop (Suc fuel) e others s =
     (if \<not> server_is_live s then Ok s else
      let (fd, s1) = ask e (Sys (Sys_accept (server_sock_fd s))) s;
          s2 = others s1 in
      if fd = -1 then accept_loop fuel e others s2
      else if \<not> server_is_live s2 then Ok s2
      else
        let (which_client, s3) = assign_client fd s2
        in accept_loop fuel e others (call (Thread (Thread_create ''receive_data'' which_client)) s3))"

definition server_accept :: "nat \<Rightarrow> env \<Rightarrow> ('a net_scheme \<Rightarrow> 'a net_scheme) \<Rightarrow> 'a net_scheme \<Rightarrow> 'a net_scheme res" where
  "server_accept fuel e others s =
     res_bind (server_bind fuel e s) (\<lambda>(ok, s1).
       if \<not> ok then Ok s1
       else res_map (\<lambda>s2. server_close_all (call (Sys (Sys_sleep 3)) s2))
              (accept_loop fuel e others (s1\<lparr>server_is_live := True\<rparr>)))"

text \<open>\<open>server_close\<close> wakes the accept loop by connecting to it.\<close>

definition server_close :: "env \<Rightarrow> 'a net_scheme \<Rightarrow> 'a net_scheme res" where
  "server_close e s =
     (if \<not> server_is_live s then Ok s
      else res_map snd (client_connect e (s\<lparr>server_is_live := False\<rparr>)))"

definition stop_playing :: "int \<Rightarrow> 'a mc_scheme \<Rightarrow> 'a mc_scheme" where
  "stop_playing which_client s =
     call (Thread (Mutex_unlock which_client)) (call (Thread (Cond_signal which_client))
       (call (Thread (Mutex_lock which_client)) (upd_win which_client (\<lambda>w. w\<lparr>w_isPlaying := False\<rparr>) s)))"

definition close_all_clients :: "'a mc_scheme \<Rightarrow> 'a mc_scheme" where
  "close_all_clients s =
     (let s1 = close_client_sock 2 (close_client_sock 1 s)
      in if MEDIA_CODEC_GO_JNI s1 then stop_playing 2 (stop_playing 1 s1) else s1)"

definition close_client :: "int \<Rightarrow> 'a net_scheme \<Rightarrow> 'a net_scheme" where
  "close_client which_client s =
     (if which_client = 1 \<or> which_client = 2 then close_client_sock which_client s else s)"

subsection \<open>The client information\<close>

definition mime_size :: nat where "mime_size = 50"

text \<open>\<open>memset(arr, 0, 50); memcpy(arr, p, n)\<close> of a string into an array of 50.\<close>

definition copy50 :: "string \<Rightarrow> string res" where
  "copy50 p = (if length p \<le> mime_size then Ok (p @ replicate (mime_size - length p) nul) else Undef)"

text \<open>
  One token of the information, with \<open>count\<close> already incremented: 1 the device name, 2 the MIME
  type, 3 and 4 width and height, 5 the orientation. The second result is the local variable
  \<open>orientation\<close>.
\<close>

definition info_token :: "env \<Rightarrow> int \<Rightarrow> nat \<Rightarrow> string \<Rightarrow> int \<Rightarrow> 'a mc_scheme \<Rightarrow> (int \<times> 'a mc_scheme) res" where
  "info_token e which_client count p orientation s =
     (if count = 2 then
        res_bind (findDecoderCodecName e CODE_find_decoder_codec_name which_client p (int (length p)) s)
          (\<lambda>(name, s1).
        res_bind (copy50 p) (\<lambda>m.
        res_bind (copy50 name) (\<lambda>n.
          Ok (orientation,
              upd_win which_client (\<lambda>w. w\<lparr>w_mimeLength := int (length p), w_codecNameLength := int (length name),
                                        w_mime := m, w_codecName := n\<rparr>) s1))))
      else if count = 3 then Ok (orientation, upd_win which_client (\<lambda>w. w\<lparr>w_width := atoi p\<rparr>) s)
      else if count = 4 then Ok (orientation, upd_win which_client (\<lambda>w. w\<lparr>w_height := atoi p\<rparr>) s)
      else if count = 5 then Ok (atoi p, upd_win which_client (\<lambda>w. w\<lparr>w_orientation := atoi p\<rparr>) s)
      else Ok (orientation, s))"

text \<open>The loop over the tokens \<open>strsep\<close> returns; an empty one is not counted.\<close>

fun info_tokens :: "env \<Rightarrow> int \<Rightarrow> nat \<Rightarrow> string list \<Rightarrow> int \<Rightarrow> 'a mc_scheme \<Rightarrow> (int \<times> 'a mc_scheme) res" where
  "info_tokens e which_client count [] orientation s = Ok (orientation, s)"
| "info_tokens e which_client count (p # ps) orientation s =
     (if p = [] then info_tokens e which_client count ps orientation s
      else res_bind (info_token e which_client (count + 1) p orientation s)
             (\<lambda>(orientation', s1). info_tokens e which_client (count + 1) ps orientation' s1))"

definition client_data_buffer :: "int \<Rightarrow> 'a sv_scheme \<Rightarrow> cbuf" where
  "client_data_buffer which_client s = (if which_client = 1 then data_buffer1 s else data_buffer2 s)"

definition set_data_buffer :: "int \<Rightarrow> cbuf \<Rightarrow> 'a sv_scheme \<Rightarrow> 'a sv_scheme" where
  "set_data_buffer which_client buf s =
     (if which_client = 1 then s\<lparr>data_buffer1 := buf\<rparr> else s\<lparr>data_buffer2 := buf\<rparr>)"

text \<open>\<open>read_data\<close> into the big buffer of the client.\<close>

definition read_big :: "env \<Rightarrow> int \<Rightarrow> int \<Rightarrow> int \<Rightarrow> 'a sv_scheme \<Rightarrow> (int \<times> 'a sv_scheme) res" where
  "read_big e which_client fd want s =
     res_map (\<lambda>(ret, buf, s1). (ret, set_data_buffer which_client buf s1))
       (read_data e fd want DATA_BUFFER DATA_BUFFER (client_data_buffer which_client s) s)"

definition set_info :: "int \<Rightarrow> int \<Rightarrow> string \<Rightarrow> 'a net_scheme \<Rightarrow> 'a net_scheme" where
  "set_info which_client len info s =
     (if which_client = 1 then s\<lparr>client_info_length1 := len, client_info1 := info\<rparr>
      else s\<lparr>client_info_length2 := len, client_info2 := info\<rparr>)"

text \<open>
  Lines 443 to 548 of \<open>receive_data\<close>; \<open>client_info\<close> and \<open>temp_client_info\<close> are arrays of 1024
  characters, and the wanted length comes from the peer. The result is \<open>orientation\<close>.
\<close>

definition receive_info :: "env \<Rightarrow> int \<Rightarrow> int \<Rightarrow> 'a sv_scheme \<Rightarrow> (int \<times> 'a sv_scheme) res" where
  "receive_info e which_client fd s =
     res_bind (read_big e which_client fd 4 s) (\<lambda>(ret, s1).
     if ret \<noteq> EXIT_SUCCESS then Ok (1, s1) else
     let want = sint (uint8tToInt (client_data_buffer which_client s1)) in
     if want \<le> 0 then Ok (1, s1) else
     res_bind (read_data e fd want client_info_size client_info_size [] s1) (\<lambda>(ret, buf, s2).
     if ret \<noteq> EXIT_SUCCESS then Ok (1, s2) else
     let chars = bytes_to_chars (prefix_of buf client_info_size);
         s3 = set_info which_client want (take (nat want) chars @ replicate (client_info_size - nat want) nul) s2 in
     res_bind (c_string chars) (\<lambda>info.
     res_bind (setData e 1005 which_client info want s3) (\<lambda>s4.
     if MEDIA_CODEC_GO_JNI s4
     then info_tokens e which_client 0 (strsep_loop info ''@@@@@'') 1 s4
     else Ok (1, s4)))))"

subsection \<open>The configuration frames and the start of the decoder\<close>

definition receive_one_sps :: "env \<Rightarrow> int \<Rightarrow> int \<Rightarrow> int \<Rightarrow> 'a sv_scheme \<Rightarrow> 'a sv_scheme res" where
  "receive_one_sps e which_client fd orientation s =
     res_bind (read_big e which_client fd 4 s) (\<lambda>(ret, s1).
     if ret \<noteq> EXIT_SUCCESS then Ok s1 else
     let want = sint (uint8tToInt (client_data_buffer which_client s1)) in
     res_bind (read_big e which_client fd want s1) (\<lambda>(ret, s2).
     if ret \<noteq> EXIT_SUCCESS then Ok s2
     else setSpsPps which_client orientation
            (prefix_of (client_data_buffer which_client s2) (nat want)) want s2))"

definition receive_sps_pps :: "env \<Rightarrow> int \<Rightarrow> int \<Rightarrow> int \<Rightarrow> 'a sv_scheme \<Rightarrow> 'a sv_scheme res" where
  "receive_sps_pps e which_client fd orientation s =
     (if \<not> MEDIA_CODEC_GO_JNI s then Ok s else
      res_bind (receive_one_sps e which_client fd orientation s) (\<lambda>s1.
      res_bind (receive_one_sps e which_client fd (if orientation = 1 then 2 else 1) s1) (\<lambda>s2.
      res_bind (createMediaCodec e which_client (setOrientation which_client orientation s2)) (\<lambda>s3.
      res_map (startMediaCodec which_client 0) (createMediaFormat which_client orientation s3)))))"

subsection \<open>The frame loop\<close>

text \<open>What a complete message leads to.\<close>

definition dispatch :: "env \<Rightarrow> int \<Rightarrow> byte list \<Rightarrow> int \<Rightarrow> 'a md_scheme \<Rightarrow> 'a md_scheme res" where
  "dispatch e which_client msg want s =
     (if msg ! 0 = 255 then
        res_map (\<lambda>s1. if MEDIA_CODEC_GO_JNI s1 then setOrientation which_client 1 s1 else s1)
          (changeWindow e which_client 1 s)
      else if msg ! 0 = 254 then
        res_map (\<lambda>s1. if MEDIA_CODEC_GO_JNI s1 then setOrientation which_client 2 s1 else s1)
          (changeWindow e which_client 2 s)
      else if MEDIA_CODEC_GO_JNI s then putData which_client msg want s
      else Ok (putDataToJava e which_client msg want s))"

fun receive_loop :: "nat \<Rightarrow> env \<Rightarrow> int \<Rightarrow> int \<Rightarrow> 'a sv_scheme \<Rightarrow> 'a sv_scheme res" where
  "receive_loop 0 e which_client fd s = NoFuel"
| "receive_loop (Suc fuel) e which_client fd s =
     res_bind (read_big e which_client fd 4 s) (\<lambda>(ret, s1).
     if ret \<noteq> EXIT_SUCCESS then Ok s1 else
     let want = sint (uint8tToInt (client_data_buffer which_client s1)) in
     if want \<le> 0 then receive_loop fuel e which_client fd s1
     else
       res_bind (read_big e which_client fd want s1) (\<lambda>(ret, s2).
       if ret \<noteq> EXIT_SUCCESS then Ok s2
       else res_bind (dispatch e which_client (prefix_of (client_data_buffer which_client s2) (nat want)) want s2)
              (receive_loop fuel e which_client fd)))"

definition receive_end :: "env \<Rightarrow> int \<Rightarrow> 'a mc_scheme \<Rightarrow> 'a mc_scheme res" where
  "receive_end e which_client s =
     (let s1 = close_client_sock which_client s;
          s2 = (if MEDIA_CODEC_GO_JNI s1 then stop_playing which_client s1 else s1)
      in disconnect e which_client s2)"

definition receive_data :: "nat \<Rightarrow> env \<Rightarrow> int \<Rightarrow> 'a sv_scheme \<Rightarrow> 'a sv_scheme res" where
  "receive_data fuel e arg s =
     (if arg \<noteq> 1 \<and> arg \<noteq> 2 then Ok s else
      let fd = (if arg = 1 then client_sock_fd1 s else client_sock_fd2 s);
          s1 = set_info arg 0 (replicate client_info_size nul) s in
      res_bind (connect e arg s1) (\<lambda>s2.
      res_bind (receive_info e arg fd s2) (\<lambda>(orientation, s3).
      res_bind (receive_sps_pps e arg fd orientation s3) (\<lambda>s4.
      res_bind (receive_loop fuel e arg fd s4) (receive_end e arg)))))"

subsection \<open>The stream of messages\<close>

lemma sv_simps [simp]:
  "client_data_buffer c (set_data_buffer c buf s) = buf"
  "inbox (set_data_buffer c buf s) = inbox s" "trace (set_data_buffer c buf s) = trace s"
  "live (set_data_buffer c buf s) = live s" "queue k (set_data_buffer c buf s) = queue k s"
  "MEDIA_CODEC_GO_JNI (set_data_buffer c buf s) = MEDIA_CODEC_GO_JNI s"
  "win k (set_data_buffer c buf s) = win k s" "curPortrait k (set_data_buffer c buf s) = curPortrait k s"
  by (simp_all add: client_data_buffer_def set_data_buffer_def queue_def win_def curPortrait_def)

lemma consumed_rest:
  assumes "consumed fd n s s'"
  shows "live s' = live s" "queue k s' = queue k s" "MEDIA_CODEC_GO_JNI s' = MEDIA_CODEC_GO_JNI s"
    "win k s' = win k s" "curPortrait k s' = curPortrait k s"
  using assms by (auto simp: consumed_def queue_def win_def curPortrait_def)

lemma read_big_ok:
  assumes "reads_succeed e fd" "n \<le> length (inbox s fd)" "n \<le> DATA_BUFFER"
  obtains s' where "read_big e c fd (int n) s = Ok (EXIT_SUCCESS, s')"
    and "prefix_of (client_data_buffer c s') n = take n (inbox s fd)" and "inbox s' fd = drop n (inbox s fd)"
    and "live s' = live s" "queue k s' = queue k s" "MEDIA_CODEC_GO_JNI s' = MEDIA_CODEC_GO_JNI s" "win c s' = win c s"
proof -
  obtain buf s1 where r: "read_data e fd (int n) DATA_BUFFER DATA_BUFFER (client_data_buffer c s) s
      = Ok (EXIT_SUCCESS, buf, s1)" and p: "prefix_of buf n = take n (inbox s fd)" and c: "consumed fd n s s1"
    using read_data_complete_lemma [of e fd "int n" s DATA_BUFFER DATA_BUFFER "client_data_buffer c s"] assms by auto
  show thesis
    by (rule that [of "set_data_buffer c buf s1"])
       (use r p c consumed_inbox [OF c] consumed_rest [OF c] in \<open>simp_all add: read_big_def\<close>)
qed

lemma read_data_eof:
  assumes "reads_succeed e fd" "inbox s fd = []" "0 < n"
  shows "\<exists>s'. read_data e fd n rcap dcap buf s = Ok (EXIT_FAILURE, buf, s') \<and> consumed fd 0 s s'"
proof -
  have "0 \<le> ans e (trace s @ [Sys (Sys_read fd n)])" using assms(1) by (simp add: reads_succeed_def)
  then have "sys_read e fd (nat n) s = ([], s\<lparr>trace := trace s @ [Sys (Sys_read fd n)], inbox := (inbox s)(fd := [])\<rparr>)"
    using assms(2,3) by (simp add: sys_read_def Let_def) (simp add: call_def)
  then show ?thesis
    using assms(2,3) unfolding read_data_def
    by (subst read_data_loop.simps) (auto simp: consumed_def)
qed

lemma read_big_eof:
  assumes "reads_succeed e fd" "inbox s fd = []" "0 < n"
  obtains s' where "read_big e c fd n s = Ok (EXIT_FAILURE, s')"
    and "live s' = live s" "queue k s' = queue k s"
proof -
  obtain s1 where r: "read_data e fd n DATA_BUFFER DATA_BUFFER (client_data_buffer c s) s
      = Ok (EXIT_FAILURE, client_data_buffer c s, s1)" and c: "consumed fd 0 s s1"
    using read_data_eof [OF assms] by blast
  show thesis
    by (rule that [of "set_data_buffer c (client_data_buffer c s) s1"])
       (use r consumed_rest [OF c] in \<open>simp_all add: read_big_def\<close>)
qed

lemma uint8tToInt_prefix: "prefix_of buf 4 = le4 v \<Longrightarrow> uint8tToInt buf = v"
  using uint8tToInt_value [of buf] le_value_le4 [of v] by (simp add: word_unat_eq_iff)

lemma sint_small: "0 \<le> n \<Longrightarrow> n < 2 ^ 31 \<Longrightarrow> sint (word_of_int n :: u32) = n"
  using to_int32_id [of n] by (simp add: to_int32_def)

text \<open>A message of the protocol: the length, then that many bytes.\<close>

definition message :: "byte list \<Rightarrow> byte list" where
  "message m = le4 (word_of_int (int (length m))) @ m"

definition frame_message :: "byte list \<Rightarrow> bool" where
  "frame_message m = (m \<noteq> [] \<and> length m \<le> DATA_BUFFER \<and> hd m \<noteq> 255 \<and> hd m \<noteq> 254)"

definition queued :: "byte list \<Rightarrow> Data" where
  "queued m = \<lparr>data = Some m, size_of = int (length m)\<rparr>"

lemma sv_frame:
  "MEDIA_CODEC_GO_JNI (upd_queue c f t) = MEDIA_CODEC_GO_JNI t" "inbox (upd_queue c f t) = inbox t"
  "MEDIA_CODEC_GO_JNI (call x t) = MEDIA_CODEC_GO_JNI t" "inbox (call x t) = inbox t"
  "MEDIA_CODEC_GO_JNI (heap d t) = MEDIA_CODEC_GO_JNI t" "inbox (heap d t) = inbox t"
  by (simp_all add: call_def heap_def upd_queue_def)

lemma putData_queued:
  fixes s :: "'a sv_scheme"
  assumes "c = 1 \<or> c = 2"
  obtains s' where "putData c m (int (length m)) s = Ok s'" "queue c s' = queue c s @ [queued m]"
    "live s' = live s + 2" "MEDIA_CODEC_GO_JNI s' = MEDIA_CODEC_GO_JNI s" "inbox s' = inbox s"
proof (rule that)
  show "putData c m (int (length m)) s = Ok (call (Thread (Mutex_unlock c)) (call (Thread (Cond_signal c))
        (upd_queue c (\<lambda>q. q @ [queued m]) (call (Thread (Mutex_lock c)) (heap 2 s)))))"
    using assms by (auto simp: putData_def slice_all Let_def queued_def)
qed (use assms in \<open>simp_all add: sv_frame\<close>)

lemma DATA_BUFFER_bounds: "4 \<le> DATA_BUFFER" "int DATA_BUFFER < 2 ^ 31"
  by (simp_all add: DATA_BUFFER_def)

text \<open>One message: its length is read, then exactly the message.\<close>

lemma read_message:
  fixes s :: "'a sv_scheme"
  assumes e: "reads_succeed e fd" and n: "length m \<le> DATA_BUFFER" and i: "inbox s fd = message m @ rest"
  obtains s1 s2 where "read_big e c fd 4 s = Ok (EXIT_SUCCESS, s1)"
    and "sint (uint8tToInt (client_data_buffer c s1)) = int (length m)"
    and "read_big e c fd (int (length m)) s1 = Ok (EXIT_SUCCESS, s2)"
    and "prefix_of (client_data_buffer c s2) (length m) = m" and "inbox s2 fd = rest"
    and "live s2 = live s" "queue c s2 = queue c s" "MEDIA_CODEC_GO_JNI s2 = MEDIA_CODEC_GO_JNI s" "win c s2 = win c s"
proof -
  let ?n = "length m"
  have i4: "4 \<le> length (inbox s fd)" "4 \<le> DATA_BUFFER" using i DATA_BUFFER_bounds by (auto simp: message_def)
  obtain s1 where r1: "read_big e c fd (int 4) s = Ok (EXIT_SUCCESS, s1)"
    and p1: "prefix_of (client_data_buffer c s1) 4 = take 4 (inbox s fd)"
    and i1: "inbox s1 fd = drop 4 (inbox s fd)"
    and k1: "live s1 = live s" "queue c s1 = queue c s" "MEDIA_CODEC_GO_JNI s1 = MEDIA_CODEC_GO_JNI s" "win c s1 = win c s"
    by (rule read_big_ok [OF e i4, of c c])
  have w: "sint (uint8tToInt (client_data_buffer c s1)) = int ?n"
    using uint8tToInt_prefix [of "client_data_buffer c s1" "word_of_int (int ?n)"] p1 i n
      sint_small [of "int ?n"] DATA_BUFFER_bounds by (simp add: message_def)
  have "?n \<le> length (inbox s1 fd)" using i1 i by (simp add: message_def)
  then obtain s2 where r2: "read_big e c fd (int ?n) s1 = Ok (EXIT_SUCCESS, s2)"
    and p2: "prefix_of (client_data_buffer c s2) ?n = take ?n (inbox s1 fd)"
    and i2: "inbox s2 fd = drop ?n (inbox s1 fd)"
    and k2: "live s2 = live s1" "queue c s2 = queue c s1" "MEDIA_CODEC_GO_JNI s2 = MEDIA_CODEC_GO_JNI s1" "win c s2 = win c s1"
    using n by (rule read_big_ok [OF e, of ?n s1 c c]) blast
  show thesis
    by (rule that [of s1 s2]) (use r1 w r2 p2 i1 i2 i k1 k2 in \<open>simp_all add: message_def\<close>)
qed

text \<open>The loop reads a message whole, dispatches it and goes on behind it.\<close>

lemma receive_loop_frame:
  fixes s :: "'a sv_scheme"
  assumes e: "reads_succeed e fd" and c: "c = 1 \<or> c = 2" and j: "MEDIA_CODEC_GO_JNI s"
    and m: "frame_message m" and i: "inbox s fd = message m @ rest"
  obtains s' where "receive_loop (Suc fuel) e c fd s = receive_loop fuel e c fd s'"
    "inbox s' fd = rest" "queue c s' = queue c s @ [queued m]" "live s' = live s + 2" "MEDIA_CODEC_GO_JNI s'"
proof -
  let ?n = "length m"
  have n: "?n \<le> DATA_BUFFER" "0 < ?n" using m by (auto simp: frame_message_def)
  obtain s1 s2 where r1: "read_big e c fd 4 s = Ok (EXIT_SUCCESS, s1)"
    and w: "sint (uint8tToInt (client_data_buffer c s1)) = int ?n"
    and r2: "read_big e c fd (int ?n) s1 = Ok (EXIT_SUCCESS, s2)"
    and p2: "prefix_of (client_data_buffer c s2) ?n = m" and i2: "inbox s2 fd = rest"
    and k2: "live s2 = live s" "queue c s2 = queue c s" "MEDIA_CODEC_GO_JNI s2 = MEDIA_CODEC_GO_JNI s" "win c s2 = win c s"
    by (rule read_message [OF e n(1) i, of c])
  have h: "m ! 0 \<noteq> 255" "m ! 0 \<noteq> 254" using m by (auto simp: frame_message_def hd_conv_nth)
  obtain s3 where p: "putData c m (int ?n) s2 = Ok s3" and q: "queue c s3 = queue c s2 @ [queued m]"
    "live s3 = live s2 + 2" "MEDIA_CODEC_GO_JNI s3 = MEDIA_CODEC_GO_JNI s2" "inbox s3 = inbox s2"
    by (rule putData_queued [OF c, of m s2])
  have s3: "queue c s3 = queue c s @ [queued m]" "live s3 = live s + 2" "MEDIA_CODEC_GO_JNI s3" "inbox s3 fd = rest"
    using q k2 i2 j by simp_all
  have d: "dispatch e c m (int ?n) s2 = Ok s3"
    using p h k2(3) j by (simp add: dispatch_def)
  have "receive_loop (Suc fuel) e c fd s = receive_loop fuel e c fd s3"
    using r1 r2 d w p2 n by (simp add: Let_def)
  then show thesis using s3 that by blast
qed

text \<open>One configuration frame, received.\<close>

lemma receive_one_sps_message:
  fixes s :: "'a sv_scheme"
  assumes e: "reads_succeed e fd" and c: "c = 1 \<or> c = 2" and n: "length m \<le> DATA_BUFFER"
    and i: "inbox s fd = message m @ rest"
  obtains s' where "receive_one_sps e c fd orientation s = Ok s'" and "inbox s' fd = rest"
    and "win c s' = (if orientation = 1 then (win c s)\<lparr>w_sps_pps_portrait := Some m, w_sps_pps_size_portrait := int (length m)\<rparr>
                     else (win c s)\<lparr>w_sps_pps_landscape := Some m, w_sps_pps_size_landscape := int (length m)\<rparr>)"
    and "live s' = live s + 1" and "MEDIA_CODEC_GO_JNI s' = MEDIA_CODEC_GO_JNI s"
proof -
  obtain s1 s2 where r: "read_big e c fd 4 s = Ok (EXIT_SUCCESS, s1)"
    "sint (uint8tToInt (client_data_buffer c s1)) = int (length m)"
    "read_big e c fd (int (length m)) s1 = Ok (EXIT_SUCCESS, s2)"
    "prefix_of (client_data_buffer c s2) (length m) = m"
    and k: "inbox s2 fd = rest" "live s2 = live s" "queue c s2 = queue c s" "MEDIA_CODEC_GO_JNI s2 = MEDIA_CODEC_GO_JNI s"
      "win c s2 = win c s"
    by (rule read_message [OF e n i, of c])
  let ?f = "if orientation = 1 then (\<lambda>w. w\<lparr>w_sps_pps_portrait := Some m, w_sps_pps_size_portrait := int (length m)\<rparr>)
            else (\<lambda>w. w\<lparr>w_sps_pps_landscape := Some m, w_sps_pps_size_landscape := int (length m)\<rparr>)"
  have one: "receive_one_sps e c fd orientation s = Ok (heap 1 (upd_win c ?f s2))"
    using r c by (simp add: receive_one_sps_def setSpsPps_def slice_all)
  show thesis
    by (rule that [OF one]) (use k c in \<open>auto simp: sv_frame upd_win_def heap_def win_def\<close>)
qed

lemma receive_loop_queues_lemma:
  fixes s :: "'a sv_scheme"
  assumes "reads_succeed e fd" and "c = 1 \<or> c = 2" and "MEDIA_CODEC_GO_JNI s"
    and "\<forall>m \<in> set ms. frame_message m" and "inbox s fd = concat (map message ms)"
    and "length ms < fuel"
  shows "\<exists>s'. receive_loop fuel e c fd s = Ok s' \<and> queue c s' = queue c s @ map queued ms \<and>
           live s' = live s + 2 * int (length ms) \<and> inbox s' fd = []"
  using assms(3-6)
proof (induction ms arbitrary: s fuel)
  case Nil
  then obtain f where f: "fuel = Suc f" by (cases fuel) auto
  obtain s1 where "read_big e c fd 4 s = Ok (EXIT_FAILURE, s1)" "live s1 = live s" "queue c s1 = queue c s"
    using read_big_eof [OF assms(1), of s 4 c c] Nil.prems by auto
  moreover have "inbox s1 fd = []" if "read_big e c fd 4 s = Ok (EXIT_FAILURE, s1)"
    using that Nil.prems read_data_eof [OF assms(1), of s 4 DATA_BUFFER DATA_BUFFER "client_data_buffer c s"]
    by (auto simp: read_big_def consumed_def)
  ultimately show ?case by (simp add: f EXIT_FAILURE_def EXIT_SUCCESS_def)
next
  case (Cons m ms)
  then obtain f where f: "fuel = Suc f" by (cases fuel) auto
  from Cons.prems have "frame_message m" "inbox s fd = message m @ concat (map message ms)" by simp_all
  from receive_loop_frame [OF assms(1,2) Cons.prems(1) this, of f] obtain s1 where
    s1: "receive_loop fuel e c fd s = receive_loop f e c fd s1" "inbox s1 fd = concat (map message ms)"
      "queue c s1 = queue c s @ [queued m]" "live s1 = live s + 2" "MEDIA_CODEC_GO_JNI s1"
    unfolding f by blast
  from Cons.IH [OF s1(5) _ s1(2), of f] Cons.prems f s1 show ?case by auto
qed

text \<open>The receiver's loop is the inverse of the framing: from a stream that is a sequence of messages,
  cut into any pieces by the network, and then the end of the connection, the decoder's queue gets
  exactly the messages, in order, nothing lost and nothing added, and the loop ends (one unit of
  fuel per message and one for the end is enough).\<close>

theorem receive_loop_queues:
  fixes s :: "'a sv_scheme"
  assumes "reads_succeed e fd" and "c = 1 \<or> c = 2" and "MEDIA_CODEC_GO_JNI s"
    and "\<forall>m \<in> set ms. frame_message m" and "inbox s fd = concat (map message ms)"
    and "length ms < fuel"
  shows "\<exists>s'. receive_loop fuel e c fd s = Ok s' \<and> queue c s' = queue c s @ map queued ms \<and>
           live s' = live s + 2 * int (length ms) \<and> inbox s' fd = []"
  using assms by (rule receive_loop_queues_lemma)

definition sv0 :: sv where
  "sv0 = md.extend md0 (sv.fields (\<lambda>_. []) [] [])"

lemma sv0_simps [simp]:
  "trace sv0 = []" "live sv0 = 0" "list1 sv0 = []" "inbox sv0 = (\<lambda>_. [])" "MEDIA_CODEC_GO_JNI sv0"
  "win1 sv0 = window0" "win2 sv0 = window0" "queue k sv0 = []" "data_buffer1 sv0 = []"
  "myJniJavaObject sv0 = 2" "jni2JavaMethodID sv0 = 3" "server_is_live sv0" "IP sv0 = replicate 15 nul"
  "SERVER_PROT sv0 = 5857" "server_sock_fd sv0 = -1" "client_sock_fd1 sv0 = -1" "client_sock_fd2 sv0 = -1"
  "what_is_device sv0 = 1" "MAXIMUM_NUMBER sv0 = 1" "which_replace sv0 = 1"
  by (simp_all add: sv0_def md0_def mc0_def net0_def md.defs mc.defs net.defs jni.defs world.defs sv.defs queue_def)

lemma receive_loop_queues_witness:
  "\<exists>s'. receive_loop 3 ok_env 1 5 (sv0\<lparr>inbox := (\<lambda>_. [3, 0, 0, 0, 7, 1, 1, 4, 0, 0, 0, 8, 9, 1, 0])\<rparr>) = Ok s' \<and>
        queue 1 s' = [queued [7, 1, 1], queued [8, 9, 1, 0]] \<and> live s' = 4"
  (is "\<exists>s'. receive_loop _ _ _ _ ?s = _ \<and> _ \<and> _")
proof -
  have "reads_succeed ok_env 5" by (simp add: reads_succeed_def ok_env_def)
  moreover have "MEDIA_CODEC_GO_JNI ?s" "queue 1 ?s = []" "live ?s = 0" by (simp_all add: queue_def)
  moreover have "\<forall>m \<in> set [[7, 1, 1], [8, 9, 1, 0]]. frame_message m"
    by (simp add: frame_message_def DATA_BUFFER_def)
  moreover have "inbox ?s 5 = concat (map message [[7, 1, 1], [8, 9, 1, 0]])"
    by (simp add: message_def le4_def)
  ultimately have "\<exists>s'. receive_loop 3 ok_env 1 5 ?s = Ok s' \<and>
      queue 1 s' = queue 1 ?s @ map queued [[7, 1, 1], [8, 9, 1, 0]] \<and>
      live s' = live ?s + 2 * int (length [[7, 1, 1], [8, 9, 1, 0 :: byte]]) \<and> inbox s' 5 = []"
    by (intro receive_loop_queues) simp_all
  with \<open>queue 1 ?s = []\<close> \<open>live ?s = 0\<close> show ?thesis
    by (simp del: receive_loop.simps) blast
qed

lemma read_data_complete_witness:
  "\<exists>buf' s'. read_data ok_env 5 3 10 10 [] (sv0\<lparr>inbox := (\<lambda>_. [1, 2, 3, 4])\<rparr>) = Ok (EXIT_SUCCESS, buf', s') \<and>
     prefix_of buf' 3 = [1, 2, 3]"
  using read_data_complete [of ok_env 5 3 "sv0\<lparr>inbox := (\<lambda>_. [1, 2, 3, 4])\<rparr>" 10 10 "[]"]
  by (simp add: reads_succeed_def ok_env_def) blast

subsection \<open>Lengths the buffers cannot hold\<close>

lemma read_data_loop_overflow:
  assumes "reads_succeed e fd"
  shows "dcap < want \<Longrightarrow> dcap < tot + length (inbox s fd) \<Longrightarrow> tot \<le> dcap \<Longrightarrow>
    read_data_loop e fd want rcap dcap tot buf s = Undef"
proof (induction "want - tot" arbitrary: tot buf s rule: less_induct)
  case less
  then have ne: "inbox s fd \<noteq> []" and lt: "tot < want" by auto
  from sys_read_ok [OF assms ne, of "want - tot"] lt
  obtain m s1 where r: "sys_read e fd (want - tot) s = (take m (inbox s fd), s1)"
    and m: "0 < m" "m \<le> want - tot" and c: "consumed fd m s s1" by auto
  let ?bs = "take m (inbox s fd)"
  have bs: "?bs \<noteq> []" using ne m by simp
  show ?case
  proof (cases "rcap < length ?bs \<or> dcap < tot + length ?bs")
    case True
    then show ?thesis
      using lt r bs by (subst read_data_loop.simps) (auto simp: Let_def memcpy_to_def)
  next
    case False
    then obtain buf1 where b: "memcpy_to dcap buf tot ?bs = Ok buf1" by (auto simp: memcpy_to_def)
    have "read_data_loop e fd want rcap dcap (tot + length ?bs) buf1 s1 = Undef"
    proof (rule less.hyps)
      show "want - (tot + length ?bs) < want - tot" using bs lt by (intro diff_less_mono2) auto
      show "dcap < tot + length ?bs + length (inbox s1 fd)"
        using less.prems(2) consumed_inbox [OF c] by (simp add: min_def split: if_splits)
    qed (use less.prems False in auto)
    then show ?thesis
      using lt r bs b False by (subst read_data_loop.simps) (simp add: Let_def)
  qed
qed

text \<open>The length a peer announces is not compared with the size of a buffer: when it announces more
  than the data buffer holds and sends more than that, \<open>read_data\<close> writes past the end of the
  buffer, however the bytes arrive (a \<open>char[1024]\<close> on the stack for the client information).\<close>

theorem read_data_overflow:
  assumes "reads_succeed e fd" and "dcap < nat want" and "dcap < length (inbox s fd)"
  shows "read_data e fd want rcap dcap buf s = Undef"
  using read_data_loop_overflow [OF assms(1), of dcap "nat want" 0 s rcap buf] assms(2,3)
  by (simp add: read_data_def)

lemma read_data_overflow_witness:
  "read_data ok_env 5 2000 1024 1024 [] (sv0\<lparr>inbox := (\<lambda>_. replicate 1500 65)\<rparr>) = Undef"
  by (rule read_data_overflow) (simp_all add: reads_succeed_def ok_env_def)

subsection \<open>Sockets\<close>

lemma client_slot_call [simp]:
  "client_sock_fd1 (close_client_sock 2 s) = client_sock_fd1 s"
  "client_sock_fd2 (close_client_sock 1 s) = client_sock_fd2 s"
  "client_sock_fd1 (close_client_sock 1 s) = -1" "client_sock_fd2 (close_client_sock 2 s) = -1"
  by (simp_all add: close_client_sock_def)

definition slot :: "int \<Rightarrow> 'a net_scheme \<Rightarrow> int" where
  "slot which_client s = (if which_client = 1 then client_sock_fd1 s else client_sock_fd2 s)"

text \<open>A new connection gets a slot of its own: the slot reported holds its socket, the other slot is
  unchanged, and a socket the slot held before is closed first. In one-client mode it is always slot
  1; with two clients a free slot is used while there is one. Only with both slots taken and a
  replacement choice other than 1 and 2 is the connection given no slot, and nothing changes.\<close>

theorem assign_client_correct:
  assumes "assign_client fd s = (w, s')"
  shows "(w = 0 \<and> s' = s \<and> \<not> onlyOne s \<and> slot 1 s \<noteq> -1 \<and> slot 2 s \<noteq> -1 \<and> which_replace s \<notin> {1, 2}) \<or>
         (w \<in> {1, 2} \<and> slot w s' = fd \<and> slot (3 - w) s' = slot (3 - w) s \<and>
          (slot w s \<noteq> -1 \<longrightarrow> Sys (Sys_close (slot w s)) \<in> set (new_calls s s')) \<and>
          (onlyOne s \<longrightarrow> w = 1) \<and>
          (\<not> onlyOne s \<and> (slot 1 s = -1 \<or> slot 2 s = -1) \<longrightarrow> slot w s = -1))"
  using assms
  by (auto simp: assign_client_def take_slot_def replace_slot_def slot_def close_client_sock_def
      new_calls_def split: if_splits)

lemma assign_client_correct_witness:
  "slot 1 (snd (assign_client 8 sv0)) = 8"
proof -
  obtain w s' where a: "assign_client 8 sv0 = (w, s')" by (cases "assign_client 8 sv0")
  from assign_client_correct [OF a] a show ?thesis
    by (auto simp: onlyOne_def)
qed

text \<open>Stopping the server loses its listening socket: \<open>server_close\<close> wakes the accept loop through
  \<open>client_connect\<close>, which stores its own socket in \<open>server_sock_fd\<close> and closes that one, so the
  listening descriptor is never closed and the variable the accept loop closes at its end is -1.\<close>

theorem server_close_loses_listener:
  assumes "server_is_live s" and "server_sock_fd s = fd" and "server_close e s = Ok s'"
    and "ans e (trace s @ [Sys (Sys_socket 1)]) \<noteq> fd"
  shows "\<not> server_is_live s' \<and> server_sock_fd s' = -1 \<and> Sys (Sys_close fd) \<notin> set (new_calls s s')"
  using assms
  by (auto simp: server_close_def client_connect_def Let_def res_simps close_server_sock_def new_calls_def
      split: if_splits)

lemma server_close_loses_listener_witness:
  "\<exists>s'. server_close connect_env (sv0\<lparr>server_sock_fd := 4\<rparr>) = Ok s' \<and> server_sock_fd s' = -1 \<and>
        Sys (Sys_close 4) \<notin> set (trace s')"
proof -
  let ?s = "sv0\<lparr>server_sock_fd := 4\<rparr>"
  obtain s' where s': "server_close connect_env ?s = Ok s'"
    by (simp add: server_close_def client_connect_def Let_def c_string_def connect_env_def nul_def)
  from server_close_loses_listener [OF _ _ this] s' show ?thesis
    by (auto simp: connect_env_def new_calls_def)
qed

definition is_opened :: "ncall \<Rightarrow> bool" where
  "is_opened c = (case c of Sys (Sys_setsockopt fd) \<Rightarrow> True | _ \<Rightarrow> False)"

definition is_closed :: "ncall \<Rightarrow> bool" where
  "is_closed c = (case c of Sys (Sys_close fd) \<Rightarrow> True | _ \<Rightarrow> False)"

lemma net_upd [simp]:
  "SERVER_PROT (close_server_sock s) = SERVER_PROT s"
  by (simp add: close_server_sock_def)

lemma trace_close_server_sock:
  "server_sock_fd s \<noteq> -1 \<Longrightarrow> trace (close_server_sock s) = trace s @ [Sys (Sys_close (server_sock_fd s))]"
  by (simp add: close_server_sock_def)

lemma if_chain_Ok:
  "(if z then Undef else if a then Ok x1 else if b then Ok x2 else if c then R else if d then Ok x3 else Ok x4) = Ok y
   \<Longrightarrow> (a \<and> y = x1) \<or> (\<not> a \<and> y = x2) \<or> (\<not> a \<and> R = Ok y) \<or> (\<not> a \<and> y = x3) \<or> (\<not> a \<and> y = x4)"
  by (auto split: if_splits)

lemma server_bind_trace:
  "server_bind fuel e s = Ok (ok, s') \<Longrightarrow>
   \<exists>tr. trace s' = trace s @ tr \<and>
     count_calls is_opened tr = count_calls is_closed tr + (if ok then 1 else 0) \<and>
     (ok \<longrightarrow> server_sock_fd s' \<noteq> -1 \<and>
        (\<exists>t. tr = t @ [Sys (Sys_bind (server_sock_fd s') (SERVER_PROT s' mod 65536)), Sys (Sys_listen (server_sock_fd s') BACKLOG)])) \<and>
     (\<not> ok \<longrightarrow> server_sock_fd s' = -1) \<and> SERVER_PROT s < SERVER_PROT s' \<and> SERVER_PROT s' \<le> SERVER_PROT s + int fuel"
proof (induction fuel arbitrary: s)
  case 0
  then show ?case by simp
next
  case (Suc fuel)
  let ?s1 = "s\<lparr>SERVER_PROT := SERVER_PROT s + 1\<rparr>" and ?p = "SERVER_PROT s + 1"
  define fd where "fd = ans e (trace s @ [Sys (Sys_socket 1)])"
  let ?s3 = "(call (Sys (Sys_socket 1)) ?s1)\<lparr>server_sock_fd := fd\<rparr>"
  let ?s4 = "call (Sys (Sys_setsockopt fd)) ?s3"
  let ?s5 = "call (Sys (Sys_bind fd (?p mod 65536))) ?s4"
  let ?s6 = "call (Sys (Sys_listen fd BACKLOG)) ?s5"
  note io = is_opened_def is_closed_def
  define A where "A \<longleftrightarrow> ans e (trace ?s4) = -1"
  define B where "B \<longleftrightarrow> ans e (trace ?s5) = -1"
  define C where "C \<longleftrightarrow> ans e (trace ?s6) = -1"
  have eq: "server_bind (Suc fuel) e s =
      (if SERVER_PROT s = 2 ^ 31 - 1 then Undef else if fd = -1 then Ok (False, ?s3)
       else if A then Ok (False, close_server_sock ?s4)
       else if B then server_bind fuel e (close_server_sock ?s5)
       else if C then Ok (False, close_server_sock ?s6) else Ok (True, ?s6))"
    by (simp add: Let_def fd_def A_def B_def C_def)
  from Suc.prems have r: "(if SERVER_PROT s = 2 ^ 31 - 1 then Undef else if fd = -1 then Ok (False, ?s3)
       else if A then Ok (False, close_server_sock ?s4)
       else if B then server_bind fuel e (close_server_sock ?s5)
       else if C then Ok (False, close_server_sock ?s6) else Ok (True, ?s6)) = Ok (ok, s')"
    unfolding eq .
  consider
      (a) "fd = -1" "ok = False" "s' = ?s3"
    | (b) "fd \<noteq> -1" "ok = False" "s' = close_server_sock ?s4"
    | (c) "fd \<noteq> -1" "server_bind fuel e (close_server_sock ?s5) = Ok (ok, s')"
    | (d) "fd \<noteq> -1" "ok = False" "s' = close_server_sock ?s6"
    | (f) "fd \<noteq> -1" "ok = True" "s' = ?s6"
    using if_chain_Ok [OF r] unfolding prod.inject by blast
  then show ?case
  proof cases
    case a
    then show ?thesis by (auto simp: io)
  next
    case b
    then show ?thesis by (auto simp: trace_close_server_sock io)
  next
    case c
    from Suc.IH [OF c(2)] c(1) show ?thesis
      by (auto simp: trace_close_server_sock io)
  next
    case d
    then show ?thesis by (auto simp: trace_close_server_sock io)
  next
    case f
    then show ?thesis
      by (intro exI [of _ "[Sys (Sys_socket 1), Sys (Sys_setsockopt fd)] @
            [Sys (Sys_bind fd (?p mod 65536)), Sys (Sys_listen fd BACKLOG)]"]) (auto simp: io)
  qed
qed

text \<open>\<open>server_bind\<close> that returns succeeds exactly with a socket in \<open>server_sock_fd\<close>, bound to the low
  16 bits of the new \<open>SERVER_PROT\<close> and listening; every socket it opened for an earlier port is
  closed again, and it moved on by at most one port per try.\<close>

theorem server_bind_result:
  assumes "server_bind fuel e s = Ok (ok, s')"
  shows "(ok \<longleftrightarrow> server_sock_fd s' \<noteq> -1) \<and>
         (ok \<longrightarrow> Sys (Sys_bind (server_sock_fd s') (SERVER_PROT s' mod 65536)) \<in> set (new_calls s s') \<and>
                last (new_calls s s') = Sys (Sys_listen (server_sock_fd s') BACKLOG)) \<and>
         count_calls is_opened (new_calls s s') = count_calls is_closed (new_calls s s') + (if ok then 1 else 0) \<and>
         SERVER_PROT s < SERVER_PROT s' \<and> SERVER_PROT s' \<le> SERVER_PROT s + int fuel"
  using server_bind_trace [OF assms] by (auto simp: new_calls_def)

lemma server_bind_result_witness:
  "\<exists>s'. server_bind 1 connect_env sv0 = Ok (True, s') \<and> SERVER_PROT s' = 5858"
proof -
  obtain s' where s': "server_bind 1 connect_env sv0 = Ok (True, s')"
    by (simp add: connect_env_def Let_def)
  from server_bind_result [OF this] s' show ?thesis by auto
qed

subsection \<open>Parsing the client information\<close>

text \<open>A field of the information: not empty, without the separator character and without NUL.\<close>

definition field_ok :: "string \<Rightarrow> bool" where
  "field_ok f = (f \<noteq> [] \<and> CHR ''@'' \<notin> set f \<and> nul \<notin> set f)"

definition separator :: string where "separator = ''@@@@@''"

definition info_string :: "string \<Rightarrow> string \<Rightarrow> int \<Rightarrow> int \<Rightarrow> int \<Rightarrow> string" where
  "info_string name mime width height orientation =
     name @ separator @ mime @ separator @ to_string width @ separator @ to_string height @ separator @
     to_string orientation"

lemma field_ok_to_string: "0 \<le> i \<Longrightarrow> field_ok (to_string i)"
  using to_string_chars [of i] by (simp add: field_ok_def)

lemma strsep_field:
  "field_ok f \<Longrightarrow> strsep_loop (f @ separator @ r) separator = f # [] # [] # [] # [] # strsep_loop r separator"
  "field_ok f \<Longrightarrow> strsep_loop f separator = [f]"
  "field_ok f \<Longrightarrow> strsep_loop (f @ CHR ''@'' # r) separator = f # strsep_loop r separator"
  by (auto simp: field_ok_def separator_def cstring_simps)

lemma info_tokens_empties:
  "info_tokens e c n ([] # ps) orient s = info_tokens e c n ps orient s"
  "field_ok f \<Longrightarrow> info_tokens e c n (f # ps) orient s =
     res_bind (info_token e c (Suc n) f orient s) (\<lambda>(o', s1). info_tokens e c (Suc n) ps o' s1)"
  by (simp_all add: field_ok_def)

definition set_mime :: "string \<Rightarrow> string \<Rightarrow> window \<Rightarrow> window" where
  "set_mime mime codec = (\<lambda>w. w\<lparr>w_mimeLength := int (length mime), w_codecNameLength := int (length codec),
     w_mime := mime @ replicate (50 - length mime) nul, w_codecName := codec @ replicate (50 - length codec) nul\<rparr>)"

lemma info_token_mime:
  assumes "findDecoderCodecName e CODE_find_decoder_codec_name c mime (int (length mime)) s = Ok (codec, s1)"
    and "length mime \<le> 50" "length codec \<le> 50"
  shows "info_token e c (Suc (Suc 0)) mime orient s = Ok (orient, upd_win c (set_mime mime codec) s1)"
  using assms by (simp add: info_token_def copy50_def mime_size_def set_mime_def)

lemma upd_win_twice: "upd_win c f (upd_win c g s) = upd_win c (\<lambda>w. f (g w)) s"
  unfolding upd_win_def by simp

lemma win_upd_win: "c = 1 \<or> c = 2 \<Longrightarrow> win c (upd_win c f s) = f (win c s)"
  by (auto simp: win_def upd_win_def)

text \<open>The information a sender announces (device name, MIME type, width, height, orientation, joined
  by five at-signs) is parsed into the fields of the client's window, and the orientation is the one
  the decoder starts with, for every device name and MIME type without an at-sign.\<close>

theorem info_parsed:
  assumes "field_ok name" "field_ok mime" "length mime \<le> 50" "length codec \<le> 50"
    and "0 \<le> wd" "wd < 2 ^ 31" "0 \<le> ht" "ht < 2 ^ 31" "0 \<le> orient" "orient < 2 ^ 31"
    and "findDecoderCodecName e CODE_find_decoder_codec_name c mime (int (length mime)) s = Ok (codec, s1)"
  shows "info_tokens e c 0 (strsep_loop (info_string name mime wd ht orient) ''@@@@@'') 1 s =
     Ok (orient, upd_win c (\<lambda>w. (set_mime mime codec w)\<lparr>w_width := wd, w_height := ht, w_orientation := orient\<rparr>) s1)"
proof -
  have f: "field_ok (to_string wd)" "field_ok (to_string ht)" "field_ok (to_string orient)"
    using assms field_ok_to_string by auto
  have t: "strsep_loop (info_string name mime wd ht orient) ''@@@@@'' =
      [name, [], [], [], [], mime, [], [], [], [], to_string wd, [], [], [], [], to_string ht, [], [], [], [], to_string orient]"
    using assms(1,2) f unfolding info_string_def separator_def [symmetric] by (simp add: strsep_field)
  have n: "info_token e c (Suc 0) name 1 s = Ok (1, s)" by (simp add: info_token_def)
  show ?thesis
    unfolding t using assms f n
    by (simp add: info_tokens_empties info_token_mime [OF assms(11,3,4)] del: info_tokens.simps(2))
       (simp add: info_token_def atoi_to_string upd_win_twice)
qed

text \<open>\<open>strsep\<close> takes its second argument as a set of characters, not as a separator string: a device
  name with an at-sign in it is split there, so the rest of the name is taken as the MIME type and
  every later field moves by one (the width is the number in the MIME type, the height is the
  width, and the orientation is the height).\<close>

theorem info_shifted:
  assumes "field_ok a" "field_ok b" "field_ok mime" "length b \<le> 50" "length codec \<le> 50"
    and "0 \<le> wd" "wd < 2 ^ 31" "0 \<le> ht" "ht < 2 ^ 31" "0 \<le> orient" "orient < 2 ^ 31"
    and "findDecoderCodecName e CODE_find_decoder_codec_name c b (int (length b)) s = Ok (codec, s1)"
  shows "info_tokens e c 0 (strsep_loop (info_string (a @ ''@'' @ b) mime wd ht orient) ''@@@@@'') 1 s =
     Ok (ht, upd_win c (\<lambda>w. (set_mime b codec w)\<lparr>w_width := atoi mime, w_height := wd, w_orientation := ht\<rparr>) s1)"
proof -
  have f: "field_ok (to_string wd)" "field_ok (to_string ht)" "field_ok (to_string orient)"
    using assms field_ok_to_string by auto
  have t: "strsep_loop (info_string (a @ ''@'' @ b) mime wd ht orient) ''@@@@@'' =
      [a, b, [], [], [], [], mime, [], [], [], [], to_string wd, [], [], [], [], to_string ht, [], [], [], [], to_string orient]"
    using assms(1-3) f unfolding info_string_def separator_def [symmetric] by (simp add: strsep_field)
  have n: "info_token e c (Suc 0) a 1 s = Ok (1, s)" by (simp add: info_token_def)
  show ?thesis
    unfolding t using assms f n
    by (simp add: info_tokens_empties info_token_mime [OF assms(12,4,5)] del: info_tokens.simps(2))
       (simp add: info_token_def atoi_to_string upd_win_twice)
qed

lemma findDecoderCodecName_jni_env:
  "\<exists>s1. findDecoderCodecName jni_env code 1 mime n sv0 = Ok ('''', s1)"
  by (simp add: findDecoderCodecName_def getEnv_def jni_env_def JNI_OK_def JNI_EDETACHED_def Let_def cstr_def)

lemma info_parsed_witness:
  "\<exists>s'. info_tokens jni_env 1 0 (strsep_loop (info_string ''ARS'' ''video/avc'' 1080 2244 1) ''@@@@@'') 1 sv0
          = Ok (1, s') \<and> w_width (win1 s') = 1080 \<and> w_height (win1 s') = 2244"
proof -
  obtain s1 where "findDecoderCodecName jni_env CODE_find_decoder_codec_name 1 ''video/avc'' (int (length ''video/avc'')) sv0 = Ok ('''', s1)"
    using findDecoderCodecName_jni_env by blast
  from info_parsed [OF _ _ _ _ _ _ _ _ _ _ this, of "''ARS''" 1080 2244 1] show ?thesis
    by (simp add: field_ok_def nul_def)
qed

lemma info_shifted_witness:
  "\<exists>s'. info_tokens jni_env 1 0 (strsep_loop (info_string (''A'' @ ''@'' @ ''B'') ''video/avc'' 1080 2244 1) ''@@@@@'') 1 sv0
          = Ok (2244, s') \<and> w_height (win1 s') = 1080"
proof -
  obtain s1 where "findDecoderCodecName jni_env CODE_find_decoder_codec_name 1 ''B'' (int (length ''B'')) sv0 = Ok ('''', s1)"
    using findDecoderCodecName_jni_env by blast
  from info_shifted [OF _ _ _ _ _ _ _ _ _ _ _ this, of "''A''" "''video/avc''" 1080 2244 1] show ?thesis
    by (simp add: field_ok_def nul_def)
qed

end
