(* ===== verification/Media_Server_Udp.thy ===== *)
theory Media_Server_Udp
  imports Media_Server
begin

section \<open>The datagram variant of the receiver (MediaServer.cpp)\<close>

text \<open>
  \<open>datagrams fd\<close> is what arrives on a datagram socket: \<open>recvfrom\<close> takes the first one, delivers
  as much of it as was asked for and drops the rest; with none left, or where the environment
  answers with an error, it delivers nothing.
\<close>

record udp = sv +
  datagrams :: "int \<Rightarrow> byte list list"
  data_buffer_temp :: cbuf

subsection \<open>Sockets\<close>

fun server_bind_udp :: "nat \<Rightarrow> env \<Rightarrow> 'a net_scheme \<Rightarrow> (bool \<times> 'a net_scheme) res" where
  "server_bind_udp 0 e s = NoFuel"
| "server_bind_udp (Suc fuel) e s =
     (if SERVER_PROT s = 2 ^ 31 - 1 then Undef else
      let s1 = s\<lparr>SERVER_PROT := SERVER_PROT s + 1\<rparr>;
          (fd, s2) = ask e (Sys (Sys_socket 2)) s1;
          s3 = s2\<lparr>server_sock_fd := fd\<rparr> in
      if fd = -1 then Ok (False, s3) else
      let (err, s4) = ask e (Sys (Sys_setsockopt fd)) s3 in
      if err = -1 then Ok (False, close_server_sock s4) else
      let (err, s5) = ask e (Sys (Sys_bind fd (SERVER_PROT s4 mod 65536))) s4 in
      if err = -1 then server_bind_udp fuel e (close_server_sock s5) else Ok (True, s5))"

subsection \<open>read_data_udp\<close>

definition sys_recvfrom :: "env \<Rightarrow> int \<Rightarrow> nat \<Rightarrow> 'a udp_scheme \<Rightarrow> byte list \<times> 'a udp_scheme" where
  "sys_recvfrom e fd n s =
     (let (k, s1) = ask e (Sys (Sys_recvfrom fd (int n))) s in
      if k < 0 then ([], s1)
      else case datagrams s1 fd of [] \<Rightarrow> ([], s1)
           | d # ds \<Rightarrow> (take n d, s1\<lparr>datagrams := (datagrams s1)(fd := ds)\<rparr>))"

function read_data_udp_loop ::
  "env \<Rightarrow> int \<Rightarrow> nat \<Rightarrow> nat \<Rightarrow> nat \<Rightarrow> nat \<Rightarrow> cbuf \<Rightarrow> 'a udp_scheme \<Rightarrow> (int \<times> cbuf \<times> 'a udp_scheme) res" where
  "read_data_udp_loop e fd want rcap dcap tot buf s =
     (if tot < want then
        let (bs, s1) = sys_recvfrom e fd (want - tot) s in
        if rcap < length bs then Undef
        else if bs = [] then Ok (EXIT_FAILURE, buf, s1)
        else res_bind (memcpy_to dcap buf tot bs)
               (\<lambda>buf'. read_data_udp_loop e fd want rcap dcap (tot + length bs) buf' s1)
      else Ok (EXIT_SUCCESS, buf, s))"
  by pat_completeness auto
termination
  by (relation "measure (\<lambda>(e, fd, want, rcap, dcap, tot, buf, s). want - tot)")
     (auto intro!: diff_less_mono2)

declare read_data_udp_loop.simps [simp del]

definition read_data_udp ::
  "env \<Rightarrow> int \<Rightarrow> int \<Rightarrow> nat \<Rightarrow> nat \<Rightarrow> cbuf \<Rightarrow> 'a udp_scheme \<Rightarrow> (int \<times> cbuf \<times> 'a udp_scheme) res" where
  "read_data_udp e fd want rcap dcap buf s = read_data_udp_loop e fd (nat want) rcap dcap 0 buf s"

definition read_big_udp :: "env \<Rightarrow> int \<Rightarrow> int \<Rightarrow> int \<Rightarrow> 'a udp_scheme \<Rightarrow> (int \<times> 'a udp_scheme) res" where
  "read_big_udp e which_client fd want s =
     res_map (\<lambda>(ret, buf, s1). (ret, set_data_buffer which_client buf s1))
       (read_data_udp e fd want DATA_BUFFER DATA_BUFFER (client_data_buffer which_client s) s)"

subsection \<open>The client information\<close>

text \<open>For client 1 the MIME type and the decoder are fixed strings here, whatever the peer sent.\<close>

definition info_token_udp :: "env \<Rightarrow> int \<Rightarrow> nat \<Rightarrow> string \<Rightarrow> int \<Rightarrow> 'a mc_scheme \<Rightarrow> (int \<times> 'a mc_scheme) res" where
  "info_token_udp e which_client count p orientation s =
     (if count = 2 \<and> which_client = 1 then
        res_bind (findDecoderCodecName e CODE_find_decoder_codec_name which_client p (int (length p)) s)
          (\<lambda>(name, s1).
        res_bind (copy50 ''video/avc'') (\<lambda>m.
        res_bind (copy50 ''OMX.qcom.video.decoder.avc'') (\<lambda>n.
          Ok (orientation,
              upd_win which_client (\<lambda>w. w\<lparr>w_mimeLength := int (length p), w_codecNameLength := int (length name),
                                        w_mime := m, w_codecName := n\<rparr>) s1))))
      else info_token e which_client count p orientation s)"

fun info_tokens_udp :: "env \<Rightarrow> int \<Rightarrow> nat \<Rightarrow> string list \<Rightarrow> int \<Rightarrow> 'a mc_scheme \<Rightarrow> (int \<times> 'a mc_scheme) res" where
  "info_tokens_udp e which_client count [] orientation s = Ok (orientation, s)"
| "info_tokens_udp e which_client count (p # ps) orientation s =
     (if p = [] then info_tokens_udp e which_client count ps orientation s
      else res_bind (info_token_udp e which_client (count + 1) p orientation s)
             (\<lambda>(orientation', s1). info_tokens_udp e which_client (count + 1) ps orientation' s1))"

text \<open>Java is told of the connection after the first read, whether it succeeded or not.\<close>

definition receive_info_udp :: "env \<Rightarrow> int \<Rightarrow> int \<Rightarrow> 'a udp_scheme \<Rightarrow> (int \<times> 'a udp_scheme) res" where
  "receive_info_udp e which_client fd s =
     res_bind (read_big_udp e which_client fd 4 s) (\<lambda>(ret, s0).
     res_bind (connect e which_client s0) (\<lambda>s1.
     if ret \<noteq> EXIT_SUCCESS then Ok (1, s1) else
     let want = sint (uint8tToInt (client_data_buffer which_client s1)) in
     if want \<le> 0 then Ok (1, s1) else
     res_bind (read_data_udp e fd want client_info_size client_info_size [] s1) (\<lambda>(ret, buf, s2).
     if ret \<noteq> EXIT_SUCCESS then Ok (1, s2) else
     let chars = bytes_to_chars (prefix_of buf client_info_size);
         s3 = set_info which_client want (take (nat want) chars @ replicate (client_info_size - nat want) nul) s2 in
     res_bind (c_string chars) (\<lambda>info.
     res_bind (setData e 1005 which_client info want s3) (\<lambda>s4.
     if MEDIA_CODEC_GO_JNI s4
     then info_tokens_udp e which_client 0 (strsep_loop info ''@@@@@'') 1 s4
     else Ok (1, s4))))))"

definition receive_one_sps_udp :: "env \<Rightarrow> int \<Rightarrow> int \<Rightarrow> int \<Rightarrow> 'a udp_scheme \<Rightarrow> 'a udp_scheme res" where
  "receive_one_sps_udp e which_client fd orientation s =
     res_bind (read_big_udp e which_client fd 4 s) (\<lambda>(ret, s1).
     if ret \<noteq> EXIT_SUCCESS then Ok s1 else
     let want = sint (uint8tToInt (client_data_buffer which_client s1)) in
     res_bind (read_big_udp e which_client fd want s1) (\<lambda>(ret, s2).
     if ret \<noteq> EXIT_SUCCESS then Ok s2
     else setSpsPps which_client orientation
            (prefix_of (client_data_buffer which_client s2) (nat want)) want s2))"

definition receive_sps_pps_udp :: "env \<Rightarrow> int \<Rightarrow> int \<Rightarrow> int \<Rightarrow> 'a udp_scheme \<Rightarrow> 'a udp_scheme res" where
  "receive_sps_pps_udp e which_client fd orientation s =
     (if \<not> MEDIA_CODEC_GO_JNI s then Ok s else
      res_bind (receive_one_sps_udp e which_client fd orientation s) (\<lambda>s1.
      res_bind (receive_one_sps_udp e which_client fd (if orientation = 1 then 2 else 1) s1) (\<lambda>s2.
      res_bind (createMediaCodec e which_client (setOrientation which_client orientation s2)) (\<lambda>s3.
      res_map (startMediaCodec which_client 0) (createMediaFormat which_client orientation s3)))))"

subsection \<open>The frame loop\<close>

text \<open>
  A frame announced with exactly 65506 bytes is put together from two reads in
  \<open>data_buffer_temp\<close>; \<open>ret\<close> is the result of the last read alone. The second length is not
  tested; the copies fail where it is negative or too large. The result holds the length that is passed on.
\<close>

definition read_frame_udp :: "env \<Rightarrow> int \<Rightarrow> int \<Rightarrow> int \<Rightarrow> 'a udp_scheme \<Rightarrow> (int \<times> int \<times> 'a udp_scheme) res" where
  "read_frame_udp e which_client fd want s =
     (if want \<noteq> 65506 then
        res_map (\<lambda>(ret, s1). (ret, want, s1)) (read_big_udp e which_client fd want s)
      else
        res_bind (read_big_udp e which_client fd want s) (\<lambda>(ret1, s1).
        res_bind (memcpy_to DATA_BUFFER (data_buffer_temp s1) 0
                    (prefix_of (client_data_buffer which_client s1) (nat want))) (\<lambda>t1.
        res_bind (read_big_udp e which_client fd 4 s1) (\<lambda>(ret2, s2).
        let want2 = sint (uint8tToInt (client_data_buffer which_client s2)) in
        res_bind (read_big_udp e which_client fd want2 s2) (\<lambda>(ret3, s3).
        if want2 < 0 then Undef else
        res_bind (memcpy_to DATA_BUFFER t1 65506
                    (prefix_of (client_data_buffer which_client s3) (nat want2))) (\<lambda>t2.
        res_bind (memcpy_to DATA_BUFFER (client_data_buffer which_client s3) 0
                    (prefix_of t2 (65506 + nat want2))) (\<lambda>buf.
          Ok (ret3, want2, set_data_buffer which_client buf (s3\<lparr>data_buffer_temp := t2\<rparr>)))))))))"

fun receive_loop_udp :: "nat \<Rightarrow> env \<Rightarrow> int \<Rightarrow> int \<Rightarrow> 'a udp_scheme \<Rightarrow> 'a udp_scheme res" where
  "receive_loop_udp 0 e which_client fd s = NoFuel"
| "receive_loop_udp (Suc fuel) e which_client fd s =
     res_bind (read_big_udp e which_client fd 4 s) (\<lambda>(ret, s1).
     if ret \<noteq> EXIT_SUCCESS then Ok s1 else
     let want = sint (uint8tToInt (client_data_buffer which_client s1)) in
     if want \<le> 0 \<or> 65506 < want then receive_loop_udp fuel e which_client fd s1
     else
       res_bind (read_frame_udp e which_client fd want s1) (\<lambda>(ret, want', s2).
       if ret \<noteq> EXIT_SUCCESS then Ok s2
       else res_bind (dispatch e which_client (prefix_of (client_data_buffer which_client s2) (max 1 (nat want'))) want' s2)
              (receive_loop_udp fuel e which_client fd)))"

definition receive_data_udp :: "nat \<Rightarrow> env \<Rightarrow> int \<Rightarrow> 'a udp_scheme \<Rightarrow> 'a udp_scheme res" where
  "receive_data_udp fuel e arg s =
     (if arg \<noteq> 1 \<and> arg \<noteq> 2 then Ok s else
      let fd = (if arg = 1 then client_sock_fd1 s else client_sock_fd2 s);
          s1 = set_info arg 0 (replicate client_info_size nul) s in
      res_bind (receive_info_udp e arg fd s1) (\<lambda>(orientation, s3).
      res_bind (receive_sps_pps_udp e arg fd orientation s3) (\<lambda>s4.
      res_bind (receive_loop_udp fuel e arg fd s4) (receive_end e arg))))"

text \<open>One socket serves as the server's and the client's.\<close>

definition server_accept_udp :: "nat \<Rightarrow> env \<Rightarrow> 'a udp_scheme \<Rightarrow> 'a udp_scheme res" where
  "server_accept_udp fuel e s =
     res_bind (server_bind_udp fuel e s) (\<lambda>(ok, s1).
       if \<not> ok then Ok s1
       else let (which_client, s2) = assign_client (server_sock_fd s1) s1
            in receive_data_udp fuel e which_client s2)"

subsection \<open>A frame sent twice\<close>

definition recvs_succeed :: "env \<Rightarrow> int \<Rightarrow> bool" where
  "recvs_succeed e fd = (\<forall>h n. 0 \<le> ans e (h @ [Sys (Sys_recvfrom fd n)]))"

lemma client_data_buffer_upd [simp]:
  "client_data_buffer c (s\<lparr>datagrams := x\<rparr>) = client_data_buffer c s"
  "client_data_buffer c (call y s) = client_data_buffer c s"
  "datagrams (call y s) = datagrams s" "datagrams (set_data_buffer c b s) = datagrams s"
  by (simp_all add: client_data_buffer_def set_data_buffer_def call_def)

text \<open>A datagram of at least the wanted size satisfies the whole read; what is left of it is gone.\<close>

lemma read_big_udp_one:
  assumes "recvs_succeed e fd" "datagrams s fd = d # ds" "0 < n" "n \<le> length d" "n \<le> DATA_BUFFER"
  obtains s' where "read_big_udp e c fd (int n) s = Ok (EXIT_SUCCESS, s')"
    and "prefix_of (client_data_buffer c s') n = take n d" and "datagrams s' fd = ds"
proof -
  let ?s1 = "(call (Sys (Sys_recvfrom fd (int n))) s)\<lparr>datagrams := (datagrams s)(fd := ds)\<rparr>"
  have "0 \<le> ans e (trace s @ [Sys (Sys_recvfrom fd (int n))])" using assms(1) by (simp add: recvs_succeed_def)
  then have r: "sys_recvfrom e fd n s = (take n d, ?s1)"
    using assms(2) by (simp add: sys_recvfrom_def Let_def)
  have l: "length (take n d) = n" "take n d \<noteq> []" using assms(3,4) by auto
  obtain b where b: "memcpy_to DATA_BUFFER (client_data_buffer c s) 0 (take n d) = Ok b"
    using memcpy_to_Ok_iff [of DATA_BUFFER _ 0 "take n d"] l assms(5) by auto
  have p: "prefix_of b n = take n d"
    using memcpy_to_prefix [OF b, of "[]"] l by (simp add: prefix_of_def)
  have "read_data_udp_loop e fd n DATA_BUFFER DATA_BUFFER 0 (client_data_buffer c s) s = Ok (EXIT_SUCCESS, b, ?s1)"
    using r b l assms(3,5) by (subst read_data_udp_loop.simps, subst read_data_udp_loop.simps) (simp add: Let_def)
  then show thesis
    by (intro that [of "set_data_buffer c b ?s1"]) (simp_all add: read_big_udp_def read_data_udp_def p)
qed

text \<open>Over datagrams a frame does not arrive as it was sent. The sender sends the whole frame (length
  and message) twice in single datagrams; the receiver takes four bytes of the first and loses the
  rest of it, then reads the message from the start of the second: what is passed on begins with the
  four length bytes and misses the last four bytes of the message, the orientation and the flag
  byte among them.\<close>

theorem udp_frame_shifted:
  assumes "recvs_succeed e fd" and "datagrams s fd = message m # message m # ds"
    and "4 < length m" and "length m < 65506"
  shows "\<exists>s2. datagrams s2 fd = ds \<and>
     receive_loop_udp (Suc fuel) e c fd s =
       res_bind (dispatch e c (le4 (word_of_int (int (length m))) @ take (length m - 4) m) (int (length m)) s2)
         (receive_loop_udp fuel e c fd)"
proof -
  let ?n = "length m"
  have lm: "length (message m) = ?n + 4" by (simp add: message_def)
  obtain s1 where r1: "read_big_udp e c fd (int 4) s = Ok (EXIT_SUCCESS, s1)"
    and p1: "prefix_of (client_data_buffer c s1) 4 = take 4 (message m)" and d1: "datagrams s1 fd = message m # ds"
    by (rule read_big_udp_one [OF assms(1,2), of 4 c]) (simp_all add: lm DATA_BUFFER_def)
  have w: "sint (uint8tToInt (client_data_buffer c s1)) = int ?n"
    using uint8tToInt_prefix [of "client_data_buffer c s1" "word_of_int (int ?n)"] p1 assms(4)
      sint_small [of "int ?n"] by (simp add: message_def)
  obtain s2 where r2: "read_big_udp e c fd (int ?n) s1 = Ok (EXIT_SUCCESS, s2)"
    and p2: "prefix_of (client_data_buffer c s2) ?n = take ?n (message m)" and d2: "datagrams s2 fd = ds"
    by (rule read_big_udp_one [OF assms(1) d1, of ?n c]) (use assms(3,4) in \<open>auto simp: lm DATA_BUFFER_def\<close>)
  have "max 1 ?n = ?n" "m \<noteq> []" using assms(3) by auto
  moreover have "take ?n (message m) = le4 (word_of_int (int ?n)) @ take (?n - 4) m"
    using assms(3) by (simp add: message_def)
  ultimately show ?thesis
    using r1 r2 w p2 d2 assms(3,4)
    by (intro exI [of _ s2]) (simp add: Let_def read_frame_udp_def)
qed


definition udp0 :: "byte list list \<Rightarrow> udp" where
  "udp0 ds = sv.extend sv0 (udp.fields (\<lambda>_. ds) [])"

lemma udp_frame_shifted_witness:
  "\<exists>s2. datagrams s2 5 = [] \<and>
     receive_loop_udp (Suc 0) ok_env 1 5 (udp0 [message [0, 0, 0, 1, 9, 1, 1], message [0, 0, 0, 1, 9, 1, 1]]) =
       res_bind (dispatch ok_env 1 [7, 0, 0, 0, 0, 0, 0] 7 s2) (receive_loop_udp 0 ok_env 1 5)"
proof -
  let ?m = "[0, 0, 0, 1, 9, 1, 1] :: byte list" and ?s = "udp0 [message [0, 0, 0, 1, 9, 1, 1], message [0, 0, 0, 1, 9, 1, 1]]"
  have "\<exists>s2. datagrams s2 5 = [] \<and> receive_loop_udp (Suc 0) ok_env 1 5 ?s =
      res_bind (dispatch ok_env 1 (le4 (word_of_int (int (length ?m))) @ take (length ?m - 4) ?m) (int (length ?m)) s2)
        (receive_loop_udp 0 ok_env 1 5)"
    by (rule udp_frame_shifted) (simp_all add: recvs_succeed_def ok_env_def udp0_def sv.defs udp.defs)
  then show ?thesis by (simp add: le4_def del: receive_loop_udp.simps)
qed

end
