(* ===== verification/Jni_Dispatch.thy ===== *)
theory Jni_Dispatch
  imports Media_Server
begin

section \<open>The calls from Java into native code (MyJni.cpp)\<close>

text \<open>
  \<open>onTransact\<close> dispatches on the code of the request; the fields of the Java request object are
  the record \<open>request\<close> (\<open>None\<close> for a null reference). Reading the characters of a null string is
  \<open>Undef\<close>. The answer is the string handed back to Java.
\<close>

record request =
  valueObject :: int
  valueString :: "string option"
  valueInt :: int
  valueLong :: int
  valueBoolean :: bool
  valueByteArray :: "byte list option"
  valueIntArray :: "int list option"
  valueStringArray :: "string option list option"

subsection \<open>Initialisation and global references\<close>

definition delete_global :: "int \<Rightarrow> 'a world_scheme \<Rightarrow> 'a world_scheme" where
  "delete_global h s = (if h \<noteq> 0 then call (Jni (Jni_DeleteGlobalRef h)) s else s)"

definition field_signatures :: "(string \<times> string) list" where
  "field_signatures =
     [(''valueObject'', ''Ljava/lang/Object;''), (''valueString'', ''Ljava/lang/String;''),
      (''valueInt'', ''I''), (''valueLong'', ''J''), (''valueByte'', ''B''), (''valueBoolean'', ''Z''),
      (''valueFloat'', ''F''), (''valueDouble'', ''D''),
      (''valueObjectArray'', ''[Ljava/lang/Object;''), (''valueStringArray'', ''[Ljava/lang/String;''),
      (''valueIntArray'', ''[I''), (''valueLongArray'', ''[J''), (''valueByteArray'', ''[B''),
      (''valueBooleanArray'', ''[Z''), (''valueFloatArray'', ''[F''), (''valueDoubleArray'', ''[D'')]"

fun get_field_ids :: "env \<Rightarrow> (string \<times> string) list \<Rightarrow> 'a jni_scheme \<Rightarrow> 'a jni_scheme" where
  "get_field_ids e [] s = s"
| "get_field_ids e ((name, sig) # fs) s =
     (let (h, s1) = ask e (Jni (Jni_GetMember name)) s
      in get_field_ids e fs (s1\<lparr>jfieldIDs := (name, h) # jfieldIDs s1\<rparr>))"

text \<open>\<open>GetStaticFieldID\<close>, \<open>GetStaticObjectField\<close>, a global reference, the local one dropped.\<close>

definition static_global :: "env \<Rightarrow> string \<Rightarrow> 'a world_scheme \<Rightarrow> int \<times> 'a world_scheme" where
  "static_global e name s =
     (let (f, s1) = ask e (Jni (Jni_GetMember name)) s;
          (h, s2) = ask e (Jni (Jni_GetField f name)) s1;
          (g, s3) = ask e (Jni (Jni_NewGlobalRef h)) s2
      in (g, call (Jni (Jni_DeleteLocalRef h)) s3))"

definition onTransact_init :: "env \<Rightarrow> int \<Rightarrow> 'a jni_scheme \<Rightarrow> int \<times> 'a jni_scheme" where
  "onTransact_init e myJniObject s =
     (let s1 = (delete_global (jniObject_jclass s) s)\<lparr>jniObject_jclass := 0\<rparr>;
          (tmp, s2) = ask e (Jni (Jni_FindClass ''com/weidi/mirrorcast/JniObject'')) s1;
          (g, s3) = ask e (Jni (Jni_NewGlobalRef tmp)) s2;
          s4 = call (Jni (Jni_DeleteLocalRef tmp)) (s3\<lparr>jniObject_jclass := g\<rparr>);
          s5 = get_field_ids e field_signatures s4;
          s6 = (delete_global (myJniJavaObject s5) s5)\<lparr>myJniJavaObject := 0\<rparr>;
          (g, s7) = ask e (Jni (Jni_NewGlobalRef myJniObject)) s6;
          (cls, s8) = ask e (Jni (Jni_GetMember ''class'')) (s7\<lparr>myJniJavaObject := g\<rparr>);
          (m1, s9) = ask e (Jni (Jni_GetMember ''jni2Java'')) s8;
          (m2, s10) = ask e (Jni (Jni_GetMember ''putData'')) (s9\<lparr>jni2JavaMethodID := m1\<rparr>);
          s11 = s10\<lparr>putDataMethodID := m2\<rparr>;
          (g, s12) = static_global e ''serverFrame1'' (delete_global (serverFrame1Object s11) s11);
          s13 = s12\<lparr>serverFrame1Object := g\<rparr>;
          (g, s14) = static_global e ''serverFrame2'' (delete_global (serverFrame2Object s13) s13);
          s15 = s14\<lparr>serverFrame2Object := g\<rparr>;
          (g, s16) = static_global e ''clientFrame'' (delete_global (clientFrameObject s15) s15);
          s17 = s16\<lparr>clientFrameObject := g\<rparr>
      in (0, call (Jni (Jni_DeleteLocalRef cls)) s17))"

definition closeJni :: "env \<Rightarrow> 'a jni_scheme \<Rightarrow> 'a jni_scheme res" where
  "closeJni e s =
     (let (isAttached, env_ok, s1) = getEnv e s;
          some_ref = (myJniJavaObject s1 \<noteq> 0 \<or> serverFrame1Object s1 \<noteq> 0 \<or> serverFrame2Object s1 \<noteq> 0 \<or>
                      clientFrameObject s1 \<noteq> 0 \<or> jniObject_jclass s1 \<noteq> 0) in
      if \<not> env_ok \<and> some_ref then Undef
      else
        let s2 = (delete_global (myJniJavaObject s1) s1)\<lparr>myJniJavaObject := 0\<rparr>;
            s3 = (delete_global (serverFrame1Object s2) s2)\<lparr>serverFrame1Object := 0\<rparr>;
            s4 = (delete_global (serverFrame2Object s3) s3)\<lparr>serverFrame2Object := 0\<rparr>;
            s5 = (delete_global (clientFrameObject s4) s4)\<lparr>clientFrameObject := 0\<rparr>;
            s6 = (delete_global (jniObject_jclass s5) s5)\<lparr>jniObject_jclass := 0\<rparr>
        in Ok (detach isAttached s6))"

subsection \<open>Requests\<close>

definition reply :: "string \<Rightarrow> 'a world_scheme \<Rightarrow> string \<times> 'a world_scheme" where
  "reply txt s = (txt, call (Jni (Jni_NewStringUTF txt)) s)"

definition on_set_ip :: "request \<Rightarrow> 'a net_scheme \<Rightarrow> (string \<times> 'a net_scheme) res" where
  "on_set_ip a s =
     (case valueString a of None \<Rightarrow> Undef
      | Some ip \<Rightarrow> Ok (reply ''0'' ((setIP (Some ip) s)\<lparr>what_is_device := valueInt a,
                         MAXIMUM_NUMBER := to_int32 (valueLong a), MEDIA_CODEC_GO_JNI := valueBoolean a\<rparr>)))"

definition bool_reply :: "bool \<Rightarrow> string" where
  "bool_reply b = (if b then ''true'' else ''false'')"

definition on_client_connect :: "env \<Rightarrow> request \<Rightarrow> 'a net_scheme \<Rightarrow> (string \<times> 'a net_scheme) res" where
  "on_client_connect e a s =
     (case valueString a of None \<Rightarrow> Undef
      | Some ip \<Rightarrow> res_map (\<lambda>(ok, s1). reply (bool_reply ok) s1)
                     (client_connect e (setIP (Some ip) (s\<lparr>SERVER_PROT := valueInt a\<rparr>))))"

definition on_client_send_data :: "env \<Rightarrow> request \<Rightarrow> 'a net_scheme \<Rightarrow> (string \<times> 'a net_scheme) res" where
  "on_client_send_data e a s =
     (case valueByteArray a of None \<Rightarrow> Ok (reply ''-1'' s)
      | Some bs \<Rightarrow> res_map (\<lambda>(n, s1). reply (to_string n) s1) (send_data e bs (valueInt a) s))"

definition on_client_set_info :: "request \<Rightarrow> 'a net_scheme \<Rightarrow> (string \<times> 'a net_scheme) res" where
  "on_client_set_info a s =
     (case valueString a of None \<Rightarrow> Undef
      | Some info \<Rightarrow> res_map (reply ''0'') (set_client_info info (valueInt a) s))"

text \<open>The array elements are read without a look at the length of the array.\<close>

definition int_at :: "int list \<Rightarrow> nat \<Rightarrow> int res" where
  "int_at xs i = (if i < length xs then Ok (xs ! i) else Undef)"

definition str_at :: "string option list \<Rightarrow> nat \<Rightarrow> string res" where
  "str_at xs i = (if i < length xs then (case xs ! i of None \<Rightarrow> Undef | Some t \<Rightarrow> Ok t) else Undef)"

definition on_prepare :: "env \<Rightarrow> request \<Rightarrow> 'a mc_scheme \<Rightarrow> (string \<times> 'a mc_scheme) res" where
  "on_prepare e a s =
     (case (valueIntArray a, valueStringArray a) of
        (Some ints, Some strs) \<Rightarrow>
          res_bind (int_at ints 0) (\<lambda>info_length.
          res_bind (int_at ints 1) (\<lambda>orientation.
          res_bind (int_at ints 2) (\<lambda>width.
          res_bind (int_at ints 3) (\<lambda>height.
          res_bind (int_at ints 4) (\<lambda>port.
          res_bind (str_at strs 0) (\<lambda>info.
          res_bind (str_at strs 1) (\<lambda>mime.
          res_bind (str_at strs 2) (\<lambda>codec_name.
          res_bind (str_at strs 3) (\<lambda>ip.
          res_bind (set_client_info info info_length s) (\<lambda>s1.
          res_bind (createEncoderMediaFormat mime orientation width height
                      (setIP (Some ip) (s1\<lparr>SERVER_PROT := port\<rparr>))) (\<lambda>s2.
          let s3 = createEncoderSurface e (createEncoderMediaCodec e codec_name s2);
              surface1 = getSurface 1 s3; surface2 = getSurface 2 s3 in
          res_map (\<lambda>(ok, s4).
              if ok then
                let (o1, s5) = ask e (Window (Window_toSurface surface1)) s4;
                    (o2, s6) = ask e (Window (Window_toSurface surface2)) s5
                in reply ''true'' (call (Jni (Jni_FindClass ''java/lang/Object'')) s6)
              else reply ''false'' s4)
            (client_connect e (startEncoderMediaCodec s3)))))))))))))
      | _ \<Rightarrow> Ok (reply ''false'' s))"

definition on_set_surface :: "env \<Rightarrow> request \<Rightarrow> 'a mc_scheme \<Rightarrow> string \<times> 'a mc_scheme" where
  "on_set_surface e a s =
     reply ''0'' (call (Jni (Jni_DeleteLocalRef (valueObject a))) (setSurface e (valueInt a) (valueObject a) s))"

text \<open>\<open>thiz\<close> is the Java object; \<open>others\<close> and \<open>fuel\<close> are for the accept loop and the codec polls.\<close>

definition onTransact ::
  "nat \<Rightarrow> env \<Rightarrow> ('a sv_scheme \<Rightarrow> 'a sv_scheme) \<Rightarrow> int \<Rightarrow> int \<Rightarrow> request \<Rightarrow> 'a sv_scheme \<Rightarrow> (string \<times> 'a sv_scheme) res" where
  "onTransact fuel e others thiz code a s =
     (if code = 1000 then Ok (let (r, s1) = onTransact_init e thiz s in reply (to_string r) s1)
      else if code = 1006 then on_set_ip a s
      else if code = 1001 then res_map (reply ''0'') (server_accept fuel e others s)
      else if code = 1007 then res_map (reply ''0'') (server_close e s)
      else if code = 1002 then on_client_connect e a s
      else if code = 1003 then Ok (reply ''0'' (client_disconnect s))
      else if code = 1004 then on_client_send_data e a s
      else if code = 1005 then on_client_set_info a s
      else if code = 1008 then Ok (reply (to_string (SERVER_PROT s)) s)
      else if code = 1009 then Ok (reply ''0'' (close_all_clients s))
      else if code = 1010 then Ok (reply ''0'' (close_client (valueInt a) s))
      else if code = 1011 then Ok (on_set_surface e a s)
      else if code = 1012 then on_prepare e a s
      else if code = 1013 then res_map (reply ''0'') (startRecordScreen fuel e s)
      else if code = 1014 then Ok (reply (bool_reply (isRecording s)) s)
      else if code = 1015 then Ok (reply ''0'' (stopRecordScreen False (client_disconnect s)))
      else if code = 1016 then res_map (reply ''0'') (fromPortraitToLandscape e s)
      else if code = 1017 then res_map (reply ''0'') (fromLandscapeToPortrait e s)
      else if code = 1018 then Ok (reply ''0'' (stopRecordScreen True s))
      else if code = 1019 then
        Ok (reply ''0'' (call (Jni (Jni_SetField thiz ''valueBoolean'' (if ONLY_OUTPUT_KEY_FRAME s then 0 else 1)))
                          (s\<lparr>ONLY_OUTPUT_KEY_FRAME := \<not> ONLY_OUTPUT_KEY_FRAME s\<rparr>)))
      else Ok (reply ''-1'' s))"

subsection \<open>Global references\<close>

definition ref_delta :: "ncall \<Rightarrow> int" where
  "ref_delta c = (case c of Jni (Jni_NewGlobalRef r) \<Rightarrow> 1 | Jni (Jni_DeleteGlobalRef r) \<Rightarrow> -1 | _ \<Rightarrow> 0)"

text \<open>References created and not deleted, over a trace; and those the globals hold.\<close>

definition net_refs :: "'a world_scheme \<Rightarrow> int" where
  "net_refs s = sum_list (map ref_delta (trace s))"

definition held :: "int \<Rightarrow> int" where
  "held h = (if h = 0 then 0 else 1)"

definition refs_held :: "'a jni_scheme \<Rightarrow> int" where
  "refs_held s = held (jniObject_jclass s) + held (myJniJavaObject s) + held (serverFrame1Object s) +
                 held (serverFrame2Object s) + held (clientFrameObject s)"

lemma net_refs_call [simp]: "net_refs (call c s) = net_refs s + ref_delta c"
  by (simp add: net_refs_def)

lemma net_refs_more [simp]:
  "net_refs (s\<lparr>jniObject_jclass := x\<rparr>) = net_refs s" "net_refs (s\<lparr>myJniJavaObject := x\<rparr>) = net_refs s"
  "net_refs (s\<lparr>serverFrame1Object := x\<rparr>) = net_refs s" "net_refs (s\<lparr>serverFrame2Object := x\<rparr>) = net_refs s"
  "net_refs (s\<lparr>clientFrameObject := x\<rparr>) = net_refs s" "net_refs (s\<lparr>jni2JavaMethodID := x\<rparr>) = net_refs s"
  "net_refs (s\<lparr>putDataMethodID := x\<rparr>) = net_refs s" "net_refs (s\<lparr>jfieldIDs := i\<rparr>) = net_refs s"
  by (simp_all add: net_refs_def)

lemma jni_handles_call [simp]:
  "jniObject_jclass (call c s) = jniObject_jclass s" "myJniJavaObject (call c s) = myJniJavaObject s"
  "serverFrame1Object (call c s) = serverFrame1Object s" "serverFrame2Object (call c s) = serverFrame2Object s"
  "clientFrameObject (call c s) = clientFrameObject s" "jfieldIDs (call c s) = jfieldIDs s"
  by (simp_all add: call_def)

lemma delete_global_simps [simp]:
  "net_refs (delete_global h s) = net_refs s - held h"
  "jniObject_jclass (delete_global h s) = jniObject_jclass s" "myJniJavaObject (delete_global h s) = myJniJavaObject s"
  "serverFrame1Object (delete_global h s) = serverFrame1Object s"
  "serverFrame2Object (delete_global h s) = serverFrame2Object s"
  "clientFrameObject (delete_global h s) = clientFrameObject s"
  by (simp_all add: delete_global_def held_def ref_delta_def)

lemma get_field_ids_simps [simp]:
  "net_refs (get_field_ids e fs s) = net_refs s"
  "jniObject_jclass (get_field_ids e fs s) = jniObject_jclass s"
  "myJniJavaObject (get_field_ids e fs s) = myJniJavaObject s"
  "serverFrame1Object (get_field_ids e fs s) = serverFrame1Object s"
  "serverFrame2Object (get_field_ids e fs s) = serverFrame2Object s"
  "clientFrameObject (get_field_ids e fs s) = clientFrameObject s"
  by (induction e fs s rule: get_field_ids.induct) (simp_all add: Let_def ref_delta_def)

lemma static_global_simps [simp]:
  "net_refs (snd (static_global e name s)) = net_refs s + 1"
  "jniObject_jclass (snd (static_global e name s)) = jniObject_jclass s"
  "myJniJavaObject (snd (static_global e name s)) = myJniJavaObject s"
  "serverFrame1Object (snd (static_global e name s)) = serverFrame1Object s"
  "serverFrame2Object (snd (static_global e name s)) = serverFrame2Object s"
  "clientFrameObject (snd (static_global e name s)) = clientFrameObject s"
  by (simp_all add: static_global_def Let_def ref_delta_def)

text \<open>The VM does not run out of global references.\<close>

definition global_refs_succeed :: "env \<Rightarrow> bool" where
  "global_refs_succeed e = (\<forall>h. h \<noteq> [] \<and> (\<exists>r. last h = Jni (Jni_NewGlobalRef r)) \<longrightarrow> ans e h \<noteq> 0)"

lemma static_global_nonzero: "global_refs_succeed e \<Longrightarrow> fst (static_global e name s) \<noteq> 0"
  by (simp add: static_global_def Let_def global_refs_succeed_def)

lemma held_1: "h \<noteq> 0 \<Longrightarrow> held h = 1"
  by (simp add: held_def)

lemma getEnv_refs:
  "getEnv e s = (a, b, s1) \<Longrightarrow> net_refs s1 = net_refs s \<and> refs_held s1 = refs_held s"
  by (auto simp: getEnv_def Let_def refs_held_def ref_delta_def split: if_splits)

lemma closeJni_refs:
  assumes "closeJni e s = Ok s'"
  shows "refs_held s' = 0 \<and> net_refs s' = net_refs s - refs_held s"
proof -
  obtain a b s1 where g: "getEnv e s = (a, b, s1)" by (metis prod_cases3)
  have d: "refs_held (detach a t) = refs_held t" "net_refs (detach a t) = net_refs t" for t :: "'a jni_scheme"
    by (simp_all add: detach_def refs_held_def ref_delta_def)
  from assms have "refs_held s' = 0 \<and> net_refs s' = net_refs s1 - refs_held s1"
    by (auto simp: closeJni_def g Let_def d split: if_splits) (simp_all add: refs_held_def held_def)
  with getEnv_refs [OF g] show ?thesis by simp
qed

text \<open>Global references are neither lost nor deleted twice: initialising, also a second time, leaves
  exactly five references held by the globals, and closing none, and in both cases the references
  created less those deleted change by just what the globals hold.\<close>

theorem global_refs_balanced:
  assumes "global_refs_succeed e"
  shows "refs_held (snd (onTransact_init e thiz s)) = 5 \<and>
         net_refs (snd (onTransact_init e thiz s)) - refs_held (snd (onTransact_init e thiz s)) =
           net_refs s - refs_held s \<and>
         (closeJni e s = Ok s' \<longrightarrow> refs_held s' = 0 \<and> net_refs s' = net_refs s - refs_held s)"
proof (intro conjI impI)
  have g: "ans e (h @ [Jni (Jni_NewGlobalRef r)]) \<noteq> 0" "ans e (h @ [x, Jni (Jni_NewGlobalRef r)]) \<noteq> 0" for h r x
    using assms by (auto simp: global_refs_succeed_def)
  note st = static_global_nonzero [OF assms]
  show r: "refs_held (snd (onTransact_init e thiz s)) = 5"
    by (simp add: onTransact_init_def Let_def split_def refs_held_def held_1 st g)
  show "net_refs (snd (onTransact_init e thiz s)) - refs_held (snd (onTransact_init e thiz s)) =
      net_refs s - refs_held s"
    unfolding r by (simp add: onTransact_init_def Let_def split_def refs_held_def ref_delta_def)
  assume "closeJni e s = Ok s'"
  from closeJni_refs [OF this] show "refs_held s' = 0" "net_refs s' = net_refs s - refs_held s" by simp_all
qed

lemma global_refs_balanced_witness:
  "refs_held (snd (onTransact_init ok_env 9 sv0)) = 5"
  using global_refs_balanced [of ok_env 9 sv0] by (simp add: global_refs_succeed_def ok_env_def)

text \<open>A request with a code outside the protocol changes nothing but the answer string it creates, and
  is answered with -1; the codes of the protocol are all different.\<close>

theorem onTransact_unknown:
  assumes "code \<notin> snd ` set do_something_codes"
  shows "onTransact fuel e others thiz code a s = Ok (''-1'', call (Jni (Jni_NewStringUTF ''-1'')) s) \<and>
         distinct (map snd do_something_codes)"
  using assms by (simp add: onTransact_def do_something_codes_def reply_def)

definition request0 :: request where
  "request0 = \<lparr>valueObject = 0, valueString = None, valueInt = 0, valueLong = 0, valueBoolean = False,
     valueByteArray = None, valueIntArray = None, valueStringArray = None\<rparr>"

lemma onTransact_unknown_witness:
  "onTransact 0 ok_env (\<lambda>t. t) 9 2000 request0 sv0 = Ok (''-1'', call (Jni (Jni_NewStringUTF ''-1'')) sv0)"
  using onTransact_unknown [of 2000 0 ok_env "\<lambda>t. t" 9 request0 sv0] by (simp add: do_something_codes_def)

end
