(* ===== verification/Cast_Config.thy ===== *)
theory Cast_Config
  imports Media_Server
begin

section \<open>Configuration frames from the encoder to the decoder's format\<close>

text \<open>
  What \<open>startRecordScreen\<close> sends and \<open>receive_sps_pps\<close> makes of it: the two configuration frames
  that \<open>getSpsPps\<close> took from the encoders reach the window of the receiver.
\<close>

lemma csd_array_message: "csd_array room (int (length room)) = Ok (message room)"
  by (simp add: csd_array_def int2Bytes_eq slice_all message_def memcpy_to_def)

lemma store_message:
  "store_portrait1 p (int (length p)) s =
     Ok (heap 1 (s\<lparr>win1 := (win1 s)\<lparr>w_sps_pps_portrait := Some (message p), w_sps_pps_size_portrait := int (length p) + 4\<rparr>\<rparr>))"
  "store_landscape2 p (int (length p)) s =
     Ok (heap 1 (s\<lparr>win2 := (win2 s)\<lparr>w_sps_pps_landscape := Some (message p), w_sps_pps_size_landscape := int (length p) + 4\<rparr>\<rparr>))"
  by (simp_all add: store_portrait1_def store_landscape2_def csd_array_message)

lemma length_message: "length (message m) = length m + 4"
  by (simp add: message_def)

subsection \<open>The sender\<close>

lemma void_callback_trace:
  assumes "void_callback e code s = Ok s'"
  shows "\<exists>tr. s' = s\<lparr>trace := trace s @ tr\<rparr> \<and> writes_to fd tr = []"
  using assms
  by (cases rule: getEnv_cases [of e s])
    (auto simp: void_callback_def call_jni2Java_def detach_def call_def split: if_splits)

lemma send_config:
  assumes "sending e s" "writes_succeed e (server_sock_fd s)"
  shows "send_sps_pps e (Some (message m)) (int (length m) + 4) s = Ok (trace_on (send_calls (server_sock_fd s) (message m)) s)"
  using sendData_sent' [OF assms, of _ "message m"] by (simp add: send_sps_pps_def length_message)

text \<open>The two configuration frames are stored: each behind its length, as \<open>getSpsPps\<close> leaves them.\<close>

definition configs_stored :: "byte list \<Rightarrow> byte list \<Rightarrow> 'a mc_scheme \<Rightarrow> bool" where
  "configs_stored p l s =
     (w_sps_pps_portrait (win1 s) = Some (message p) \<and> w_sps_pps_size_portrait (win1 s) = int (length p) + 4 \<and>
      w_sps_pps_landscape (win2 s) = Some (message l) \<and> w_sps_pps_size_landscape (win2 s) = int (length l) + 4)"

lemma stored_configs:
  assumes "store_portrait1 p (int (length p)) s = Ok s1" "store_landscape2 l (int (length l)) s1 = Ok s2"
  shows "configs_stored p l s2"
  using assms by (auto simp: store_message configs_stored_def)

definition orientation_of :: "'a mc_scheme \<Rightarrow> int" where
  "orientation_of s = (if w_orientation (win1 s) = 1 then 1 else 2)"

lemma sent_writes:
  "writes_to fd (new_calls s (call (Thread x) (trace_on (send_calls fd b) (trace_on (send_calls fd a) t)))) =
   writes_to fd (new_calls s t) @ [a, b]" if "length (trace s) \<le> length (trace t)"
  using that by (simp add: new_calls_def trace_on_def call_def writes_to_send_calls)

lemma start_sends:
  fixes s :: "'a mc_scheme"
  assumes "configs_stored p l s" "\<not> isRecording s" "w_orientation (win1 s) = 1 \<or> w_orientation (win2 s) = 2"
    and "server_sock_fd s \<noteq> -1" "writes_succeed e (server_sock_fd s)" "startRecordScreen fuel e s = Ok s'"
  shows "writes_to (server_sock_fd s) (new_calls s s') =
           (if orientation_of s = 1 then [message p, message l] else [message l, message p])"
proof -
  obtain port land where m: "orientation_message (- 1) = Ok port" "orientation_message (- 2) = Ok land"
    using assms(6) assms(2) by (auto simp: startRecordScreen_def res_bind_Ok_iff)
  let ?s0 = "s\<lparr>isRecording := True, ORIENTATION_PORTRAIT := port, ORIENTATION_LANDSCAPE := land\<rparr>"
  let ?s1 = "if orientation_of s = 1
      then ?s0\<lparr>win1 := (win1 s)\<lparr>w_isPlaying := True, w_isKeyFrameWrite := False\<rparr>, win2 := (win2 s)\<lparr>w_isPlaying := False\<rparr>\<rparr>
      else ?s0\<lparr>win1 := (win1 s)\<lparr>w_isPlaying := False\<rparr>, win2 := (win2 s)\<lparr>w_isPlaying := True, w_isKeyFrameWrite := False\<rparr>\<rparr>"
  let ?code = "if orientation_of s = 1 then CODE_createPortraitVirtualDisplay else CODE_createLandscapeVirtualDisplay"
  obtain s2 where cb: "void_callback e ?code ?s1 = Ok s2"
    using assms(1-3,6) m
    by (cases "w_orientation (win1 s) = 1")
      (auto simp: startRecordScreen_def configs_stored_def createPortraitVirtualDisplay_def createLandscapeVirtualDisplay_def
        orientation_of_def res_bind_Ok_iff res_map_Ok_iff)
  obtain tr where s2: "s2 = ?s1\<lparr>trace := trace ?s1 @ tr\<rparr>" and tr: "writes_to (server_sock_fd s) tr = []"
    using void_callback_trace [OF cb, of "server_sock_fd s"] by blast
  have k: "configs_stored p l s2" "sending e s2" "server_sock_fd s2 = server_sock_fd s"
    "writes_to (server_sock_fd s) (new_calls s s2) = []" "length (trace s) \<le> length (trace s2)"
    using assms(1,4) tr by (simp_all add: s2 configs_stored_def sending_def new_calls_def)
  let ?send = "\<lambda>a. send_calls (server_sock_fd s) (message a)"
  have two: "send_sps_pps e (Some (message a)) (int (length a) + 4) s2 = Ok (trace_on (?send a) s2)"
    "send_sps_pps e (Some (message b)) (int (length b) + 4) (trace_on (?send a) s2) = Ok (trace_on (?send b) (trace_on (?send a) s2))" for a b
    using send_config [of e s2] send_config [of e "trace_on (?send a) s2"] k(2,3) assms(5) by simp_all
  show ?thesis
  proof (cases "w_orientation (win1 s) = 1")
    case True
    then have "s' = call (Thread (Thread_create ''startEncoder'' 0)) (trace_on (?send l) (trace_on (?send p) s2))"
      using assms(1,2,6) m cb k(1) two
      by (simp add: startRecordScreen_def configs_stored_def createPortraitVirtualDisplay_def orientation_of_def)
    then show ?thesis using True k(4) sent_writes [OF k(5)] by (simp add: orientation_of_def)
  next
    case False
    then have "s' = call (Thread (Thread_create ''startEncoder'' 0)) (trace_on (?send p) (trace_on (?send l) s2))"
      using assms(1-3,6) m cb k(1) two
      by (simp add: startRecordScreen_def configs_stored_def createLandscapeVirtualDisplay_def orientation_of_def)
    then show ?thesis using False k(4) sent_writes [OF k(5)] by (simp add: orientation_of_def)
  qed
qed

subsection \<open>The receiver\<close>

lemma sps_pps_of_set:
  "sps_pps_of (w\<lparr>w_format := f\<rparr>) k = sps_pps_of w k" "sps_pps_of (w\<lparr>w_codec := h\<rparr>) k = sps_pps_of w k"
  "sps_pps_of (w\<lparr>w_isPlaying := b\<rparr>) k = sps_pps_of w k"
  by (simp_all add: sps_pps_of_def)

lemma win_setOrientation [simp]: "win c (setOrientation d k s) = win c s"
  by (simp add: setOrientation_def win_def)

lemma inbox_keeps [simp]:
  "inbox (setOrientation d k s) = inbox s" "inbox (call x s) = inbox s" "inbox (upd_win d f s) = inbox s"
  by (simp_all add: setOrientation_def call_def upd_win_def)

lemma delete_keeps:
  assumes "c = 1 \<or> c = 2"
  shows "sps_pps_of (win c (delete_codec c s)) k = sps_pps_of (win c s) k \<and> w_mime (win c (delete_codec c s)) = w_mime (win c s)"
    and "sps_pps_of (win c (delete_format c s)) k = sps_pps_of (win c s) k"
  using assms by (auto simp: delete_codec_def delete_format_def sps_pps_of_def win_def upd_win_def call_def)

lemma delete_inbox [simp]:
  fixes s :: "'a sv_scheme"
  shows "inbox (delete_codec c s) = inbox s" "inbox (delete_format c s) = inbox s"
  by (simp_all add: delete_codec_def delete_format_def Let_def)

lemma createMediaCodec_keeps:
  fixes s :: "'a sv_scheme"
  assumes "createMediaCodec e c s = Ok s'" "c = 1 \<or> c = 2"
  shows "sps_pps_of (win c s') k = sps_pps_of (win c s) k \<and> w_mime (win c s') = w_mime (win c s) \<and> inbox s' = inbox s"
proof -
  let ?s1 = "delete_codec c s"
  obtain name h where s': "s' = upd_win c (\<lambda>w. w\<lparr>w_codec := h\<rparr>) (call (Codec (Codec_createByName name)) ?s1)"
    using assms by (auto simp: createMediaCodec_def res_map_Ok_iff Let_def)
  show ?thesis using delete_keeps(1) [OF assms(2), of s k] by (simp add: s' win_upd_win assms(2) sps_pps_of_set)
qed

lemma createMediaFormat_result:
  fixes s :: "'a sv_scheme"
  assumes "createMediaFormat c k s = Ok s'" "c = 1 \<or> c = 2"
  shows "sps_pps_of (win c s') j = sps_pps_of (win c s) j \<and> inbox s' = inbox s \<and>
         (c_string (w_mime (win c s)) = Ok ''video/avc'' \<longrightarrow>
          (\<exists>base f mark arr n. sps_pps_of (win c s) k = (Some arr, n) \<and> handleSpsPps base arr n = Ok (mark, f) \<and>
             w_format (win c s') = Some f))"
proof -
  obtain f csd where s': "s' = upd_win c (\<lambda>w. w\<lparr>w_format := Some f\<rparr>) (delete_format c (heap csd (call (Window Format_new) s)))"
    and f: "c_string (w_mime (win c s)) = Ok ''video/avc'' \<longrightarrow>
        (\<exists>base mark arr n. sps_pps_of (win c s) k = (Some arr, n) \<and> handleSpsPps base arr n = Ok (mark, f))"
  proof -
    obtain p n where pn: "sps_pps_of (win c s) k = (p, n)" by (cases "sps_pps_of (win c s) k")
    have cf: "(c \<noteq> 1 \<and> c \<noteq> 2) = False" using assms(2) by blast
    show thesis
      using assms(1) that unfolding createMediaFormat_def cf if_False Let_def pn prod.case
      by (cases p) (auto simp: res_bind_Ok_iff res_map_Ok_iff split: if_splits)
  qed
  have "sps_pps_of (win c (delete_format c (heap csd (call (Window Format_new) s)))) j = sps_pps_of (win c s) j"
    "inbox (delete_format c (heap csd (call (Window Format_new) s))) = inbox s"
    using delete_keeps(2) [OF assms(2), of "heap csd (call (Window Format_new) s)" j] by (simp_all add: sv_frame)
  then show ?thesis using f by (auto simp: s' win_upd_win assms(2) sps_pps_of_set)
qed

lemma startMediaCodec_keeps:
  fixes s :: "'a sv_scheme"
  shows "sps_pps_of (win c (startMediaCodec c fl s)) k = sps_pps_of (win c s) k \<and>
         w_format (win c (startMediaCodec c fl s)) = w_format (win c s) \<and> inbox (startMediaCodec c fl s) = inbox s"
  by (auto simp: startMediaCodec_def Let_def win_upd_win sps_pps_of_set)

lemma receive_configs:
  fixes r :: "'a sv_scheme"
  assumes e: "reads_succeed e fd" and c: "c = 1 \<or> c = 2" and o: "k = 1 \<or> k = 2"
    and len: "length a \<le> DATA_BUFFER" "length b \<le> DATA_BUFFER"
    and i: "inbox r fd = message a @ message b @ rest" and j: "MEDIA_CODEC_GO_JNI r"
    and ok: "receive_sps_pps e c fd k r = Ok r'"
  shows "sps_pps_of (win c r') k = (Some a, int (length a)) \<and> sps_pps_of (win c r') (3 - k) = (Some b, int (length b)) \<and>
         inbox r' fd = rest \<and>
         (c_string (w_mime (win c r)) = Ok ''video/avc'' \<longrightarrow>
          (\<exists>base f mark. handleSpsPps base a (int (length a)) = Ok (mark, f) \<and> w_format (win c r') = Some f))"
proof -
  obtain r1 where r1: "receive_one_sps e c fd k r = Ok r1" "inbox r1 fd = message b @ rest"
    and w1: "win c r1 = (if k = 1 then (win c r)\<lparr>w_sps_pps_portrait := Some a, w_sps_pps_size_portrait := int (length a)\<rparr>
                     else (win c r)\<lparr>w_sps_pps_landscape := Some a, w_sps_pps_size_landscape := int (length a)\<rparr>)"
    by (rule receive_one_sps_message [OF e c len(1) i, of k])
  let ?k = "if k = 1 then 2 else 1 :: int"
  obtain r2 where r2: "receive_one_sps e c fd ?k r1 = Ok r2" "inbox r2 fd = rest"
    and w2: "win c r2 = (if ?k = 1 then (win c r1)\<lparr>w_sps_pps_portrait := Some b, w_sps_pps_size_portrait := int (length b)\<rparr>
                     else (win c r1)\<lparr>w_sps_pps_landscape := Some b, w_sps_pps_size_landscape := int (length b)\<rparr>)"
    by (rule receive_one_sps_message [OF e c len(2) r1(2), of ?k])
  have k2: "sps_pps_of (win c r2) k = (Some a, int (length a))" "sps_pps_of (win c r2) (3 - k) = (Some b, int (length b))"
    "w_mime (win c r2) = w_mime (win c r)"
    using o by (auto simp: sps_pps_of_def w1 w2)
  obtain r3 r4 where r3: "createMediaCodec e c (setOrientation c k r2) = Ok r3" and r4: "createMediaFormat c k r3 = Ok r4"
    and r': "r' = startMediaCodec c 0 r4"
    using ok j r1 r2 by (auto simp: receive_sps_pps_def res_bind_Ok_iff res_map_Ok_iff)
  note k3 = createMediaCodec_keeps [OF r3 c] and k4 = createMediaFormat_result [OF r4 c]
  have "sps_pps_of (win c r3) k = (Some a, int (length a))" using k3 k2 by simp
  moreover have "sps_pps_of (win c r3) (3 - k) = (Some b, int (length b))" using k3 k2 by simp
  moreover have "inbox r4 fd = rest" "w_mime (win c r3) = w_mime (win c r)" using k3 k4 k2 r2(2) by simp_all
  ultimately show ?thesis using k4 startMediaCodec_keeps [of c 0 r4] by (auto simp: r')
qed


subsection \<open>A run\<close>

lemma delete_codec_win: "c = 1 \<or> c = 2 \<Longrightarrow> \<exists>h. win c (delete_codec c s) = (win c s)\<lparr>w_codec := h\<rparr>"
  by (auto simp: delete_codec_def win_def upd_win_def call_def intro: exI [of _ "w_codec (win1 s)"] exI [of _ "w_codec (win2 s)"])

lemma createMediaCodec_defined:
  fixes s :: "'a sv_scheme"
  assumes "c = 1 \<or> c = 2" "c_string (w_codecName (win c s)) = Ok name"
  shows "\<exists>s' h. createMediaCodec e c s = Ok s' \<and> win c s' = (win c s)\<lparr>w_codec := h\<rparr>"
proof -
  obtain h where h: "win c (delete_codec c s) = (win c s)\<lparr>w_codec := h\<rparr>" using delete_codec_win [OF assms(1)] by blast
  have c: "(c = 1 \<or> c = 2) = True" using assms(1) by simp
  show ?thesis
    unfolding createMediaCodec_def c if_True Let_def
    using assms h by (auto simp: win_upd_win)
qed

lemma createMediaFormat_defined:
  fixes s :: "'a sv_scheme"
  assumes "c = 1 \<or> c = 2" "c_string (w_mime (win c s)) = Ok ''video/avc''" "w_width (win c s) = 0" "w_height (win c s) = 0"
    and "sps_pps_of (win c s) k = (Some a, n)" "\<And>base. \<exists>r. handleSpsPps base a n = Ok r"
  shows "\<exists>s'. createMediaFormat c k s = Ok s'"
proof -
  have c: "(c \<noteq> 1 \<and> c \<noteq> 2) = False" using assms(1) by blast
  have l: "(if c = 1 then w_height (win c s) else w_width (win c s)) = 0" using assms(3,4) by metis
  have "mul_int32 0 0 = Ok 0" by (simp add: mul_int32_def)
  then show ?thesis
    unfolding createMediaFormat_def c if_False Let_def l assms(5) prod.case
    using assms(2) assms(6) by (fastforce simp: res_map_Ok_iff)
qed

definition cast_env :: env where
  "cast_env = ok_env\<lparr>ans := (\<lambda>h. case last h of Jni _ \<Rightarrow> 0 | _ \<Rightarrow> 1)\<rparr>"

definition csd_p :: "byte list" where "csd_p = [0, 0, 0, 1] @ [103, 66] @ [0, 0, 0, 1] @ [104, 206]"
definition csd_l :: "byte list" where "csd_l = [0, 0, 0, 1] @ [103, 67] @ [0, 0, 0, 1] @ [104, 207]"

definition sender :: mc where
  "sender = mc0\<lparr>server_sock_fd := 9, win1 := window0\<lparr>w_orientation := 1\<rparr>\<rparr>"

definition player :: sv where
  "player = sv0\<lparr>win1 := window0\<lparr>w_mime := ''video/avc'' @ [nul], w_codecName := ''c'' @ [nul]\<rparr>\<rparr>"

lemma startRecordScreen_defined:
  assumes "configs_stored p l s" "\<not> isRecording s" "w_orientation (win1 s) = 1" "server_sock_fd s \<noteq> -1"
    and "myJniJavaObject s \<noteq> 0" "jni2JavaMethodID s \<noteq> 0"
  shows "\<exists>s'. startRecordScreen fuel cast_env s = Ok s'"
proof -
  have m: "\<exists>f. orientation_message b = Ok f" for b by (simp add: orientation_message_def int2Bytes_eq)
  then obtain port land where m: "orientation_message (- 1) = Ok port" "orientation_message (- 2) = Ok land" by metis
  let ?s1 = "s\<lparr>isRecording := True, ORIENTATION_PORTRAIT := port, ORIENTATION_LANDSCAPE := land,
        win1 := (win1 s)\<lparr>w_isPlaying := True, w_isKeyFrameWrite := False\<rparr>, win2 := (win2 s)\<lparr>w_isPlaying := False\<rparr>\<rparr>"
  obtain s2 where cb: "void_callback cast_env CODE_createPortraitVirtualDisplay ?s1 = Ok s2"
    using assms(5,6) by (simp add: void_callback_def getEnv_def cast_env_def JNI_OK_def call_jni2Java_def Let_def)
  obtain tr where s2: "s2 = ?s1\<lparr>trace := trace ?s1 @ tr\<rparr>" using void_callback_trace [OF cb] by blast
  have w: "writes_succeed cast_env fd" for fd by (simp add: writes_succeed_def cast_env_def)
  have k: "configs_stored p l s2" "sending cast_env s2"
    using assms(1,4) by (simp_all add: s2 configs_stored_def sending_def)
  have two: "send_sps_pps cast_env (Some (message p)) (int (length p) + 4) s2 = Ok (trace_on (send_calls (server_sock_fd s2) (message p)) s2)"
    "send_sps_pps cast_env (Some (message l)) (int (length l) + 4) (trace_on (send_calls (server_sock_fd s2) (message p)) s2) =
     Ok (trace_on (send_calls (server_sock_fd s2) (message l)) (trace_on (send_calls (server_sock_fd s2) (message p)) s2))"
    using send_config [OF k(2) w] send_config [of cast_env "trace_on (send_calls (server_sock_fd s2) (message p)) s2"] k(2) w by simp_all
  then show ?thesis
    using assms(1-3) m cb k(1) by (simp add: startRecordScreen_def configs_stored_def createPortraitVirtualDisplay_def)
qed

lemma nal_unit: "nal_payload [103, 66]"
  by (simp add: nal_payload_def code_at_def upt_rec)

lemma player_receives:
  assumes "inbox r 3 = message csd_p @ message csd_l" "MEDIA_CODEC_GO_JNI r" "win 1 r = win 1 player"
  shows "\<exists>r'. receive_sps_pps cast_env 1 3 1 r = Ok r'"
proof -
  have e: "reads_succeed cast_env 3" by (simp add: reads_succeed_def cast_env_def)
  have len: "length csd_p \<le> DATA_BUFFER" "length csd_l \<le> DATA_BUFFER" by (simp_all add: csd_p_def csd_l_def DATA_BUFFER_def)
  obtain r1 where r1: "receive_one_sps cast_env 1 3 1 r = Ok r1" "inbox r1 3 = message csd_l @ []"
    and w1: "win 1 r1 = (win 1 r)\<lparr>w_sps_pps_portrait := Some csd_p, w_sps_pps_size_portrait := int (length csd_p)\<rparr>"
    using receive_one_sps_message [OF e _ len(1) assms(1), of 1 1] by auto
  obtain r2 where r2: "receive_one_sps cast_env 1 3 2 r1 = Ok r2"
    and w2: "win 1 r2 = (win 1 r1)\<lparr>w_sps_pps_landscape := Some csd_l, w_sps_pps_size_landscape := int (length csd_l)\<rparr>"
    using receive_one_sps_message [OF e _ len(2) r1(2), of 1 2] by auto
  have pl: "win 1 player = window0\<lparr>w_mime := ''video/avc'' @ [nul], w_codecName := ''c'' @ [nul]\<rparr>"
    by (simp add: player_def win_def)
  have s: "c_string (''c'' @ [nul]) = Ok ''c''" "c_string (''video/avc'' @ [nul]) = Ok ''video/avc''"
    by (simp_all add: c_string_def cstr_def nul_def)
  obtain r3 h where r3: "createMediaCodec cast_env 1 (setOrientation 1 1 r2) = Ok r3" "win 1 r3 = (win 1 r2)\<lparr>w_codec := h\<rparr>"
    using createMediaCodec_defined [of 1 "setOrientation 1 1 r2" "''c''" cast_env] s(1) w1 w2 assms(3) pl by auto
  have "handleSpsPps base csd_p (int (length csd_p)) = Ok (MARK1, set_csd base ([0, 0, 0, 1] @ [103, 66]) ([0, 0, 0, 1] @ [104, 206]))" for base
    using conjunct1 [OF handleSpsPps_annexb_lemma [OF nal_unit, of base "[104, 206]"]] by (simp add: csd_p_def)
  then obtain r4 where "createMediaFormat 1 1 r3 = Ok r4"
    using createMediaFormat_defined [of 1 r3 1 csd_p "int (length csd_p)"] r3(2) w1 w2 assms(3) s(2) pl
    by (auto simp: sps_pps_of_def window0_def)
  then show ?thesis using r1(1) r2 r3(1) assms(2) by (simp add: receive_sps_pps_def)
qed


end
