(* ===== verification/Decoder_Session.thy ===== *)
theory Decoder_Session
  imports Media_Server
begin

section \<open>A decoder thread from its start to its end\<close>

text \<open>
  The whole of \<open>startDecoder\<close> on a queue of frames after which the receiver stops: which frames reach
  the codec, in which order, what is freed, and that the thread ends. The codec is any codec that has
  an input buffer when asked and whose outputs run out.
\<close>

subsection \<open>Which frames are decoded\<close>

text \<open>The frames with \<open>k\<close>, then those after the last one. This is what is left when the decoder jumps to the next
  key frame in the queue before every frame it takes.\<close>

definition decode_order :: "('a \<Rightarrow> bool) \<Rightarrow> 'a list \<Rightarrow> 'a list" where
  "decode_order k xs = filter k xs @ rev (takeWhile (Not \<circ> k) (rev xs))"

lemma decode_order_Nil [simp]: "decode_order k [] = []"
  by (simp add: decode_order_def)

lemma takeWhile_none: "\<forall>x \<in> set xs. \<not> k x \<Longrightarrow> takeWhile (Not \<circ> k) (rev xs) = rev xs"
  by (simp add: takeWhile_eq_all_conv)

lemma decode_order_none: "\<forall>x \<in> set xs. \<not> k x \<Longrightarrow> decode_order k xs = xs"
  by (simp add: decode_order_def takeWhile_none)

lemma decode_order_key:
  assumes "k x" "\<forall>y \<in> set pre. \<not> k y"
  shows "decode_order k (pre @ x # xs) = x # decode_order k xs"
proof -
  have "takeWhile (Not \<circ> k) (rev xs @ x # rev pre) = takeWhile (Not \<circ> k) (rev xs)"
  proof (cases "\<exists>y \<in> set xs. k y")
    case True
    then show ?thesis by (auto intro: takeWhile_append1)
  next
    case False
    then have "takeWhile (Not \<circ> k) (rev xs @ x # rev pre) = rev xs @ takeWhile (Not \<circ> k) (x # rev pre)"
      by (intro takeWhile_append2) auto
    then show ?thesis using assms(1) False by (simp add: takeWhile_none)
  qed
  moreover have "filter k pre = []" using assms(2) by (auto simp: filter_empty_conv)
  ultimately show ?thesis using assms by (simp add: decode_order_def)
qed

lemma decode_order_drained:
  assumes "drained ds = d # rest"
  shows "decode_order keyd ds = d # decode_order keyd rest"
proof (cases "\<exists>x \<in> set ds. keyd x")
  case True
  then have k: "dropWhile (Not \<circ> keyd) ds = d # rest" using assms by (simp add: drained_def)
  then have "keyd d" using hd_dropWhile [of "Not \<circ> keyd" ds] by simp
  moreover have "ds = takeWhile (Not \<circ> keyd) ds @ d # rest" by (metis k takeWhile_dropWhile_id)
  moreover have "\<forall>y \<in> set (takeWhile (Not \<circ> keyd) ds). \<not> keyd y" by (auto dest: set_takeWhileD)
  ultimately show ?thesis using decode_order_key by metis
next
  case False
  then have "ds = d # rest" using assms by (simp add: drained_def split: if_splits)
  then show ?thesis using False decode_order_none [of ds keyd] decode_order_none [of rest keyd] by simp
qed

lemma set_drained: "set (drained ds) \<subseteq> set ds"
  by (auto simp: drained_def dest: set_dropWhileD)

lemma decode_order_set: "set (decode_order k xs) \<subseteq> set xs"
  by (auto simp: decode_order_def dest: set_takeWhileD)

lemma decode_order_map: "decode_order k (map f xs) = map f (decode_order (k \<circ> f) xs)"
  by (simp add: decode_order_def filter_map takeWhile_map rev_map o_assoc)

subsection \<open>The codec\<close>

text \<open>The data copied into input buffers.\<close>

definition fed :: "ncall list \<Rightarrow> byte list list" where
  "fed tr = concat (map (\<lambda>c. case c of Codec (Room_memcpy i bs) \<Rightarrow> [bs] | _ \<Rightarrow> []) tr)"

lemma fed_simps [simp]:
  "fed [] = []" "fed (xs @ ys) = fed xs @ fed ys" "fed (Codec (Room_memcpy i bs) # tr) = bs # fed tr"
  "fed (Thread t # tr) = fed tr" "fed (Window w # tr) = fed tr"
  "fed (Codec (Codec_dequeueOutput k) # tr) = fed tr" "fed (Codec (Codec_getOutput k i) # tr) = fed tr"
  "fed (Codec (Codec_releaseOutput k i r) # tr) = fed tr" "fed (Codec (Codec_getOutputFormat k) # tr) = fed tr"
  "fed (Codec (Codec_dequeueInput k) # tr) = fed tr" "fed (Codec (Codec_getInput k i) # tr) = fed tr"
  "fed (Codec (Codec_queueInput k i a b c d) # tr) = fed tr" "fed (Codec (Codec_delete k) # tr) = fed tr"
  by (simp_all add: fed_def)

definition is_input :: "ncall \<Rightarrow> bool" where
  "is_input c = (case c of Codec (Codec_queueInput k i a b t f) \<Rightarrow> True | _ \<Rightarrow> False)"

text \<open>How often the codec was asked for an output since the last input.\<close>

definition polls_since :: "ncall list \<Rightarrow> nat" where
  "polls_since h = count_calls is_poll (takeWhile (Not \<circ> is_input) (rev h))"

lemma polls_since_simps [simp]:
  "polls_since (h @ [c]) = (if is_input c then 0 else polls_since h + (if is_poll c then 1 else 0))"
  by (simp add: polls_since_def)

text \<open>After an input the codec has at most \<open>m\<close> outputs, and what it announces it delivers.\<close>

definition outputs_bounded :: "env \<Rightarrow> int \<Rightarrow> nat \<Rightarrow> bool" where
  "outputs_bounded e codec m =
     ((\<forall>h. m \<le> polls_since h \<longrightarrow> ans e (h @ [Codec (Codec_dequeueOutput codec)]) < 0) \<and>
      (\<forall>h i. ans e (h @ [Codec (Codec_getOutput codec i)]) \<noteq> 0))"

lemma call_trace_on: "call c s = trace_on [c] s"
  by (simp add: call_def trace_on_def)

lemma trace_on_twice: "trace_on xs (trace_on ys s) = trace_on (ys @ xs) s"
  by (simp add: trace_on_def)

lemma drain_outputs:
  assumes "outputs_bounded e codec m" and "m - polls_since (trace s) < fuel"
  shows "\<exists>tr. drainOutputBuffer fuel e c codec render s = Ok (True, trace_on tr s) \<and> fed tr = []"
  using assms(2)
proof (induction fuel arbitrary: s)
  case (Suc fuel)
  let ?i = "ans e (trace s @ [Codec (Codec_dequeueOutput codec)])"
  let ?tr = "[Codec (Codec_dequeueOutput codec), Codec (Codec_getOutput codec ?i), Codec (Codec_releaseOutput codec ?i render)]"
  consider "c = 1 \<and> \<not> w_isPlaying (win1 s) \<or> c = 2 \<and> \<not> w_isPlaying (win2 s)"
    | "\<not> (c = 1 \<and> \<not> w_isPlaying (win1 s) \<or> c = 2 \<and> \<not> w_isPlaying (win2 s))" "?i < 0"
    | "\<not> (c = 1 \<and> \<not> w_isPlaying (win1 s) \<or> c = 2 \<and> \<not> w_isPlaying (win2 s))" "0 \<le> ?i" by linarith
  then show ?case
  proof cases
    case 1
    then show ?thesis by (intro exI [of _ "[]"]) (auto simp: trace_on_def)
  next
    case 2
    then show ?thesis
      by (intro exI [of _ "Codec (Codec_dequeueOutput codec) #
          (if ?i = -2 then [Codec (Codec_getOutputFormat codec), Window Format_delete] else [])"])
        (auto simp: dequeueOutputBuffer_def output_info_def call_trace_on trace_on_twice)
  next
    case 3
    have "\<not> m \<le> polls_since (trace s)" using assms(1) 3(2) by (auto simp: outputs_bounded_def)
    moreover have "polls_since (trace (trace_on ?tr s)) = polls_since (trace s) + 1"
      using polls_since_simps by (simp add: polls_since_def is_input_def is_poll_def)
    ultimately have "m - polls_since (trace (trace_on ?tr s)) < fuel" using Suc.prems by linarith
    from Suc.IH [OF this] obtain tr where
      "drainOutputBuffer fuel e c codec render (trace_on ?tr s) = Ok (True, trace_on tr (trace_on ?tr s))" "fed tr = []"
      by blast
    moreover have "drainOutputBuffer (Suc fuel) e c codec render s = drainOutputBuffer fuel e c codec render (trace_on ?tr s)"
      using 3 assms(1)
      by (auto simp: dequeueOutputBuffer_def getOutputBuffer_def releaseOutputBuffer_def outputs_bounded_def
          call_trace_on trace_on_twice Let_def)
    ultimately show ?thesis by (intro exI [of _ "?tr @ tr"]) (simp add: trace_on_twice)
  qed
qed simp

subsection \<open>One frame\<close>

text \<open>The state after \<open>getData\<close> took a frame: \<open>ds\<close> is left and \<open>n\<close> frames before it were dropped.\<close>

definition takes :: "int \<Rightarrow> Data list \<Rightarrow> Data list \<Rightarrow> int \<Rightarrow> 'a md_scheme \<Rightarrow> 'a md_scheme" where
  "takes c q ds n s =
     call (Thread (Mutex_unlock c)) (upd_queue c (\<lambda>_. ds)
       (heap (- n) (upd_queue c (\<lambda>_. q) (call (Thread (Mutex_lock c)) s))))"

lemma takes_simps [simp]:
  "c = 1 \<or> c = 2 \<Longrightarrow> queue c (takes c q ds n s) = ds" "live (takes c q ds n s) = live s - n"
  "win k (takes c q ds n s) = win k s" "curPortrait k (takes c q ds n s) = curPortrait k s"
  "prePortrait k (takes c q ds n s) = prePortrait k s"
  "trace (takes c q ds n s) = trace s @ [Thread (Mutex_lock c), Thread (Mutex_unlock c)]"
  by (simp_all add: takes_def)

lemma getData_takes:
  assumes "c = 1 \<or> c = 2" "drained (queue c s) = d # ds" "\<forall>x \<in> set (queue c s). wf_data x"
  shows "getData c wake s = Ok (Some d, takes c (d # ds) ds (2 * int (length (queue c s) - length (d # ds))) s)"
proof -
  have c: "(c \<noteq> 1 \<and> c \<noteq> 2) = False" using assms(1) by blast
  have d: "drainFrame (queue c s) = Ok (d # ds, 2 * int (length (queue c s) - length (d # ds)))"
    using drainFrame_drained [OF assms(3)] assms(2) by simp
  show ?thesis using assms(1) unfolding getData_def c if_False by (simp add: d Let_def takes_def)
qed

text \<open>A frame the sender made: the data, the orientation and the flag byte; and whether it is decoded.\<close>

definition payload_of :: "Data \<Rightarrow> byte list" where
  "payload_of d = (case data d of None \<Rightarrow> [] | Some bs \<Rightarrow> take (length bs - 2) bs)"

definition mark_of :: "Data \<Rightarrow> byte" where
  "mark_of d = (case data d of None \<Rightarrow> 0 | Some bs \<Rightarrow> bs ! (length bs - 2))"

definition sent_frame :: "int \<Rightarrow> Data \<Rightarrow> bool" where
  "sent_frame cap d =
     (case data d of None \<Rightarrow> False
      | Some bs \<Rightarrow> 2 \<le> length bs \<and> size_of d = int (length bs) \<and> int (length bs) - 2 \<le> cap)"

definition fits :: "bool \<Rightarrow> Data \<Rightarrow> bool" where
  "fits portrait d = (\<not> mismatch (mark_of d) portrait)"

lemma sent_frame_wf: "sent_frame cap d \<Longrightarrow> wf_data d"
  by (auto simp: sent_frame_def wf_data_def split: option.splits)

lemma sent_frameE:
  assumes "sent_frame cap d"
  obtains payload mark flag where "data d = Some (payload @ [mark, flag])" "size_of d = int (length payload) + 2"
    "int (length payload) \<le> cap" "payload_of d = payload" "mark_of d = mark"
proof -
  obtain bs where bs: "data d = Some bs" "2 \<le> length bs" "size_of d = int (length bs)" "int (length bs) - 2 \<le> cap"
    using assms by (auto simp: sent_frame_def split: option.splits)
  let ?n = "length bs - 2"
  have "bs = take ?n bs @ drop ?n bs" by simp
  moreover obtain mark flag where "drop ?n bs = [mark, flag]"
    using bs(2) by (cases "drop ?n bs"; cases "tl (drop ?n bs)"; cases "tl (tl (drop ?n bs))")
      (auto simp: drop_eq_Nil dest!: arg_cong [where f = length])
  ultimately obtain mark flag where e: "bs = take ?n bs @ [mark, flag]" by metis
  then have "bs ! ?n = mark" using bs(2) by (metis length_take min.absorb2 diff_le_self nth_append_length)
  then show thesis using that [of "take ?n bs" mark flag] e bs by (simp add: payload_of_def mark_of_def)
qed

lemma input_ready_calls:
  assumes "input_ready e codec cap"
  shows "0 \<le> ans e (h @ [Codec (Codec_dequeueInput codec)])"
    and "ans e (h @ [Codec (Codec_dequeueInput codec), Codec (Codec_getInput codec i)]) \<noteq> 0"
    and "cap \<le> fst (ans_info e (h @ [Codec (Codec_dequeueInput codec), Codec (Codec_getInput codec i)]))"
  using assms unfolding input_ready_def by (metis, metis append.assoc append_Cons append_Nil, metis append.assoc append_Cons append_Nil)

lemma kept_trace_on [simp]:
  "queue c (trace_on tr s) = queue c s" "win k (trace_on tr s) = win k s"
  "curPortrait k (trace_on tr s) = curPortrait k s" "prePortrait k (trace_on tr s) = prePortrait k s"
  by (simp_all add: trace_on_def queue_def win_def curPortrait_def prePortrait_def)

text \<open>One round of the loop on a queue with frames.\<close>

lemma decoder_round:
  fixes s :: "'a md_scheme"
  assumes c: "c = 1 \<or> c = 2" and "w_isPlaying (win c s)" and q: "drained (queue c s) = d # ds"
    and w: "\<forall>x \<in> set (queue c s). sent_frame cap x" and p: "prePortrait c s = curPortrait c s"
    and e: "input_ready e codec cap" "outputs_bounded e codec m" and f: "m < fuel"
  shows "\<exists>s'. startDecoder_loop (Suc fuel) e wake c codec s = startDecoder_loop fuel e wake c codec s' \<and>
     queue c s' = ds \<and> win c s' = win c s \<and> curPortrait c s' = curPortrait c s \<and> prePortrait c s' = curPortrait c s \<and>
     fed (trace s') = fed (trace s) @ (if fits (curPortrait c s) d then [payload_of d] else []) \<and>
     live s' = live s - 2 * int (length (queue c s) - length ds) + (if fits (curPortrait c s) d then 0 else 2)"
proof -
  let ?n = "2 * int (length (queue c s) - length (d # ds))" let ?s1 = "takes c (d # ds) ds ?n s"
  have wf: "\<forall>x \<in> set (queue c s). wf_data x" using w sent_frame_wf by blast
  note g = getData_takes [OF c q wf, of wake]
  have dq: "d \<in> set (queue c s)" using set_drained [of "queue c s"] q by auto
  then obtain payload mark flag where d: "data d = Some (payload @ [mark, flag])" "size_of d = int (length payload) + 2"
    "int (length payload) \<le> cap" "payload_of d = payload" "mark_of d = mark" using w sent_frameE by metis
  have m: "rd (payload @ [mark, flag]) (int (length payload)) = Ok mark" by (simp add: rd_def)
  have len: "int (length (queue c s) - length (d # ds)) = int (length (queue c s) - length ds) - 1"
    using length_drained_le [of "queue c s"] q by simp
  show ?thesis
  proof (cases "fits (curPortrait c s) d")
    case False
    then have "startDecoder_loop (Suc fuel) e wake c codec s = startDecoder_loop fuel e wake c codec ?s1"
      using assms(2) g d m by (auto simp: fits_def mismatch_def)
    then show ?thesis by (intro exI [of _ ?s1] conjI, assumption) (use False c p len in simp_all)
  next
    case True
    define idx where "idx = ans e (trace ?s1 @ [Codec (Codec_dequeueInput codec)])"
    let ?tr = "[Codec (Codec_dequeueInput codec), Codec (Codec_getInput codec idx),
                Codec (Room_memcpy idx payload), Codec (Codec_queueInput codec idx 0 (int (length payload)) 0 0)]"
    have r: "0 \<le> idx" "ans e (trace ?s1 @ [Codec (Codec_dequeueInput codec), Codec (Codec_getInput codec idx)]) \<noteq> 0"
      "int (length payload) \<le> fst (ans_info e (trace ?s1 @ [Codec (Codec_dequeueInput codec), Codec (Codec_getInput codec idx)]))"
      using input_ready_calls [OF e(1), of "trace ?s1"] d(3) unfolding idx_def by (auto intro: order_trans)
    have fi: "feedInputBuffer e codec (Some (payload @ [mark, flag])) 0 (int (length payload)) 0 0 ?s1 = Ok (True, trace_on ?tr ?s1)"
      using feedInputBuffer_fed [OF r(1) idx_def r(2,3), of "payload @ [mark, flag]"] by (simp add: trace_on_def)
    have "polls_since (trace (trace_on ?tr ?s1)) = 0" using polls_since_simps by (simp add: polls_since_def is_input_def)
    then obtain tr where dr: "drainOutputBuffer fuel e c codec True (trace_on ?tr ?s1) = Ok (True, trace_on tr (trace_on ?tr ?s1))"
      "fed tr = []" using drain_outputs [OF e(2), of "trace_on ?tr ?s1" fuel c True] f by auto
    let ?s' = "heap (-2) (trace_on (?tr @ tr) ?s1)"
    have "feed_sps_pps fuel e c codec ?s1 = Ok ?s1" using p by (simp add: feed_sps_pps_def)
    then have "startDecoder_loop (Suc fuel) e wake c codec s = startDecoder_loop fuel e wake c codec ?s'"
      using assms(2) g d(1,2,5) m True fi dr(1)
      by (auto simp: fits_def mismatch_def feedInputBufferAndDrainOutputBuffer_def trace_on_twice)
    then show ?thesis by (intro exI [of _ ?s'] conjI, assumption) (use True c p len d(4) dr(2) in simp_all)
  qed
qed

subsection \<open>The whole thread\<close>

lemma decoder_loop_stopped:
  assumes "c = 1 \<or> c = 2" "queue c s = []"
  shows "\<exists>s'. startDecoder_loop (Suc fuel) e (stop_playing c) c codec s = Ok s' \<and> queue c s' = [] \<and>
     live s' = live s \<and> fed (trace s') = fed (trace s) \<and> blocks (win c s') = blocks (win c s)"
proof (cases "w_isPlaying (win c s)")
  case True
  have c: "(c \<noteq> 1 \<and> c \<noteq> 2) = False" using assms(1) by blast
  have "getData c (stop_playing c) s =
      (let s1 = stop_playing c (call (Thread (Cond_wait c)) (heap (- 0) (upd_queue c (\<lambda>_. []) (call (Thread (Mutex_lock c)) s))))
       in Ok (None, call (Thread (Mutex_unlock c)) s1))"
    unfolding getData_def c if_False
    using assms by (auto simp: drainFrame_drained drained_def Let_def stop_playing_def win_def upd_win_def)
  then show ?thesis
    using True assms
    by (auto simp: Let_def stop_playing_def win_def upd_win_def blocks_def queue_def upd_queue_def)
qed (use assms in auto)

lemma decoder_loop_session:
  fixes s :: "'a md_scheme"
  assumes c: "c = 1 \<or> c = 2" and e: "input_ready e codec cap" "outputs_bounded e codec m"
    and "w_isPlaying (win c s)" and "\<forall>x \<in> set (queue c s). sent_frame cap x"
    and "prePortrait c s = curPortrait c s" and "length (queue c s) + m < fuel"
  shows "\<exists>s'. startDecoder_loop fuel e (stop_playing c) c codec s = Ok s' \<and> queue c s' = [] \<and>
     fed (trace s') = fed (trace s) @ map payload_of (filter (fits (curPortrait c s)) (decode_order keyd (queue c s))) \<and>
     live s' = live s - 2 * int (length (queue c s)) +
       2 * int (length (filter (\<lambda>x. \<not> fits (curPortrait c s) x) (decode_order keyd (queue c s)))) \<and>
     blocks (win c s') = blocks (win c s)"
  using assms(4-7)
proof (induction fuel arbitrary: s)
  case (Suc fuel)
  show ?case
  proof (cases "queue c s")
    case Nil
    then show ?thesis using decoder_loop_stopped [OF c Nil, of fuel e codec] by (auto simp: Nil simp del: startDecoder_loop.simps)
  next
    case (Cons x xs)
    then obtain d ds where d: "drained (queue c s) = d # ds" by (cases "drained (queue c s)") auto
    have le: "length ds < length (queue c s)" using length_drained_le [of "queue c s"] d by simp
    have sub: "set ds \<subseteq> set (queue c s)" using set_drained [of "queue c s"] d by auto
    obtain s1 where s1: "startDecoder_loop (Suc fuel) e (stop_playing c) c codec s = startDecoder_loop fuel e (stop_playing c) c codec s1"
      "queue c s1 = ds" "win c s1 = win c s" "curPortrait c s1 = curPortrait c s" "prePortrait c s1 = curPortrait c s"
      "fed (trace s1) = fed (trace s) @ (if fits (curPortrait c s) d then [payload_of d] else [])"
      "live s1 = live s - 2 * int (length (queue c s) - length ds) + (if fits (curPortrait c s) d then 0 else 2)"
      using decoder_round [OF c Suc.prems(1) d Suc.prems(2,3) e, of fuel] Suc.prems(4) le by auto
    have "\<forall>x \<in> set (queue c s1). sent_frame cap x" using Suc.prems(2) sub s1(2) by blast
    then obtain s' where s': "startDecoder_loop fuel e (stop_playing c) c codec s1 = Ok s'" "queue c s' = []"
      "fed (trace s') = fed (trace s1) @ map payload_of (filter (fits (curPortrait c s)) (decode_order keyd ds))"
      "live s' = live s1 - 2 * int (length ds) + 2 * int (length (filter (\<lambda>x. \<not> fits (curPortrait c s) x) (decode_order keyd ds)))"
      "blocks (win c s') = blocks (win c s)"
      using Suc.IH [of s1] Suc.prems le s1(2-5) by auto
    have "startDecoder_loop (Suc fuel) e (stop_playing c) c codec s = Ok s'" using s1(1) s'(1) by (rule trans)
    moreover have "live s' = live s - 2 * int (length (queue c s)) +
        2 * int (length (filter (\<lambda>x. \<not> fits (curPortrait c s) x) (decode_order keyd (queue c s))))"
      using s1(7) s'(4) le decode_order_drained [OF d] by simp
    moreover have "fed (trace s') = fed (trace s) @ map payload_of (filter (fits (curPortrait c s)) (decode_order keyd (queue c s)))"
      using s1(6) s'(3) decode_order_drained [OF d] by simp
    ultimately show ?thesis using s'(2,5) by blast
  qed
qed simp

lemma start_simps [simp]:
  "queue c (set_prePortrait c s) = queue c s" "win k (set_prePortrait c s) = win k s"
  "curPortrait c (set_prePortrait c s) = curPortrait c s" "trace (set_prePortrait c s) = trace s"
  "live (set_prePortrait c s) = live s" "getCodec c (set_prePortrait c s) = getCodec c s"
  "c = 1 \<or> c = 2 \<Longrightarrow> prePortrait c (set_prePortrait c s) = curPortrait c s"
  by (auto simp: set_prePortrait_def queue_def win_def curPortrait_def prePortrait_def getCodec_def)

lemma fed_release [simp]:
  "fed (trace (release1 True s)) = fed (trace s)" "fed (trace (release2 True s)) = fed (trace s)"
  by (simp_all add: release1_def release2_def Let_def release_trace)

lemma released_blocks: "blocks (win1 (release1 True s)) = 0" "blocks (win2 (release2 True s)) = 0"
  by (simp_all add: blocks_def release1_eff release2_eff)

text \<open>The cleanup of a thread that leaves no frame.\<close>

lemma cleanup_empty:
  assumes "c = 1 \<or> c = 2" "queue c s = []"
  shows "\<exists>s'. (if c = 1 then free1 else free2) s = Ok s' \<and> queue c s' = [] \<and> fed (trace s') = fed (trace s) \<and>
     live s' = live s - blocks (win c s) \<and> released (win c s') \<and> blocks (win c s') = 0"
  using assms by (auto simp: free1_def free2_def queue_def win_def Let_def release1_eff release2_eff released_blocks)

lemma decoder_session_lemma:
  fixes s :: "'a md_scheme"
  assumes c: "c = 1 \<or> c = 2" and e: "input_ready e (getCodec c s) cap" "outputs_bounded e (getCodec c s) m"
    and "w_isPlaying (win c s)" and "\<forall>x \<in> set (queue c s). sent_frame cap x" and "length (queue c s) + m < fuel"
  shows "\<exists>s'. startDecoder fuel e (stop_playing c) c s = Ok s' \<and> queue c s' = [] \<and>
     fed (trace s') = fed (trace s) @ map payload_of (filter (fits (curPortrait c s)) (decode_order keyd (queue c s))) \<and>
     live s' = live s - 2 * int (length (queue c s)) - blocks (win c s) +
       2 * int (length (filter (\<lambda>x. \<not> fits (curPortrait c s) x) (decode_order keyd (queue c s)))) \<and>
     released (win c s') \<and> blocks (win c s') = 0"
proof -
  let ?s1 = "set_prePortrait c s"
  obtain s2 where s2: "startDecoder_loop fuel e (stop_playing c) c (getCodec c s) ?s1 = Ok s2" "queue c s2 = []"
    "fed (trace s2) = fed (trace s) @ map payload_of (filter (fits (curPortrait c s)) (decode_order keyd (queue c s)))"
    "live s2 = live s - 2 * int (length (queue c s)) +
       2 * int (length (filter (\<lambda>x. \<not> fits (curPortrait c s) x) (decode_order keyd (queue c s))))"
    "blocks (win c s2) = blocks (win c s)"
    using decoder_loop_session [OF c e, of ?s1 fuel] assms(4-6) c by auto
  obtain s' where s': "(if c = 1 then free1 else free2) s2 = Ok s'" "queue c s' = []" "fed (trace s') = fed (trace s2)"
    "live s' = live s2 - blocks (win c s2)" "released (win c s')" "blocks (win c s') = 0"
    using cleanup_empty [OF c s2(2)] by blast
  have n: "(c \<noteq> 1 \<and> c \<noteq> 2) = False" using c by blast
  have "startDecoder fuel e (stop_playing c) c s = Ok s'"
    unfolding startDecoder_def n if_False Let_def start_simps(6) s2(1) res_bind.simps using s'(1) .
  then show ?thesis using s' s2 by auto
qed


definition decoding_env :: env where
  "decoding_env = \<lparr>ans = (\<lambda>h. case last h of Codec (Codec_dequeueOutput k) \<Rightarrow> -1 | _ \<Rightarrow> 1),
     ans_bytes = (\<lambda>h. []), ans_str = (\<lambda>h. ''''), ans_info = (\<lambda>h. (100, 0))\<rparr>"

lemma decoding_env_ok: "input_ready decoding_env k 100" "outputs_bounded decoding_env k 0"
  by (simp_all add: input_ready_def outputs_bounded_def decoding_env_def)


end
