(* ===== verification/Cast_Rotation.thy ===== *)
theory Cast_Rotation
  imports Cast_Config Decoder_Session
begin

section \<open>A stream with rotations\<close>

text \<open>
  What the sender writes when the screen turns between two runs of frames, and what the receiver makes
  of any stream of messages: its loop refines a function on an abstract receiver, which knows the queue,
  the orientation and what Java was told.
\<close>

unbundle bit_operations_syntax

subsection \<open>Frames as messages\<close>

lemma wire_frame_message:
  "wire_frame payload flags p = message (payload @ [if p then 1 else 2, word_of_int flags])"
  by (simp add: wire_frame_def message_def add.commute)

text \<open>What the receiver queues for an encoder output.\<close>

definition tagged :: "bool \<Rightarrow> byte list \<times> int \<Rightarrow> byte list" where
  "tagged isPortrait frame = fst frame @ [if isPortrait then 1 else 2, word_of_int (snd frame)]"

text \<open>An encoder output the protocol can carry: it fits the receiver's buffer and does not start with
  one of the two bytes that announce a rotation (an H.264 or H.265 frame starts with 0).\<close>

definition castable :: "byte list \<times> int \<Rightarrow> bool" where
  "castable frame = (fst frame \<noteq> [] \<and> length (fst frame) + 2 \<le> DATA_BUFFER \<and>
                     hd (fst frame) \<noteq> 255 \<and> hd (fst frame) \<noteq> 254)"

lemma castable_frame_message: "castable f \<Longrightarrow> frame_message (tagged p f)"
  by (cases f) (auto simp: castable_def frame_message_def tagged_def)

lemma key_byte: "(word_of_int flags :: byte) AND 1 \<noteq> 0 \<longleftrightarrow> key_flag flags"
  by (simp add: key_flag_def and_one_eq mod_2_eq_odd bit_word_of_int_iff flip: bit_0)

lemma queued_tagged:
  "keyd (queued (tagged p f)) = key_flag (snd f)" "payload_of (queued (tagged p f)) = fst f"
  "castable f \<Longrightarrow> sent_frame (int DATA_BUFFER) (queued (tagged p f))" "fits p (queued (tagged p f))"
  using key_byte [of "snd f"]
  by (auto simp: keyd_def queued_def tagged_def payload_of_def sent_frame_def castable_def fits_def mismatch_def mark_of_def)

subsection \<open>What the receiver makes of a message\<close>

record receiver_view =
  v_queue :: "Data list"
  v_portrait :: bool
  v_turns :: "int list"

text \<open>255 and 254 announce portrait and landscape; everything else is a frame.\<close>

definition message_effect :: "byte list \<Rightarrow> receiver_view \<Rightarrow> receiver_view" where
  "message_effect m v =
     (if hd m = 255 then v\<lparr>v_portrait := True, v_turns := v_turns v @ [1]\<rparr>
      else if hd m = 254 then v\<lparr>v_portrait := False, v_turns := v_turns v @ [2]\<rparr>
      else v\<lparr>v_queue := v_queue v @ [queued m]\<rparr>)"

text \<open>The orientations handed to Java.\<close>

definition turns :: "ncall list \<Rightarrow> int list" where
  "turns tr = concat (map (\<lambda>c. case c of Jni (Jni_SetField obj f k) \<Rightarrow> if f = ''valueLong'' then [k] else [] | _ \<Rightarrow> []) tr)"

lemma turns_simps [simp]:
  "turns [] = []" "turns (xs @ ys) = turns xs @ turns ys"
  "turns (Jni (Jni_SetField obj f k) # tr) = (if f = ''valueLong'' then k # turns tr else turns tr)"
  "turns (Sys c # tr) = turns tr" "turns (Thread t # tr) = turns tr"
  "turns (Jni Jni_GetEnv # tr) = turns tr" "turns (Jni Jni_Attach # tr) = turns tr" "turns (Jni Jni_Detach # tr) = turns tr"
  "turns (Jni Jni_AllocObject # tr) = turns tr" "turns (Jni (Jni_DeleteLocalRef x) # tr) = turns tr"
  "turns (Jni (Jni_jni2Java k x) # tr) = turns tr"
  by (simp_all add: turns_def)

definition view_of :: "int \<Rightarrow> 'a md_scheme \<Rightarrow> receiver_view" where
  "view_of c s = \<lparr>v_queue = queue c s, v_portrait = curPortrait c s, v_turns = turns (trace s)\<rparr>"

text \<open>A virtual machine that knows a thread or attaches it.\<close>

definition jni_works :: "env \<Rightarrow> bool" where
  "jni_works e =
     (\<forall>h. (ans e (h @ [Jni Jni_GetEnv]) = JNI_OK \<or> ans e (h @ [Jni Jni_GetEnv]) = JNI_EDETACHED) \<and>
          ans e (h @ [Jni Jni_Attach]) = JNI_OK)"

lemma sys_read_keeps:
  "sys_read e fd n s = (bs, s') \<Longrightarrow>
   \<exists>i. s' = s\<lparr>trace := trace s @ [Sys (Sys_read fd (int n))], inbox := i\<rparr> \<or> s' = s\<lparr>trace := trace s @ [Sys (Sys_read fd (int n))]\<rparr>"
  by (auto simp: sys_read_def Let_def call_def split: if_splits)

lemma read_data_loop_keeps:
  fixes s :: "'a sv_scheme"
  assumes "read_data_loop e fd want rcap dcap tot buf s = Ok (r, buf', s')"
  shows "queue c s' = queue c s \<and> curPortrait c s' = curPortrait c s \<and> turns (trace s') = turns (trace s)"
  using assms
proof (induction "want - tot" arbitrary: tot buf s rule: less_induct)
  case less
  show ?case
  proof (cases "tot < want")
    case False
    then show ?thesis using less.prems by (subst (asm) read_data_loop.simps) simp
  next
    case True
    obtain bs s1 where r: "sys_read e fd (want - tot) s = (bs, s1)" by (cases "sys_read e fd (want - tot) s")
    have k: "queue c s1 = queue c s" "curPortrait c s1 = curPortrait c s" "turns (trace s1) = turns (trace s)"
      using sys_read_keeps [OF r] by (auto simp: queue_def curPortrait_def)
    show ?thesis
    proof (cases "bs = []")
      case True
      then show ?thesis using less.prems k r \<open>tot < want\<close> by (subst (asm) read_data_loop.simps) auto
    next
      case False
      then obtain buf1 where "read_data_loop e fd want rcap dcap (tot + length bs) buf1 s1 = Ok (r, buf', s')"
        using less.prems r \<open>tot < want\<close> by (subst (asm) read_data_loop.simps) (auto simp: res_bind_Ok_iff split: if_splits)
      from less.hyps [OF _ this] show ?thesis using k False \<open>tot < want\<close> by (simp add: diff_less_mono2)
    qed
  qed
qed

lemma read_big_keeps:
  fixes s :: "'a sv_scheme"
  assumes "read_big e d fd want s = Ok (r, s')"
  shows "view_of c s' = view_of c s"
  using assms read_data_loop_keeps [where c = c]
  by (fastforce simp: read_big_def read_data_def res_map_Ok_iff view_of_def)

lemma jni_trace_on [simp]:
  "myJniJavaObject (trace_on tr s) = myJniJavaObject s" "jni2JavaMethodID (trace_on tr s) = jni2JavaMethodID s"
  by (simp_all add: trace_on_def)

lemma getEnv_works:
  assumes "jni_works e"
  shows "\<exists>att tr. getEnv e s = (att, True, trace_on tr s) \<and> turns tr = []"
proof (cases rule: getEnv_cases [of e s])
  case 1
  then show ?thesis
    by (intro exI [of _ True] exI [of _ "[Jni Jni_GetEnv, Jni Jni_Attach]"]) (simp add: call_trace_on trace_on_twice)
next
  case 2
  then show ?thesis by (intro exI [of _ False] exI [of _ "[Jni Jni_GetEnv]"]) (simp add: call_trace_on)
next
  case 3
  moreover have "ans e ((trace s @ [Jni Jni_GetEnv]) @ [Jni Jni_Attach]) = JNI_OK" using assms by (simp only: jni_works_def)
  ultimately have False using assms by (auto simp: getEnv_def jni_works_def Let_def split: if_splits)
  then show ?thesis ..
qed

lemma changeWindow_turns:
  assumes "jni_works e"
  shows "\<exists>tr. changeWindow e c k s = Ok (trace_on tr s) \<and> turns tr = [k]"
proof -
  obtain att tr where g: "getEnv e s = (att, True, trace_on tr s)" "turns tr = []" using getEnv_works [OF assms] by blast
  define obj where "obj = ans e (trace (trace_on tr s) @ [Jni Jni_AllocObject])"
  define up where "up = (if myJniJavaObject s \<noteq> 0 \<and> jni2JavaMethodID s \<noteq> 0 then [Jni (Jni_jni2Java CODE_change_window obj)] else [])"
  let ?tr = "tr @ [Jni Jni_AllocObject, Jni (Jni_SetField obj ''valueInt'' c), Jni (Jni_SetField obj ''valueLong'' k)] @ up @
    [Jni (Jni_DeleteLocalRef obj)] @ (if att then [Jni Jni_Detach] else [])"
  have "changeWindow e c k s = Ok (trace_on ?tr s)"
    by (simp add: changeWindow_def g(1) jni2Java_def detach_def up_def obj_def call_trace_on trace_on_twice Let_def)
  moreover have "turns ?tr = [k]" using g(2) by (simp add: up_def)
  ultimately show ?thesis by blast
qed

lemma view_set [simp]:
  "view_of c (trace_on tr s) = (view_of c s)\<lparr>v_turns := turns (trace s) @ turns tr\<rparr>"
  "is_client c \<Longrightarrow> view_of c (setOrientation c k s) = (view_of c s)\<lparr>v_portrait := (k = 1)\<rparr>"
  "v_queue (view_of c s) = queue c s" "v_portrait (view_of c s) = curPortrait c s" "v_turns (view_of c s) = turns (trace s)"
  by (auto simp: view_of_def setOrientation_def is_client_def queue_def curPortrait_def trace_on_def)

subsection \<open>The receiver's loop refines the effects of its messages\<close>

definition cast_message :: "byte list \<Rightarrow> bool" where
  "cast_message m = (m \<noteq> [] \<and> length m \<le> DATA_BUFFER)"

lemma dispatch_effect:
  fixes s :: "'a sv_scheme"
  assumes "jni_works e" "is_client c" "MEDIA_CODEC_GO_JNI s" "m \<noteq> []"
  shows "\<exists>s'. dispatch e c m (int (length m)) s = Ok s' \<and> view_of c s' = message_effect m (view_of c s) \<and>
     inbox s' = inbox s \<and> MEDIA_CODEC_GO_JNI s'"
proof -
  have c: "c = 1 \<or> c = 2" using assms(2) by (simp add: is_client_def)
  have h: "m ! 0 = hd m" using assms(4) by (simp add: hd_conv_nth)
  have k: "MEDIA_CODEC_GO_JNI (trace_on tr s)" "inbox (trace_on tr s) = inbox s"
    "inbox (setOrientation c k (trace_on tr s)) = inbox s" "MEDIA_CODEC_GO_JNI (setOrientation c k (trace_on tr s))" for tr k
    using assms(3) by (simp_all add: trace_on_def setOrientation_def)
  consider "hd m = 255" | "hd m = 254" | "hd m \<noteq> 255" "hd m \<noteq> 254" by blast
  then show ?thesis
  proof cases
    case 1
    obtain tr where "changeWindow e c 1 s = Ok (trace_on tr s)" "turns tr = [1]" using changeWindow_turns [OF assms(1)] by blast
    then show ?thesis using 1 h k assms(2) by (simp add: dispatch_def message_effect_def)
  next
    case 2
    obtain tr where "changeWindow e c 2 s = Ok (trace_on tr s)" "turns tr = [2]" using changeWindow_turns [OF assms(1)] by blast
    then show ?thesis using 2 h k assms(2) by (simp add: dispatch_def message_effect_def)
  next
    case 3
    let ?s' = "call (Thread (Mutex_unlock c)) (call (Thread (Cond_signal c))
        (upd_queue c (\<lambda>q. q @ [queued m]) (call (Thread (Mutex_lock c)) (heap 2 s))))"
    have "putData c m (int (length m)) s = Ok ?s'" using c by (auto simp: putData_def slice_all Let_def queued_def)
    moreover have "view_of c ?s' = message_effect m (view_of c s)"
      using 3 c by (simp add: message_effect_def view_of_def)
    ultimately show ?thesis using 3 h assms(3) by (simp add: dispatch_def sv_frame)
  qed
qed

lemma receive_loop_message:
  fixes s :: "'a sv_scheme"
  assumes e: "reads_succeed e fd" "jni_works e" and c: "is_client c" and j: "MEDIA_CODEC_GO_JNI s"
    and m: "cast_message m" and i: "inbox s fd = message m @ rest"
  shows "\<exists>s'. receive_loop (Suc fuel) e c fd s = receive_loop fuel e c fd s' \<and> inbox s' fd = rest \<and>
     view_of c s' = message_effect m (view_of c s) \<and> MEDIA_CODEC_GO_JNI s'"
proof -
  have n: "length m \<le> DATA_BUFFER" "m \<noteq> []" using m by (simp_all add: cast_message_def)
  obtain s1 s2 where r1: "read_big e c fd 4 s = Ok (EXIT_SUCCESS, s1)"
    and w: "sint (uint8tToInt (client_data_buffer c s1)) = int (length m)"
    and r2: "read_big e c fd (int (length m)) s1 = Ok (EXIT_SUCCESS, s2)"
    and p2: "prefix_of (client_data_buffer c s2) (length m) = m" and i2: "inbox s2 fd = rest"
    and k2: "live s2 = live s" "queue c s2 = queue c s" "MEDIA_CODEC_GO_JNI s2 = MEDIA_CODEC_GO_JNI s" "win c s2 = win c s"
    by (rule read_message [OF e(1) n(1) i, of c])
  have v: "view_of c s2 = view_of c s" using read_big_keeps [OF r1] read_big_keeps [OF r2] by simp
  obtain s3 where "dispatch e c m (int (length m)) s2 = Ok s3" "view_of c s3 = message_effect m (view_of c s2)"
    "inbox s3 = inbox s2" "MEDIA_CODEC_GO_JNI s3"
    using dispatch_effect [OF e(2) c, of s2 m] j k2(3) n(2) by auto
  then show ?thesis using r1 w r2 p2 i2 v n by (intro exI [of _ s3]) (simp add: Let_def)
qed

lemma receive_loop_refines_lemma:
  fixes s :: "'a sv_scheme"
  assumes "reads_succeed e fd" "jni_works e" "is_client c" "MEDIA_CODEC_GO_JNI s"
    and "\<forall>m \<in> set ms. cast_message m" "inbox s fd = concat (map message ms)" "length ms < fuel"
  shows "\<exists>s'. receive_loop fuel e c fd s = Ok s' \<and> view_of c s' = fold message_effect ms (view_of c s)"
  using assms(4-7)
proof (induction ms arbitrary: s fuel)
  case Nil
  then obtain f where f: "fuel = Suc f" by (cases fuel) auto
  obtain s1 where r: "read_big e c fd 4 s = Ok (EXIT_FAILURE, s1)"
    using read_big_eof [OF assms(1), of s 4 c c] Nil.prems by auto
  then show ?case using read_big_keeps [OF r] by (simp add: f EXIT_FAILURE_def EXIT_SUCCESS_def)
next
  case (Cons m ms)
  then obtain f where f: "fuel = Suc f" by (cases fuel) auto
  obtain s1 where s1: "receive_loop (Suc f) e c fd s = receive_loop f e c fd s1" "inbox s1 fd = concat (map message ms)"
    "view_of c s1 = message_effect m (view_of c s)" "MEDIA_CODEC_GO_JNI s1"
    using receive_loop_message [OF assms(1-3) Cons.prems(1), of m "concat (map message ms)" f] Cons.prems by auto
  from Cons.IH [OF s1(4) _ s1(2), of f] Cons.prems f obtain s' where
    "receive_loop f e c fd s1 = Ok s'" "view_of c s' = fold message_effect ms (view_of c s1)" by auto
  then show ?case using s1(1,3) by (auto simp: f simp del: receive_loop.simps)
qed



subsection \<open>The sender turns\<close>

lemma handle_frames_sends:
  assumes "sending e s" "writes_succeed e (server_sock_fd s)" "\<not> ONLY_OUTPUT_KEY_FRAME s" "\<not> gate p s"
  shows "\<exists>tr s1. handle_frames e p fs s = Ok (trace_on tr s1) \<and> (s1 = s \<or> s1 = open_gate p s) \<and>
     writes_to (server_sock_fd s) tr = map (\<lambda>(r, f). wire_frame r f p) (dropWhile (\<lambda>(r, f). \<not> key_flag f) fs)"
  using assms
proof (induction fs)
  case Nil
  then show ?case by (intro exI [of _ "[]"] exI [of _ s]) simp
next
  case (Cons x fs)
  obtain r f where x: "x = (r, f)" by force
  show ?case
  proof (cases "key_flag f")
    case False
    then show ?thesis using Cons by (simp add: x handleOutputBuffer_step)
  next
    case True
    let ?fd = "server_sock_fd s"
    let ?tr = "send_calls ?fd (wire_frame r f p) @ concat (map (\<lambda>(r, f). send_calls ?fd (wire_frame r f p)) fs)"
    have "handle_frames e p (x # fs) s = Ok (trace_on ?tr (open_gate p s))"
      using Cons.prems True by (simp add: x handleOutputBuffer_step handle_frames_open)
    then show ?thesis
      using True by (intro exI [of _ ?tr] exI [of _ "open_gate p s"]) (simp add: x writes_to_send_calls writes_to_concat_sends)
  qed
qed

lemma orientation_message_bytes: "orientation_message b = Ok (message [b])"
  by (simp add: orientation_message_def int2Bytes_eq message_def) (simp add: list_update_append)

lemma rotation_sends:
  fixes s :: "'a mc_scheme"
  assumes "fromPortraitToLandscape e s = Ok s'" "sending e s" "writes_succeed e (server_sock_fd s)"
    and "ORIENTATION_LANDSCAPE s = message [254]"
  shows "\<exists>tr. s' = trace_on tr (s\<lparr>win1 := (win1 s)\<lparr>w_isPlaying := False\<rparr>,
            win2 := (win2 s)\<lparr>w_isPlaying := True, w_isKeyFrameWrite := False\<rparr>\<rparr>) \<and>
     writes_to (server_sock_fd s) tr = [message [254]]"
proof -
  obtain s1 where cb: "void_callback e CODE_createLandscapeVirtualDisplay s = Ok s1"
    and snd: "sendData e (ORIENTATION_LANDSCAPE s1) 5 (s1\<lparr>win1 := (win1 s1)\<lparr>w_isPlaying := False\<rparr>,
         win2 := (win2 s1)\<lparr>w_isPlaying := True, w_isKeyFrameWrite := False\<rparr>\<rparr>) = Ok s'"
    using assms(1) by (auto simp: fromPortraitToLandscape_def createLandscapeVirtualDisplay_def res_bind_Ok_iff)
  obtain tr where s1: "s1 = s\<lparr>trace := trace s @ tr\<rparr>" and tr: "writes_to (server_sock_fd s) tr = []"
    using void_callback_trace [OF cb] by blast
  let ?t = "s1\<lparr>win1 := (win1 s1)\<lparr>w_isPlaying := False\<rparr>, win2 := (win2 s1)\<lparr>w_isPlaying := True, w_isKeyFrameWrite := False\<rparr>\<rparr>"
  have "sending e ?t" "server_sock_fd ?t = server_sock_fd s" using assms(2) by (simp_all add: s1 sending_def)
  then have "s' = trace_on (send_calls (server_sock_fd s) (message [254])) ?t"
    using snd sendData_sent' [of e ?t 5 "message [254]"] assms(3,4) by (simp add: s1 message_def le4_def)
  then show ?thesis
    using tr by (intro exI [of _ "tr @ send_calls (server_sock_fd s) (message [254])"])
      (simp add: s1 trace_on_def writes_to_send_calls)
qed

text \<open>Frames in portrait, a turn, frames in landscape: what is written.\<close>

lemma turning_stream:
  fixes s :: "'a mc_scheme"
  assumes "isRecording s" "server_sock_fd s \<noteq> -1" "writes_succeed e (server_sock_fd s)"
    and "\<not> ONLY_OUTPUT_KEY_FRAME s" "\<not> gate True s" "ORIENTATION_LANDSCAPE s = message [254]"
    and "handle_frames e True fs1 s = Ok s1" "fromPortraitToLandscape e s1 = Ok s2" "handle_frames e False fs2 s2 = Ok s3"
  shows "writes_to (server_sock_fd s) (new_calls s s3) =
     map message (map (tagged True) (dropWhile (\<lambda>(r, f). \<not> key_flag f) fs1) @ [[254]] @
                  map (tagged False) (dropWhile (\<lambda>(r, f). \<not> key_flag f) fs2))"
proof -
  have snd: "sending e s" using assms(1,2) by (simp add: sending_def)
  obtain tr1 t1 where 1: "s1 = trace_on tr1 t1" "t1 = s \<or> t1 = open_gate True s"
    "writes_to (server_sock_fd s) tr1 = map (\<lambda>(r, f). wire_frame r f True) (dropWhile (\<lambda>(r, f). \<not> key_flag f) fs1)"
    using handle_frames_sends [OF snd assms(3-5), of fs1] assms(7) by auto
  have k1: "sending e s1" "server_sock_fd s1 = server_sock_fd s" "ORIENTATION_LANDSCAPE s1 = message [254]"
    "\<not> ONLY_OUTPUT_KEY_FRAME s1" "trace s1 = trace s @ tr1"
    using 1(1,2) snd assms(4,6) by (auto simp: trace_on_def open_gate_def sending_def)
  obtain tr2 where 2: "s2 = trace_on tr2 (s1\<lparr>win1 := (win1 s1)\<lparr>w_isPlaying := False\<rparr>,
      win2 := (win2 s1)\<lparr>w_isPlaying := True, w_isKeyFrameWrite := False\<rparr>\<rparr>)" "writes_to (server_sock_fd s) tr2 = [message [254]]"
    using rotation_sends [OF assms(8) k1(1) _ k1(3)] assms(3) k1(2) by auto
  have k2: "sending e s2" "server_sock_fd s2 = server_sock_fd s" "\<not> ONLY_OUTPUT_KEY_FRAME s2" "\<not> gate False s2"
    "trace s2 = trace s @ tr1 @ tr2"
    using 2(1) k1 by (auto simp: trace_on_def sending_def gate_def)
  obtain tr3 t3 where 3: "s3 = trace_on tr3 t3" "t3 = s2 \<or> t3 = open_gate False s2"
    "writes_to (server_sock_fd s) tr3 = map (\<lambda>(r, f). wire_frame r f False) (dropWhile (\<lambda>(r, f). \<not> key_flag f) fs2)"
    using handle_frames_sends [OF k2(1) _ k2(3,4), of fs2] assms(3,9) k2(2) by auto
  have "new_calls s s3 = tr1 @ tr2 @ tr3" using 3(1,2) k2(5) by (auto simp: new_calls_def)
  then show ?thesis by (simp add: 1(3) 2(2) 3(3) wire_frame_message tagged_def split_def)
qed

subsection \<open>The turn arrives\<close>

lemma decode_order_append: "\<exists>x \<in> set ys. k x \<Longrightarrow> decode_order k (xs @ ys) = filter k xs @ decode_order k ys"
  by (auto simp: decode_order_def takeWhile_append1)

lemma fold_frames:
  "\<forall>m \<in> set ms. hd m \<noteq> 255 \<and> hd m \<noteq> 254 \<Longrightarrow> fold message_effect ms v = v\<lparr>v_queue := v_queue v @ map queued ms\<rparr>"
  by (induction ms arbitrary: v) (simp_all add: message_effect_def)

lemma tagged_message: "castable f \<Longrightarrow> cast_message (tagged p f) \<and> hd (tagged p f) \<noteq> 255 \<and> hd (tagged p f) \<noteq> 254"
  by (auto simp: castable_def cast_message_def tagged_def)

text \<open>The queue after a turn: portrait frames, then landscape frames that start with a key frame.\<close>

lemma turned_queue:
  fixes A B :: "(byte list \<times> int) list"
  defines "ks \<equiv> \<lambda>f :: byte list \<times> int. key_flag (snd f)"
  assumes "q = map (queued \<circ> tagged True) A @ map (queued \<circ> tagged False) B" "B = dropWhile (Not \<circ> ks) B'"
  shows "map payload_of (filter (fits False) (decode_order keyd q)) = map fst (decode_order ks B)"
    and "B \<noteq> [] \<Longrightarrow> length (filter (\<lambda>x. \<not> fits False x) (decode_order keyd q)) = length (filter ks A)"
proof -
  have fits: "fits False (queued (tagged False f))" "\<not> fits False (queued (tagged True f))" for f
    by (simp_all add: fits_def mismatch_def mark_of_def queued_def tagged_def)
  have k: "keyd \<circ> (queued \<circ> tagged p) = ks" for p by (simp add: o_def queued_tagged(1) ks_def)
  have B: "filter (fits False) (map (queued \<circ> tagged False) C) = map (queued \<circ> tagged False) C"
    "filter (\<lambda>x. \<not> fits False x) (map (queued \<circ> tagged False) C) = []"
    "filter (fits False) (map (queued \<circ> tagged True) C) = []"
    "filter (\<lambda>x. \<not> fits False x) (map (queued \<circ> tagged True) C) = map (queued \<circ> tagged True) C" for C
    using fits by (induction C) auto
  have "map payload_of (filter (fits False) (decode_order keyd q)) = map fst (decode_order ks B) \<and>
      (B \<noteq> [] \<longrightarrow> length (filter (\<lambda>x. \<not> fits False x) (decode_order keyd q)) = length (filter ks A))"
  proof (cases "B = []")
    case True
    then show ?thesis using assms(2) by (simp add: decode_order_map k B)
  next
    case False
    have "ks (hd B)" using hd_dropWhile [of "Not \<circ> ks" B'] assms(3) False by simp
    then have "\<exists>x \<in> set (map (queued \<circ> tagged False) B). keyd x"
      using False k [of False] hd_in_set [of B] by (force simp: o_def dest: fun_cong)
    from decode_order_append [OF this] have d: "decode_order keyd q =
        map (queued \<circ> tagged True) (filter ks A) @ map (queued \<circ> tagged False) (decode_order ks B)"
      unfolding assms(2) decode_order_map k by (simp add: filter_map k)
    have "map payload_of (map (queued \<circ> tagged False) (decode_order ks B)) = map fst (decode_order ks B)"
      by (simp add: queued_tagged)
    then show ?thesis by (simp add: d B del: map_map)
  qed
  then show "map payload_of (filter (fits False) (decode_order keyd q)) = map fst (decode_order ks B)"
    and "B \<noteq> [] \<Longrightarrow> length (filter (\<lambda>x. \<not> fits False x) (decode_order keyd q)) = length (filter ks A)" by simp_all
qed

lemma turned_receiver:
  fixes s :: "'a mc_scheme" and r :: "'b sv_scheme"
  assumes "isRecording s" "server_sock_fd s \<noteq> -1" "writes_succeed e (server_sock_fd s)"
    and "\<not> ONLY_OUTPUT_KEY_FRAME s" "\<not> gate True s" "orientation_message 254 = Ok (ORIENTATION_LANDSCAPE s)"
    and "\<forall>f \<in> set fs1 \<union> set fs2. castable f"
    and "handle_frames e True fs1 s = Ok s1" "fromPortraitToLandscape e s1 = Ok s2" "handle_frames e False fs2 s2 = Ok s3"
    and "reads_succeed e' fd" "jni_works e'" "is_client c" "MEDIA_CODEC_GO_JNI r"
    and "inbox r fd = concat (writes_to (server_sock_fd s) (new_calls s s3))" "length fs1 + length fs2 + 1 < fuel"
  shows "\<exists>r'. receive_loop fuel e' c fd r = Ok r' \<and> view_of c r' =
     \<lparr>v_queue = queue c r @ map (queued \<circ> tagged True) (dropWhile (\<lambda>(r, f). \<not> key_flag f) fs1) @
                map (queued \<circ> tagged False) (dropWhile (\<lambda>(r, f). \<not> key_flag f) fs2),
      v_portrait = False, v_turns = turns (trace r) @ [2]\<rparr>"
proof -
  let ?A = "dropWhile (\<lambda>(r, f). \<not> key_flag f) fs1" and ?B = "dropWhile (\<lambda>(r, f). \<not> key_flag f) fs2"
  let ?ms = "map (tagged True) ?A @ [[254]] @ map (tagged False) ?B"
  have o: "ORIENTATION_LANDSCAPE s = message [254]" using assms(6) by (simp add: orientation_message_bytes)
  have i: "inbox r fd = concat (map message ?ms)"
    using turning_stream [OF assms(1-5) o assms(8-10)] assms(15) by simp
  have c: "\<forall>f \<in> set ?A. castable f" "\<forall>f \<in> set ?B. castable f" using assms(7) by (auto dest!: set_dropWhileD)
  have "\<forall>m \<in> set ?ms. cast_message m"
    using c tagged_message by (auto simp: cast_message_def DATA_BUFFER_def)
  moreover have "length ?ms < fuel"
    using assms(16) length_dropWhile_le [of "\<lambda>(r, f). \<not> key_flag f" fs1] length_dropWhile_le [of "\<lambda>(r, f). \<not> key_flag f" fs2]
    by simp
  ultimately obtain r' where r': "receive_loop fuel e' c fd r = Ok r'" "view_of c r' = fold message_effect ?ms (view_of c r)"
    using receive_loop_refines_lemma [OF assms(11-14) _ i] by blast
  have f: "fold message_effect (map (tagged p) C) v = v\<lparr>v_queue := v_queue v @ map (queued \<circ> tagged p) C\<rparr>"
    if "\<forall>f \<in> set C. castable f" for p C v
    using fold_frames [of "map (tagged p) C" v] that tagged_message by auto
  have "view_of c r' = \<lparr>v_queue = queue c r @ map (queued \<circ> tagged True) ?A @ map (queued \<circ> tagged False) ?B,
      v_portrait = False, v_turns = turns (trace r) @ [2]\<rparr>"
    using f [OF c(1)] f [OF c(2)] by (simp add: r'(2) message_effect_def)
  then show ?thesis using r'(1) by blast
qed


lemma turn_defined:
  assumes "sending cast_env s" "myJniJavaObject s \<noteq> 0" "jni2JavaMethodID s \<noteq> 0" "ORIENTATION_LANDSCAPE s = message [254]"
  shows "\<exists>s'. fromPortraitToLandscape cast_env s = Ok s'"
proof -
  obtain s1 where cb: "void_callback cast_env CODE_createLandscapeVirtualDisplay s = Ok s1"
    using assms(2,3) by (simp add: void_callback_def getEnv_def cast_env_def JNI_OK_def call_jni2Java_def Let_def)
  obtain tr where s1: "s1 = s\<lparr>trace := trace s @ tr\<rparr>" using void_callback_trace [OF cb] by blast
  let ?t = "s1\<lparr>win1 := (win1 s1)\<lparr>w_isPlaying := False\<rparr>, win2 := (win2 s1)\<lparr>w_isPlaying := True, w_isKeyFrameWrite := False\<rparr>\<rparr>"
  have "sending cast_env ?t" "writes_succeed cast_env (server_sock_fd ?t)"
    using assms(1) by (simp_all add: s1 sending_def writes_succeed_def cast_env_def)
  then have "\<exists>s'. sendData cast_env (ORIENTATION_LANDSCAPE s1) 5 ?t = Ok s'"
    using sendData_sent' [of cast_env ?t 5 "message [254]"] assms(4) by (simp add: s1 message_def le4_def)
  then show ?thesis using cb by (auto simp: fromPortraitToLandscape_def createLandscapeVirtualDisplay_def)
qed

definition turning_sender :: mc where
  "turning_sender = mc0\<lparr>isRecording := True, server_sock_fd := 9, ORIENTATION_LANDSCAPE := message [254]\<rparr>"

definition wide_env :: env where
  "wide_env = decoding_env\<lparr>ans_info := \<lambda>h. (int DATA_BUFFER, 0)\<rparr>"


end
