(* ===== verification/Queue_Threads.thy ===== *)
theory Queue_Threads
  imports Frame_Queue "HOL-Library.Sublist"
begin

section \<open>Receiver thread against decoder thread\<close>

text \<open>
  One client's queue with its two threads as a step relation. Every critical section of
  \<open>putData\<close>, \<open>getData\<close> and of the end of \<open>receive_data\<close> is one step (they hold the same mutex);
  \<open>pthread_cond_wait\<close> gives the mutex up until the waiting thread is woken. The decoder thread is
  the loop \<open>while (*isPlaying) getData(...)\<close>; the receiver puts frames, and at its end clears
  \<open>isPlaying\<close> (without the mutex) and then signals under the mutex. A frame is taken to be well formed.
\<close>

datatype consumer = Testing | Entering | Waiting | Woken | Finished | Crashed

datatype receiver = Receiving | Flag_cleared | Signalled

record threads =
  frames :: "Data list"
  playing :: bool
  consumer :: consumer
  receiver :: receiver
  received :: "Data list"
  decoded :: "Data list"

definition start :: threads where
  "start = \<lparr>frames = [], playing = True, consumer = Testing, receiver = Receiving, received = [], decoded = []\<rparr>"

text \<open>\<open>pthread_cond_signal\<close>: wakes the decoder thread if it waits, and is lost otherwise.\<close>

definition signal :: "consumer \<Rightarrow> consumer" where
  "signal c = (if c = Waiting then Woken else c)"

text \<open>The first critical section of \<open>getData\<close>: drain, then take the front or wait.\<close>

definition enter :: "threads \<Rightarrow> threads" where
  "enter t =
     (case drained (frames t) of
        [] \<Rightarrow> t\<lparr>consumer := Waiting\<rparr>
      | d # ds \<Rightarrow> t\<lparr>frames := ds, decoded := decoded t @ [d], consumer := Testing\<rparr>)"

text \<open>The second one, after the wait: \<open>isPlaying\<close> is tested, the queue is not.\<close>

definition wake_up :: "threads \<Rightarrow> threads" where
  "wake_up t =
     (if \<not> playing t then t\<lparr>consumer := Finished\<rparr>
      else case frames t of
             [] \<Rightarrow> t\<lparr>consumer := Crashed\<rparr>
           | d # ds \<Rightarrow> t\<lparr>frames := ds, decoded := decoded t @ [d], consumer := Testing\<rparr>)"

inductive step :: "bool \<Rightarrow> threads \<Rightarrow> threads \<Rightarrow> bool" for spurious :: bool where
  test_playing: "consumer t = Testing \<Longrightarrow> playing t \<Longrightarrow> step spurious t (t\<lparr>consumer := Entering\<rparr>)"
| test_stopped: "consumer t = Testing \<Longrightarrow> \<not> playing t \<Longrightarrow> step spurious t (t\<lparr>consumer := Finished\<rparr>)"
| get_data: "consumer t = Entering \<Longrightarrow> step spurious t (enter t)"
| woken: "consumer t = Woken \<Longrightarrow> step spurious t (wake_up t)"
| spurious_wakeup: "spurious \<Longrightarrow> consumer t = Waiting \<Longrightarrow> step spurious t (t\<lparr>consumer := Woken\<rparr>)"
| put_data: "receiver t = Receiving \<Longrightarrow>
    step spurious t (t\<lparr>frames := frames t @ [d], received := received t @ [d], consumer := signal (consumer t)\<rparr>)"
| clear_flag: "receiver t = Receiving \<Longrightarrow> step spurious t (t\<lparr>playing := False, receiver := Flag_cleared\<rparr>)"
| send_signal: "receiver t = Flag_cleared \<Longrightarrow>
    step spurious t (t\<lparr>receiver := Signalled, consumer := signal (consumer t)\<rparr>)"

inductive reachable :: "bool \<Rightarrow> threads \<Rightarrow> bool" for spurious :: bool where
  init: "reachable spurious start"
| next_step: "reachable spurious t \<Longrightarrow> step spurious t t' \<Longrightarrow> reachable spurious t'"

inductive_cases stepE: "step spurious t t'"

lemmas thread_defs = start_def signal_def enter_def wake_up_def

text \<open>A thread that was woken by the receiver has something to take, or the window was stopped.\<close>

definition woken_inv :: "threads \<Rightarrow> bool" where
  "woken_inv t =
     ((consumer t = Woken \<longrightarrow> frames t \<noteq> [] \<or> \<not> playing t) \<and>
      (receiver t = Receiving \<longleftrightarrow> playing t) \<and>
      (consumer t = Waiting \<longrightarrow> frames t = []) \<and> consumer t \<noteq> Crashed)"

lemma woken_inv_step: "step False t t' \<Longrightarrow> woken_inv t \<Longrightarrow> woken_inv t'"
  by (erule stepE) (auto simp: woken_inv_def thread_defs split: list.splits if_splits)

lemma reachable_woken_inv: "reachable False t \<Longrightarrow> woken_inv t"
  by (induction rule: reachable.induct) (simp add: woken_inv_def start_def, blast intro: woken_inv_step)

text \<open>C21: Without spurious wake-ups the missing loop around \<open>pthread_cond_wait\<close> does no harm: in no
  interleaving of the receiver and the decoder thread is the front of an empty queue taken, and a
  waiting decoder means an empty queue.\<close>

theorem no_crash_without_spurious_wakeups:
  assumes "reachable False t"
  shows "consumer t \<noteq> Crashed \<and> (consumer t = Waiting \<longrightarrow> frames t = [])"
  using reachable_woken_inv [OF assms] by (simp add: woken_inv_def)

lemma no_crash_without_spurious_wakeups_witness:
  "consumer (start\<lparr>consumer := Entering\<rparr>) \<noteq> Crashed"
proof -
  have "step False start (start\<lparr>consumer := Entering\<rparr>)"
    by (rule test_playing) (simp_all add: start_def)
  then have "reachable False (start\<lparr>consumer := Entering\<rparr>)" by (rule next_step [OF init])
  from no_crash_without_spurious_wakeups [OF this] show ?thesis by simp
qed

text \<open>No frame is decoded twice or out of order: in every reachable state, spurious wake-ups included,
  the decoded frames followed by the queued ones are a subsequence of the received ones (the
  missing ones were dropped in favour of a key frame).\<close>

theorem frames_in_order:
  assumes "reachable spurious t"
  shows "subseq (decoded t @ frames t) (received t)"
  using assms
proof induction
  case init
  then show ?case by (simp add: start_def)
next
  case (next_step t t')
  have d: "subseq (decoded t @ drained (frames t)) (received t)"
  proof -
    have "subseq (drained (frames t)) (frames t)"
      by (auto simp: drained_def intro: suffix_imp_subseq suffix_dropWhile)
    then have "subseq (decoded t @ drained (frames t)) (decoded t @ frames t)"
      by (rule list_emb_append_mono [OF subseq_order.order_refl])
    then show ?thesis using next_step.IH by (rule subseq_order.order_trans)
  qed
  from next_step.hyps(2) show ?case
  proof cases
    case get_data
    then show ?thesis using d next_step.IH
      by (cases "drained (frames t)") (auto simp: enter_def)
  next
    case woken
    then show ?thesis using next_step.IH by (auto simp: wake_up_def split: list.splits)
  next
    case (put_data d)
    then show ?thesis using next_step.IH
      by (simp flip: append_assoc)
  qed (use next_step.IH in auto)
qed

lemma frames_in_order_witness:
  "\<exists>t. reachable True t \<and> subseq (decoded t @ frames t) (received t) \<and>
       received t = [\<lparr>data = Some [7, 1, 1], size_of = 3\<rparr>]"
proof -
  let ?d = "\<lparr>data = Some [7, 1, 1], size_of = 3\<rparr>"
  let ?t = "start\<lparr>frames := frames start @ [?d], received := received start @ [?d], consumer := signal (consumer start)\<rparr>"
  have s: "step True start ?t" by (rule put_data) (simp add: start_def)
  have r: "reachable True ?t" by (rule next_step [OF init s])
  show ?thesis
    by (intro exI [where x = ?t] conjI) (rule r, rule frames_in_order [OF r], simp add: start_def)
qed

section \<open>The lost wake-up\<close>

text \<open>A decoder thread that waits after the receiver has signalled is waiting for good.\<close>

definition asleep :: "threads \<Rightarrow> bool" where
  "asleep t = (consumer t = Waiting \<and> receiver t = Signalled)"

lemma asleep_stuck: "asleep t \<Longrightarrow> \<not> step False t t'"
  by (auto simp: asleep_def elim: stepE)

lemma reachable_step [intro]: "reachable b t \<Longrightarrow> step b t t' \<Longrightarrow> reachable b t'"
  by (rule next_step)

lemma reach_entering: "reachable False (start\<lparr>consumer := Entering\<rparr>)"
  by (rule next_step [OF init test_playing]) (simp_all add: start_def)

lemma reach_cleared: "reachable False (start\<lparr>consumer := Entering, playing := False, receiver := Flag_cleared\<rparr>)"
  using next_step [OF reach_entering clear_flag] by (simp add: start_def)

lemma reach_signalled: "reachable False (start\<lparr>consumer := Entering, playing := False, receiver := Signalled\<rparr>)"
  using next_step [OF reach_cleared send_signal] by (simp add: start_def signal_def)

lemma reach_asleep: "reachable False (start\<lparr>consumer := Waiting, playing := False, receiver := Signalled\<rparr>)"
  using next_step [OF reach_signalled get_data] by (simp add: start_def enter_def drained_def)

text \<open>The end of the stream can be missed. The decoder thread tests \<open>isPlaying\<close> outside the mutex and
  \<open>getData\<close> does not test it before it waits, so when the receiver clears the flag and signals
  between the two, the decoder thread ends up waiting in a state with nothing left to wake it: no
  step but a spurious wake-up leads out of it, and the window is never closed.\<close>

theorem lost_wakeup:
  "\<exists>t. reachable False t \<and> consumer t = Waiting \<and> \<not> playing t \<and> receiver t = Signalled \<and> frames t = [] \<and>
       (\<forall>t'. \<not> step False t t')"
proof (intro exI conjI allI)
  let ?t = "start\<lparr>consumer := Waiting, playing := False, receiver := Signalled\<rparr>"
  show "reachable False ?t" by (rule reach_asleep)
  show "\<not> step False ?t t'" for t' by (rule asleep_stuck) (simp add: asleep_def)
qed (simp_all add: start_def)



end
