(* ===== verification/Step_Systems.thy ===== *)
theory Step_Systems
  imports MC_Prelude
begin

section \<open>Step systems and their refinement\<close>

text \<open>
  The contract between a step relation that follows the code and one that says what it promises:
  every step of the first is, seen through \<open>view\<close>, some steps of the second. What the second keeps
  invariant then holds of every reachable state of the first.
\<close>

locale simulation =
  fixes cinit :: 'c and cstep :: "'c \<Rightarrow> 'c \<Rightarrow> bool"
    and ainit :: 'a and astep :: "'a \<Rightarrow> 'a \<Rightarrow> bool" and view :: "'c \<Rightarrow> 'a"
  assumes view_init: "view cinit = ainit"
    and view_step: "cstep\<^sup>*\<^sup>* cinit s \<Longrightarrow> cstep s s' \<Longrightarrow> astep\<^sup>*\<^sup>* (view s) (view s')"
begin

lemma view_run: "cstep\<^sup>*\<^sup>* cinit s \<Longrightarrow> cstep\<^sup>*\<^sup>* s s' \<Longrightarrow> astep\<^sup>*\<^sup>* (view s) (view s')"
  by (rotate_tac, induction rule: rtranclp_induct)
    (simp, meson rtranclp_trans view_step)

lemma view_reachable: "cstep\<^sup>*\<^sup>* cinit s \<Longrightarrow> astep\<^sup>*\<^sup>* ainit (view s)"
  using view_run [of cinit s] by (simp add: view_init)

lemma view_invariant:
  assumes "cstep\<^sup>*\<^sup>* cinit s" and "P ainit" and "\<And>a a'. P a \<Longrightarrow> astep a a' \<Longrightarrow> P a'"
  shows "P (view s)"
  using view_reachable [OF assms(1)] by (induction rule: rtranclp_induct) (use assms(2,3) in blast)+

end

end
