(* ===== verification/Queue_Refinement.thy ===== *)
theory Queue_Refinement
  imports Queue_Threads Step_Systems
begin

section \<open>What the frame queue promises\<close>

text \<open>
  The specification of one client's queue is a first-in first-out queue that may skip ahead to a key
  frame. The two threads of \<open>Queue_Threads\<close> refine it, and the critical sections of \<open>putData\<close> and
  \<open>getData\<close> are the steps of these threads, so the code refines the specification.
\<close>

record fifo =
  sent :: "Data list"
  pending :: "Data list"
  taken :: "Data list"

inductive fifo_step :: "fifo \<Rightarrow> fifo \<Rightarrow> bool" where
  fifo_put: "fifo_step f (f\<lparr>sent := sent f @ [d], pending := pending f @ [d]\<rparr>)"
| fifo_take: "pending f = d # ds \<Longrightarrow> fifo_step f (f\<lparr>pending := ds, taken := taken f @ [d]\<rparr>)"
| fifo_skip: "pending f = ds @ k # rest \<Longrightarrow> keyd k \<Longrightarrow> \<forall>d \<in> set ds. \<not> keyd d \<Longrightarrow>
    fifo_step f (f\<lparr>pending := k # rest\<rparr>)"

inductive_cases fifo_stepE: "fifo_step f f'"

definition fifo0 :: fifo where
  "fifo0 = \<lparr>sent = [], pending = [], taken = []\<rparr>"

definition fifo_of :: "threads \<Rightarrow> fifo" where
  "fifo_of t = \<lparr>sent = received t, pending = frames t, taken = decoded t\<rparr>"

lemma fifo_of_simps [simp]:
  "sent (fifo_of t) = received t" "pending (fifo_of t) = frames t" "taken (fifo_of t) = decoded t"
  by (simp_all add: fifo_of_def)

subsection \<open>The threads refine it\<close>

lemma drained_step: "fifo_step\<^sup>*\<^sup>* f (f\<lparr>pending := drained (pending f)\<rparr>)"
proof (cases "\<exists>d \<in> set (pending f). keyd d")
  case True
  let ?ds = "takeWhile (Not \<circ> keyd) (pending f)"
  obtain k rest where k: "dropWhile (Not \<circ> keyd) (pending f) = k # rest"
    using True by (cases "dropWhile (Not \<circ> keyd) (pending f)") (auto simp: dropWhile_eq_Nil_conv)
  have "keyd k" using hd_dropWhile [of "Not \<circ> keyd" "pending f"] k by simp
  have "pending f = ?ds @ k # rest" by (metis k takeWhile_dropWhile_id)
  then have "fifo_step f (f\<lparr>pending := k # rest\<rparr>)"
    by (rule fifo_skip) (use \<open>keyd k\<close> in \<open>auto dest: set_takeWhileD\<close>)
  then show ?thesis using True k by (simp add: drained_def r_into_rtranclp)
qed (simp add: drained_def)

lemma fifo_of_enter: "fifo_step\<^sup>*\<^sup>* (fifo_of t) (fifo_of (enter t))"
proof (cases "drained (frames t)")
  case (Cons d ds)
  let ?f = "(fifo_of t)\<lparr>pending := drained (frames t)\<rparr>"
  have "fifo_step\<^sup>*\<^sup>* (fifo_of t) ?f" using drained_step [of "fifo_of t"] by simp
  also have "fifo_step ?f (?f\<lparr>pending := ds, taken := taken ?f @ [d]\<rparr>)" by (rule fifo_take) (simp add: Cons)
  also have "?f\<lparr>pending := ds, taken := taken ?f @ [d]\<rparr> = fifo_of (enter t)" by (simp add: fifo_of_def enter_def Cons)
  finally show ?thesis .
qed (simp add: enter_def fifo_of_def del: drained_eq_Nil)

lemma fifo_of_wake_up: "fifo_step\<^sup>*\<^sup>* (fifo_of t) (fifo_of (wake_up t))"
proof (cases "playing t \<and> frames t \<noteq> []")
  case True
  then obtain d ds where "frames t = d # ds" by (auto simp: neq_Nil_conv)
  then show ?thesis
    using True fifo_take [of "fifo_of t" d ds] by (auto simp: wake_up_def fifo_of_def intro: r_into_rtranclp)
qed (auto simp: wake_up_def fifo_of_def)

lemma fifo_of_step:
  assumes "step spurious t t'"
  shows "fifo_step\<^sup>*\<^sup>* (fifo_of t) (fifo_of t')"
  using assms
proof cases
  case (put_data d)
  then show ?thesis using fifo_put [of "fifo_of t" d] by (auto simp: fifo_of_def intro: r_into_rtranclp)
qed (use fifo_of_enter fifo_of_wake_up in \<open>auto simp: fifo_of_def\<close>)

interpretation frame_queue: simulation start "step spurious" fifo0 fifo_step fifo_of for spurious
  proof unfold_locales
  show "fifo_of start = fifo0" by (simp add: fifo_of_def fifo0_def start_def)
qed (rule fifo_of_step)

lemma reachable_run: "reachable spurious t \<Longrightarrow> (step spurious)\<^sup>*\<^sup>* start t"
  by (induction rule: reachable.induct) (auto intro: rtranclp.rtrancl_into_rtrancl)

text \<open>C8: Every step of the two threads, in every interleaving and with spurious wake-ups, is a sequence of
  puts, takes and skips to a key frame of the specified queue, and the frames received, queued and
  decoded are those of a run of the specification from the empty queue.\<close>

theorem queue_refines_fifo:
  assumes "reachable spurious t" and "step spurious t t'"
  shows "fifo_step\<^sup>*\<^sup>* fifo0 (fifo_of t) \<and> fifo_step\<^sup>*\<^sup>* (fifo_of t) (fifo_of t')"
  using frame_queue.view_reachable [OF reachable_run [OF assms(1)]] frame_queue.view_step [OF reachable_run assms(2)] assms(1)
  by blast

subsection \<open>Key frames are never dropped\<close>

text \<open>\<open>thinned xs ys\<close>: \<open>ys\<close> is \<open>xs\<close> without some frames that are no key frames and whose successor among the
  kept ones is a key frame.\<close>

inductive thinned :: "Data list \<Rightarrow> Data list \<Rightarrow> bool" where
  thin_nil: "thinned [] []"
| thin_keep: "thinned xs ys \<Longrightarrow> thinned (x # xs) (x # ys)"
| thin_drop: "thinned xs (k # ys) \<Longrightarrow> keyd k \<Longrightarrow> \<not> keyd x \<Longrightarrow> thinned (x # xs) (k # ys)"

code_pred thinned .

lemma thinned_keys: "thinned xs ys \<Longrightarrow> filter keyd ys = filter keyd xs"
  by (induction rule: thinned.induct) auto

lemma thinned_subseq: "thinned xs ys \<Longrightarrow> subseq ys xs"
  by (induction rule: thinned.induct) auto

lemma thinned_snoc: "thinned xs ys \<Longrightarrow> thinned (xs @ [d]) (ys @ [d])"
  by (induction rule: thinned.induct) (auto intro: thinned.intros)

lemma thinned_skip1:
  "thinned xs zs \<Longrightarrow> zs = as @ d # k # rest \<Longrightarrow> \<not> keyd d \<Longrightarrow> keyd k \<Longrightarrow> thinned xs (as @ k # rest)"
proof (induction arbitrary: as rule: thinned.induct)
  case (thin_keep xs ys x)
  then show ?case by (cases as) (auto intro: thinned.intros)
next
  case (thin_drop xs k' ys x)
  then obtain as' where "as = k' # as'" by (cases as) auto
  then show ?case using thin_drop by (auto intro: thinned.intros)
qed simp

lemma thinned_skip:
  "thinned xs (as @ ds @ k # rest) \<Longrightarrow> \<forall>d \<in> set ds. \<not> keyd d \<Longrightarrow> keyd k \<Longrightarrow> thinned xs (as @ k # rest)"
proof (induction ds rule: rev_induct)
  case (snoc d ds)
  then show ?case using thinned_skip1 [of xs _ "as @ ds" d k rest] by simp
qed simp

lemma fifo_thinned:
  "fifo_step f f' \<Longrightarrow> thinned (sent f) (taken f @ pending f) \<Longrightarrow> thinned (sent f') (taken f' @ pending f')"
  by (erule fifo_stepE) (auto dest: thinned_snoc intro: thinned_skip)


subsection \<open>The code takes these steps\<close>

text \<open>The part of the state of \<open>MediaData.cpp\<close> that the two threads of client \<open>c\<close> share.\<close>

definition sees :: "int \<Rightarrow> 'a md_scheme \<Rightarrow> threads \<Rightarrow> bool" where
  "sees c s t = (frames t = queue c s \<and> playing t = w_isPlaying (win c s))"

text \<open>What \<open>getData\<close> returned is what the step from \<open>t\<close> to \<open>t'\<close> did: the front of an empty list, the end,
  or one more decoded frame.\<close>

definition outcome :: "int \<Rightarrow> threads \<Rightarrow> threads \<Rightarrow> (Data option \<times> 'a md_scheme) res \<Rightarrow> bool" where
  "outcome c t t' r =
     (case r of NoFuel \<Rightarrow> False
      | Undef \<Rightarrow> consumer t' = Crashed
      | Ok (None, s') \<Rightarrow> consumer t' = Finished
      | Ok (Some d, s') \<Rightarrow> consumer t' = Testing \<and> decoded t' = decoded t @ [d] \<and> frames t' = queue c s')"

lemma sees_putData:
  assumes "is_client c" "sees c s t" "putData c bs n s = Ok s'"
  shows "\<exists>frame. sees c s' (t\<lparr>frames := frames t @ [\<lparr>data = Some frame, size_of = n\<rparr>]\<rparr>)"
proof -
  have c: "c = 1 \<or> c = 2" "(c = 1 \<or> c = 2) = True" using assms(1) by (auto simp: is_client_def)
  show ?thesis
    using assms(2,3) unfolding putData_def c(2) if_True by (auto simp: res_map_Ok_iff Let_def sees_def c(1))
qed

lemma getData_waits:
  fixes s :: "'a md_scheme"
  assumes "is_client c" "queue c s = []"
  shows "getData c wake s =
     (let s1 = wake (call (Thread (Cond_wait c)) (call (Thread (Mutex_lock c)) s)) in
      if \<not> w_isPlaying (win c s1) then Ok (None, call (Thread (Mutex_unlock c)) s1)
      else case queue c s1 of [] \<Rightarrow> Undef
           | d # ds \<Rightarrow> Ok (Some d, call (Thread (Mutex_unlock c)) (upd_queue c (\<lambda>_. ds) s1)))"
proof -
  have c: "c = 1 \<or> c = 2" "(c \<noteq> 1 \<and> c \<noteq> 2) = False" using assms(1) by (auto simp: is_client_def)
  let ?s1 = "call (Thread (Mutex_lock c)) s"
  have "upd_queue c (\<lambda>_. queue c ?s1) ?s1 = ?s1" by (simp add: upd_queue_def queue_def)
  then have k: "heap (- 0) (upd_queue c (\<lambda>_. []) ?s1) = ?s1" by (simp add: assms(2) heap_0)
  have d: "drainFrame (queue c ?s1) = Ok ([], 0)" by (simp add: assms(2) drainFrame_drained drained_def)
  show ?thesis
    unfolding getData_def c(2) if_False Let_def d res_bind.simps prod.case k by simp
qed


subsection \<open>A run\<close>

text \<open>A frame that is no key frame and a key frame arrive before the decoder looks: the first is dropped.\<close>

definition frame_n :: Data where "frame_n = \<lparr>data = Some [7, 1, 0], size_of = 3\<rparr>"
definition frame_k :: Data where "frame_k = \<lparr>data = Some [8, 1, 1], size_of = 3\<rparr>"

definition two_received :: threads where
  "two_received = start\<lparr>frames := [frame_n, frame_k], received := [frame_n, frame_k]\<rparr>"

lemma two_received_reachable: "reachable True (two_received\<lparr>consumer := Entering\<rparr>)"
proof -
  have 1: "step True start (start\<lparr>frames := [frame_n], received := [frame_n]\<rparr>)"
    using put_data [of start True frame_n] by (simp add: start_def signal_def)
  have 2: "step True (start\<lparr>frames := [frame_n], received := [frame_n]\<rparr>) two_received"
    using put_data [of "start\<lparr>frames := [frame_n], received := [frame_n]\<rparr>" True frame_k]
    by (simp add: start_def signal_def two_received_def)
  have 3: "step True two_received (two_received\<lparr>consumer := Entering\<rparr>)"
    by (rule test_playing) (simp_all add: two_received_def start_def)
  show ?thesis by (rule next_step [OF next_step [OF next_step [OF init 1] 2] 3])
qed

lemma keyd_frames [simp]: "keyd frame_k" "\<not> keyd frame_n" "wf_data frame_k" "wf_data frame_n"
  by (simp_all add: keyd_def wf_data_def frame_k_def frame_n_def)

lemma enter_two: "enter (two_received\<lparr>consumer := Entering\<rparr>) = two_received\<lparr>frames := [], decoded := [frame_k], consumer := Testing\<rparr>"
  by (simp add: enter_def drained_def two_received_def start_def)

lemma decoded_reachable: "reachable True (two_received\<lparr>frames := [], decoded := [frame_k], consumer := Testing\<rparr>)"
  using next_step [OF two_received_reachable get_data] by (simp add: enter_two)

theorem queue_refines_fifo_witness:
  "fifo_step\<^sup>*\<^sup>* (fifo_of two_received) \<lparr>sent = [frame_n, frame_k], pending = [], taken = [frame_k]\<rparr>"
proof -
  let ?t = "two_received\<lparr>consumer := Entering\<rparr>"
  have "step True ?t (enter ?t)" by (rule get_data) simp
  from queue_refines_fifo [OF two_received_reachable this] show ?thesis
    unfolding enter_two by (simp add: fifo_of_def two_received_def)
qed



end
