(* ===== verification/Recorder_Options.thy ===== *)
theory Recorder_Options
  imports C_Library
begin

section \<open>Options of the screen recorder command\<close>

text \<open>
  \<open>screenrecord/screenrecord.cpp\<close>: the command-line globals, the two number parsers and the option
  switch of \<open>main\<close>. \<open>getopt_long\<close> and the display service are outside: an option arrives as the pair
  of its short code and its argument, and \<open>display_known\<close> tells whether the service has a display.
  \<open>long\<close> has 64 bits. \<open>Undef\<close> is a signed overflow.
\<close>

datatype output_format =
  FORMAT_MP4 | FORMAT_H264 | FORMAT_WEBM | FORMAT_3GPP | FORMAT_FRAMES | FORMAT_RAW_FRAMES

record options =
  gVerbose :: bool
  gRotate :: bool
  gMonotonicTime :: bool
  gPersistentSurface :: bool
  gOutputFormat :: output_format
  gCodecName :: string
  gSizeSpecified :: bool
  gWantInfoScreen :: bool
  gWantFrameTime :: bool
  gVideoWidth :: u32
  gVideoHeight :: u32
  gBitRate :: u32
  gTimeLimitSec :: u32
  gBframes :: u32
  gPhysicalDisplayId :: u64

definition kMinBitRate :: u32 where "kMinBitRate = 100000"
definition kMaxBitRate :: u32 where "kMaxBitRate = 200 * 1000000"
definition kMaxTimeLimitSec :: u32 where "kMaxTimeLimitSec = 180"
definition kFallbackWidth :: u32 where "kFallbackWidth = 1280"
definition kFallbackHeight :: u32 where "kFallbackHeight = 720"

lemmas option_bounds = kMinBitRate_def kMaxBitRate_def kMaxTimeLimitSec_def

definition options0 :: "u64 \<Rightarrow> options" where
  "options0 displayId =
     \<lparr>gVerbose = False, gRotate = False, gMonotonicTime = False, gPersistentSurface = False,
      gOutputFormat = FORMAT_MP4, gCodecName = [], gSizeSpecified = False, gWantInfoScreen = False,
      gWantFrameTime = False, gVideoWidth = 0, gVideoHeight = 0, gBitRate = 20000000,
      gTimeLimitSec = kMaxTimeLimitSec, gBframes = 0, gPhysicalDisplayId = displayId\<rparr>"

subsection \<open>The two parsers\<close>

definition parseWidthHeight :: "string \<Rightarrow> (u32 \<times> u32) option" where
  "parseWidthHeight widthHeight =
     (case strtol10 widthHeight of (width, end1) \<Rightarrow>
      if end1 = widthHeight \<or> end1 = [] \<or> hd end1 \<noteq> CHR ''x'' \<or> tl end1 = [] then None
      else case strtol10 (tl end1) of (height, end2) \<Rightarrow>
        if end2 \<noteq> [] then None
        else Some (word_of_int width, word_of_int height))"

definition is_M :: "char \<Rightarrow> bool" where
  "is_M c = (c = CHR ''M'' \<or> c = CHR ''m'')"

definition mul_long :: "int \<Rightarrow> int \<Rightarrow> int res" where
  "mul_long a b = (if LONG_MIN \<le> a * b \<and> a * b \<le> LONG_MAX then Ok (a * b) else Undef)"

definition parseValueWithUnit :: "string \<Rightarrow> u32 option res" where
  "parseValueWithUnit str =
     (case strtol10 str of (val, endptr) \<Rightarrow>
      if endptr = [] then Ok (Some (word_of_int val))
      else if is_M (hd endptr) \<and> tl endptr = []
      then res_map (\<lambda>v. Some (word_of_int v)) (mul_long val 1000000)
      else Ok None)"

lemma isdigit_not_x: "isdigit c \<Longrightarrow> c \<noteq> CHR ''x'' \<and> \<not> is_M c"
  by (auto simp: isdigit_def is_M_def)

lemma nat_to_string_append_neq: "nat_to_string n @ r \<noteq> r"
  by (simp add: nat_to_string_nonempty)

text \<open>Every size written as two decimal numbers with an \<open>x\<close> between them is read back.\<close>

theorem parseWidthHeight_roundtrip:
  assumes "int w \<le> LONG_MAX" "int h \<le> LONG_MAX"
  shows "parseWidthHeight (nat_to_string w @ CHR ''x'' # nat_to_string h) = Some (of_nat w, of_nat h)"
proof -
  have "strtol10 (nat_to_string w @ CHR ''x'' # nat_to_string h) = (int w, CHR ''x'' # nat_to_string h)"
    using assms(1) by (intro strtol10_nat) (auto simp: isdigit_def)
  moreover have "strtol10 (nat_to_string h) = (int h, [])"
    using strtol10_nat [of h "[]"] assms(2) by simp
  moreover have "CHR ''x'' # nat_to_string h \<noteq> nat_to_string w @ CHR ''x'' # nat_to_string h"
    using nat_to_string_append_neq [of w] by metis
  ultimately show ?thesis by (simp add: parseWidthHeight_def nat_to_string_nonempty)
qed

lemma parseWidthHeight_roundtrip_witness:
  "parseWidthHeight (nat_to_string 1280 @ CHR ''x'' # nat_to_string 720) = Some (1280, 720)"
  using parseWidthHeight_roundtrip [of 1280 720] by (simp add: LONG_MAX_def)

text \<open>A value with the unit \<open>M\<close> or \<open>m\<close> means the same as the value times a million written out, for all
  values whose product is a \<open>long\<close>; a value without unit is itself. The result is taken modulo
  $2^{32}$.\<close>

theorem parseValueWithUnit_correct:
  assumes "int n * 1000000 \<le> LONG_MAX" "is_M m"
  shows "parseValueWithUnit (nat_to_string n) = Ok (Some (of_nat n)) \<and>
         parseValueWithUnit (nat_to_string n @ [m]) = Ok (Some (of_nat (n * 1000000))) \<and>
         parseValueWithUnit (nat_to_string n @ [m]) = parseValueWithUnit (nat_to_string (n * 1000000))"
proof -
  have a: "strtol10 (nat_to_string k) = (int k, [])" if "int k \<le> LONG_MAX" for k
    using strtol10_nat [of k "[]"] that by simp
  have b: "strtol10 (nat_to_string n @ [m]) = (int n, [m])"
    using assms isdigit_not_x by (intro strtol10_nat) auto
  have n: "int n \<le> LONG_MAX" using assms(1) by linarith
  have m: "mul_long (int n) 1000000 = Ok (int (n * 1000000))"
    using assms(1) by (simp add: mul_long_def LONG_MIN_def)
  have "parseValueWithUnit (nat_to_string k) = Ok (Some (of_nat k))" if "int k \<le> LONG_MAX" for k
    by (simp add: parseValueWithUnit_def a [OF that])
  moreover have "parseValueWithUnit (nat_to_string n @ [m]) = Ok (Some (of_nat (n * 1000000)))"
    using assms(2) by (simp add: parseValueWithUnit_def b m)
  moreover have "int (n * 1000000) \<le> LONG_MAX" using assms(1) by simp
  ultimately show ?thesis using n by simp
qed

lemma parseValueWithUnit_correct_witness:
  "parseValueWithUnit (nat_to_string 4 @ ''M'') = parseValueWithUnit (nat_to_string 4000000)"
proof -
  have "int 4 * 1000000 \<le> LONG_MAX" by (simp add: LONG_MAX_def)
  moreover have "is_M CHR ''M''" by (simp add: is_M_def)
  ultimately have "parseValueWithUnit (nat_to_string 4 @ ''M'') = parseValueWithUnit (nat_to_string (4 * 1000000))"
    by (rule parseValueWithUnit_correct [THEN conjunct2, THEN conjunct2])
  then show ?thesis by (simp only:) simp
qed

subsection \<open>The option switch\<close>

datatype option_result = Go_on options | Exit int

text \<open>One option; \<open>ic\<close> is the short code \<open>getopt_long\<close> returned.\<close>

definition size_option :: "string \<Rightarrow> options \<Rightarrow> option_result" where
  "size_option optarg s =
     (case parseWidthHeight optarg of
        None \<Rightarrow> Exit 2
      | Some (w, h) \<Rightarrow>
          if w = 0 \<or> h = 0 then Exit 2
          else Go_on (s\<lparr>gVideoWidth := w, gVideoHeight := h, gSizeSpecified := True\<rparr>))"

definition bitrate_option :: "string \<Rightarrow> options \<Rightarrow> option_result res" where
  "bitrate_option optarg s =
     res_map (\<lambda>v. case v of
         None \<Rightarrow> Exit 2
       | Some b \<Rightarrow> if b < kMinBitRate \<or> b > kMaxBitRate then Exit 2 else Go_on (s\<lparr>gBitRate := b\<rparr>))
       (parseValueWithUnit optarg)"

definition time_option :: "string \<Rightarrow> options \<Rightarrow> option_result" where
  "time_option optarg s =
     (let t = word_of_int (atoi optarg)
      in if t = 0 \<or> t > kMaxTimeLimitSec then Exit 2 else Go_on (s\<lparr>gTimeLimitSec := t\<rparr>))"

definition format_named :: "string \<Rightarrow> output_format option" where
  "format_named optarg =
     (if optarg = ''mp4'' then Some FORMAT_MP4
      else if optarg = ''h264'' then Some FORMAT_H264
      else if optarg = ''webm'' then Some FORMAT_WEBM
      else if optarg = ''3gpp'' then Some FORMAT_3GPP
      else if optarg = ''frames'' then Some FORMAT_FRAMES
      else if optarg = ''raw-frames'' then Some FORMAT_RAW_FRAMES
      else None)"

definition display_option :: "(u64 \<Rightarrow> bool) \<Rightarrow> string \<Rightarrow> options \<Rightarrow> option_result" where
  "display_option display_known optarg s =
     (let d = word_of_int (fst (strtol10 optarg))
      in if d = 0 then Exit 2
         else if \<not> display_known d then Exit 2 else Go_on (s\<lparr>gPhysicalDisplayId := d\<rparr>))"

definition option_step :: "(u64 \<Rightarrow> bool) \<Rightarrow> char \<times> string \<Rightarrow> options \<Rightarrow> option_result res" where
  "option_step display_known opt s =
     (let ic = fst opt; optarg = snd opt in
      if ic = CHR ''h'' then Ok (Exit 0)
      else if ic = CHR ''v'' then Ok (Go_on (s\<lparr>gVerbose := True\<rparr>))
      else if ic = CHR ''s'' then Ok (size_option optarg s)
      else if ic = CHR ''b'' then bitrate_option optarg s
      else if ic = CHR ''t'' then Ok (time_option optarg s)
      else if ic = CHR ''u'' then Ok (Go_on (s\<lparr>gWantInfoScreen := True, gWantFrameTime := True\<rparr>))
      else if ic = CHR ''i'' then Ok (Go_on (s\<lparr>gWantInfoScreen := True\<rparr>))
      else if ic = CHR ''f'' then Ok (Go_on (s\<lparr>gWantFrameTime := True\<rparr>))
      else if ic = CHR ''r'' then Ok (Go_on (s\<lparr>gRotate := True\<rparr>))
      else if ic = CHR ''o'' then
        Ok (case format_named optarg of None \<Rightarrow> Exit 2 | Some f \<Rightarrow> Go_on (s\<lparr>gOutputFormat := f\<rparr>))
      else if ic = CHR ''N'' then Ok (Go_on (s\<lparr>gCodecName := optarg\<rparr>))
      else if ic = CHR ''m'' then Ok (Go_on (s\<lparr>gMonotonicTime := True\<rparr>))
      else if ic = CHR ''p'' then Ok (Go_on (s\<lparr>gPersistentSurface := True\<rparr>))
      else if ic = CHR ''B'' then
        res_map (\<lambda>v. case v of None \<Rightarrow> Exit 2 | Some b \<Rightarrow> Go_on (s\<lparr>gBframes := b\<rparr>)) (parseValueWithUnit optarg)
      else if ic = CHR ''d'' then Ok (display_option display_known optarg s)
      else Ok (Exit 2))"

text \<open>The loop of \<open>main\<close> over the options \<open>getopt_long\<close> delivers.\<close>

fun option_loop :: "(u64 \<Rightarrow> bool) \<Rightarrow> (char \<times> string) list \<Rightarrow> options \<Rightarrow> option_result res" where
  "option_loop display_known [] s = Ok (Go_on s)"
| "option_loop display_known (opt # opts) s =
     res_bind (option_step display_known opt s)
       (\<lambda>r. case r of Exit c \<Rightarrow> Ok (Exit c) | Go_on s' \<Rightarrow> option_loop display_known opts s')"

definition options_ok :: "options \<Rightarrow> bool" where
  "options_ok s =
     (kMinBitRate \<le> gBitRate s \<and> gBitRate s \<le> kMaxBitRate \<and>
      0 < gTimeLimitSec s \<and> gTimeLimitSec s \<le> kMaxTimeLimitSec \<and>
      (if gSizeSpecified s then gVideoWidth s \<noteq> 0 \<and> gVideoHeight s \<noteq> 0
       else gVideoWidth s = 0 \<and> gVideoHeight s = 0))"

lemma options_ok_size: "size_option a s = Go_on s' \<Longrightarrow> options_ok s \<Longrightarrow> options_ok s'"
  by (auto simp: size_option_def options_ok_def split: option.splits if_splits prod.splits)

lemma options_ok_bitrate: "bitrate_option a s = Ok (Go_on s') \<Longrightarrow> options_ok s \<Longrightarrow> options_ok s'"
  by (auto simp: bitrate_option_def options_ok_def res_map_Ok_iff not_less split: option.splits if_splits)

lemma options_ok_time: "time_option a s = Go_on s' \<Longrightarrow> options_ok s \<Longrightarrow> options_ok s'"
  by (auto simp: time_option_def options_ok_def Let_def not_less word_neq_0_conv split: if_splits)

lemma options_ok_display: "display_option k a s = Go_on s' \<Longrightarrow> options_ok s \<Longrightarrow> options_ok s'"
  by (auto simp: display_option_def options_ok_def Let_def split: if_splits)

lemmas options_ok_part = options_ok_size options_ok_bitrate options_ok_time options_ok_display

lemma options_ok_step:
  assumes "option_step k opt s = Ok (Go_on s')" "options_ok s"
  shows "options_ok s'"
  using assms unfolding option_step_def Let_def
  by (auto simp: res_map_Ok_iff intro: options_ok_part split: if_splits option.splits)
     (auto simp: options_ok_def)

lemma option_loop_ConsE:
  assumes "option_loop display_known (opt # opts) s = Ok (Go_on s'')"
  obtains s' where "option_step display_known opt s = Ok (Go_on s')" "option_loop display_known opts s' = Ok (Go_on s'')"
proof (cases "option_step display_known opt s")
  case (Ok r)
  then show ?thesis using assms that by (cases r) auto
qed (use assms in auto)

text \<open>C39: Whatever options are given and in whatever order, when the command goes on to record, the bit
  rate is between 100 kbit/s and 200 Mbit/s, the time limit between 1 and 180 seconds, and the
  size is either unset or has no zero side.\<close>

theorem options_in_range:
  assumes "option_loop display_known opts (options0 d) = Ok (Go_on s)"
  shows "options_ok s"
proof -
  have "option_loop display_known opts s1 = Ok (Go_on s) \<Longrightarrow> options_ok s1 \<Longrightarrow> options_ok s" for s1
  proof (induction opts arbitrary: s1)
    case (Cons opt opts)
    from Cons.prems(1) show ?case
      by (rule option_loop_ConsE) (rule Cons.IH, assumption, rule options_ok_step [OF _ Cons.prems(2)])
  qed simp
  moreover have "options_ok (options0 d)"
    by (simp add: options_ok_def options0_def option_bounds)
  ultimately show ?thesis using assms by blast
qed

lemma options_in_range_witness:
  "\<exists>s. option_loop (\<lambda>_. True) [(CHR ''v'', []), (CHR ''o'', ''h264'')] (options0 1) = Ok (Go_on s) \<and> options_ok s"
proof -
  have "option_loop (\<lambda>_. True) [(CHR ''v'', []), (CHR ''o'', ''h264'')] (options0 1) =
      Ok (Go_on ((options0 1)\<lparr>gVerbose := True, gOutputFormat := FORMAT_H264\<rparr>))"
    by (simp add: option_step_def format_named_def)
  with options_in_range [OF this] show ?thesis by blast
qed

text \<open>The multiplication by the unit is not checked: \<open>4296M\<close>, far above the maximum, wraps around
  $2^{32}$ and is accepted as a bit rate of 1032704 bit/s.\<close>

theorem bitrate_wraps:
  "bitrate_option ''4296M'' s = Ok (Go_on (s\<lparr>gBitRate := 1032704\<rparr>))"
proof -
  have "strtol10 ''4296M'' = (4296, ''M'')"
    by (simp add: strtol10_def isspace_def isdigit_def digit_val_def LONG_MAX_def LONG_MIN_def)
  then show ?thesis
    by (simp add: bitrate_option_def parseValueWithUnit_def mul_long_def is_M_def LONG_MAX_def LONG_MIN_def option_bounds)
qed

text \<open>Negative sides are accepted as a size: they become sides of more than $2^{31}$ pixels.\<close>

theorem size_negative:
  "size_option ''-2x-4'' s = Go_on (s\<lparr>gVideoWidth := 4294967294, gVideoHeight := 4294967292, gSizeSpecified := True\<rparr>)"
proof -
  have "strtol10 ''-2x-4'' = (-2, ''x-4'')" "strtol10 ''-4'' = (-4, [])"
    by (simp_all add: strtol10_def isspace_def isdigit_def digit_val_def LONG_MAX_def LONG_MIN_def)
  then show ?thesis by (simp add: size_option_def parseWidthHeight_def)
qed

end
