(* ===== verification/C_Float.thy ===== *)
theory C_Float
  imports Complex_Main MC_Prelude
begin

section \<open>Single precision arithmetic\<close>

text \<open>
  \<open>float\<close> of C++ as IEEE binary32 with round-to-nearest-even, on the rationals: an operation is the
  exact one followed by \<open>fl\<close>. The exponent is unbounded here; the values the recorder computes
  (sizes, scales and screen positions) stay far inside the normal range. A division by zero and a
  conversion of a value that does not fit the integer type are \<open>Undef\<close>.
\<close>

named_theorems float_simps "evaluation of float operations"

fun nbits :: "nat \<Rightarrow> nat" where
  "nbits n = (if n = 0 then 0 else Suc (nbits (n div 2)))"

declare nbits.simps [simp del]

lemma nbits_0 [simp]: "nbits 0 = 0"
  by (simp add: nbits.simps)

lemma nbits_bounds: "0 < n \<Longrightarrow> 2 ^ (nbits n - 1) \<le> n \<and> n < 2 ^ nbits n"
proof (induction n rule: nbits.induct)
  case (1 n)
  show ?case
  proof (cases "n div 2 = 0")
    case True
    then have "n = 1" using 1(2) by (simp add: div_eq_0_iff)
    moreover have "nbits 1 = 1" by (subst nbits.simps) simp
    ultimately show ?thesis by simp
  next
    case False
    with 1 have ih: "2 ^ (nbits (n div 2) - 1) \<le> n div 2" "n div 2 < 2 ^ nbits (n div 2)" by simp_all
    have "0 < nbits (n div 2)" using False by (subst nbits.simps) simp
    then obtain k where k: "nbits (n div 2) = Suc k" by (cases "nbits (n div 2)") auto
    have "nbits n = Suc (Suc k)" using k 1(2) by (subst nbits.simps) simp
    moreover have "2 * 2 ^ k \<le> n" "n < 2 * (2 * 2 ^ k)" using ih k by simp_all
    ultimately show ?thesis by simp
  qed
qed

lemma nbits_pos: "0 < n \<Longrightarrow> 0 < nbits n"
  by (subst nbits.simps) simp

text \<open>The largest \<open>k\<close> with \<open>2 powi k \<le> x\<close>, for positive \<open>x\<close>.\<close>

definition exponent :: "rat \<Rightarrow> int" where
  "exponent x = (if 1 \<le> x then int (nbits (nat \<lfloor>x\<rfloor>)) - 1 else - int (nbits (nat (\<lceil>1 / x\<rceil> - 1))))"

definition round_even :: "rat \<Rightarrow> int" where
  "round_even x =
     (let f = \<lfloor>x\<rfloor>; d = x - of_int f
      in if d < 1 / 2 then f else if 1 / 2 < d then f + 1 else if even f then f else f + 1)"

definition fl :: "rat \<Rightarrow> rat" where
  "fl x =
     (if x = 0 then 0
      else let u = 2 powi (exponent \<bar>x\<bar> - 23) in sgn x * (of_int (round_even (\<bar>x\<bar> / u)) * u))"

definition fadd :: "rat \<Rightarrow> rat \<Rightarrow> rat" where "fadd x y = fl (x + y)"
definition fsub :: "rat \<Rightarrow> rat \<Rightarrow> rat" where "fsub x y = fl (x - y)"
definition fmul :: "rat \<Rightarrow> rat \<Rightarrow> rat" where "fmul x y = fl (x * y)"

definition fdiv :: "rat \<Rightarrow> rat \<Rightarrow> rat res" where
  "fdiv x y = (if y = 0 then Undef else Ok (fl (x / y)))"

definition of_u32 :: "u32 \<Rightarrow> rat" where "of_u32 w = fl (of_int (uint w))"
definition of_int32 :: "int \<Rightarrow> rat" where "of_int32 i = fl (of_int i)"

definition trunc :: "rat \<Rightarrow> int" where
  "trunc x = (if 0 \<le> x then \<lfloor>x\<rfloor> else \<lceil>x\<rceil>)"

definition to_u32 :: "rat \<Rightarrow> u32 res" where
  "to_u32 x = (if -1 < x \<and> x < 2 ^ 32 then Ok (word_of_int (trunc x)) else Undef)"

subsection \<open>Rounding error\<close>

lemma round_even_error: "\<bar>of_int (round_even x) - x\<bar> \<le> 1 / 2"
proof -
  let ?d = "x - of_int \<lfloor>x\<rfloor>"
  have "0 \<le> ?d" "?d < 1" by (simp_all add: algebra_simps) linarith
  then show ?thesis by (auto simp: round_even_def Let_def abs_le_iff)
qed

lemma round_even_of_int [simp]: "round_even (of_int i) = i"
  by (simp add: round_even_def)

lemma exponent_le:
  assumes "0 < x"
  shows "2 powi (exponent x) \<le> x"
proof (cases "1 \<le> x")
  case True
  let ?n = "nat \<lfloor>x\<rfloor>"
  have n: "0 < ?n" using True by simp
  then have "2 powi (int (nbits ?n) - 1) = (2 :: rat) ^ (nbits ?n - 1)"
    using nbits_pos [OF n] by (simp add: power_int_def nat_diff_distrib)
  also have "\<dots> \<le> of_nat ?n"
    using nbits_bounds [OF n] by (metis of_nat_le_iff of_nat_numeral of_nat_power)
  also have "\<dots> \<le> x" using True by simp
  finally show ?thesis using True by (simp add: exponent_def)
next
  case False
  let ?m = "nat (\<lceil>1 / x\<rceil> - 1)"
  have x1: "1 < 1 / x" using False assms by simp
  then have m: "0 < ?m" by linarith
  have "1 / x \<le> of_int \<lceil>1 / x\<rceil>" by simp
  also have "\<dots> = of_nat (Suc ?m)"
  proof -
    have "\<lceil>1 / x\<rceil> = int (Suc ?m)" using m by linarith
    then show ?thesis by (metis of_int_of_nat_eq)
  qed
  also have "\<dots> \<le> 2 ^ nbits ?m"
    using nbits_bounds [OF m] by (metis Suc_leI of_nat_le_iff of_nat_numeral of_nat_power)
  finally have "1 / 2 ^ nbits ?m \<le> x" using assms by (simp add: field_simps)
  then show ?thesis using False by (simp add: exponent_def power_int_minus power_int_of_nat divide_inverse)
qed

lemma fl_error:
  assumes "0 < x"
  shows "\<bar>fl x - x\<bar> \<le> x / 2 ^ 24"
proof -
  let ?u = "2 powi (exponent x - 23) :: rat"
  have u: "0 < ?u" by simp
  have "fl x - x = (of_int (round_even (x / ?u)) - x / ?u) * ?u"
    using assms u by (simp add: fl_def Let_def left_diff_distrib)
  then have "\<bar>fl x - x\<bar> = \<bar>of_int (round_even (x / ?u)) - x / ?u\<bar> * ?u"
    using u by (simp add: abs_mult)
  also have "\<dots> \<le> 1 / 2 * ?u" using round_even_error u by (intro mult_right_mono) auto
  also have "?u = 2 powi exponent x / 2 ^ 23" by (simp add: power_int_diff)
  also have "1 / 2 * (2 powi exponent x / 2 ^ 23) \<le> x / 2 ^ 24" using exponent_le [OF assms] by simp
  finally show ?thesis .
qed

lemma fl_bounds:
  assumes "0 \<le> x"
  shows "x * (1 - 1 / 2 ^ 24) \<le> fl x" "fl x \<le> x * (1 + 1 / 2 ^ 24)"
proof -
  have "x * (1 - 1 / 2 ^ 24) \<le> fl x \<and> fl x \<le> x * (1 + 1 / 2 ^ 24)"
  proof (cases "x = 0")
    case False
    then have "\<bar>fl x - x\<bar> \<le> x / 2 ^ 24" using assms by (intro fl_error) simp
    then have "fl x - x \<le> x / 2 ^ 24" "x - fl x \<le> x / 2 ^ 24" by linarith+
    then show ?thesis by (simp add: algebra_simps)
  qed (simp add: fl_def)
  then show "x * (1 - 1 / 2 ^ 24) \<le> fl x" "fl x \<le> x * (1 + 1 / 2 ^ 24)" by simp_all
qed

lemma fl_0 [simp]: "fl 0 = 0"
  by (simp add: fl_def)

lemma fl_nonneg: "0 \<le> x \<Longrightarrow> 0 \<le> fl x"
  by (rule order_trans [OF _ fl_bounds(1)]) simp_all

lemma fl_pos: "0 < x \<Longrightarrow> 0 < fl x"
  by (rule less_le_trans [OF _ fl_bounds(1)]) simp_all

lemma fl_of_nat:
  assumes "n < 2 ^ 24"
  shows "fl (of_nat n) = of_nat n"
proof (cases "n = 0")
  case False
  let ?b = "nbits n"
  have b: "2 ^ (?b - 1) \<le> n" "0 < ?b" using nbits_bounds nbits_pos False by auto
  have "?b \<le> 24"
  proof (rule ccontr)
    assume "\<not> ?b \<le> 24"
    then have "(2::nat) ^ 24 \<le> 2 ^ (?b - 1)" by (intro power_increasing) auto
    then show False using b(1) assms by linarith
  qed
  then obtain k where k: "24 = ?b + k" using le_Suc_ex by blast
  have e: "exponent (of_nat n) = int ?b - 1" using False by (simp add: exponent_def)
  have u: "2 powi (exponent (of_nat n) - 23) = 1 / (2 :: rat) ^ k"
  proof -
    have "exponent (of_nat n) - 23 = - int k" using e k by linarith
    then show ?thesis by (simp only: power_int_minus power_int_of_nat) (simp add: divide_inverse)
  qed
  have "of_nat n / (1 / 2 ^ k) = (of_int (int n * 2 ^ k) :: rat)" by simp
  then have "round_even (of_nat n / (1 / 2 ^ k)) = int n * 2 ^ k" by (simp only: round_even_of_int)
  then show ?thesis using False by (simp add: fl_def Let_def u)
qed simp

lemma fl_numeral: "(numeral k :: nat) < 2 ^ 24 \<Longrightarrow> fl (numeral k) = numeral k"
  using fl_of_nat [of "numeral k"] by simp

lemma fl_1 [simp]: "fl 1 = 1"
  using fl_of_nat [of 1] by simp

lemma of_u32_exact: "uint w < 2 ^ 24 \<Longrightarrow> of_u32 w = of_int (uint w)"
proof -
  assume "uint w < 2 ^ 24"
  then have "unat w < 2 ^ 24" unfolding unat_eq_nat_uint by (subst nat_less_iff) simp_all
  from fl_of_nat [OF this] show ?thesis by (simp add: of_u32_def)
qed

lemma to_u32_of:
  "0 \<le> x \<Longrightarrow> x < 2 ^ 32 \<Longrightarrow> \<exists>w. to_u32 x = Ok w \<and> uint w = \<lfloor>x\<rfloor>"
  by (simp add: to_u32_def trunc_def uint_word_of_int floor_less_iff)

end
