(* ===== verification/Ui_Geometry.thy ===== *)
theory Ui_Geometry
  imports C_Library C_Float
begin

section \<open>Sizes, points, rectangles and rotations\<close>

text \<open>
  The inline operations of \<open>ui/Size.h\<close>, \<open>ui/Point.h\<close>, \<open>ui/Rect.h\<close>, \<open>ui/FloatRect.h\<close>, \<open>ui/Rotation.h\<close>
  and \<open>ui/Transform.h\<close> that the recorder's display projection uses. A 32-bit integer is an \<open>int\<close>;
  where the header allows a signed overflow to wrap the result goes through \<open>to_int32\<close>, where
  it does not the operation is undefined (\<open>chk32\<close>).
\<close>

definition INT32_MAX :: int where "INT32_MAX = 2 ^ 31 - 1"
definition INT32_MIN :: int where "INT32_MIN = - (2 ^ 31)"

definition int32_range :: "int \<Rightarrow> bool" where
  "int32_range i = (INT32_MIN \<le> i \<and> i \<le> INT32_MAX)"

lemmas int32_bounds = int32_range_def INT32_MIN_def INT32_MAX_def

definition chk32 :: "int \<Rightarrow> int res" where
  "chk32 i = (if int32_range i then Ok i else Undef)"

lemma to_int32_range: "int32_range (to_int32 i)"
  using sint_greater_eq [of "word_of_int i :: 32 word"] sint_less [of "word_of_int i :: 32 word"]
  by (simp add: to_int32_def int32_bounds)

lemma to_int32_same [simp]: "int32_range i \<Longrightarrow> to_int32 i = i"
  by (rule to_int32_id) (simp_all add: int32_bounds)

subsection \<open>Rotation\<close>

datatype rotation = ROTATION_0 | ROTATION_90 | ROTATION_180 | ROTATION_270

definition toRotationInt :: "rotation \<Rightarrow> nat" where
  "toRotationInt r = (case r of ROTATION_0 \<Rightarrow> 0 | ROTATION_90 \<Rightarrow> 1 | ROTATION_180 \<Rightarrow> 2 | ROTATION_270 \<Rightarrow> 3)"

definition toRotation :: "nat \<Rightarrow> rotation res" where
  "toRotation n =
     (if n = 0 then Ok ROTATION_0 else if n = 1 then Ok ROTATION_90
      else if n = 2 then Ok ROTATION_180 else if n = 3 then Ok ROTATION_270 else Undef)"

definition rotation_plus :: "rotation \<Rightarrow> rotation \<Rightarrow> rotation res" where
  "rotation_plus lhs rhs =
     (let N = toRotationInt ROTATION_270 + 1
      in toRotation ((toRotationInt lhs + toRotationInt rhs) mod N))"

definition toCString :: "rotation \<Rightarrow> string" where
  "toCString r = (case r of ROTATION_0 \<Rightarrow> ''ROTATION_0'' | ROTATION_90 \<Rightarrow> ''ROTATION_90''
     | ROTATION_180 \<Rightarrow> ''ROTATION_180'' | ROTATION_270 \<Rightarrow> ''ROTATION_270'')"

text \<open>\<open>HAL_TRANSFORM_FLIP_H\<close>, \<open>FLIP_V\<close> and \<open>ROT_90\<close> are 1, 2 and 4.\<close>

definition toRotationFlags :: "rotation \<Rightarrow> u32" where
  "toRotationFlags r =
     (let FLIP_H = 1; FLIP_V = 2; ROT_90 = 4; ROT_180 = FLIP_H OR FLIP_V; ROT_270 = ROT_180 OR ROT_90
      in case r of ROTATION_0 \<Rightarrow> 0 | ROTATION_90 \<Rightarrow> ROT_90 | ROTATION_180 \<Rightarrow> ROT_180 | ROTATION_270 \<Rightarrow> ROT_270)"

lemmas rotation_defs = toRotationInt_def toRotation_def rotation_plus_def

text \<open>Rotations add up like quarter turns: never undefined, commutative, with inverses.\<close>

lemma rotation_group:
  "\<exists>c. rotation_plus a b = Ok c \<and> toRotationInt c = (toRotationInt a + toRotationInt b) mod 4"
  "rotation_plus a b = rotation_plus b a"
  "\<exists>b. rotation_plus a b = Ok ROTATION_0"
  "rotation_plus a ROTATION_0 = Ok a"
  by (cases a; cases b; simp add: rotation_defs) (simp_all add: add.commute rotation_defs,
      rule exI [of _ "case a of ROTATION_90 \<Rightarrow> ROTATION_270 | ROTATION_270 \<Rightarrow> ROTATION_90 | _ \<Rightarrow> a"],
      (cases a; simp add: rotation_defs)+)

lemma toRotation_toRotationInt: "toRotation (toRotationInt r) = Ok r"
  by (cases r) (simp_all add: rotation_defs)

subsection \<open>Size\<close>

datatype ui_size = Size (width: int) (height: int)

text \<open>\<open>Size::clamp<int32_t, FromType>\<close>; the range of \<open>FromType\<close> is \<open>[fromLowest, fromHighest]\<close>.\<close>

definition clamp :: "int \<Rightarrow> int \<Rightarrow> int \<Rightarrow> int" where
  "clamp fromLowest fromHighest v =
     (let commonClampHighest = min fromHighest INT32_MAX;
          commonClampLowest = max fromLowest INT32_MIN;
          isClampNeeded = (fromLowest \<noteq> commonClampLowest \<or> fromHighest \<noteq> commonClampHighest)
      in if \<not> isClampNeeded then to_int32 v
         else if v \<le> commonClampLowest then commonClampLowest
         else if v \<ge> commonClampHighest then commonClampHighest
         else to_int32 v)"

definition size_of_u32 :: "u32 \<Rightarrow> u32 \<Rightarrow> ui_size" where
  "size_of_u32 w h = Size (clamp 0 (2 ^ 32 - 1) (uint w)) (clamp 0 (2 ^ 32 - 1) (uint h))"

definition Size_EMPTY :: ui_size where "Size_EMPTY = Size 0 0"
definition size_isValid :: "ui_size \<Rightarrow> bool" where "size_isValid s = (width s \<ge> 0 \<and> height s \<ge> 0)"
definition size_isEmpty :: "ui_size \<Rightarrow> bool" where "size_isEmpty s = (s = Size_EMPTY)"

lemma clamp_correct:
  assumes "fromLowest \<le> 0" "0 \<le> fromHighest" "fromLowest \<le> v" "v \<le> fromHighest"
  shows "clamp fromLowest fromHighest v = max INT32_MIN (min INT32_MAX v)"
  using assms to_int32_id [of v]
  by (auto simp: clamp_def Let_def INT32_MIN_def INT32_MAX_def min_def max_def)

lemma clamp_range: "fromLowest \<le> 0 \<Longrightarrow> 0 \<le> fromHighest \<Longrightarrow> fromLowest \<le> v \<Longrightarrow> v \<le> fromHighest \<Longrightarrow> int32_range (clamp fromLowest fromHighest v)"
  by (simp add: clamp_correct int32_bounds)

lemma size_of_u32_valid: "size_isValid (size_of_u32 w h)"
  using uint_lt2p [of w] uint_lt2p [of h]
  by (simp add: size_of_u32_def size_isValid_def clamp_correct INT32_MIN_def INT32_MAX_def le_max_iff_disj)

text \<open>\<open>operator<\<close> orders by increasing width, then height.\<close>

instantiation ui_size :: linorder
begin

definition less_ui_size :: "ui_size \<Rightarrow> ui_size \<Rightarrow> bool" where
  "less_ui_size lhs rhs = (if width lhs \<noteq> width rhs then width lhs < width rhs else height lhs < height rhs)"

definition less_eq_ui_size :: "ui_size \<Rightarrow> ui_size \<Rightarrow> bool" where
  "less_eq_ui_size lhs rhs = (lhs = rhs \<or> lhs < rhs)"

instance
  by standard (auto simp: less_ui_size_def less_eq_ui_size_def ui_size.expand split: if_splits)

end

subsection \<open>Point\<close>

datatype point = Point (pt_x: int) (pt_y: int)

definition isOrigin :: "point \<Rightarrow> bool" where
  "isOrigin p = (or (pt_x p) (pt_y p) = 0)"

definition point_neg :: "point \<Rightarrow> point res" where
  "point_neg p = res_bind (chk32 (- pt_x p)) (\<lambda>x. res_map (Point x) (chk32 (- pt_y p)))"

definition point_plus :: "point \<Rightarrow> point \<Rightarrow> point res" where
  "point_plus p rhs = res_bind (chk32 (pt_x p + pt_x rhs)) (\<lambda>x. res_map (Point x) (chk32 (pt_y p + pt_y rhs)))"

definition point_minus :: "point \<Rightarrow> point \<Rightarrow> point res" where
  "point_minus p rhs = res_bind (chk32 (pt_x p - pt_x rhs)) (\<lambda>x. res_map (Point x) (chk32 (pt_y p - pt_y rhs)))"

lemma isOrigin_iff: "isOrigin p \<longleftrightarrow> p = Point 0 0"
  by (cases p) (simp add: isOrigin_def or_eq_0_iff)

lemma point_minus_plus: "int32_range (pt_x p) \<Longrightarrow> int32_range (pt_y p) \<Longrightarrow>
  point_plus p q = Ok r \<Longrightarrow> point_minus r q = Ok p"
  by (cases p) (auto simp: point_plus_def point_minus_def chk32_def split: if_splits)

lemma point_eq_iff: "p = q \<longleftrightarrow> pt_x p = pt_x q \<and> pt_y p = pt_y q"
  by (cases p; cases q) simp

text \<open>\<open>operator<\<close> orders by \<open>y\<close>, then \<open>x\<close>.\<close>

instantiation point :: linorder
begin

definition less_point :: "point \<Rightarrow> point \<Rightarrow> bool" where
  "less_point p rhs = (pt_y p < pt_y rhs \<or> pt_y p = pt_y rhs \<and> pt_x p < pt_x rhs)"

definition less_eq_point :: "point \<Rightarrow> point \<Rightarrow> bool" where
  "less_eq_point p rhs = (p = rhs \<or> p < rhs)"

instance
  by standard (auto simp: less_point_def less_eq_point_def point_eq_iff)

end

subsection \<open>Rect\<close>

datatype rect = Rect (r_left: int) (r_top: int) (r_right: int) (r_bottom: int)

definition rect_of_u32 :: "u32 \<Rightarrow> u32 \<Rightarrow> u32 \<Rightarrow> u32 \<Rightarrow> rect" where
  "rect_of_u32 l t r b = Rect (sint l) (sint t) (sint r) (sint b)"

definition rect_wh :: "int \<Rightarrow> int \<Rightarrow> rect" where
  "rect_wh w h = Rect 0 0 (to_int32 (if w > INT32_MAX then INT32_MAX else w))
                          (to_int32 (if h > INT32_MAX then INT32_MAX else h))"

definition rect_corners :: "point \<Rightarrow> point \<Rightarrow> rect" where
  "rect_corners lt rb = Rect (pt_x lt) (pt_y lt) (pt_x rb) (pt_y rb)"

definition rect_of_size :: "ui_size \<Rightarrow> rect" where
  "rect_of_size sz = Rect 0 0 (width sz) (height sz)"

definition getWidth :: "rect \<Rightarrow> int" where "getWidth r = to_int32 (r_right r - r_left r)"
definition getHeight :: "rect \<Rightarrow> int" where "getHeight r = to_int32 (r_bottom r - r_top r)"
definition rect_isValid :: "rect \<Rightarrow> bool" where "rect_isValid r = (getWidth r \<ge> 0 \<and> getHeight r \<ge> 0)"
definition rect_isEmpty :: "rect \<Rightarrow> bool" where "rect_isEmpty r = (getWidth r \<le> 0 \<or> getHeight r \<le> 0)"

definition rect_clear :: "rect \<Rightarrow> rect" where "rect_clear r = Rect 0 0 0 0"

definition getSize :: "rect \<Rightarrow> ui_size" where
  "getSize r = Size (clamp INT32_MIN INT32_MAX (getWidth r)) (clamp INT32_MIN INT32_MAX (getHeight r))"

definition getBounds :: "rect \<Rightarrow> rect" where
  "getBounds r = rect_wh (to_int32 (r_right r - r_left r)) (to_int32 (r_bottom r - r_top r))"

definition setLeftTop :: "point \<Rightarrow> rect \<Rightarrow> rect" where
  "setLeftTop lt r = Rect (pt_x lt) (pt_y lt) (r_right r) (r_bottom r)"

definition setRightBottom :: "point \<Rightarrow> rect \<Rightarrow> rect" where
  "setRightBottom rb r = Rect (r_left r) (r_top r) (pt_x rb) (pt_y rb)"

definition leftTop :: "rect \<Rightarrow> point" where "leftTop r = Point (r_left r) (r_top r)"
definition rightBottom :: "rect \<Rightarrow> point" where "rightBottom r = Point (r_right r) (r_bottom r)"
definition rightTop :: "rect \<Rightarrow> point" where "rightTop r = Point (r_right r) (r_top r)"
definition leftBottom :: "rect \<Rightarrow> point" where "leftBottom r = Point (r_left r) (r_bottom r)"

definition offsetToOrigin :: "rect \<Rightarrow> rect res" where
  "offsetToOrigin r =
     res_bind (chk32 (r_right r - r_left r)) (\<lambda>right.
     res_map (\<lambda>bottom. Rect 0 0 right bottom) (chk32 (r_bottom r - r_top r)))"

definition toFloatRect :: "rect \<Rightarrow> rat \<times> rat \<times> rat \<times> rat" where
  "toFloatRect r = (of_int32 (r_left r), of_int32 (r_top r), of_int32 (r_right r), of_int32 (r_bottom r))"

definition rect_ok :: "rect \<Rightarrow> bool" where
  "rect_ok r = (int32_range (r_left r) \<and> int32_range (r_top r) \<and> int32_range (r_right r) \<and> int32_range (r_bottom r))"

lemmas rect_defs = getWidth_def getHeight_def rect_isValid_def rect_isEmpty_def getSize_def getBounds_def
  offsetToOrigin_def rect_wh_def rect_ok_def leftTop_def rightBottom_def rightTop_def leftBottom_def
  setLeftTop_def setRightBottom_def rect_corners_def

lemma rect_corners_id: "rect_corners (leftTop r) (rightBottom r) = r"
  by (cases r) (simp add: rect_defs)

lemma getWidth_exact:
  "int32_range (r_right r - r_left r) \<Longrightarrow> getWidth r = r_right r - r_left r"
  by (simp add: getWidth_def)

text \<open>Moving a rectangle to the origin keeps its size; where it would overflow the source is undefined.\<close>

lemma offsetToOrigin_size:
  "offsetToOrigin r = Ok r' \<Longrightarrow> getWidth r' = getWidth r \<and> getHeight r' = getHeight r \<and> leftTop r' = Point 0 0"
  by (auto simp: rect_defs chk32_def res_simps split: if_splits)

lemma getBounds_size:
  "rect_isValid r \<Longrightarrow> getWidth (getBounds r) = getWidth r \<and> getHeight (getBounds r) = getHeight r"
  using to_int32_range [of "r_right r - r_left r"] to_int32_range [of "r_bottom r - r_top r"]
  by (auto simp: rect_defs int32_bounds)

lemma rect_of_size_empty: "int32_range (width s) \<Longrightarrow> int32_range (height s) \<Longrightarrow>
  rect_isEmpty (rect_of_size s) \<longleftrightarrow> width s \<le> 0 \<or> height s \<le> 0"
  by (simp add: rect_of_size_def rect_defs)

subsection \<open>FloatRect\<close>

datatype float_rect = FloatRect (f_left: rat) (f_top: rat) (f_right: rat) (f_bottom: rat)

definition f_width :: "float_rect \<Rightarrow> rat" where "f_width r = fsub (f_right r) (f_left r)"
definition f_height :: "float_rect \<Rightarrow> rat" where "f_height r = fsub (f_bottom r) (f_top r)"

definition f_intersect :: "float_rect \<Rightarrow> float_rect \<Rightarrow> float_rect" where
  "f_intersect r other =
     (let intersection = FloatRect
            (if f_left r > f_left other then f_left r else f_left other)
            (if f_top r > f_top other then f_top r else f_top other)
            (if f_right r < f_right other then f_right r else f_right other)
            (if f_bottom r < f_bottom other then f_bottom r else f_bottom other)
      in if f_width intersection < 0 \<or> f_height intersection < 0 then FloatRect 0 0 0 0 else intersection)"

lemma f_intersect_commute: "f_intersect r s = f_intersect s r"
proof -
  have "(if a > b then a else b) = (if b > a then b else a)" "(if a < b then a else b) = (if b < a then b else a)"
    for a b :: rat by auto
  then show ?thesis by (simp add: f_intersect_def)
qed

text \<open>A point lies in the intersection exactly when it lies in both rectangles, if it is not empty.\<close>

definition f_contains :: "float_rect \<Rightarrow> rat \<Rightarrow> rat \<Rightarrow> bool" where
  "f_contains r x y = (f_left r \<le> x \<and> x \<le> f_right r \<and> f_top r \<le> y \<and> y \<le> f_bottom r)"

lemma fl_nonneg_iff: "0 \<le> fl x \<longleftrightarrow> 0 \<le> x"
proof -
  have "fl x < 0" if "x < 0"
  proof -
    have "0 < fl (- x)" using that by (simp add: fl_pos)
    moreover have "fl (- x) = - fl x" by (simp add: fl_def Let_def)
    ultimately show ?thesis by simp
  qed
  then show ?thesis using fl_nonneg by force
qed

lemma f_intersect_contains:
  assumes "f_contains r a b" "f_contains s a b"
  shows "f_contains r x y \<and> f_contains s x y \<longleftrightarrow> f_contains (f_intersect r s) x y"
proof -
  have "\<not> (f_width i < 0 \<or> f_height i < 0)"
    if "i = FloatRect (max (f_left r) (f_left s)) (max (f_top r) (f_top s))
                       (min (f_right r) (f_right s)) (min (f_bottom r) (f_bottom s))" for i
    using assms that by (simp add: f_contains_def f_width_def f_height_def fsub_def not_less fl_nonneg_iff)
  moreover have "(if a > b then a else b) = max a b" "(if a < b then a else b) = min a b" for a b :: rat
    by auto
  ultimately show ?thesis by (auto simp: f_intersect_def f_contains_def)
qed

end
