(* ===== verification/Recorder_World.thy ===== *)
theory Recorder_World
  imports Recorder_Options Ui_Geometry
begin

section \<open>What the recorder calls\<close>

text \<open>
  The recorder drives the media codec, the display service, the muxer, files and an overlay thread.
  As in the casting part a call is recorded in the trace of the state, and its answer is read from a
  parameter \<open>e :: renv\<close>, a function of the history up to and including the call: \<open>r_ans\<close> a status, an
  index or a time, \<open>r_ptr\<close> whether a pointer is not null, \<open>r_bytes\<close> the bytes of a buffer,
  \<open>r_state\<close> a display state, \<open>r_rate\<close> a refresh rate, \<open>r_buffer\<close> what \<open>dequeueOutputBuffer\<close> stores
  (index, size, presentation time, flags), and \<open>r_stop\<close> whether the signal handler has run.
  Log and verbose output is left out.
\<close>

datatype setting = Set_int int | Set_string string | Set_float rat

datatype rcodec_call =
    Rc_createByType string | Rc_createByName string | Rc_configure "(string \<times> setting) list"
  | Rc_createPersistentSurface | Rc_setInputSurface | Rc_createInputSurface
  | Rc_start | Rc_stop | Rc_release | Rc_getOutputBuffers | Rc_dequeueOutput int
  | Rc_data nat | Rc_releaseOutput nat | Rc_getOutputFormat

datatype rdisplay_call =
    Rd_token u64 | Rd_getState | Rd_getConfig | Rd_create | Rd_setSurface
  | Rd_setProjection rotation rect rect | Rd_setLayerStack u32 | Rd_apply | Rd_destroy

datatype rmuxer_call =
    Rm_formatFromMsg | Rm_formatNew | Rm_formatSet string string | Rm_formatDelete
  | Rm_new output_format | Rm_orientationHint int | Rm_addTrack | Rm_start
  | Rm_write int "byte list" int u32 | Rm_stop

datatype rfile_call =
    Rf_sigaction int | Rf_threadPool | Rf_unlink string | Rf_open string | Rf_close int
  | Rf_fopen string | Rf_isatty | Rf_tcgetattr | Rf_tcsetattr
  | Rf_fwrite "byte list" | Rf_fflush | Rf_fclose | Rf_clock
  | Rf_fork | Rf_waitpid int

datatype rscreen_call =
    Ro_createInputSurface u32 u32 | Ro_prepareToCopy | Ro_copyFrame bool
  | Ro_drawInfoPage | Ro_overlayStart bool | Ro_overlayStop

datatype rcall =
    RCodec rcodec_call | RDisplay rdisplay_call | RMuxer rmuxer_call | RFile rfile_call | RScreen rscreen_call

datatype display_state = Display_state (layerStack: u32) (orientation: rotation) (viewport: ui_size)

record renv =
  r_ans :: "rcall list \<Rightarrow> int"
  r_ptr :: "rcall list \<Rightarrow> bool"
  r_bytes :: "rcall list \<Rightarrow> byte list"
  r_state :: "rcall list \<Rightarrow> display_state"
  r_rate :: "rcall list \<Rightarrow> rat"
  r_buffer :: "rcall list \<Rightarrow> nat \<times> nat \<times> int \<times> u32"
  r_stop :: "rcall list \<Rightarrow> bool"

record recorder = options +
  gStopRequested :: bool
  rtrace :: "rcall list"

definition rcall :: "rcall \<Rightarrow> recorder \<Rightarrow> recorder" where
  "rcall c s = s\<lparr>rtrace := rtrace s @ [c]\<rparr>"

definition rask :: "renv \<Rightarrow> rcall \<Rightarrow> recorder \<Rightarrow> int \<times> recorder" where
  "rask e c s = (let s' = rcall c s in (r_ans e (rtrace s'), s'))"

definition rptr :: "renv \<Rightarrow> rcall \<Rightarrow> recorder \<Rightarrow> bool \<times> recorder" where
  "rptr e c s = (let s' = rcall c s in (r_ptr e (rtrace s'), s'))"

definition stop_requested :: "renv \<Rightarrow> recorder \<Rightarrow> bool" where
  "stop_requested e s = (gStopRequested s \<or> r_stop e (rtrace s))"

definition rcount :: "(rcall \<Rightarrow> bool) \<Rightarrow> recorder \<Rightarrow> nat" where
  "rcount P s = length (filter P (rtrace s))"

named_theorems recorder_simps "facts about the recorder's calls"

lemma rtrace_rcall [simp, recorder_simps]: "rtrace (rcall c s) = rtrace s @ [c]"
  by (simp add: rcall_def)

interpretation recorder_calls: call_trace rtrace rcall
  by unfold_locales simp

lemma rask_eq [simp, recorder_simps]: "rask e c s = (r_ans e (rtrace s @ [c]), rcall c s)"
  by (simp add: rask_def)

lemma rptr_eq [simp, recorder_simps]: "rptr e c s = (r_ptr e (rtrace s @ [c]), rcall c s)"
  by (simp add: rptr_def)

lemma rcount_rcall [simp, recorder_simps]: "rcount P (rcall c s) = rcount P s + (if P c then 1 else 0)"
  by (simp add: rcount_def)

lemma options_rcall [simp, recorder_simps]:
  "gOutputFormat (rcall c s) = gOutputFormat s" "gRotate (rcall c s) = gRotate s"
  "gVideoWidth (rcall c s) = gVideoWidth s" "gVideoHeight (rcall c s) = gVideoHeight s"
  "gSizeSpecified (rcall c s) = gSizeSpecified s" "gPersistentSurface (rcall c s) = gPersistentSurface s"
  "gCodecName (rcall c s) = gCodecName s" "gBframes (rcall c s) = gBframes s"
  "gWantInfoScreen (rcall c s) = gWantInfoScreen s" "gWantFrameTime (rcall c s) = gWantFrameTime s"
  "gTimeLimitSec (rcall c s) = gTimeLimitSec s" "gVerbose (rcall c s) = gVerbose s"
  "gPhysicalDisplayId (rcall c s) = gPhysicalDisplayId s" "gMonotonicTime (rcall c s) = gMonotonicTime s"
  "gStopRequested (rcall c s) = gStopRequested s"
  by (simp_all add: rcall_def)

subsection \<open>Status codes and flags\<close>

definition NO_ERROR :: int where "NO_ERROR = 0"
definition UNKNOWN_ERROR :: int where "UNKNOWN_ERROR = - 2147483647 - 1"
definition ENOENT :: int where "ENOENT = 2"
definition EAGAIN :: int where "EAGAIN = 11"
definition ETIMEDOUT :: int where "ETIMEDOUT = 110"
definition INVALID_OPERATION :: int where "INVALID_OPERATION = - 38"
definition NAME_NOT_FOUND :: int where "NAME_NOT_FOUND = - ENOENT"
definition MEDIA_ERROR_BASE :: int where "MEDIA_ERROR_BASE = - 1000"
definition INFO_FORMAT_CHANGED :: int where "INFO_FORMAT_CHANGED = MEDIA_ERROR_BASE - 12"
definition INFO_OUTPUT_BUFFERS_CHANGED :: int where "INFO_OUTPUT_BUFFERS_CHANGED = MEDIA_ERROR_BASE - 14"

lemmas status_defs = NO_ERROR_def UNKNOWN_ERROR_def ENOENT_def EAGAIN_def ETIMEDOUT_def INVALID_OPERATION_def
  NAME_NOT_FOUND_def MEDIA_ERROR_BASE_def INFO_FORMAT_CHANGED_def INFO_OUTPUT_BUFFERS_CHANGED_def

definition BUFFER_FLAG_CODECCONFIG :: u32 where "BUFFER_FLAG_CODECCONFIG = 2"
definition BUFFER_FLAG_EOS :: u32 where "BUFFER_FLAG_EOS = 4"

definition has_flag :: "u32 \<Rightarrow> u32 \<Rightarrow> bool" where
  "has_flag flags f = (and flags f \<noteq> 0)"

end
