(* ===== verification/Recorder_Projection.thy ===== *)
theory Recorder_Projection
  imports Recorder_World
begin

section \<open>Display projection\<close>

text \<open>
  \<open>setDisplayProjection\<close> and \<open>prepareVirtualDisplay\<close> of \<open>screenrecord.cpp\<close>: how the display is scaled
  into the video frame. The computation is in single precision, on unsigned 32-bit sizes; a
  conversion of a float that does not fit is undefined.
\<close>

definition displayAspect :: "ui_size \<Rightarrow> rat res" where
  "displayAspect vp = fdiv (of_int32 (height vp)) (of_int32 (width vp))"

definition outSize :: "u32 \<Rightarrow> u32 \<Rightarrow> rat \<Rightarrow> (u32 \<times> u32) res" where
  "outSize videoWidth videoHeight aspect =
     res_bind (to_u32 (fmul (of_u32 videoWidth) aspect)) (\<lambda>limit.
     if videoHeight > limit then Ok (videoWidth, limit)
     else res_map (\<lambda>outWidth. (outWidth, videoHeight))
            (res_bind (fdiv (of_u32 videoHeight) aspect) to_u32))"

definition displayRect :: "u32 \<Rightarrow> u32 \<Rightarrow> ui_size \<Rightarrow> rect res" where
  "displayRect videoWidth videoHeight vp =
     res_bind (displayAspect vp) (\<lambda>aspect.
     res_map (\<lambda>(outWidth, outHeight).
         let offX = (videoWidth - outWidth) div 2; offY = (videoHeight - outHeight) div 2
         in rect_of_u32 offX offY (offX + outWidth) (offY + outHeight))
       (outSize videoWidth videoHeight aspect))"

definition setDisplayProjection :: "display_state \<Rightarrow> recorder \<Rightarrow> recorder res" where
  "setDisplayProjection displayState s =
     (let (videoWidth, videoHeight) =
            (if \<not> gRotate s then (gVideoWidth s, gVideoHeight s) else (gVideoHeight s, gVideoWidth s))
      in res_map (\<lambda>r. rcall (RDisplay (Rd_setProjection (if gRotate s then ROTATION_90 else ROTATION_0)
                                         (rect_of_size (viewport displayState)) r)) s)
           (displayRect videoWidth videoHeight (viewport displayState)))"

definition prepareVirtualDisplay :: "display_state \<Rightarrow> recorder \<Rightarrow> recorder res" where
  "prepareVirtualDisplay displayState s =
     res_map (\<lambda>s1. rcall (RDisplay Rd_apply) (rcall (RDisplay (Rd_setLayerStack (layerStack displayState))) s1))
       (setDisplayProjection displayState
          (rcall (RDisplay Rd_setSurface) (rcall (RDisplay Rd_create) s)))"

subsection \<open>The scaled display fits the frame\<close>

definition near1 :: "rat \<Rightarrow> bool" where
  "near1 k = (1 - 3 / 2 ^ 24 \<le> k \<and> k \<le> 1 + 3 / 2 ^ 24)"

definition fl1 :: "rat \<Rightarrow> bool" where
  "fl1 k = (1 - 1 / 2 ^ 24 \<le> k \<and> k \<le> 1 + 1 / 2 ^ 24)"

lemma fl_factor:
  assumes "0 < x"
  obtains k where "fl x = x * k" "fl1 k"
proof (rule that [of "fl x / x"])
  have "1 - 1 / 2 ^ 24 \<le> fl x / x"
    using fl_bounds(1) [of x] assms by (subst le_divide_eq) (auto simp: mult.commute)
  moreover have "fl x / x \<le> 1 + 1 / 2 ^ 24"
    using fl_bounds(2) [of x] assms by (subst divide_le_eq) (auto simp: mult.commute)
  ultimately show "fl1 (fl x / x)" by (simp only: fl1_def)
qed (use assms in simp)

lemma near1_mult: "fl1 j \<Longrightarrow> fl1 k \<Longrightarrow> near1 (j * k)"
proof -
  assume a: "fl1 j" "fl1 k"
  then have b: "1 - 1 / 2 ^ 24 \<le> j" "j \<le> 1 + 1 / 2 ^ 24" "1 - 1 / 2 ^ 24 \<le> k" "k \<le> 1 + 1 / 2 ^ 24"
    by (simp_all only: fl1_def)
  have "(1 - 1 / 2 ^ 24) * (1 - 1 / 2 ^ 24) \<le> j * k"
    by (rule mult_mono [OF b(1,3)]) (use b in simp_all)
  moreover have "j * k \<le> (1 + 1 / 2 ^ 24) * (1 + 1 / 2 ^ 24 :: rat)"
    by (rule mult_mono [OF b(2,4)]) (use b in simp_all)
  ultimately show ?thesis by (simp add: near1_def)
qed

lemma near1_divide: "fl1 j \<Longrightarrow> fl1 k \<Longrightarrow> near1 (k / j)"
proof -
  assume a: "fl1 j" "fl1 k"
  then have j: "0 < j" by (simp add: fl1_def)
  have "(1 - 3 / 2 ^ 24) * j \<le> k"
  proof -
    have "(1 - 3 / 2 ^ 24) * j \<le> (1 - 3 / 2 ^ 24) * (1 + 1 / 2 ^ 24)"
      using a by (intro mult_left_mono) (simp_all add: fl1_def)
    also have "\<dots> \<le> k" using a by (simp add: fl1_def)
    finally show ?thesis .
  qed
  moreover have "k \<le> (1 + 3 / 2 ^ 24) * j"
  proof -
    have "k \<le> (1 + 3 / 2 ^ 24) * (1 - 1 / 2 ^ 24)" using a by (simp add: fl1_def)
    also have "\<dots> \<le> (1 + 3 / 2 ^ 24) * j" using a by (intro mult_left_mono) (simp_all add: fl1_def)
    finally show ?thesis .
  qed
  ultimately show ?thesis using j by (simp only: near1_def le_divide_eq divide_le_eq) simp
qed

lemma near1_times: "near1 k \<Longrightarrow> 0 \<le> x \<Longrightarrow> x * (1 - 3 / 2 ^ 24) \<le> x * k \<and> x * k \<le> x * (1 + 3 / 2 ^ 24)"
  by (auto simp only: near1_def intro!: mult_left_mono)

lemma near1_close:
  assumes "near1 k" "0 \<le> x" "x * k < 2 ^ 14 + 1"
  shows "\<bar>x * k - x\<bar> < 1 / 4"
proof -
  have a: "x * (1 - 3 / 2 ^ 24) \<le> x * k" "x * k \<le> x * (1 + 3 / 2 ^ 24)"
    using near1_times [OF assms(1,2)] by simp_all
  then have "x < 2 ^ 15" using assms(3) by (simp add: algebra_simps)
  moreover have "x * k - x \<le> x * (3 / 2 ^ 24)" "x - x * k \<le> x * (3 / 2 ^ 24)"
    using a by (simp_all add: algebra_simps)
  ultimately have "x * k - x < 1 / 4" "x - x * k < 1 / 4" by simp_all
  then show ?thesis by linarith
qed

definition side :: "int \<Rightarrow> bool" where "side i = (0 < i \<and> i \<le> 2 ^ 14)"

lemma side_u32: "side (uint w) \<Longrightarrow> of_u32 w = of_int (uint w)"
  by (rule of_u32_exact) (simp add: side_def)

lemma side_int32: "side i \<Longrightarrow> of_int32 i = of_int i"
  using fl_of_nat [of "nat i"] by (simp add: side_def of_int32_def nat_less_iff)

text \<open>The scaled size, with the exact ratio \<open>q = height / width\<close> of the display.\<close>

lemma outSize_fits:
  assumes "side (uint vw)" "side (uint vh)" "side w" "side h" "displayAspect (Size w h) = Ok aspect"
  defines "q \<equiv> of_int h / of_int w :: rat"
  shows "\<exists>ow oh. outSize vw vh aspect = Ok (ow, oh) \<and> uint ow \<le> uint vw \<and> uint oh \<le> uint vh \<and>
           (ow = vw \<and> \<bar>of_int (uint oh) - of_int (uint vw) * q\<bar> < 5 / 4 \<or>
            oh = vh \<and> \<bar>of_int (uint ow) - of_int (uint vh) / q\<bar> < 5 / 4)"
proof -
  have q: "0 < q" "q \<le> 2 ^ 14"
  proof -
    show "0 < q" using assms(3,4) by (simp add: q_def side_def)
    have "of_int h / of_int w \<le> (of_int h :: rat)" using assms(3,4) by (simp add: side_def divide_le_eq mult_le_cancel_left1)
    also have "\<dots> \<le> of_int (2 ^ 14)" using assms(4) unfolding side_def of_int_le_iff by blast
    finally show "q \<le> 2 ^ 14" by (simp add: q_def)
  qed
  let ?vw = "of_int (uint vw) :: rat" and ?vh = "of_int (uint vh) :: rat"
  have v: "0 < ?vw" "?vw \<le> 2 ^ 14" "0 < ?vh" "?vh \<le> 2 ^ 14"
  proof -
    have "0 < uint vw" "uint vw \<le> 2 ^ 14" "0 < uint vh" "uint vh \<le> 2 ^ 14"
      using assms(1,2) by (simp_all only: side_def)
    then have "(of_int 0 :: rat) < ?vw" "?vw \<le> of_int (2 ^ 14)" "(of_int 0 :: rat) < ?vh" "?vh \<le> of_int (2 ^ 14)"
      unfolding of_int_less_iff of_int_le_iff by blast+
    then show "0 < ?vw" "?vw \<le> 2 ^ 14" "0 < ?vh" "?vh \<le> 2 ^ 14" by simp_all
  qed
  have "aspect = fl q" using assms(3-5) by (auto simp: displayAspect_def side_int32 fdiv_def q_def side_def)
  then obtain ka where ka: "aspect = q * ka" "fl1 ka" using fl_factor [OF q(1)] by blast
  have ka0: "0 < ka" using ka(2) by (simp add: fl1_def)
  have xa: "0 < ?vw * aspect" using v q ka ka0 by simp
  obtain kp where kp: "fl (?vw * aspect) = ?vw * aspect * kp" "fl1 kp" by (rule fl_factor [OF xa])
  let ?x = "?vw * q" and ?P = "fl (?vw * aspect)"
  have P: "?P = ?x * (ka * kp)" and n: "near1 (ka * kp)" using kp ka near1_mult by (auto simp: mult_ac)
  have x: "0 < ?x" using v q by simp
  have x2: "?x \<le> 2 ^ 14 * 2 ^ 14" by (rule mult_mono [OF v(2) q(2)]) (use q in simp_all)
  have Pb: "?x * (1 - 3 / 2 ^ 24) \<le> ?P" "?P \<le> ?x * (1 + 3 / 2 ^ 24)" using near1_times [OF n, of ?x] x P by simp_all
  have P0: "0 \<le> ?P" "?P < 2 ^ 32" using Pb x x2 by (simp_all add: algebra_simps)
  obtain L where L: "to_u32 ?P = Ok L" "uint L = \<lfloor>?P\<rfloor>" using to_u32_of [OF P0] by blast
  have Lb: "of_int (uint L) \<le> ?P" "?P < of_int (uint L) + 1" using L(2) by simp_all linarith
  have out: "outSize vw vh aspect =
      (if vh > L then Ok (vw, L) else res_map (\<lambda>ow. (ow, vh)) (res_bind (fdiv ?vh aspect) to_u32))"
    using L(1) by (simp add: outSize_def fmul_def side_u32 assms(1,2))
  show ?thesis
  proof (cases "vh > L")
    case True
    then have "uint L + 1 \<le> uint vh" by (simp add: word_less_def)
    then have "of_int (uint L) + 1 \<le> ?vh" by (metis of_int_1 of_int_add of_int_le_iff)
    then have "?x * (ka * kp) < 2 ^ 14 + 1" using Lb v P by linarith
    then have "\<bar>?P - ?x\<bar> < 1 / 4" using near1_close [OF n] x P by simp
    then have "\<bar>of_int (uint L) - ?x\<bar> < 5 / 4" using Lb by linarith
    then show ?thesis using True out \<open>uint L + 1 \<le> uint vh\<close> by auto
  next
    case False
    then have "uint vh \<le> uint L" by (simp add: word_le_def not_less)
    then have "?vh \<le> of_int (uint L)" unfolding of_int_le_iff .
    then have y: "?vh \<le> ?x * (1 + 3 / 2 ^ 24)" using Lb Pb by linarith
    let ?y = "?vh / q"
    have a0: "0 < aspect" using ka q ka0 by simp
    then have ya: "0 < ?vh / aspect" using v by simp
    obtain kq where kq: "fl (?vh / aspect) = ?vh / aspect * kq" "fl1 kq" by (rule fl_factor [OF ya])
    let ?Q = "fl (?vh / aspect)"
    have Q: "?Q = ?y * (kq / ka)" and n': "near1 (kq / ka)" using kq ka near1_divide by auto
    have "?y \<le> ?vw * (1 + 3 / 2 ^ 24)" using y q by (simp add: divide_le_eq mult_ac)
    moreover have "?y * (1 - 3 / 2 ^ 24) \<le> ?Q" "?Q \<le> ?y * (1 + 3 / 2 ^ 24)"
      using near1_times [OF n', of ?y] Q v q by simp_all
    ultimately have Qv: "?Q < ?vw + 1" using v by (simp add: algebra_simps)
    have Q0: "0 \<le> ?Q" using ya by (intro fl_nonneg) simp
    have "?Q < 2 ^ 32" using Qv v by simp
    from to_u32_of [OF Q0 this] obtain W where W: "to_u32 ?Q = Ok W" "uint W = \<lfloor>?Q\<rfloor>" by blast
    have Wb: "of_int (uint W) \<le> ?Q" "?Q < of_int (uint W) + 1" using W(2) by simp_all linarith
    have "\<bar>?Q - ?y\<bar> < 1 / 4" using near1_close [OF n', of ?y] Q Qv v q by simp
    then have d: "\<bar>of_int (uint W) - ?y\<bar> < 5 / 4" using Wb by linarith
    have "of_int (uint W) < ?vw + 1" using Wb Qv by linarith
    then have "uint W \<le> uint vw" by (metis of_int_1 of_int_add of_int_less_iff zless_add1_eq order.order_iff_strict)
    moreover have "outSize vw vh aspect = Ok (W, vh)" using False out W(1) a0 by (simp add: fdiv_def)
    ultimately show ?thesis using d by blast
  qed
qed

subsection \<open>The rectangle on the video frame\<close>

lemma sint_u32_small: "uint (w :: u32) \<le> 2 ^ 14 \<Longrightarrow> sint w = uint w"
  by (simp add: sint_uint, rule signed_take_bit_int_eq_self, rule order_trans [OF _ uint_ge_0]) simp_all

lemma uint_sub_half:
  assumes "uint (b :: u32) \<le> uint a"
  shows "uint ((a - b) div 2) = (uint a - uint b) div 2"
proof -
  have "uint (a - b) = uint a - uint b" using assms unfolding uint_sub_lem .
  then show ?thesis by (simp add: uint_div)
qed

lemma uint_add_small:
  assumes "uint (a :: u32) + uint b \<le> 2 ^ 14"
  shows "uint (a + b) = uint a + uint b"
  using assms by (simp add: uint_plus_simple_iff[THEN iffD1] uint_word_ariths(1))

text \<open>C19: For a display and a video frame with sides of 1 to 16384 pixels the projection is defined, lies
  inside the frame, is centred up to one pixel, fills the frame in one direction, and in the
  other is within 5/4 pixel of what the exact aspect ratio of the display asks for.\<close>

theorem displayRect_fits:
  assumes "side (uint vw)" "side (uint vh)" "side w" "side h"
  shows "\<exists>l t r b. displayRect vw vh (Size w h) = Ok (Rect l t r b) \<and>
           0 \<le> l \<and> l \<le> r \<and> r \<le> uint vw \<and> 0 \<le> t \<and> t \<le> b \<and> b \<le> uint vh \<and>
           uint vw - r - l \<in> {0, 1} \<and> uint vh - b - t \<in> {0, 1} \<and>
           (r - l = uint vw \<and> \<bar>of_int (b - t) - of_int (uint vw) * (of_int h / of_int w)\<bar> < (5 / 4 :: rat) \<or>
            b - t = uint vh \<and> \<bar>of_int (r - l) - of_int (uint vh) / (of_int h / of_int w)\<bar> < (5 / 4 :: rat))"
proof -
  obtain aspect where a: "displayAspect (Size w h) = Ok aspect"
    using assms(3,4) by (auto simp: displayAspect_def fdiv_def side_int32 side_def)
  obtain ow oh where o: "outSize vw vh aspect = Ok (ow, oh)" "uint ow \<le> uint vw" "uint oh \<le> uint vh"
    and ratio: "ow = vw \<and> \<bar>of_int (uint oh) - of_int (uint vw) * (of_int h / of_int w)\<bar> < (5 / 4 :: rat) \<or>
            oh = vh \<and> \<bar>of_int (uint ow) - of_int (uint vh) / (of_int h / of_int w)\<bar> < (5 / 4 :: rat)"
    using outSize_fits [OF assms a] by blast
  let ?x = "(vw - ow) div 2" and ?y = "(vh - oh) div 2"
  have x: "uint ?x = (uint vw - uint ow) div 2" and y: "uint ?y = (uint vh - uint oh) div 2"
    using o by (simp_all only: uint_sub_half)
  have v: "uint vw \<le> 2 ^ 14" "uint vh \<le> 2 ^ 14" using assms(1,2) by (simp_all only: side_def)
  have n: "0 \<le> uint ow" "0 \<le> uint oh" by simp_all
  have sx: "uint (?x + ow) = uint ?x + uint ow" and sy: "uint (?y + oh) = uint ?y + uint oh"
    using o v n by (intro uint_add_small; simp only: x y; linarith)+
  have le: "uint ?x + uint ow \<le> uint vw" "uint ?y + uint oh \<le> uint vh" "0 \<le> uint ?x" "0 \<le> uint ?y"
    unfolding x y using o(2,3) by linarith+
  have s: "sint ?x = uint ?x" "sint ?y = uint ?y" "sint (?x + ow) = uint ?x + uint ow" "sint (?y + oh) = uint ?y + uint oh"
    using le v n by (subst sint_u32_small; simp only: sx sy; linarith)+
  have r: "displayRect vw vh (Size w h) = Ok (Rect (uint ?x) (uint ?y) (uint ?x + uint ow) (uint ?y + uint oh))"
    unfolding displayRect_def a res_bind.simps o(1) by (simp only: res_map.simps prod.case Let_def rect_of_u32_def s)
  have c: "uint vw - (uint ?x + uint ow) - uint ?x \<in> {0, 1}" "uint vh - (uint ?y + uint oh) - uint ?y \<in> {0, 1}"
    unfolding x y using o(2,3) by auto
  have e: "uint ?x + uint ow - uint ?x = uint ow" "uint ?y + uint oh - uint ?y = uint oh" by simp_all
  have "(uint ?x + uint ow - uint ?x = uint vw \<and> \<bar>of_int (uint ?y + uint oh - uint ?y) - of_int (uint vw) * (of_int h / of_int w)\<bar> < (5 / 4 :: rat)) \<or>
        (uint ?y + uint oh - uint ?y = uint vh \<and> \<bar>of_int (uint ?x + uint ow - uint ?x) - of_int (uint vh) / (of_int h / of_int w)\<bar> < (5 / 4 :: rat))"
    unfolding e using ratio by blast
  moreover have "uint ?x \<le> uint ?x + uint ow" "uint ?y \<le> uint ?y + uint oh" using n by linarith+
  ultimately show ?thesis using r le c by blast
qed

lemma displayRect_fits_witness:
  "\<exists>l t r b. displayRect 1280 720 (Size 1080 1920) = Ok (Rect l t r b) \<and> 0 \<le> l \<and> r \<le> 1280 \<and> 0 \<le> t \<and> b \<le> 720"
  using displayRect_fits [of 1280 720 1080 1920] by (simp add: side_def) blast

end
