(* ===== verification/Recorder_Encoder.thy ===== *)
theory Recorder_Encoder
  imports Recorder_Projection Wire_Format
begin

section \<open>Encoder and muxer of the recorder\<close>

text \<open>
  \<open>prepareEncoder\<close> and \<open>writeWinscopeMetadata\<close> of \<open>screenrecord.cpp\<close>. An \<open>assert\<close> that fails and an
  out-of-range access are \<open>Undef\<close>. Times are nanoseconds.
\<close>

subsection \<open>Preparing the encoder\<close>

definition kMimeTypeAvc :: string where "kMimeTypeAvc = ''video/avc''"

definition encoder_format :: "rat \<Rightarrow> recorder \<Rightarrow> (string \<times> setting) list" where
  "encoder_format displayFps s =
     [(''width'', Set_int (sint (gVideoWidth s))), (''height'', Set_int (sint (gVideoHeight s))),
      (''mime'', Set_string kMimeTypeAvc), (''color-format'', Set_int 0x7F000789),
      (''bitrate'', Set_int (sint (gBitRate s))), (''frame-rate'', Set_float displayFps),
      (''i-frame-interval'', Set_int 10), (''max-bframes'', Set_int (sint (gBframes s)))] @
     (if gBframes s > 0 then [(''profile'', Set_int 2), (''level'', Set_int 0x1000)] else [])"

definition input_surface :: "renv \<Rightarrow> recorder \<Rightarrow> int \<times> recorder" where
  "input_surface e s =
     (if gPersistentSurface s
      then rask e (RCodec Rc_setInputSurface) (rcall (RCodec Rc_createPersistentSurface) s)
      else rask e (RCodec Rc_createInputSurface) s)"

definition prepareEncoder :: "renv \<Rightarrow> rat \<Rightarrow> recorder \<Rightarrow> int \<times> recorder" where
  "prepareEncoder e displayFps s =
     (let (codec, s1) = rptr e (RCodec (if gCodecName s = [] then Rc_createByType kMimeTypeAvc
                                          else Rc_createByName (gCodecName s))) s in
      if \<not> codec then (UNKNOWN_ERROR, s1) else
      let (err, s2) = rask e (RCodec (Rc_configure (encoder_format displayFps s1))) s1 in
      if err \<noteq> NO_ERROR then (err, rcall (RCodec Rc_release) s2) else
      let (err, s3) = input_surface e s2 in
      if err \<noteq> NO_ERROR then (err, rcall (RCodec Rc_release) s3) else
      let (err, s4) = rask e (RCodec Rc_start) s3 in
      if err \<noteq> NO_ERROR then (err, rcall (RCodec Rc_release) s4)
      else (0, s4))"

text \<open>A codec that was created is either handed out or released.\<close>

definition is_create :: "rcall \<Rightarrow> bool" where
  "is_create c = (case c of RCodec (Rc_createByType _) \<Rightarrow> True | RCodec (Rc_createByName _) \<Rightarrow> True | _ \<Rightarrow> False)"

definition is_release :: "rcall \<Rightarrow> bool" where
  "is_release c = (c = RCodec Rc_release)"

text \<open>Codecs created and not yet released; a creation counts when its answer is not null.\<close>

definition codec_count :: "renv \<Rightarrow> rcall list \<Rightarrow> rcall \<Rightarrow> int" where
  "codec_count e past c = (if is_create c \<and> r_ptr e (past @ [c]) then 1 else 0) - (if is_release c then 1 else 0)"

definition live_codecs :: "renv \<Rightarrow> recorder \<Rightarrow> int" where
  "live_codecs e s = live_count (codec_count e) [] (rtrace s)"

lemma live_codecs_balance: "live_codecs e s = recorder_calls.balance (codec_count e) s"
  by (simp add: live_codecs_def recorder_calls.balance_def)

lemma live_codecs_rcall [recorder_simps]:
  "live_codecs e (rcall c s) = live_codecs e s +
     (if is_create c \<and> r_ptr e (rtrace s @ [c]) then 1 else 0) - (if is_release c then 1 else 0)"
  by (simp add: live_codecs_balance recorder_calls.balance_record codec_count_def)

lemma prepareEncoder_codecs:
  assumes "prepareEncoder e fps s = (err, s')"
  shows "live_codecs e s' = live_codecs e s + (if err = NO_ERROR then 1 else 0)"
  using assms
  by (auto simp: prepareEncoder_def input_surface_def live_codecs_rcall is_create_def is_release_def
      status_defs Let_def split: if_splits)

subsection \<open>Winscope metadata\<close>

definition kWinscopeMagicString :: string where "kWinscopeMagicString = ''#VV1NSC0PET1ME!#''"

definition chars_to_bytes :: "string \<Rightarrow> byte list" where
  "chars_to_bytes cs = map of_char cs"

definition quot :: "int \<Rightarrow> int \<Rightarrow> int" where
  "quot a b = (if 0 \<le> a then a div b else - ((- a) div b))"

definition winscope_buffer :: "int list \<Rightarrow> int \<Rightarrow> byte list" where
  "winscope_buffer timestamps offset =
     chars_to_bytes kWinscopeMagicString @ writeValueLE32 (of_nat (length timestamps)) @
     concat (map (\<lambda>t. writeValueLE64 (word_of_int (t + offset))) timestamps)"

definition writeWinscopeMetadata :: "renv \<Rightarrow> int list \<Rightarrow> int \<Rightarrow> recorder \<Rightarrow> (int \<times> recorder) res" where
  "writeWinscopeMetadata e timestamps metaTrackIdx s =
     (let (elapsed, s1) = rask e (RFile Rf_clock) s;
          (monotonic, s2) = rask e (RFile Rf_clock) s1;
          systemTimeToElapsedTimeOffsetMicros = quot (elapsed - monotonic) 1000;
          buffer = winscope_buffer timestamps systemTimeToElapsedTimeOffsetMicros
      in if timestamps = [] then Undef
         else Ok (rask e (RMuxer (Rm_write metaTrackIdx buffer (hd timestamps) 0)) s2))"

text \<open>A reader of the format described at \<open>writeWinscopeMetadata\<close>: magic, count, then the times.\<close>

definition parse_winscope :: "byte list \<Rightarrow> nat list option" where
  "parse_winscope bs =
     (let n = le_value (take 4 (drop 16 bs))
      in if take 16 bs = chars_to_bytes kWinscopeMagicString \<and> length bs = 20 + 8 * n
         then Some (map (\<lambda>i. le_value (take 8 (drop (20 + 8 * i) bs))) [0..<n]) else None)"

lemma length_magic: "length (chars_to_bytes kWinscopeMagicString) = 16"
  by (simp add: chars_to_bytes_def kWinscopeMagicString_def)

lemma length_winscope: "length (winscope_buffer ts off) = 20 + 8 * length ts"
  by (induction ts) (simp_all add: winscope_buffer_def length_magic le32.width_enc le64.width_enc)

text \<open>C26: The metadata record is readable: from the bytes written a reader gets back, for every recorded
  frame and in order, its time plus the offset (as unsigned 64-bit values), and the buffer is exactly
  as long as the code allocates it.\<close>

theorem winscope_roundtrip:
  assumes "length timestamps < 2 ^ 32"
  shows "parse_winscope (winscope_buffer timestamps offset) =
           Some (map (\<lambda>t. nat ((t + offset) mod 2 ^ 64)) timestamps) \<and>
         length (winscope_buffer timestamps offset) = length timestamps * 8 + 4 + length kWinscopeMagicString"
proof -
  let ?vs = "map (\<lambda>t. word_of_int (t + offset) :: u64) timestamps"
  let ?m = "chars_to_bytes kWinscopeMagicString" and ?c = "writeValueLE32 (of_nat (length timestamps))"
  have b: "winscope_buffer timestamps offset = ?m @ ?c @ concat (map writeValueLE64 ?vs)"
    by (simp add: winscope_buffer_def o_def)
  have n: "le_value ?c = length timestamps"
    using assms by (simp add: le32.value_enc unat_of_nat)
  have v: "le_value (take 8 (drop (20 + 8 * i) (?m @ ?c @ concat (map writeValueLE64 ?vs)))) =
      nat ((timestamps ! i + offset) mod 2 ^ 64)" if "i < length timestamps" for i
  proof -
    have "take 8 (drop (8 * i) (concat (map writeValueLE64 ?vs))) = writeValueLE64 (?vs ! i)"
      using le64.concat_enc_nth [of i ?vs] that by simp
    moreover have "drop (20 + 8 * i) (?m @ ?c @ concat (map writeValueLE64 ?vs)) = drop (8 * i) (concat (map writeValueLE64 ?vs))"
      by (simp add: length_magic le32.width_enc)
    moreover have "unat (word_of_int x :: u64) = nat (x mod 2 ^ 64)" for x
      unfolding unat_eq_nat_uint uint_word_of_int by simp
    ultimately show ?thesis using that by (simp only: le64.value_enc nth_map)
  qed
  have "parse_winscope (winscope_buffer timestamps offset) =
           Some (map (\<lambda>t. nat ((t + offset) mod 2 ^ 64)) timestamps)"
  proof -
    have "take 16 (winscope_buffer timestamps offset) = ?m" by (simp add: b length_magic)
    moreover have "take 4 (drop 16 (winscope_buffer timestamps offset)) = ?c"
      by (simp add: b length_magic le32.width_enc)
    moreover have "map (\<lambda>i. le_value (take 8 (drop (20 + 8 * i) (winscope_buffer timestamps offset)))) [0..<length timestamps] =
        map (\<lambda>t. nat ((t + offset) mod 2 ^ 64)) timestamps"
      unfolding b by (rule nth_equalityI) (simp_all only: length_map length_upt nth_map nth_upt v, simp_all)
    ultimately show ?thesis
      by (simp only: parse_winscope_def Let_def n length_winscope simp_thms if_True)
  qed
  moreover have "length (winscope_buffer timestamps offset) = length timestamps * 8 + 4 + length kWinscopeMagicString"
    by (simp add: length_winscope kWinscopeMagicString_def)
  ultimately show ?thesis by simp
qed

lemma winscope_roundtrip_witness: "parse_winscope (winscope_buffer [5, 9] 1) = Some [6, 10]"
  using winscope_roundtrip [of "[5, 9]" 1] by simp

end
