(* ===== verification/Recorder_Loop.thy ===== *)
theory Recorder_Loop
  imports Recorder_Encoder
begin

section \<open>The encoder loop of the recorder\<close>

text \<open>
  \<open>runEncoder\<close> of \<open>screenrecord.cpp\<close>: the local variables as a record, the cases of the switch as one
  definition each, and the loop with fuel. \<open>muxer\<close> tells whether samples go to the muxer or to the raw
  file. The codec is taken to deliver indices within its buffer array.
\<close>

record encoder_vars =
  trackIdx :: int
  metaTrackIdx :: int
  timestamps :: "int list"
  v_orientation :: rotation

datatype iteration = Loop encoder_vars recorder | Leave encoder_vars recorder | Fail int recorder

definition poll_orientation :: "renv \<Rightarrow> encoder_vars \<Rightarrow> recorder \<Rightarrow> (encoder_vars \<times> recorder) res" where
  "poll_orientation e v s =
     (let (err, s1) = rask e (RDisplay Rd_getState) s;
          displayState = r_state e (rtrace s1)
      in if err \<noteq> NO_ERROR then Ok (v, s1)
         else if v_orientation v \<noteq> orientation displayState then
           res_map (\<lambda>s2. (v\<lparr>v_orientation := orientation displayState\<rparr>, rcall (RDisplay Rd_apply) s2))
             (setDisplayProjection displayState s1)
         else Ok (v, s1))"

definition sample_time :: "renv \<Rightarrow> int \<Rightarrow> recorder \<Rightarrow> int \<times> recorder" where
  "sample_time e ptsUsec s =
     (if ptsUsec = 0 then (let (now, s1) = rask e (RFile Rf_clock) s in (quot now 1000, s1)) else (ptsUsec, s))"

definition write_raw :: "renv \<Rightarrow> nat \<Rightarrow> nat \<Rightarrow> u32 \<Rightarrow> recorder \<Rightarrow> recorder res" where
  "write_raw e bufIndex sz flags s =
     (let s1 = rcall (RCodec (Rc_data bufIndex)) s; bytes = r_bytes e (rtrace s1) in
      if length bytes < sz then Undef
      else let s2 = rcall (RFile (Rf_fwrite (take sz bytes))) s1
           in Ok (if has_flag flags BUFFER_FLAG_CODECCONFIG then s2 else rcall (RFile Rf_fflush) s2))"

definition write_sample ::
  "renv \<Rightarrow> nat \<Rightarrow> int \<Rightarrow> u32 \<Rightarrow> encoder_vars \<Rightarrow> recorder \<Rightarrow> (int \<times> encoder_vars \<times> recorder) res" where
  "write_sample e bufIndex ptsUsec flags v s =
     (if trackIdx v = -1 then Undef
      else let s1 = rcall (RCodec (Rc_data bufIndex)) s;
               (err, s2) = rask e (RMuxer (Rm_write (trackIdx v) (r_bytes e (rtrace s1)) ptsUsec flags)) s1
           in Ok (err,
                  if err = NO_ERROR \<and> gOutputFormat s = FORMAT_MP4
                  then v\<lparr>timestamps := timestamps v @ [ptsUsec]\<rparr> else v, s2))"

text \<open>The case \<open>NO_ERROR\<close>: a buffer. The error of a write leaves the function before the buffer is released.\<close>

definition buffer_data ::
  "renv \<Rightarrow> bool \<Rightarrow> nat \<times> nat \<times> int \<times> u32 \<Rightarrow> encoder_vars \<Rightarrow> recorder \<Rightarrow> (int \<times> encoder_vars \<times> recorder) res" where
  "buffer_data e muxer buf v s =
     (let (bufIndex, sz0, pts0, flags) = buf;
          sz = (if has_flag flags BUFFER_FLAG_CODECCONFIG \<and> muxer then 0 else sz0)
      in if sz = 0 then Ok (NO_ERROR, v, s)
         else res_bind (poll_orientation e v s) (\<lambda>(v1, s1).
              let (ptsUsec, s2) = sample_time e pts0 s1
              in if \<not> muxer then res_map (\<lambda>s3. (NO_ERROR, v1, s3)) (write_raw e bufIndex sz flags s2)
                 else write_sample e bufIndex ptsUsec flags v1 s2))"

definition got_buffer :: "renv \<Rightarrow> bool \<Rightarrow> encoder_vars \<Rightarrow> recorder \<Rightarrow> iteration res" where
  "got_buffer e muxer v s =
     (let buf = r_buffer e (rtrace s); bufIndex = fst buf; flags = snd (snd (snd buf)) in
      res_map (\<lambda>(err, v1, s1).
          if err \<noteq> NO_ERROR then Fail err s1
          else let (err, s2) = rask e (RCodec (Rc_releaseOutput bufIndex)) s1
               in if err \<noteq> NO_ERROR then Fail err s2
                  else if has_flag flags BUFFER_FLAG_EOS then Loop v1 (s2\<lparr>gStopRequested := True\<rparr>)
                  else Loop v1 s2)
        (buffer_data e muxer buf v s))"

definition format_changed :: "renv \<Rightarrow> bool \<Rightarrow> encoder_vars \<Rightarrow> recorder \<Rightarrow> iteration" where
  "format_changed e muxer v s =
     (let s1 = rcall (RMuxer Rm_formatFromMsg) (rcall (RCodec Rc_getOutputFormat) s) in
      if \<not> muxer then Loop v s1 else
      let (track, s2) = rask e (RMuxer Rm_addTrack) s1;
          v1 = v\<lparr>trackIdx := track\<rparr>;
          (v2, s3) = (if gOutputFormat s = FORMAT_MP4 then
              let s4 = rcall (RMuxer (Rm_formatSet ''mime'' ''application/octet-stream'')) (rcall (RMuxer Rm_formatNew) s2);
                  (meta, s5) = rask e (RMuxer Rm_addTrack) s4
              in (v1\<lparr>metaTrackIdx := meta\<rparr>, rcall (RMuxer Rm_formatDelete) s5)
            else (v1, s2));
          (err, s6) = rask e (RMuxer Rm_start) s3
      in if err \<noteq> NO_ERROR then Fail err s6 else Loop v2 s6)"

definition buffers_changed :: "renv \<Rightarrow> encoder_vars \<Rightarrow> recorder \<Rightarrow> iteration" where
  "buffers_changed e v s =
     (let (err, s1) = rask e (RCodec Rc_getOutputBuffers) s
      in if err \<noteq> NO_ERROR then Fail err s1 else Loop v s1)"

definition encoder_iteration :: "renv \<Rightarrow> bool \<Rightarrow> int \<Rightarrow> encoder_vars \<Rightarrow> recorder \<Rightarrow> iteration res" where
  "encoder_iteration e muxer endWhenNsec v s =
     (if stop_requested e s then Ok (Leave v s) else
      let (now, s1) = rask e (RFile Rf_clock) s in
      if now > endWhenNsec then Ok (Leave v s1) else
      let (err, s2) = rask e (RCodec (Rc_dequeueOutput 250000)) s1 in
      if err = NO_ERROR then got_buffer e muxer v s2
      else if err = - EAGAIN then Ok (Loop v s2)
      else if err = INFO_FORMAT_CHANGED then Ok (format_changed e muxer v s2)
      else if err = INFO_OUTPUT_BUFFERS_CHANGED then Ok (buffers_changed e v s2)
      else Ok (Fail err s2))"

fun encoder_loop :: "nat \<Rightarrow> renv \<Rightarrow> bool \<Rightarrow> int \<Rightarrow> encoder_vars \<Rightarrow> recorder \<Rightarrow> iteration res" where
  "encoder_loop 0 e muxer endWhenNsec v s = NoFuel"
| "encoder_loop (Suc fuel) e muxer endWhenNsec v s =
     res_bind (encoder_iteration e muxer endWhenNsec v s) (\<lambda>r. case r of
         Loop v1 s1 \<Rightarrow> encoder_loop fuel e muxer endWhenNsec v1 s1
       | _ \<Rightarrow> Ok r)"

definition finish_encoder :: "renv \<Rightarrow> iteration \<Rightarrow> (int \<times> recorder) res" where
  "finish_encoder e r =
     (case r of
        Fail err s \<Rightarrow> Ok (err, s)
      | Loop v s \<Rightarrow> Undef
      | Leave v s \<Rightarrow>
          if metaTrackIdx v \<ge> 0 \<and> timestamps v \<noteq> []
          then res_map (\<lambda>(err, s1). (if err \<noteq> NO_ERROR then err else NO_ERROR, s1))
                 (writeWinscopeMetadata e (timestamps v) (metaTrackIdx v) s)
          else Ok (NO_ERROR, s))"

definition vars0 :: "rotation \<Rightarrow> encoder_vars" where
  "vars0 rot = \<lparr>trackIdx = -1, metaTrackIdx = -1, timestamps = [], v_orientation = rot\<rparr>"

definition runEncoder :: "nat \<Rightarrow> renv \<Rightarrow> bool \<Rightarrow> rotation \<Rightarrow> recorder \<Rightarrow> (int \<times> recorder) res" where
  "runEncoder fuel e muxer rot s =
     (let (startWhenNsec, s1) = rask e (RFile Rf_clock) s;
          endWhenNsec = startWhenNsec + int (unat (gTimeLimitSec s1)) * 1000000000;
          (err, s2) = rask e (RCodec Rc_getOutputBuffers) s1
      in if err \<noteq> NO_ERROR then Ok (err, s2)
         else res_bind (encoder_loop fuel e muxer endWhenNsec (vars0 rot) s2) (finish_encoder e))"

lemmas encoder_defs = encoder_iteration_def got_buffer_def buffer_data_def poll_orientation_def sample_time_def
  write_raw_def write_sample_def format_changed_def buffers_changed_def

lemma encoder_loop_never_Loop: "encoder_loop fuel e muxer endWhen v s \<noteq> Ok (Loop v' s')"
proof (induction fuel arbitrary: v s)
  case (Suc fuel)
  show ?case
  proof
    assume "encoder_loop (Suc fuel) e muxer endWhen v s = Ok (Loop v' s')"
    then obtain r where "encoder_iteration e muxer endWhen v s = Ok r"
      and "(case r of Loop v1 s1 \<Rightarrow> encoder_loop fuel e muxer endWhen v1 s1 | _ \<Rightarrow> Ok r) = Ok (Loop v' s')"
      by (auto simp: res_bind_Ok_iff)
    then show False using Suc.IH by (cases r) auto
  qed
qed simp

text \<open>An invariant of the iterations holds when the loop is left.\<close>

lemma encoder_loop_induct:
  assumes "encoder_loop fuel e muxer endWhen v s = Ok r" "I v s"
    and "\<And>v s v' s'. I v s \<Longrightarrow> encoder_iteration e muxer endWhen v s = Ok (Loop v' s') \<Longrightarrow> I v' s'"
  shows "\<exists>v' s'. I v' s' \<and> encoder_iteration e muxer endWhen v' s' = Ok r"
  using assms(1,2)
proof (induction fuel arbitrary: v s)
  case (Suc fuel)
  from Suc.prems(1) obtain q where q: "encoder_iteration e muxer endWhen v s = Ok q"
    and c: "(case q of Loop v1 s1 \<Rightarrow> encoder_loop fuel e muxer endWhen v1 s1 | _ \<Rightarrow> Ok q) = Ok r"
    by (auto simp: res_bind_Ok_iff)
  show ?case
  proof (cases q)
    case (Loop v1 s1)
    then show ?thesis using Suc.IH [of v1 s1] c assms(3) [OF Suc.prems(2)] q by auto
  qed (use q c Suc.prems(2) in auto)
qed simp

lemma iteration_cases:
  fixes s :: recorder
  defines "s1 \<equiv> rcall (RFile Rf_clock) s"
  defines "s2 \<equiv> rcall (RCodec (Rc_dequeueOutput 250000)) s1"
  assumes "encoder_iteration e muxer endWhen v s = Ok r"
  obtains (left) s' where "r = Leave v s'" "s' = s \<or> s' = s1"
  | (got) "r_ans e (rtrace s2) = NO_ERROR" "got_buffer e muxer v s2 = Ok r"
  | (again) "r_ans e (rtrace s2) \<noteq> NO_ERROR" "r = Loop v s2"
  | (changed) "r_ans e (rtrace s2) \<noteq> NO_ERROR" "r = format_changed e muxer v s2"
  | (buffers) "r_ans e (rtrace s2) \<noteq> NO_ERROR" "r = buffers_changed e v s2"
  | (failed) err where "r_ans e (rtrace s2) \<noteq> NO_ERROR" "err \<noteq> NO_ERROR" "r = Fail err s2"
proof (cases "stop_requested e s")
  case True
  then show ?thesis using assms(3) left [of s] by (simp add: encoder_iteration_def)
next
  case nostop: False
  show ?thesis
  proof (cases "r_ans e (rtrace s1) > endWhen")
    case True
    then show ?thesis using assms(3) nostop left [of s1] by (simp add: encoder_iteration_def s1_def)
  next
    case False
    let ?err = "r_ans e (rtrace s2)"
    have r: "(if ?err = NO_ERROR then got_buffer e muxer v s2
      else if ?err = - EAGAIN then Ok (Loop v s2)
      else if ?err = INFO_FORMAT_CHANGED then Ok (format_changed e muxer v s2)
      else if ?err = INFO_OUTPUT_BUFFERS_CHANGED then Ok (buffers_changed e v s2)
      else Ok (Fail ?err s2)) = Ok r"
    proof -
      have "rask e (RFile Rf_clock) s = (r_ans e (rtrace s1), s1)"
        "rask e (RCodec (Rc_dequeueOutput 250000)) s1 = (r_ans e (rtrace s2), s2)"
        by (simp_all add: s1_def s2_def)
      then show ?thesis
        using assms(3) nostop False unfolding encoder_iteration_def by (simp only: Let_def prod.case if_False)
    qed
    show ?thesis
    proof (cases "?err = NO_ERROR")
      case True
      then show ?thesis using r got by simp
    next
      case err: False
      then consider "r = Loop v s2" | "r = format_changed e muxer v s2" | "r = buffers_changed e v s2" | "r = Fail ?err s2"
        using r by (metis res.inject)
      then show ?thesis using err again changed buffers failed by cases
    qed
  qed
qed

subsection \<open>Which calls a step adds to the trace\<close>

text \<open>From \<open>s\<close> to \<open>s'\<close> only calls that satisfy \<open>P\<close> were added, and the settings stayed.\<close>

definition adds :: "(rcall \<Rightarrow> bool) \<Rightarrow> recorder \<Rightarrow> recorder \<Rightarrow> bool" where
  "adds P s s' = ((\<exists>cs. rtrace s' = rtrace s @ cs \<and> list_all P cs) \<and> options.truncate s' = options.truncate s)"

named_theorems adds_intros "steps and the calls they add"

lemma adds_added: "adds P s s' \<longleftrightarrow> recorder_calls.added P s s' \<and> options.truncate s' = options.truncate s"
  by (simp add: adds_def recorder_calls.added_def)

lemma options_kept [simp]:
  fixes s :: recorder
  shows "options.truncate (rcall c s) = options.truncate s"
    and "options.truncate (s\<lparr>gStopRequested := b\<rparr>) = options.truncate s"
  by (simp_all add: options.truncate_def rcall_def)

lemma options_truncate:
  fixes s s' :: recorder
  assumes "options.truncate s' = options.truncate s"
  shows "gOutputFormat s' = gOutputFormat s" "gWantFrameTime s' = gWantFrameTime s" "gVerbose s' = gVerbose s"
  using assms by (simp_all add: options.truncate_def)

lemma adds_refl [adds_intros]: "adds P s s"
  unfolding adds_added by (simp add: recorder_calls.added_refl)

lemma adds_trans [trans]: "adds P s s' \<Longrightarrow> adds P s' s'' \<Longrightarrow> adds P s s''"
  unfolding adds_added using recorder_calls.added_trans by metis

lemma adds_rcall [adds_intros]: "P c \<Longrightarrow> adds P s' s \<Longrightarrow> adds P s' (rcall c s)"
  unfolding adds_added by (simp add: recorder_calls.added_record)

lemma adds_stop [adds_intros]: "adds P s s' \<Longrightarrow> adds P s (s'\<lparr>gStopRequested := b\<rparr>)"
  unfolding adds_added by (auto elim: recorder_calls.added_same_calls)

lemma adds_after: "adds P (rcall c s) s' \<Longrightarrow> P c \<Longrightarrow> adds P s s'"
  unfolding adds_added by (simp add: recorder_calls.added_after [of P c s s'])

lemma adds_mono: "adds P s s' \<Longrightarrow> (\<And>c. P c \<Longrightarrow> Q c) \<Longrightarrow> adds Q s s'"
  unfolding adds_added using recorder_calls.added_mono by metis

lemmas adds_options = options_truncate [OF conjunct2 [OF adds_added [THEN iffD1]]]

definition is_start :: "rcall \<Rightarrow> bool" where "is_start c = (c = RMuxer Rm_start)"

definition is_sample :: "rcall \<Rightarrow> bool" where
  "is_sample c = (case c of RMuxer (Rm_write _ _ _ _) \<Rightarrow> True | _ \<Rightarrow> False)"

definition is_dequeue :: "rcall \<Rightarrow> bool" where
  "is_dequeue c = (case c of RCodec (Rc_dequeueOutput _) \<Rightarrow> True | _ \<Rightarrow> False)"

definition released_index :: "rcall \<Rightarrow> nat list" where
  "released_index c = (case c of RCodec (Rc_releaseOutput i) \<Rightarrow> [i] | _ \<Rightarrow> [])"

definition raw_write :: "rcall \<Rightarrow> byte list list" where
  "raw_write c = (case c of RFile (Rf_fwrite bs) \<Rightarrow> [bs] | _ \<Rightarrow> [])"

lemmas call_kinds = is_start_def is_sample_def is_dequeue_def released_index_def raw_write_def is_create_def is_release_def

text \<open>The calls that begin or end a virtual display or an overlay.\<close>

definition is_session :: "rcall \<Rightarrow> bool" where
  "is_session c =
     (case c of RDisplay d \<Rightarrow> d = Rd_create \<or> d = Rd_destroy
      | RScreen x \<Rightarrow> (case x of Ro_overlayStart m \<Rightarrow> True | Ro_overlayStop \<Rightarrow> True | _ \<Rightarrow> False)
      | _ \<Rightarrow> False)"

lemma is_session_simps [simp]:
  "\<not> is_session (RFile f)" "\<not> is_session (RMuxer m)" "\<not> is_session (RCodec c)"
  "is_session (RDisplay d) \<longleftrightarrow> d = Rd_create \<or> d = Rd_destroy" "is_session (RScreen (Ro_overlayStart b))"
  "is_session (RScreen Ro_overlayStop)" "\<not> is_session (RScreen (Ro_createInputSurface w h))"
  "\<not> is_session (RScreen Ro_prepareToCopy)" "\<not> is_session (RScreen (Ro_copyFrame r))" "\<not> is_session (RScreen Ro_drawInfoPage)"
  by (simp_all add: is_session_def)

text \<open>Calls that neither take nor give back a buffer, a codec, a display or an overlay.\<close>

definition quiet :: "rcall \<Rightarrow> bool" where
  "quiet c = (\<not> is_create c \<and> \<not> is_release c \<and> \<not> is_session c \<and> \<not> is_dequeue c \<and> released_index c = [])"

lemma quiet_simps [simp]:
  "d \<noteq> Rd_create \<Longrightarrow> d \<noteq> Rd_destroy \<Longrightarrow> quiet (RDisplay d)" "quiet (RFile f)" "quiet (RCodec (Rc_data i))"
  "quiet (RMuxer m)" "quiet (RCodec Rc_getOutputBuffers)" "quiet (RCodec Rc_getOutputFormat)"
  "\<not> quiet (RCodec (Rc_dequeueOutput n))" "\<not> quiet (RCodec (Rc_releaseOutput i))"
  by (auto simp: quiet_def call_kinds)

text \<open>Buffers the codec delivered, in order, and those given back.\<close>

fun deliveries :: "renv \<Rightarrow> rcall list \<Rightarrow> rcall list \<Rightarrow> (nat \<times> nat \<times> int \<times> u32) list" where
  "deliveries e past [] = []"
| "deliveries e past (c # cs) =
     (if is_dequeue c \<and> r_ans e (past @ [c]) = NO_ERROR then [r_buffer e (past @ [c])] else []) @
     deliveries e (past @ [c]) cs"

definition delivered :: "renv \<Rightarrow> recorder \<Rightarrow> (nat \<times> nat \<times> int \<times> u32) list" where
  "delivered e s = deliveries e [] (rtrace s)"

definition released :: "recorder \<Rightarrow> nat list" where
  "released s = concat (map released_index (rtrace s))"

definition raw_writes :: "recorder \<Rightarrow> byte list list" where
  "raw_writes s = concat (map raw_write (rtrace s))"

lemma deliveries_append: "deliveries e past (xs @ ys) = deliveries e past xs @ deliveries e (past @ xs) ys"
  by (induction xs arbitrary: past) auto

lemma delivered_rcall [recorder_simps]:
  "delivered e (rcall c s) =
     delivered e s @ (if is_dequeue c \<and> r_ans e (rtrace s @ [c]) = NO_ERROR then [r_buffer e (rtrace s @ [c])] else [])"
  by (simp add: delivered_def deliveries_append)

lemma released_rcall [recorder_simps]: "released (rcall c s) = released s @ released_index c"
  by (simp add: released_def)

lemma raw_writes_rcall [recorder_simps]: "raw_writes (rcall c s) = raw_writes s @ raw_write c"
  by (simp add: raw_writes_def)

lemma buffers_stop [simp]:
  "delivered e (s\<lparr>gStopRequested := b\<rparr>) = delivered e s" "released (s\<lparr>gStopRequested := b\<rparr>) = released s"
  "live_codecs e (s\<lparr>gStopRequested := b\<rparr>) = live_codecs e s"
  by (simp_all add: delivered_def released_def live_codecs_def)

lemma deliveries_quiet: "list_all quiet cs \<Longrightarrow> deliveries e past cs = []"
  by (induction cs arbitrary: past) (auto simp: quiet_def)

lemma codec_count_quiet: "quiet c \<Longrightarrow> codec_count e past c = 0"
  by (auto simp: quiet_def codec_count_def)

lemma adds_quiet:
  assumes "adds quiet s s'"
  shows "delivered e s' = delivered e s" "released s' = released s" "live_codecs e s' = live_codecs e s"
proof -
  obtain cs where c: "rtrace s' = rtrace s @ cs" "list_all quiet cs" using assms by (auto simp: adds_def)
  have "concat (map released_index cs) = []" using c(2) by (auto simp: list_all_iff quiet_def)
  then show "delivered e s' = delivered e s" "released s' = released s" "live_codecs e s' = live_codecs e s"
    using c recorder_calls.balance_added [OF conjunct1 [OF assms [unfolded adds_added]], of "codec_count e"] codec_count_quiet
    by (simp_all add: delivered_def released_def live_codecs_balance deliveries_append deliveries_quiet)
qed

lemma setDisplayProjection_adds:
  "setDisplayProjection ds s = Ok s' \<Longrightarrow> (\<And>k a b. P (RDisplay (Rd_setProjection k a b))) \<Longrightarrow> adds P s s'"
  by (auto simp: setDisplayProjection_def Let_def res_map_Ok_iff intro!: adds_intros split: prod.splits)

lemma poll_orientation_adds:
  assumes "poll_orientation e v s = Ok (v', s')" "\<And>d. d \<noteq> Rd_create \<Longrightarrow> d \<noteq> Rd_destroy \<Longrightarrow> P (RDisplay d)"
  shows "adds P s s' \<and> trackIdx v' = trackIdx v \<and> metaTrackIdx v' = metaTrackIdx v \<and> timestamps v' = timestamps v"
  using assms
  by (auto simp: poll_orientation_def Let_def res_map_Ok_iff intro!: adds_intros
      split: if_splits dest!: setDisplayProjection_adds [of _ _ _ P])
     (auto intro: adds_after)

lemma sample_time_adds:
  "sample_time e t s = (t', s') \<Longrightarrow> (\<And>f. P (RFile f)) \<Longrightarrow> adds P s s'"
  by (auto simp: sample_time_def Let_def intro!: adds_intros split: if_splits)

lemma write_raw_adds:
  "write_raw e i sz flags s = Ok s' \<Longrightarrow> P (RCodec (Rc_data i)) \<Longrightarrow> (\<And>f. P (RFile f)) \<Longrightarrow> adds P s s'"
  by (auto simp: write_raw_def Let_def intro!: adds_intros split: if_splits)

lemma write_sample_adds:
  assumes "write_sample e i t flags v s = Ok (err, v', s')"
    and "P (RCodec (Rc_data i))" "trackIdx v \<noteq> -1 \<Longrightarrow> (\<And>bs. P (RMuxer (Rm_write (trackIdx v) bs t flags)))"
  shows "adds P s s' \<and> trackIdx v' = trackIdx v \<and> metaTrackIdx v' = metaTrackIdx v"
  using assms by (auto simp: write_sample_def Let_def intro!: adds_intros split: if_splits)

text \<open>What the data of one buffer does: neither buffer nor codec changes hands, a sample goes to the muxer
  only on an open track, and the raw file gets the bytes of the buffer.\<close>

definition data_call :: "encoder_vars \<Rightarrow> rcall \<Rightarrow> bool" where
  "data_call v c = (quiet c \<and> (is_sample c \<longrightarrow> trackIdx v \<noteq> -1))"

lemma data_call_simps [simp]:
  "d \<noteq> Rd_create \<Longrightarrow> d \<noteq> Rd_destroy \<Longrightarrow> data_call v (RDisplay d)" "data_call v (RFile f)" "data_call v (RCodec (Rc_data i))"
  "trackIdx v \<noteq> -1 \<Longrightarrow> data_call v (RMuxer (Rm_write t bs p flags))"
  by (simp_all add: data_call_def is_sample_def)

lemma buffer_data_adds:
  assumes "buffer_data e muxer buf v s = Ok (err, v', s')"
  shows "adds (data_call v) s s' \<and> trackIdx v' = trackIdx v \<and> metaTrackIdx v' = metaTrackIdx v"
proof -
  obtain i n t f where buf: "buf = (i, n, t, f)" by (cases buf) auto
  let ?sz = "if has_flag f BUFFER_FLAG_CODECCONFIG \<and> muxer then 0 else n"
  show ?thesis
  proof (cases "?sz = 0")
    case True
    then show ?thesis using assms unfolding buffer_data_def buf prod.case Let_def
      by (simp only: if_True) (simp add: adds_refl)
  next
    case False
    obtain v1 s1 where p: "poll_orientation e v s = Ok (v1, s1)"
      and r: "(let (ptsUsec, s2) = sample_time e t s1
              in if \<not> muxer then res_map (\<lambda>s3. (NO_ERROR, v1, s3)) (write_raw e i ?sz f s2)
                 else write_sample e i ptsUsec f v1 s2) = Ok (err, v', s')"
      using assms False unfolding buffer_data_def buf prod.case Let_def
      by (simp only: if_False res_bind_Ok_iff) auto
    obtain t2 s2 where st: "sample_time e t s1 = (t2, s2)" by (cases "sample_time e t s1")
    have v1: "trackIdx v1 = trackIdx v" "metaTrackIdx v1 = metaTrackIdx v" and a: "adds (data_call v) s s1"
      using poll_orientation_adds [OF p, of "data_call v"] by simp_all
    have b: "adds (data_call v) s1 s2" by (rule sample_time_adds [OF st]) simp
    show ?thesis
    proof (cases muxer)
      case True
      then have "write_sample e i t2 f v1 s2 = Ok (err, v', s')" using r st by (simp add: Let_def)
      from write_sample_adds [OF this, of "data_call v"] v1 show ?thesis
        using adds_trans [OF a adds_trans [OF b]] by simp
    next
      case False
      then have "write_raw e i ?sz f s2 = Ok s'" "v' = v1" using r st by (auto simp: Let_def res_map_Ok_iff)
      from write_raw_adds [OF this(1), of "data_call v"] this(2) v1 show ?thesis
        using adds_trans [OF a adds_trans [OF b]] by simp
    qed
  qed
qed

subsection \<open>Invariants of the loop\<close>

text \<open>Every delivered buffer has been given back.\<close>

definition balanced_buffers :: "renv \<Rightarrow> recorder \<Rightarrow> bool" where
  "balanced_buffers e s = (released s = map fst (delivered e s))"

lemma balanced_rcall:
  "balanced_buffers e s \<Longrightarrow> released_index c = [] \<Longrightarrow> \<not> (is_dequeue c \<and> r_ans e (rtrace s @ [c]) = NO_ERROR) \<Longrightarrow>
   balanced_buffers e (rcall c s)"
  by (auto simp: balanced_buffers_def recorder_simps)

lemma balanced_quiet: "balanced_buffers e s \<Longrightarrow> adds quiet s s' \<Longrightarrow> balanced_buffers e s'"
  by (simp add: balanced_buffers_def adds_quiet)

lemma balanced_stop [simp]: "balanced_buffers e (s\<lparr>gStopRequested := b\<rparr>) = balanced_buffers e s"
  by (simp add: balanced_buffers_def)

lemma adds_data_quiet: "adds (data_call v) s s' \<Longrightarrow> adds quiet s s'"
  by (erule adds_mono) (simp add: data_call_def)

lemma format_changed_adds:
  "format_changed e muxer v s = Loop v' s' \<or> format_changed e muxer v s = Fail err s' \<Longrightarrow> adds quiet s s'"
  by (auto simp: format_changed_def Let_def intro!: adds_intros split: if_splits)

lemma format_changed_result: "format_changed e muxer v s \<noteq> Leave v' s' \<and> format_changed e muxer v s \<noteq> Fail NO_ERROR s'"
  by (auto simp: format_changed_def Let_def split: if_splits)

lemma buffers_changed_adds:
  "buffers_changed e v s = Loop v' s' \<or> buffers_changed e v s = Fail err s' \<Longrightarrow> adds quiet s s'"
  by (auto simp: buffers_changed_def Let_def intro!: adds_intros split: if_splits)

lemma buffers_changed_result: "buffers_changed e v s \<noteq> Leave v' s' \<and> buffers_changed e v s \<noteq> Fail NO_ERROR s'"
  by (auto simp: buffers_changed_def Let_def split: if_splits)

lemma got_buffer_balanced:
  assumes "got_buffer e muxer v s = Ok r"
    and "delivered e s = ds @ [r_buffer e (rtrace s)]" "released s = map fst ds"
  shows "(\<exists>v' s'. r = Loop v' s' \<and> balanced_buffers e s') \<or> (\<exists>err s'. r = Fail err s' \<and> err \<noteq> NO_ERROR)"
proof -
  let ?buf = "r_buffer e (rtrace s)"
  obtain err v1 s1 where b: "buffer_data e muxer ?buf v s = Ok (err, v1, s1)"
    using assms(1) by (auto simp: got_buffer_def Let_def res_map_Ok_iff)
  have q: "delivered e s1 = delivered e s" "released s1 = released s"
    using buffer_data_adds [OF b] adds_quiet adds_data_quiet by blast+
  show ?thesis
    using assms b q
    by (auto simp: got_buffer_def Let_def res_map_Ok_iff balanced_buffers_def recorder_simps call_kinds split: if_splits)
qed

lemma iteration_balanced:
  assumes "encoder_iteration e muxer endWhen v s = Ok r" "balanced_buffers e s"
  shows "case r of Loop v' s' \<Rightarrow> balanced_buffers e s' | Leave v' s' \<Rightarrow> balanced_buffers e s' | Fail err s' \<Rightarrow> err \<noteq> NO_ERROR"
proof -
  let ?s1 = "rcall (RFile Rf_clock) s" and ?d = "RCodec (Rc_dequeueOutput 250000)"
  let ?s2 = "rcall ?d ?s1"
  have b1: "balanced_buffers e ?s1" using assms(2) by (rule balanced_quiet) (intro adds_intros, simp)
  have b2: "balanced_buffers e ?s2" if "r_ans e (rtrace ?s2) \<noteq> NO_ERROR"
    by (rule balanced_rcall [OF b1]) (use that in \<open>simp_all add: released_index_def\<close>)
  from assms(1) show ?thesis
  proof (cases rule: iteration_cases)
    case (left s')
    then show ?thesis using assms(2) b1 by auto
  next
    case got
    have "delivered e ?s2 = delivered e ?s1 @ [r_buffer e (rtrace ?s2)]"
      using got(1) by (simp add: recorder_simps is_dequeue_def)
    moreover have "released ?s2 = map fst (delivered e ?s1)"
      using b1 by (simp add: recorder_simps released_index_def balanced_buffers_def)
    ultimately show ?thesis using got_buffer_balanced [OF got(2)] by fastforce
  next
    case again
    then show ?thesis using b2 by simp
  next
    case changed
    show ?thesis
    proof (cases r)
      case (Loop v' s')
      then have "adds quiet ?s2 s'" using changed format_changed_adds by metis
      then show ?thesis using balanced_quiet [OF b2] changed(1) Loop by simp
    qed (use changed format_changed_result [of e muxer v ?s2] in auto)
  next
    case buffers
    show ?thesis
    proof (cases r)
      case (Loop v' s')
      then have "adds quiet ?s2 s'" using buffers buffers_changed_adds by metis
      then show ?thesis using balanced_quiet [OF b2] buffers(1) Loop by simp
    qed (use buffers buffers_changed_result [of e v ?s2] in auto)
  qed simp
qed

lemma finish_encoder_quiet:
  "finish_encoder e (Leave v s) = Ok (err, s') \<Longrightarrow> adds quiet s s'"
  by (auto simp: finish_encoder_def writeWinscopeMetadata_def Let_def res_map_Ok_iff intro!: adds_intros split: if_splits)

text \<open>C14: When \<open>runEncoder\<close> reports success, every output buffer the codec delivered has been returned to
  it, once, and in the order of delivery.\<close>

theorem runEncoder_returns_buffers:
  assumes "runEncoder fuel e muxer rot s = Ok (NO_ERROR, s')" "balanced_buffers e s"
  shows "balanced_buffers e s'"
proof -
  let ?s1 = "rcall (RFile Rf_clock) s" let ?s2 = "rcall (RCodec Rc_getOutputBuffers) ?s1"
  let ?stop = "r_ans e (rtrace ?s1) + int (unat (gTimeLimitSec s)) * 1000000000"
  have b: "balanced_buffers e ?s2" using assms(2) by (rule balanced_quiet) (intro adds_intros, simp_all)
  obtain r where l: "encoder_loop fuel e muxer ?stop (vars0 rot) ?s2 = Ok r"
    and f: "finish_encoder e r = Ok (NO_ERROR, s')"
    using assms(1) by (auto simp: runEncoder_def Let_def res_bind_Ok_iff split: if_splits)
  have "\<exists>v1 s1. balanced_buffers e s1 \<and> encoder_iteration e muxer ?stop v1 s1 = Ok r"
    by (rule encoder_loop_induct [OF l, where I = "\<lambda>v s. balanced_buffers e s"])
       (use b iteration_balanced in fastforce)+
  then obtain v1 s1 where "balanced_buffers e s1" "encoder_iteration e muxer ?stop v1 s1 = Ok r" by blast
  from iteration_balanced [OF this(2,1)] show ?thesis
  proof (cases r)
    case (Leave v2 s2)
    then show ?thesis using \<open>case r of Loop v' s' \<Rightarrow> _ v' s' | Leave v' s' \<Rightarrow> _ v' s' | Fail err s' \<Rightarrow> _ err s'\<close>
        f balanced_quiet finish_encoder_quiet by auto
  next
    case (Fail err s2)
    then show ?thesis using f \<open>case r of Loop v' s' \<Rightarrow> _ v' s' | Leave v' s' \<Rightarrow> _ v' s' | Fail err s' \<Rightarrow> _ err s'\<close>
      by (auto simp: finish_encoder_def)
  qed (use l encoder_loop_never_Loop in blast)
qed

definition recorder0 :: recorder where
  "recorder0 = options.extend (options0 1) \<lparr>gStopRequested = False, rtrace = []\<rparr>"

text \<open>An environment in which every call succeeds, the display does not turn, and the codec delivers the
  same buffer again and again, marked as the last one.\<close>

definition eos_env :: renv where
  "eos_env = \<lparr>r_ans = \<lambda>_. 0, r_ptr = \<lambda>_. True, r_bytes = \<lambda>_. [7, 8, 9],
     r_state = \<lambda>_. Display_state 0 ROTATION_0 (Size 720 720), r_rate = \<lambda>_. 60,
     r_buffer = \<lambda>_. (3, 2, 5, 4), r_stop = \<lambda>_. False\<rparr>"

lemma recorder0_simps [simp]:
  "rtrace recorder0 = []" "gStopRequested recorder0 = False" "gTimeLimitSec recorder0 = 180"
  "gOutputFormat recorder0 = FORMAT_MP4" "gRotate recorder0 = False" "gVerbose recorder0 = False"
  "gCodecName recorder0 = []" "gSizeSpecified recorder0 = False" "gPersistentSurface recorder0 = False"
  "gWantInfoScreen recorder0 = False" "gWantFrameTime recorder0 = False" "gBframes recorder0 = 0"
  "gVideoWidth recorder0 = 0" "gVideoHeight recorder0 = 0" "gMonotonicTime recorder0 = False"
  by (simp_all add: recorder0_def options0_def options.defs kMaxTimeLimitSec_def)

lemma eos_env_simps [simp]:
  "r_ans eos_env tr = 0" "r_ptr eos_env tr = True" "r_bytes eos_env tr = [7, 8, 9]"
  "r_buffer eos_env tr = (3, 2, 5, 4)" "r_stop eos_env tr = False"
  "r_state eos_env tr = Display_state 0 ROTATION_0 (Size 720 720)" "r_rate eos_env tr = 60"
  by (simp_all add: eos_env_def)

lemma runEncoder_eos:
  "\<exists>s'. runEncoder 3 eos_env False ROTATION_0 recorder0 = Ok (NO_ERROR, s') \<and> length (rtrace s') = 9"
  by (simp add: runEncoder_def encoder_defs stop_requested_def numeral_3_eq_3 vars0_def has_flag_def
      BUFFER_FLAG_CODECCONFIG_def BUFFER_FLAG_EOS_def finish_encoder_def NO_ERROR_def Let_def)

lemma runEncoder_returns_buffers_witness:
  "\<exists>s'. runEncoder 3 eos_env False ROTATION_0 recorder0 = Ok (NO_ERROR, s') \<and> released s' = map fst (delivered eos_env s')"
proof -
  obtain s' where s': "runEncoder 3 eos_env False ROTATION_0 recorder0 = Ok (NO_ERROR, s')"
    using runEncoder_eos by blast
  have "balanced_buffers eos_env recorder0"
    by (simp add: balanced_buffers_def released_def delivered_def)
  from runEncoder_returns_buffers [OF s' this] s' show ?thesis by (auto simp: balanced_buffers_def)
qed

subsection \<open>The muxer is started before the first sample\<close>

fun mux_ok :: "bool \<Rightarrow> rcall list \<Rightarrow> bool" where
  "mux_ok running [] = True"
| "mux_ok running (c # cs) = ((is_sample c \<longrightarrow> running) \<and> mux_ok (running \<or> is_start c) cs)"

definition started :: "recorder \<Rightarrow> bool" where
  "started s = list_ex is_start (rtrace s)"

definition mux_inv :: "encoder_vars \<Rightarrow> recorder \<Rightarrow> bool" where
  "mux_inv v s = (mux_ok False (rtrace s) \<and> (trackIdx v \<noteq> -1 \<or> metaTrackIdx v \<ge> 0 \<longrightarrow> started s))"

fun it_state :: "iteration \<Rightarrow> recorder" where
  "it_state (Loop v s) = s"
| "it_state (Leave v s) = s"
| "it_state (Fail err s) = s"

lemma mux_ok_append: "mux_ok b (xs @ ys) \<longleftrightarrow> mux_ok b xs \<and> mux_ok (b \<or> list_ex is_start xs) ys"
  by (induction xs arbitrary: b) (auto simp: disj_assoc)

lemma mux_ok_samples: "list_all (\<lambda>c. is_sample c \<longrightarrow> b) cs \<Longrightarrow> mux_ok b cs"
proof (induction cs arbitrary: b)
  case (Cons c cs)
  from Cons.prems have "list_all (\<lambda>c'. is_sample c' \<longrightarrow> b \<or> is_start c) cs" by (auto simp: list_all_iff)
  with Cons show ?case by simp
qed simp

lemma mux_adds:
  assumes "mux_ok False (rtrace s)" "adds (\<lambda>c. is_sample c \<longrightarrow> started s) s s'"
  shows "mux_ok False (rtrace s') \<and> (started s \<longrightarrow> started s')"
  using assms by (auto simp: adds_def mux_ok_append mux_ok_samples started_def)

lemma mux_inv_adds:
  assumes "mux_inv v s" "adds (\<lambda>c. is_sample c \<longrightarrow> trackIdx v \<noteq> -1) s s'"
    "trackIdx v' = trackIdx v" "metaTrackIdx v' = metaTrackIdx v"
  shows "mux_inv v' s'"
proof -
  have "adds (\<lambda>c. is_sample c \<longrightarrow> started s) s s'"
    by (rule adds_mono [OF assms(2)]) (use assms(1) in \<open>auto simp: mux_inv_def\<close>)
  from mux_adds [OF _ this] show ?thesis using assms(1,3,4) by (auto simp: mux_inv_def)
qed

lemma is_sample_simps [simp]:
  "is_sample (RMuxer (Rm_write t bs p f))" "\<not> is_sample (RCodec cc)" "\<not> is_sample (RDisplay d)" "\<not> is_sample (RFile f')"
  "\<not> is_sample (RScreen x)"
  by (simp_all add: is_sample_def)

lemma started_rcall [recorder_simps]: "started (rcall c s) \<longleftrightarrow> started s \<or> is_start c"
  by (auto simp: started_def)

lemma adds_data_sample: "adds (data_call v) s s' \<Longrightarrow> adds (\<lambda>c. is_sample c \<longrightarrow> trackIdx v \<noteq> -1) s s'"
  by (erule adds_mono) (simp add: data_call_def)

lemma got_buffer_mux:
  assumes "got_buffer e muxer v s = Ok r" "mux_inv v s"
  shows "mux_ok False (rtrace (it_state r)) \<and> (\<forall>v' s'. r = Loop v' s' \<longrightarrow> mux_inv v' s') \<and> (\<forall>v' s'. r \<noteq> Leave v' s')"
proof -
  let ?buf = "r_buffer e (rtrace s)" let ?rel = "RCodec (Rc_releaseOutput (fst ?buf))"
  obtain err v1 s1 where b: "buffer_data e muxer ?buf v s = Ok (err, v1, s1)"
    using assms(1) by (auto simp: got_buffer_def Let_def res_map_Ok_iff)
  have a: "adds (\<lambda>c. is_sample c \<longrightarrow> trackIdx v \<noteq> -1) s s1" "trackIdx v1 = trackIdx v" "metaTrackIdx v1 = metaTrackIdx v"
    using buffer_data_adds [OF b] adds_data_sample by blast+
  have m1: "mux_inv v1 s1" by (rule mux_inv_adds [OF assms(2) a])
  have m2: "mux_inv v1 (rcall ?rel s1)" "mux_inv v1 ((rcall ?rel s1)\<lparr>gStopRequested := True\<rparr>)"
    by (rule mux_inv_adds [OF m1]; (intro adds_intros)?; simp)+
  have "r = Fail err s1 \<or> (\<exists>err. r = Fail err (rcall ?rel s1)) \<or> r = Loop v1 (rcall ?rel s1) \<or>
        r = Loop v1 ((rcall ?rel s1)\<lparr>gStopRequested := True\<rparr>)"
    using assms(1) b by (auto simp: got_buffer_def Let_def split: if_splits)
  then show ?thesis using m1 m2 by (auto simp: mux_inv_def)
qed

lemma format_changed_mux:
  assumes "mux_inv v s"
  shows "mux_ok False (rtrace (it_state (format_changed e muxer v s))) \<and>
         (\<forall>v' s'. format_changed e muxer v s = Loop v' s' \<longrightarrow> mux_inv v' s')"
proof -
  have a: "adds (\<lambda>c. is_sample c \<longrightarrow> started s) s (it_state (format_changed e muxer v s))"
    by (auto simp: format_changed_def Let_def is_sample_def intro!: adds_intros)
  have "mux_inv v' s'" if l: "format_changed e muxer v s = Loop v' s'" for v' s'
  proof (cases muxer)
    case True
    then have "started s'" using l
      by (auto simp: format_changed_def Let_def recorder_simps is_start_def split: if_splits)
    then show ?thesis using mux_adds [OF _ a] assms l by (auto simp: mux_inv_def)
  next
    case False
    then have "v' = v" using l by (simp add: format_changed_def Let_def)
    then show ?thesis using mux_adds [OF _ a] assms l by (auto simp: mux_inv_def)
  qed
  then show ?thesis using mux_adds [OF _ a] assms by (auto simp: mux_inv_def)
qed

lemma iteration_mux:
  assumes "encoder_iteration e muxer endWhen v s = Ok r" "mux_inv v s"
  shows "mux_ok False (rtrace (it_state r)) \<and> (\<forall>v' s'. r = Loop v' s' \<or> r = Leave v' s' \<longrightarrow> mux_inv v' s')"
proof -
  let ?s1 = "rcall (RFile Rf_clock) s" let ?s2 = "rcall (RCodec (Rc_dequeueOutput 250000)) ?s1"
  let ?s3 = "rcall (RCodec Rc_getOutputBuffers) ?s2"
  have m: "mux_inv v ?s1" "mux_inv v ?s2" "mux_inv v ?s3"
    by (rule mux_inv_adds [OF assms(2)]; (intro adds_intros)?; simp)+
  from assms(1) show ?thesis
  proof (cases rule: iteration_cases)
    case got
    then show ?thesis using got_buffer_mux [OF _ m(2)] by blast
  next
    case changed
    then show ?thesis
      using format_changed_mux [OF m(2), of e muxer] format_changed_result [of e muxer v ?s2] by (simp only:) metis
  next
    case buffers
    then have "r = Loop v ?s3 \<or> (\<exists>err. r = Fail err ?s3)" by (auto simp: buffers_changed_def)
    then show ?thesis using m(3) by (auto simp: mux_inv_def)
  qed (use m assms(2) in \<open>auto simp: mux_inv_def\<close>)
qed

text \<open>C24: Whatever the codec reports and however \<open>runEncoder\<close> ends, no sample (video or metadata) is
  written to the muxer before the muxer has been started.\<close>

theorem runEncoder_muxer_started:
  assumes "runEncoder fuel e muxer rot s = Ok (err, s')" "mux_ok False (rtrace s)"
  shows "mux_ok False (rtrace s')"
proof -
  let ?s1 = "rcall (RFile Rf_clock) s" let ?s2 = "rcall (RCodec Rc_getOutputBuffers) ?s1"
  let ?stop = "r_ans e (rtrace ?s1) + int (unat (gTimeLimitSec s)) * 1000000000"
  have m0: "mux_inv (vars0 rot) s" using assms(2) by (simp add: mux_inv_def vars0_def)
  have m: "mux_inv (vars0 rot) ?s2" by (rule mux_inv_adds [OF m0]) (intro adds_intros, simp_all)
  show ?thesis
  proof (cases "s' = ?s2")
    case True
    then show ?thesis using m by (simp add: mux_inv_def)
  next
    case False
    then obtain r where l: "encoder_loop fuel e muxer ?stop (vars0 rot) ?s2 = Ok r"
      and f: "finish_encoder e r = Ok (err, s')"
      using assms(1) by (auto simp: runEncoder_def Let_def res_bind_Ok_iff split: if_splits)
    have "\<exists>v1 s1. mux_inv v1 s1 \<and> encoder_iteration e muxer ?stop v1 s1 = Ok r"
      by (rule encoder_loop_induct [OF l, where I = mux_inv, OF m]) (use iteration_mux in blast)
    then have r: "mux_ok False (rtrace (it_state r))" "\<And>v' s'. r = Leave v' s' \<Longrightarrow> mux_inv v' s'"
      using iteration_mux by blast+
    show ?thesis
    proof (cases r)
      case (Leave v2 s2)
      have "adds (\<lambda>c. is_sample c \<longrightarrow> metaTrackIdx v2 \<ge> 0) s2 s'"
        using f Leave by (auto simp: finish_encoder_def writeWinscopeMetadata_def Let_def intro!: adds_intros split: if_splits)
      then have "adds (\<lambda>c. is_sample c \<longrightarrow> started s2) s2 s'"
        by (rule adds_mono) (use r(2) [OF Leave] in \<open>auto simp: mux_inv_def\<close>)
      from mux_adds [OF _ this] show ?thesis using r(1) Leave by simp
    next
      case (Fail err2 s2)
      then show ?thesis using f r(1) by (simp add: finish_encoder_def)
    qed (use f in \<open>simp add: finish_encoder_def\<close>)
  qed
qed

lemma runEncoder_muxer_started_witness:
  "\<exists>s'. runEncoder 3 eos_env False ROTATION_0 recorder0 = Ok (NO_ERROR, s') \<and> mux_ok False (rtrace s')"
proof -
  obtain s' where s': "runEncoder 3 eos_env False ROTATION_0 recorder0 = Ok (NO_ERROR, s')"
    using runEncoder_eos by blast
  from runEncoder_muxer_started [OF this] s' show ?thesis by auto
qed

subsection \<open>The time limit ends the loop\<close>

definition neutral :: "rcall \<Rightarrow> bool" where
  "neutral c = (\<not> is_create c \<and> \<not> is_release c \<and> \<not> is_session c)"

lemma neutral_simps [simp]:
  "neutral (RFile f)" "neutral (RDisplay d) \<longleftrightarrow> d \<noteq> Rd_create \<and> d \<noteq> Rd_destroy" "neutral (RMuxer m)"
  "neutral (RScreen x) \<longleftrightarrow> \<not> is_session (RScreen x)" "quiet c \<Longrightarrow> neutral c"
  "neutral (RCodec (Rc_releaseOutput i))" "neutral (RCodec (Rc_dequeueOutput n))" "neutral (RCodec Rc_getOutputBuffers)"
  by (auto simp: neutral_def quiet_def call_kinds)

text \<open>What a session holds: codecs, virtual displays and overlays that were begun and not ended.\<close>

definition display_count :: "rcall list \<Rightarrow> rcall \<Rightarrow> int" where
  "display_count past c = (if c = RDisplay Rd_create then 1 else 0) - (if c = RDisplay Rd_destroy then 1 else 0)"

definition overlay_count :: "renv \<Rightarrow> rcall list \<Rightarrow> rcall \<Rightarrow> int" where
  "overlay_count e past c =
     (case c of RScreen (Ro_overlayStart m) \<Rightarrow> if r_ans e (past @ [c]) = NO_ERROR then 1 else 0
      | RScreen Ro_overlayStop \<Rightarrow> -1 | _ \<Rightarrow> 0)"

definition live_displays :: "recorder \<Rightarrow> int" where
  "live_displays s = recorder_calls.balance display_count s"

definition live_overlays :: "renv \<Rightarrow> recorder \<Rightarrow> int" where
  "live_overlays e s = recorder_calls.balance (overlay_count e) s"

lemma live_rcall [recorder_simps]:
  "live_displays (rcall c s) = live_displays s + display_count (rtrace s) c"
  "live_overlays e (rcall c s) = live_overlays e s + overlay_count e (rtrace s) c"
  by (simp_all add: live_displays_def live_overlays_def recorder_calls.balance_record)

lemma neutral_counts:
  "neutral c \<Longrightarrow> codec_count e past c = 0" "neutral c \<Longrightarrow> display_count past c = 0" "neutral c \<Longrightarrow> overlay_count e past c = 0"
  by (auto simp: neutral_def codec_count_def display_count_def overlay_count_def is_session_def
      split: rcall.splits rscreen_call.splits if_splits)

text \<open>What changes from \<open>s\<close> to \<open>s'\<close>: so many codecs, displays and overlays more; the format and the wish for
  an overlay stay.\<close>

definition session_change :: "renv \<Rightarrow> recorder \<Rightarrow> recorder \<Rightarrow> int \<Rightarrow> int \<Rightarrow> int \<Rightarrow> bool" where
  "session_change e s s' c d ov =
     (live_codecs e s' = live_codecs e s + c \<and> live_displays s' = live_displays s + d \<and>
      live_overlays e s' = live_overlays e s + ov \<and>
      gOutputFormat s' = gOutputFormat s \<and> gWantFrameTime s' = gWantFrameTime s)"

lemma session_change_trans [trans]:
  "session_change e s s' c d ov \<Longrightarrow> session_change e s' s'' c' d' ov' \<Longrightarrow>
   session_change e s s'' (c + c') (d + d') (ov + ov')"
  by (simp add: session_change_def)

lemma session_change_options:
  "session_change e s s' c d ov \<Longrightarrow> gOutputFormat s' = gOutputFormat s"
  "session_change e s s' c d ov \<Longrightarrow> gWantFrameTime s' = gWantFrameTime s"
  by (simp_all add: session_change_def)

lemma session_change_neutral: "adds neutral s s' \<Longrightarrow> session_change e s s' 0 0 0"
  unfolding adds_added session_change_def live_codecs_balance live_displays_def live_overlays_def
  by (auto intro!: recorder_calls.balance_added options_truncate neutral_counts)

lemma got_buffer_adds:
  assumes "got_buffer e muxer v s = Ok r"
  shows "adds neutral s (it_state r)"
proof -
  obtain err v1 s1 where b: "buffer_data e muxer (r_buffer e (rtrace s)) v s = Ok (err, v1, s1)"
    using assms by (auto simp: got_buffer_def Let_def res_map_Ok_iff)
  have "adds quiet s s1" using buffer_data_adds [OF b] adds_data_quiet by blast
  then have "adds neutral s s1" by (rule adds_mono) simp
  then show ?thesis using assms b
    by (auto simp: got_buffer_def Let_def intro!: adds_intros split: if_splits)
qed

lemma iteration_adds:
  assumes "encoder_iteration e muxer endWhen v s = Ok r"
  shows "adds neutral s (it_state r)"
    and "r = Loop v' s' \<Longrightarrow> r_ans e (rtrace s @ [RFile Rf_clock]) \<le> endWhen \<and> adds neutral (rcall (RFile Rf_clock) s) s'"
proof -
  let ?s1 = "rcall (RFile Rf_clock) s" let ?s2 = "rcall (RCodec (Rc_dequeueOutput 250000)) ?s1"
  have s2: "adds neutral ?s1 ?s2" by (intro adds_intros) simp
  have a: "(\<exists>s'. r = Leave v s' \<and> (s' = s \<or> s' = ?s1)) \<or> adds neutral ?s1 (it_state r)"
    using assms
  proof (cases rule: iteration_cases)
    case got
    then show ?thesis using adds_trans [OF s2 got_buffer_adds] by blast
  next
    case changed
    have "adds neutral ?s2 (it_state (format_changed e muxer v ?s2))"
      by (auto simp: format_changed_def Let_def intro!: adds_intros)
    then show ?thesis using adds_trans [OF s2] changed(2) by simp
  next
    case buffers
    have "adds neutral ?s2 (it_state (buffers_changed e v ?s2))"
      by (auto simp: buffers_changed_def Let_def intro!: adds_intros)
    then show ?thesis using adds_trans [OF s2] buffers(2) by simp
  qed (use s2 in auto)
  have s1: "adds neutral s ?s1" by (intro adds_intros) simp
  show "adds neutral s (it_state r)" using a s1 adds_trans [OF s1] adds_refl [of neutral s] by auto
  show "r_ans e (rtrace s @ [RFile Rf_clock]) \<le> endWhen \<and> adds neutral ?s1 s'" if r: "r = Loop v' s'"
  proof
    show "adds neutral ?s1 s'" using a r by simp
    show "r_ans e (rtrace s @ [RFile Rf_clock]) \<le> endWhen"
      using assms r by (simp add: encoder_iteration_def Let_def split: if_splits)
  qed
qed

definition clocks :: "rcall list \<Rightarrow> nat" where
  "clocks tr = length (filter (\<lambda>c. c = RFile Rf_clock) tr)"

text \<open>The clock has passed \<open>T\<close> once it has been read \<open>n\<close> times.\<close>

definition clock_passes :: "renv \<Rightarrow> nat \<Rightarrow> int \<Rightarrow> bool" where
  "clock_passes e n T = (\<forall>tr. n \<le> clocks tr \<longrightarrow> T < r_ans e (tr @ [RFile Rf_clock]))"

lemma clocks_Loop:
  assumes "encoder_iteration e muxer endWhen v s = Ok (Loop v' s')"
  shows "clocks (rtrace s) < clocks (rtrace s')"
  using iteration_adds(2) [OF assms] by (auto simp: adds_def clocks_def)

lemma res_bind_NoFuel_iff: "res_bind m f = NoFuel \<longleftrightarrow> m = NoFuel \<or> (\<exists>x. m = Ok x \<and> f x = NoFuel)"
  by (cases m) auto

lemma res_map_NoFuel_iff: "res_map f m = NoFuel \<longleftrightarrow> m = NoFuel"
  by (cases m) auto

lemmas res_NoFuel_iff = res_bind_NoFuel_iff res_map_NoFuel_iff

lemma iteration_total: "encoder_iteration e muxer endWhen v s \<noteq> NoFuel"
proof -
  have u: "to_u32 x \<noteq> NoFuel" "fdiv x y \<noteq> NoFuel" for x y by (simp_all add: to_u32_def fdiv_def)
  have d: "setDisplayProjection ds s \<noteq> NoFuel" for ds s
    unfolding setDisplayProjection_def displayRect_def displayAspect_def outSize_def Let_def
    by (simp add: res_NoFuel_iff u)
  have p: "poll_orientation e v s \<noteq> NoFuel" for v s
    by (simp add: poll_orientation_def Let_def res_NoFuel_iff d)
  have bd: "buffer_data e muxer buf v s \<noteq> NoFuel" for buf v s
    unfolding buffer_data_def write_raw_def write_sample_def Let_def
    by (simp add: res_NoFuel_iff p split: prod.splits)
  have g: "got_buffer e muxer v s \<noteq> NoFuel" for v s
    unfolding got_buffer_def Let_def by (simp add: res_NoFuel_iff bd)
  show ?thesis by (auto simp: encoder_iteration_def Let_def g)
qed

lemma encoder_loop_ends:
  assumes "clock_passes e n endWhen" "n < fuel + clocks (rtrace s)"  "0 < fuel"
  shows "encoder_loop fuel e muxer endWhen v s \<noteq> NoFuel"
  using assms(2,3)
proof (induction fuel arbitrary: v s)
  case (Suc fuel)
  show ?case
  proof (cases "encoder_iteration e muxer endWhen v s")
    case (Ok r)
    show ?thesis
    proof (cases r)
      case (Loop v' s')
      note it = Ok [unfolded Loop]
      have "r_ans e (rtrace s @ [RFile Rf_clock]) \<le> endWhen" using iteration_adds(2) [OF it] by blast
      then have "\<not> n \<le> clocks (rtrace s)" using assms(1) by (force simp: clock_passes_def)
      then have "0 < fuel" "n < fuel + clocks (rtrace s')" using Suc.prems clocks_Loop [OF it] by linarith+
      then show ?thesis using Suc.IH it by simp
    qed (use Ok in auto)
  qed (use iteration_total [of e muxer endWhen v s] in auto)
qed simp

text \<open>C25: The recording ends by its time limit: if the clock, having been read \<open>n\<close> times, is past the
  start time plus the limit, then \<open>n + 1\<close> iterations are enough, whatever the codec does, even if
  it never delivers a buffer and no signal arrives.\<close>

theorem runEncoder_time_limit:
  assumes "clock_passes e n (r_ans e (rtrace s @ [RFile Rf_clock]) + int (unat (gTimeLimitSec s)) * 1000000000)"
    and "n < fuel"
  shows "runEncoder fuel e muxer rot s \<noteq> NoFuel"
proof -
  let ?s1 = "rcall (RFile Rf_clock) s" let ?s2 = "rcall (RCodec Rc_getOutputBuffers) ?s1"
  let ?stop = "r_ans e (rtrace ?s1) + int (unat (gTimeLimitSec s)) * 1000000000"
  have l: "encoder_loop fuel e muxer ?stop (vars0 rot) ?s2 \<noteq> NoFuel"
    using assms by (intro encoder_loop_ends) auto
  have f: "finish_encoder e r \<noteq> NoFuel" for r
    by (auto simp: finish_encoder_def writeWinscopeMetadata_def Let_def split: iteration.splits)
  show ?thesis
    using l f by (cases "encoder_loop fuel e muxer ?stop (vars0 rot) ?s2") (auto simp: runEncoder_def Let_def)
qed

lemma runEncoder_time_limit_witness:
  "runEncoder 2 (eos_env\<lparr>r_ans := \<lambda>tr. if last tr = RFile Rf_clock then 10 ^ 12 * int (length tr) else - 11\<rparr>)
     True ROTATION_0 recorder0 \<noteq> NoFuel"
proof (rule runEncoder_time_limit)
  show "(1 :: nat) < 2" by simp
  show "clock_passes (eos_env\<lparr>r_ans := \<lambda>tr. if last tr = RFile Rf_clock then 10 ^ 12 * int (length tr) else - 11\<rparr>) 1
     (r_ans (eos_env\<lparr>r_ans := \<lambda>tr. if last tr = RFile Rf_clock then 10 ^ 12 * int (length tr) else - 11\<rparr>)
        (rtrace recorder0 @ [RFile Rf_clock]) + int (unat (gTimeLimitSec recorder0)) * 1000000000)"
    unfolding clock_passes_def
  proof (intro allI impI)
    fix tr assume "1 \<le> clocks tr"
    then have "1 \<le> length tr" unfolding clocks_def by (metis length_filter_le le_trans)
    then show "r_ans (eos_env\<lparr>r_ans := \<lambda>tr. if last tr = RFile Rf_clock then 10 ^ 12 * int (length tr) else - 11\<rparr>)
        (rtrace recorder0 @ [RFile Rf_clock]) + int (unat (gTimeLimitSec recorder0)) * 1000000000
      < r_ans (eos_env\<lparr>r_ans := \<lambda>tr. if last tr = RFile Rf_clock then 10 ^ 12 * int (length tr) else - 11\<rparr>) (tr @ [RFile Rf_clock])"
      by simp
  qed
qed

lemma runEncoder_codecs:
  assumes "runEncoder fuel e muxer rot s = Ok (err, s')"
  shows "adds neutral s s'"
proof -
  let ?s1 = "rcall (RFile Rf_clock) s" let ?s2 = "rcall (RCodec Rc_getOutputBuffers) ?s1"
  let ?stop = "r_ans e (rtrace ?s1) + int (unat (gTimeLimitSec s)) * 1000000000"
  have m: "adds neutral s ?s2" by (intro adds_intros) simp_all
  show ?thesis
  proof (cases "s' = ?s2")
    case False
    then obtain r where l: "encoder_loop fuel e muxer ?stop (vars0 rot) ?s2 = Ok r"
      and f: "finish_encoder e r = Ok (err, s')"
      using assms(1) by (auto simp: runEncoder_def Let_def res_bind_Ok_iff split: if_splits)
    have "\<exists>v1 s1. adds neutral s s1 \<and> encoder_iteration e muxer ?stop v1 s1 = Ok r"
      by (rule encoder_loop_induct [OF l, where I = "\<lambda>v s'. adds neutral s s'"])
         (use m adds_trans iteration_adds(1) in fastforce)+
    then have r: "adds neutral s (it_state r)" using iteration_adds(1) adds_trans by blast
    show ?thesis
    proof (cases r)
      case (Leave v2 s2)
      have "adds neutral s2 s'" using finish_encoder_quiet f Leave by (metis adds_mono neutral_simps(5))
      then show ?thesis using r Leave adds_trans by fastforce
    qed (use r f in \<open>auto simp: finish_encoder_def\<close>)
  qed (use m in simp)
qed

end
