(* ===== verification/Screen_Recorder.thy ===== *)
theory Screen_Recorder
  imports Recorder_Loop
begin

section \<open>The recorder command\<close>

text \<open>
  \<open>signalCatcher\<close>, \<open>configureSignals\<close>, \<open>prepareRawOutput\<close>, \<open>recordScreen\<close>, \<open>notifyMediaScanner\<close> (the
  parent's side) and \<open>main\<close> of \<open>screenrecord.cpp\<close>. A library call that fails with \<open>errno\<close> answers with
  that number, 0 otherwise. \<open>abort()\<close> is \<open>Undef\<close>. The frame copying of \<open>FrameOutput\<close> and the overlay
  are calls here; their own theories model them.
\<close>

definition SIGHUP :: int where "SIGHUP = 1"
definition SIGINT :: int where "SIGINT = 2"
definition SIGPIPE :: int where "SIGPIPE = 13"

definition signalCatcher :: "int \<Rightarrow> recorder \<Rightarrow> recorder res" where
  "signalCatcher signum s =
     (let s1 = s\<lparr>gStopRequested := True\<rparr>
      in if signum = SIGINT \<or> signum = SIGHUP
         then Ok (rcall (RFile (Rf_sigaction SIGHUP)) (rcall (RFile (Rf_sigaction SIGINT)) s1))
         else Undef)"

definition configureSignals :: "renv \<Rightarrow> recorder \<Rightarrow> int \<times> recorder" where
  "configureSignals e s =
     (let (err, s1) = rask e (RFile (Rf_sigaction SIGINT)) s in
      if err \<noteq> 0 then (- err, s1) else
      let (err, s2) = rask e (RFile (Rf_sigaction SIGHUP)) s1 in
      if err \<noteq> 0 then (- err, s2)
      else (NO_ERROR, rcall (RFile (Rf_sigaction SIGPIPE)) s2))"

definition floorToEven :: "u32 \<Rightarrow> u32" where
  "floorToEven num = and num (not 1)"

text \<open>The raw output: \<open>None\<close> where the source returns a null pointer, else whether it is \<open>stdout\<close>.\<close>

definition configure_tty :: "renv \<Rightarrow> recorder \<Rightarrow> recorder" where
  "configure_tty e s =
     (let (tty, s1) = rptr e (RFile Rf_isatty) s in
      if \<not> tty then s1 else
      let (err, s2) = rask e (RFile Rf_tcgetattr) s1
      in if err = 0 then rcall (RFile Rf_tcsetattr) s2 else s2)"

definition prepareRawOutput :: "renv \<Rightarrow> string \<Rightarrow> recorder \<Rightarrow> bool option \<times> recorder" where
  "prepareRawOutput e fileName s =
     (if fileName = ''-'' then
        if gVerbose s then (None, s) else (Some True, configure_tty e s)
      else let (opened, s1) = rptr e (RFile (Rf_fopen fileName)) s
           in if \<not> opened then (None, s1) else (Some False, configure_tty e s1))"

definition uses_encoder :: "recorder \<Rightarrow> bool" where
  "uses_encoder s = (gOutputFormat s \<noteq> FORMAT_FRAMES \<and> gOutputFormat s \<noteq> FORMAT_RAW_FRAMES)"

definition uses_muxer :: "recorder \<Rightarrow> bool" where
  "uses_muxer s = (gOutputFormat s = FORMAT_MP4 \<or> gOutputFormat s = FORMAT_WEBM \<or> gOutputFormat s = FORMAT_3GPP)"

definition default_size :: "ui_size \<Rightarrow> recorder \<Rightarrow> recorder" where
  "default_size vp s =
     (let s1 = (if gVideoWidth s = 0 then s\<lparr>gVideoWidth := floorToEven (word_of_int (width vp))\<rparr> else s)
      in if gVideoHeight s1 = 0 then s1\<lparr>gVideoHeight := floorToEven (word_of_int (height vp))\<rparr> else s1)"

text \<open>The encoder, with the second attempt at 720p.\<close>

definition prepare_encoder_fallback :: "renv \<Rightarrow> rat \<Rightarrow> recorder \<Rightarrow> int \<times> recorder" where
  "prepare_encoder_fallback e displayFps s =
     (let (err, s1) = prepareEncoder e displayFps s in
      if err \<noteq> NO_ERROR \<and> \<not> gSizeSpecified s1 then
        let needSwap = gVideoWidth s1 < gVideoHeight s1;
            newWidth = (if needSwap then kFallbackHeight else kFallbackWidth);
            newHeight = (if needSwap then kFallbackWidth else kFallbackHeight)
        in if gVideoWidth s1 \<noteq> newWidth \<and> gVideoHeight s1 \<noteq> newHeight
           then prepareEncoder e displayFps (s1\<lparr>gVideoWidth := newWidth, gVideoHeight := newHeight\<rparr>)
           else (err, s1)
      else (err, s1))"

definition create_surface :: "renv \<Rightarrow> rat \<Rightarrow> recorder \<Rightarrow> int \<times> recorder" where
  "create_surface e displayFps s =
     (if uses_encoder s then prepare_encoder_fallback e displayFps s
      else rask e (RScreen (Ro_createInputSurface (gVideoWidth s) (gVideoHeight s))) s)"

definition release_encoder :: "bool \<Rightarrow> recorder \<Rightarrow> recorder" where
  "release_encoder encoder s = (if encoder then rcall (RCodec Rc_release) s else s)"

definition start_overlay :: "renv \<Rightarrow> recorder \<Rightarrow> int \<times> recorder" where
  "start_overlay e s =
     (let s1 = (if gWantInfoScreen s then rcall (RScreen Ro_drawInfoPage) s else s)
      in if gWantFrameTime s1 then rask e (RScreen (Ro_overlayStart (gMonotonicTime s1))) s1 else (NO_ERROR, s1))"

definition open_muxer :: "renv \<Rightarrow> string \<Rightarrow> recorder \<Rightarrow> recorder res" where
  "open_muxer e fileName s =
     (let (err, s1) = rask e (RFile (Rf_unlink fileName)) s in
      if err \<noteq> 0 \<and> err \<noteq> ENOENT then Undef else
      let (fd, s2) = rask e (RFile (Rf_open fileName)) s1 in
      if fd < 0 then Undef else
      let s3 = rcall (RFile (Rf_close fd)) (rcall (RMuxer (Rm_new (gOutputFormat s2))) s2)
      in Ok (if gRotate s3 then rcall (RMuxer (Rm_orientationHint 90)) s3 else s3))"

text \<open>The loop that copies frames, with fuel.\<close>

fun copy_frames :: "nat \<Rightarrow> renv \<Rightarrow> int \<Rightarrow> recorder \<Rightarrow> (int \<times> recorder) res" where
  "copy_frames 0 e err s = NoFuel"
| "copy_frames (Suc fuel) e err s =
     (if stop_requested e s then Ok (err, s) else
      let (err, s1) = rask e (RScreen (Ro_copyFrame (gOutputFormat s = FORMAT_RAW_FRAMES))) s
      in if err = ETIMEDOUT then copy_frames fuel e NO_ERROR s1
         else if err \<noteq> NO_ERROR then Ok (err, s1)
         else copy_frames fuel e err s1)"

definition record_frames :: "nat \<Rightarrow> renv \<Rightarrow> bool \<Rightarrow> display_state \<Rightarrow> recorder \<Rightarrow> (int \<times> recorder) res" where
  "record_frames fuel e muxer displayState s =
     (if \<not> uses_encoder s then copy_frames fuel e NO_ERROR (rcall (RScreen Ro_prepareToCopy) s)
      else runEncoder fuel e muxer (orientation displayState) s)"

definition shut_down :: "renv \<Rightarrow> bool \<Rightarrow> bool \<Rightarrow> bool \<Rightarrow> int \<Rightarrow> recorder \<Rightarrow> int \<times> recorder" where
  "shut_down e encoder muxer rawStdout err s =
     (let s1 = rcall (RDisplay Rd_destroy) s;
          s2 = (if gWantFrameTime s1 then rcall (RScreen Ro_overlayStop) s1 else s1);
          s3 = (if encoder then rcall (RCodec Rc_stop) s2 else s2);
          (err, s4) = (if muxer then rask e (RMuxer Rm_stop) s3
                       else (err, if rawStdout then s3 else rcall (RFile Rf_fclose) s3))
      in (err, release_encoder encoder s4))"

text \<open>From the virtual display on.\<close>

definition record_display ::
  "nat \<Rightarrow> renv \<Rightarrow> string \<Rightarrow> display_state \<Rightarrow> recorder \<Rightarrow> (int \<times> recorder) res" where
  "record_display fuel e fileName displayState s =
     (let encoder = uses_encoder s in
      res_bind (prepareVirtualDisplay displayState s) (\<lambda>s1.
      if uses_muxer s1 then
        res_bind (open_muxer e fileName s1) (\<lambda>s2.
        res_map (\<lambda>(err, s3). shut_down e encoder True False err s3) (record_frames fuel e True displayState s2))
      else case prepareRawOutput e fileName s1 of
             (None, s2) \<Rightarrow> Ok (-1, release_encoder encoder s2)
           | (Some rawStdout, s2) \<Rightarrow>
               res_map (\<lambda>(err, s3). shut_down e encoder False rawStdout err s3) (record_frames fuel e False displayState s2)))"

definition recordScreen :: "nat \<Rightarrow> renv \<Rightarrow> string \<Rightarrow> recorder \<Rightarrow> (int \<times> recorder) res" where
  "recordScreen fuel e fileName s =
     (let (err, s1) = configureSignals e s in
      if err \<noteq> NO_ERROR then Ok (err, s1) else
      let (display, s2) = rptr e (RDisplay (Rd_token (gPhysicalDisplayId s1))) (rcall (RFile Rf_threadPool) s1) in
      if \<not> display then Ok (NAME_NOT_FOUND, s2) else
      let (err, s3) = rask e (RDisplay Rd_getState) s2; displayState = r_state e (rtrace s3) in
      if err \<noteq> NO_ERROR then Ok (err, s3) else
      let (err, s4) = rask e (RDisplay Rd_getConfig) s3; refreshRate = r_rate e (rtrace s4) in
      if err \<noteq> NO_ERROR then Ok (err, s4) else
      let (err, s5) = create_surface e refreshRate (default_size (viewport displayState) s4) in
      if err \<noteq> NO_ERROR then Ok (err, s5) else
      let (err, s6) = start_overlay e s5 in
      if err \<noteq> NO_ERROR then Ok (err, release_encoder (uses_encoder s6) s6)
      else record_display fuel e fileName displayState s6)"

definition notifyMediaScanner :: "renv \<Rightarrow> string \<Rightarrow> recorder \<Rightarrow> int \<times> recorder" where
  "notifyMediaScanner e fileName s =
     (let (pid, s1) = rask e (RFile Rf_fork) s
      in if pid < 0 then (pid, s1) else (NO_ERROR, rcall (RFile (Rf_waitpid pid)) s1))"

text \<open>
  \<open>main\<close>: \<open>displayId\<close> is the internal display, \<open>opts\<close> what \<open>getopt_long\<close> delivers and \<open>files\<close> the arguments
  left over. The result is the exit code and, where a recording took place, the final state.
\<close>

definition main_program ::
  "nat \<Rightarrow> renv \<Rightarrow> (u64 \<Rightarrow> bool) \<Rightarrow> u64 option \<Rightarrow> (char \<times> string) list \<Rightarrow> string list \<Rightarrow> (int \<times> recorder option) res" where
  "main_program fuel e display_known displayId opts files =
     (case displayId of None \<Rightarrow> Ok (1, None) | Some d \<Rightarrow>
      res_bind (option_loop display_known opts (options0 d)) (\<lambda>r.
      case r of Exit c \<Rightarrow> Ok (c, None) | Go_on opt \<Rightarrow>
      if length files \<noteq> 1 then Ok (2, None) else
      let fileName = hd files;
          s = options.extend opt \<lparr>gStopRequested = False, rtrace = []\<rparr>;
          (fd, s1) = (if gOutputFormat s = FORMAT_MP4 then rask e (RFile (Rf_open fileName)) s else (0, s))
      in if fd < 0 then Ok (1, Some s1) else
      let s2 = (if gOutputFormat s = FORMAT_MP4 then rcall (RFile (Rf_close fd)) s1 else s1)
      in res_map (\<lambda>(err, s3). (err, Some (if err = NO_ERROR then snd (notifyMediaScanner e fileName s3) else s3)))
           (recordScreen fuel e fileName s2)))"

subsection \<open>Every encoder is released\<close>

lemma floorToEven_even: "even (floorToEven n)" "floorToEven n \<le> n"
proof -
  show "even (floorToEven n)" by (simp add: floorToEven_def even_and_iff even_not_iff)
  show "floorToEven n \<le> n" unfolding floorToEven_def by (rule word_and_le2)
qed

lemma configureSignals_adds: "configureSignals e s = (err, s') \<Longrightarrow> adds neutral s s'"
  by (auto simp: configureSignals_def Let_def intro!: adds_intros split: if_splits)

lemma configure_tty_adds: "adds neutral s (configure_tty e s)"
  by (auto simp: configure_tty_def Let_def intro!: adds_intros)

lemma prepareRawOutput_adds: "prepareRawOutput e f s = (out, s') \<Longrightarrow> adds neutral s s'"
  by (auto simp: prepareRawOutput_def Let_def intro!: adds_intros configure_tty_adds adds_after [OF configure_tty_adds]
      split: if_splits)

lemma session_change_calls [recorder_simps]:
  "session_change e s (rcall k s) c d ov \<longleftrightarrow>
   codec_count e (rtrace s) k = c \<and> display_count (rtrace s) k = d \<and> overlay_count e (rtrace s) k = ov"
  by (auto simp: session_change_def live_rcall live_codecs_balance recorder_calls.balance_record)

lemma start_overlay_change:
  assumes "start_overlay e s = (err, s')"
  shows "session_change e s s' 0 0 (if err = NO_ERROR \<and> gWantFrameTime s then 1 else 0)"
proof -
  let ?s1 = "if gWantInfoScreen s then rcall (RScreen Ro_drawInfoPage) s else s"
  have c: "session_change e s ?s1 0 0 0" by (rule session_change_neutral) (auto intro!: adds_intros)
  then have w: "gWantFrameTime ?s1 = gWantFrameTime s" by (rule session_change_options)
  show ?thesis
  proof (cases "gWantFrameTime s")
    case True
    then have "err = r_ans e (rtrace ?s1 @ [RScreen (Ro_overlayStart (gMonotonicTime ?s1))])"
      "s' = rcall (RScreen (Ro_overlayStart (gMonotonicTime ?s1))) ?s1"
      using assms w by (simp_all only: start_overlay_def Let_def if_True rask_eq prod.inject)
    then have "session_change e ?s1 s' 0 0 (if err = NO_ERROR then 1 else 0)"
      by (simp add: session_change_calls codec_count_def display_count_def overlay_count_def is_create_def is_release_def)
    from session_change_trans [OF c this] show ?thesis using True by simp
  next
    case False
    then have "s' = ?s1" using assms w by (simp only: start_overlay_def Let_def if_False prod.inject)
    then show ?thesis using c False by simp
  qed
qed

lemma prepareVirtualDisplay_change:
  assumes "prepareVirtualDisplay ds s = Ok s'"
  shows "session_change e s s' 0 1 0"
proof -
  let ?s0 = "rcall (RDisplay Rd_create) s"
  obtain s1 where p: "setDisplayProjection ds (rcall (RDisplay Rd_setSurface) ?s0) = Ok s1"
    and s': "s' = rcall (RDisplay Rd_apply) (rcall (RDisplay (Rd_setLayerStack (layerStack ds))) s1)"
    using assms by (auto simp: prepareVirtualDisplay_def res_map_Ok_iff)
  have c: "session_change e s ?s0 0 1 0"
    by (simp add: session_change_calls codec_count_def display_count_def overlay_count_def is_create_def is_release_def)
  have "adds neutral ?s0 (rcall (RDisplay Rd_setSurface) ?s0)" by (intro adds_intros) simp_all
  also have "adds neutral (rcall (RDisplay Rd_setSurface) ?s0) s1" by (rule setDisplayProjection_adds [OF p]) simp
  also have "adds neutral s1 s'" unfolding s' by (intro adds_intros) simp_all
  finally have "session_change e ?s0 s' 0 0 0" by (rule session_change_neutral)
  from session_change_trans [OF c this] show ?thesis by simp
qed

lemma open_muxer_adds: "open_muxer e f s = Ok s' \<Longrightarrow> adds neutral s s'"
  by (auto simp: open_muxer_def Let_def intro!: adds_intros split: if_splits)

lemma copy_frames_adds: "copy_frames fuel e err s = Ok (err', s') \<Longrightarrow> adds neutral s s'"
proof (induction fuel arbitrary: err s)
  case (Suc fuel)
  show ?case
    using Suc.prems by (auto simp: Let_def intro!: adds_intros dest!: Suc.IH elim!: adds_after split: if_splits)
qed simp

lemma record_frames_adds: "record_frames fuel e m ds s = Ok (err, s') \<Longrightarrow> adds neutral s s'"
  using copy_frames_adds adds_after runEncoder_codecs by (fastforce simp: record_frames_def split: if_splits)

lemma session_change_resized:
  "session_change e s (s'\<lparr>gVideoWidth := w, gVideoHeight := h\<rparr>) c d ov = session_change e s s' c d ov"
  "session_change e (s\<lparr>gVideoWidth := w, gVideoHeight := h\<rparr>) s' c d ov = session_change e s s' c d ov"
  by (simp_all add: session_change_def live_codecs_def live_displays_def live_overlays_def recorder_calls.balance_def)

lemma default_size_change: "session_change e s (default_size vp s) 0 0 0"
  by (simp add: default_size_def Let_def session_change_def live_codecs_def live_displays_def live_overlays_def
      recorder_calls.balance_def)

lemma prepareEncoder_change:
  assumes "prepareEncoder e fps s = (err, s')"
  shows "session_change e s s' (if err = NO_ERROR then 1 else 0) 0 0"
proof -
  have "live_displays s' = live_displays s \<and> live_overlays e s' = live_overlays e s \<and>
      gOutputFormat s' = gOutputFormat s \<and> gWantFrameTime s' = gWantFrameTime s"
    using assms by (auto simp: prepareEncoder_def input_surface_def live_rcall display_count_def overlay_count_def Let_def
        split: if_splits)
  then show ?thesis using prepareEncoder_codecs [OF assms] by (simp add: session_change_def)
qed

lemma fallback_change:
  assumes "prepare_encoder_fallback e fps s = (err, s')"
  shows "session_change e s s' (if err = NO_ERROR then 1 else 0) 0 0"
proof -
  obtain err1 s1 where p: "prepareEncoder e fps s = (err1, s1)" by (cases "prepareEncoder e fps s")
  note c1 = prepareEncoder_change [OF p]
  show ?thesis
  proof (cases "(err, s') = (err1, s1)")
    case True
    then show ?thesis using c1 by simp
  next
    case False
    then obtain w h where p2: "prepareEncoder e fps (s1\<lparr>gVideoWidth := w, gVideoHeight := h\<rparr>) = (err, s')"
      and f: "err1 \<noteq> NO_ERROR"
      using assms p by (auto simp: prepare_encoder_fallback_def Let_def split: if_splits)
    note c2 = prepareEncoder_change [OF p2, unfolded session_change_resized]
    from session_change_trans [OF c1 c2] show ?thesis using f by simp
  qed
qed

lemma create_surface_change:
  assumes "create_surface e fps s = (err, s')"
  shows "session_change e s s' (if err = NO_ERROR \<and> uses_encoder s then 1 else 0) 0 0"
proof (cases "uses_encoder s")
  case True
  then show ?thesis using assms fallback_change [of e fps s err s'] by (simp add: create_surface_def)
next
  case False
  then have "s' = rcall (RScreen (Ro_createInputSurface (gVideoWidth s) (gVideoHeight s))) s"
    using assms by (simp add: create_surface_def)
  then show ?thesis using False
    by (simp add: session_change_calls codec_count_def display_count_def overlay_count_def is_create_def is_release_def)
qed

lemma release_encoder_change: "session_change e s (release_encoder b s) (if b then -1 else 0) 0 0"
  by (simp add: release_encoder_def session_change_calls codec_count_def display_count_def overlay_count_def
      is_create_def is_release_def) (simp add: session_change_def)

lemma shut_down_change:
  assumes "shut_down e b m rawStdout err s = (err', s')"
  shows "session_change e s s' (if b then -1 else 0) (-1) (if gWantFrameTime s then -1 else 0)"
  using assms
  by (auto simp: shut_down_def release_encoder_def session_change_def live_codecs_rcall live_rcall display_count_def
      overlay_count_def is_create_def is_release_def Let_def split: if_splits)

text \<open>The part from the virtual display on: either everything is given back, or the raw output could not be opened.\<close>

lemma record_and_shut_down:
  assumes "record_frames fuel e m ds s = Ok (err1, s1)" "shut_down e b m raw err1 s1 = (err, s')"
  shows "session_change e s s' (if b then -1 else 0) (-1) (if gWantFrameTime s then -1 else 0)"
proof -
  note c = session_change_neutral [OF record_frames_adds [OF assms(1)], of e]
  from session_change_trans [OF c shut_down_change [OF assms(2)]] show ?thesis
    using session_change_options [OF c] by simp
qed

lemma record_display_change:
  assumes "record_display fuel e f ds s = Ok (err, s')"
  shows "session_change e s s' (if uses_encoder s then -1 else 0) 0 (if gWantFrameTime s then -1 else 0) \<or>
         err = -1 \<and> \<not> uses_muxer s \<and> session_change e s s' (if uses_encoder s then -1 else 0) 1 0"
proof -
  obtain s1 where v: "prepareVirtualDisplay ds s = Ok s1"
    using assms by (auto simp: record_display_def Let_def res_bind_Ok_iff)
  note c1 = prepareVirtualDisplay_change [OF v, of e] and o1 = session_change_options [OF prepareVirtualDisplay_change [OF v]]
  have m: "uses_muxer s1 = uses_muxer s" by (simp add: uses_muxer_def o1(1))
  show ?thesis
  proof (cases "uses_muxer s1")
    case True
    then obtain s2 err3 s3 where u: "open_muxer e f s1 = Ok s2" "record_frames fuel e True ds s2 = Ok (err3, s3)"
      "shut_down e (uses_encoder s) True False err3 s3 = (err, s')"
      using assms v by (auto simp: record_display_def Let_def res_bind_Ok_iff res_map_Ok_iff)
    note c2 = session_change_trans [OF c1 session_change_neutral [OF open_muxer_adds [OF u(1)]]]
    from session_change_trans [OF c2 record_and_shut_down [OF u(2,3)]] show ?thesis
      using session_change_options [OF c2] by simp
  next
    case False
    obtain out s2 where p: "prepareRawOutput e f s1 = (out, s2)" by (cases "prepareRawOutput e f s1")
    note c2 = session_change_trans [OF c1 session_change_neutral [OF prepareRawOutput_adds [OF p]]]
    show ?thesis
    proof (cases out)
      case None
      then have s': "s' = release_encoder (uses_encoder s) s2" "err = -1"
        using assms v p False by (simp_all add: record_display_def Let_def)
      from session_change_trans [OF c2 release_encoder_change] show ?thesis using s' False m by simp
    next
      case (Some raw)
      then obtain err3 s3 where u: "record_frames fuel e False ds s2 = Ok (err3, s3)"
        "shut_down e (uses_encoder s) False raw err3 s3 = (err, s')"
        using assms v p False by (auto simp: record_display_def Let_def res_map_Ok_iff)
      from session_change_trans [OF c2 record_and_shut_down [OF u]] show ?thesis
        using session_change_options [OF c2] by simp
    qed
  qed
qed

text \<open>The ways \<open>recordScreen\<close> ends: early, with the codec or the display missing; after the overlay failed; or
  through the recording.\<close>

lemma recordScreen_cases:
  assumes "recordScreen fuel e fileName s = Ok (err, s')"
  obtains (early) "adds neutral s s'"
  | (encoder) s4 fps vp where "adds neutral s s4" "err \<noteq> NO_ERROR"
      "create_surface e fps (default_size vp s4) = (err, s')"
  | (overlay) s4 fps vp s5 s6 where "adds neutral s s4"
      "create_surface e fps (default_size vp s4) = (NO_ERROR, s5)"
      "err \<noteq> NO_ERROR" "start_overlay e s5 = (err, s6)" "s' = release_encoder (uses_encoder s6) s6"
  | (recorded) s4 fps vp s5 s6 ds where "adds neutral s s4"
      "create_surface e fps (default_size vp s4) = (NO_ERROR, s5)"
      "start_overlay e s5 = (NO_ERROR, s6)" "record_display fuel e fileName ds s6 = Ok (err, s')"
proof -
  obtain err1 s1 where c: "configureSignals e s = (err1, s1)" by (cases "configureSignals e s")
  let ?s2 = "rcall (RDisplay (Rd_token (gPhysicalDisplayId s1))) (rcall (RFile Rf_threadPool) s1)"
  let ?s3 = "rcall (RDisplay Rd_getState) ?s2" let ?s4 = "rcall (RDisplay Rd_getConfig) ?s3"
  have n1: "adds neutral s s1" by (rule configureSignals_adds [OF c])
  then have n: "adds neutral s ?s2" "adds neutral s ?s3" "adds neutral s ?s4" by (auto intro!: adds_intros)
  let ?ds = "r_state e (rtrace ?s3)" let ?d = "default_size (viewport ?ds) ?s4"
  obtain err5 s5 where k: "create_surface e (r_rate e (rtrace ?s4)) ?d = (err5, s5)"
    by (cases "create_surface e (r_rate e (rtrace ?s4)) ?d")
  obtain err6 s6 where v: "start_overlay e s5 = (err6, s6)" by (cases "start_overlay e s5")
  have "(if err1 \<noteq> NO_ERROR then Ok (err1, s1)
      else if \<not> r_ptr e (rtrace (rcall (RFile Rf_threadPool) s1) @ [RDisplay (Rd_token (gPhysicalDisplayId s1))])
      then Ok (NAME_NOT_FOUND, ?s2)
      else if r_ans e (rtrace ?s2 @ [RDisplay Rd_getState]) \<noteq> NO_ERROR
      then Ok (r_ans e (rtrace ?s2 @ [RDisplay Rd_getState]), ?s3)
      else if r_ans e (rtrace ?s3 @ [RDisplay Rd_getConfig]) \<noteq> NO_ERROR
      then Ok (r_ans e (rtrace ?s3 @ [RDisplay Rd_getConfig]), ?s4)
      else if err5 \<noteq> NO_ERROR then Ok (err5, s5)
      else if err6 \<noteq> NO_ERROR then Ok (err6, release_encoder (uses_encoder s6) s6)
      else record_display fuel e fileName ?ds s6) = Ok (err, s')"
    using assms unfolding recordScreen_def Let_def c prod.case rask_eq rptr_eq k v .
  then consider "s' = s1" | "s' = ?s2" | "s' = ?s3" | "s' = ?s4" | "err5 \<noteq> NO_ERROR" "err = err5" "s' = s5"
    | "err5 = NO_ERROR" "err6 \<noteq> NO_ERROR" "err = err6" "s' = release_encoder (uses_encoder s6) s6"
    | "err5 = NO_ERROR" "err6 = NO_ERROR" "record_display fuel e fileName ?ds s6 = Ok (err, s')"
    by (metis Pair_inject res.inject)
  then show thesis
    by cases (use n1 n k v early encoder overlay recorded in blast)+
qed

lemma uses_encoder_format: "gOutputFormat s' = gOutputFormat s \<Longrightarrow> uses_encoder s' = uses_encoder s"
  by (simp add: uses_encoder_def)

lemma uses_muxer_format: "gOutputFormat s' = gOutputFormat s \<Longrightarrow> uses_muxer s' = uses_muxer s"
  by (simp add: uses_muxer_def)

lemma session_until_overlay:
  assumes "adds neutral s s4" "create_surface e fps (default_size vp s4) = (err5, s5)"
  shows "session_change e s s5 (if err5 = NO_ERROR \<and> uses_encoder s then 1 else 0) 0 0"
proof -
  note c4 = session_change_trans [OF session_change_neutral [OF assms(1)] default_size_change [of e s4 vp]]
  from session_change_trans [OF c4 create_surface_change [OF assms(2)]] show ?thesis
    using uses_encoder_format [OF session_change_options(1) [OF c4]] by simp
qed

lemma recordScreen_releases_all_lemma:
  assumes "recordScreen fuel e fileName s = Ok (err, s')"
  shows "session_change e s s' 0 0 0 \<or>
         err = -1 \<and> \<not> uses_muxer s \<and> session_change e s s' 0 1 (if gWantFrameTime s then 1 else 0)"
  using assms
proof (cases rule: recordScreen_cases)
  case early
  then show ?thesis using session_change_neutral by blast
next
  case (encoder s4 fps vp)
  then show ?thesis using session_until_overlay [OF encoder(1,3)] by simp
next
  case (overlay s4 fps vp s5 s6)
  note c6 = session_change_trans [OF session_until_overlay [OF overlay(1,2)] start_overlay_change [OF overlay(4)]]
  from session_change_trans [OF c6 release_encoder_change [of e s6 "uses_encoder s6"]] show ?thesis
    using overlay(3,5) uses_encoder_format [OF session_change_options(1) [OF c6]] by (cases "uses_encoder s") simp_all
next
  case (recorded s4 fps vp s5 s6 ds)
  note c5 = session_until_overlay [OF recorded(1,2)]
  note c6 = session_change_trans [OF c5 start_overlay_change [OF recorded(3)]]
  have u: "uses_encoder s6 = uses_encoder s" "uses_muxer s6 = uses_muxer s"
    "gWantFrameTime s6 = gWantFrameTime s" "gWantFrameTime s5 = gWantFrameTime s"
    using session_change_options [OF c6] session_change_options [OF c5] by (simp_all add: uses_encoder_def uses_muxer_def)
  from record_display_change [OF recorded(4)] show ?thesis
    by (cases "uses_encoder s") (auto simp: u dest!: session_change_trans [OF c6])
qed

text \<open>C13: The session gives back what it takes. On every path through \<open>recordScreen\<close>, early returns and failures
  included, the codecs created, the virtual displays created and the overlays started are all released,
  destroyed and stopped when it returns, with one exception, which is described completely: a raw output
  that cannot be opened returns -1 with the virtual display still there, and the overlay, when one was
  started, still running. (No recording to a muxer has this path.)\<close>

theorem recordScreen_releases_all:
  assumes "recordScreen fuel e fileName s = Ok (err, s')"
  shows "session_change e s s' 0 0 0 \<or>
         err = -1 \<and> \<not> uses_muxer s \<and> session_change e s s' 0 1 (if gWantFrameTime s then 1 else 0)"
  by (rule recordScreen_releases_all_lemma [OF assms])

text \<open>In particular every codec that was created is released, whatever happens in between.\<close>

theorem recordScreen_releases_codec:
  assumes "recordScreen fuel e fileName s = Ok (err, s')"
  shows "live_codecs e s' = live_codecs e s"
  using recordScreen_releases_all_lemma [OF assms] by (auto simp: session_change_def)

lemma displayRect_square: "displayRect 720 720 (Size 720 720) = Ok (Rect 0 0 720 720)"
proof -
  have f: "fl 720 = 720" "fl 1 = 1" using fl_numeral [of "num.One"] by (simp_all add: fl_numeral)
  then show ?thesis
    by (simp add: displayRect_def displayAspect_def outSize_def fdiv_def fmul_def of_int32_def of_u32_def to_u32_def
        trunc_def rect_of_u32_def)
qed

text \<open>A recording to a raw file, in an environment where everything works and the first buffer is the last.\<close>

definition raw_recorder :: recorder where
  "raw_recorder = recorder0\<lparr>gOutputFormat := FORMAT_H264, gVideoWidth := 720, gVideoHeight := 720\<rparr>"

lemma raw_recording:
  "\<exists>s'. recordScreen 3 eos_env ''out.h264'' raw_recorder = Ok (NO_ERROR, s')"
  using displayRect_square
  by (simp add: recordScreen_def configureSignals_def create_surface_def start_overlay_def default_size_def
      raw_recorder_def uses_encoder_def prepare_encoder_fallback_def prepareEncoder_def input_surface_def
      record_display_def prepareVirtualDisplay_def setDisplayProjection_def uses_muxer_def prepareRawOutput_def
      configure_tty_def record_frames_def runEncoder_def encoder_defs stop_requested_def numeral_3_eq_3 vars0_def
      has_flag_def BUFFER_FLAG_CODECCONFIG_def BUFFER_FLAG_EOS_def finish_encoder_def shut_down_def
      NO_ERROR_def Let_def)

lemma recordScreen_releases_all_witness:
  "\<exists>s'. recordScreen 3 eos_env ''out.h264'' raw_recorder = Ok (NO_ERROR, s') \<and>
        session_change eos_env raw_recorder s' 0 0 0"
proof -
  obtain s' where r: "recordScreen 3 eos_env ''out.h264'' raw_recorder = Ok (NO_ERROR, s')" using raw_recording by blast
  from recordScreen_releases_all [OF r] r show ?thesis by (auto simp: NO_ERROR_def)
qed

subsection \<open>What goes wrong\<close>

text \<open>A recording to a muxer, from an environment where the codec reports \<open>INVALID_OPERATION\<close>.\<close>

definition mp4_recorder :: recorder where
  "mp4_recorder = recorder0\<lparr>gVideoWidth := 720, gVideoHeight := 720\<rparr>"

definition broken_codec_env :: renv where
  "broken_codec_env = eos_env\<lparr>r_ans := \<lambda>tr. if is_dequeue (last tr) then INVALID_OPERATION else 0\<rparr>"

lemma broken_codec_env_simps [simp]:
  "r_ans broken_codec_env tr = (if is_dequeue (last tr) then INVALID_OPERATION else 0)"
  "r_ptr broken_codec_env tr = True" "r_stop broken_codec_env tr = False"
  "r_state broken_codec_env tr = Display_state 0 ROTATION_0 (Size 720 720)" "r_rate broken_codec_env tr = 60"
  by (simp_all add: broken_codec_env_def)


lemma muxer_status:
  assumes "record_display fuel e f ds s = Ok (err, s')" "prepareVirtualDisplay ds s = Ok s1" "uses_muxer s1"
  shows "\<exists>tr. err = r_ans e (tr @ [RMuxer Rm_stop])"
  using assms by (auto simp: record_display_def shut_down_def Let_def res_bind_Ok_iff res_map_Ok_iff split: prod.splits)

text \<open>The second attempt at 720p is not made when only one side differs: an encoder that rejects the
  1280x800 of the display is given up although it might accept 1280x720.\<close>

theorem fallback_skipped:
  assumes "prepareEncoder e fps s = (err, s1)" "err \<noteq> NO_ERROR" "gVideoWidth s1 = 1280" "gVideoHeight s1 < 1280"
  shows "prepare_encoder_fallback e fps s = (err, s1)"
  using assms by (auto simp: prepare_encoder_fallback_def kFallbackWidth_def Let_def)

lemma fallback_skipped_witness:
  "prepare_encoder_fallback (eos_env\<lparr>r_ans := \<lambda>_. -1\<rparr>) 60 (recorder0\<lparr>gVideoWidth := 1280, gVideoHeight := 800\<rparr>) =
   prepareEncoder (eos_env\<lparr>r_ans := \<lambda>_. -1\<rparr>) 60 (recorder0\<lparr>gVideoWidth := 1280, gVideoHeight := 800\<rparr>)"
proof -
  let ?e = "eos_env\<lparr>r_ans := \<lambda>_. -1\<rparr>" and ?s = "recorder0\<lparr>gVideoWidth := 1280, gVideoHeight := 800\<rparr>"
  obtain err s1 where p: "prepareEncoder ?e 60 ?s = (err, s1)" by (cases "prepareEncoder ?e 60 ?s")
  then have "err \<noteq> NO_ERROR" "gVideoWidth s1 = 1280" "gVideoHeight s1 < 1280"
    by (auto simp: prepareEncoder_def NO_ERROR_def Let_def)
  from fallback_skipped [OF p this] p show ?thesis by simp
qed

lemma prepareVirtualDisplay_verbose: "prepareVirtualDisplay ds s = Ok s' \<Longrightarrow> gVerbose s' = gVerbose s"
  by (auto simp: prepareVirtualDisplay_def setDisplayProjection_def res_map_Ok_iff Let_def split: prod.splits)

text \<open>When the raw output cannot be opened, \<open>recordScreen\<close> returns without destroying the virtual display
  it has just created.\<close>

theorem raw_output_leaks_display:
  assumes "record_display fuel e ''-'' ds s = Ok (err, s')" "gVerbose s" "\<not> uses_muxer s"
  shows "err = -1 \<and> live_displays s' = live_displays s + 1 \<and> live_overlays e s' = live_overlays e s"
proof -
  obtain s1 where v: "prepareVirtualDisplay ds s = Ok s1"
    using assms(1) by (auto simp: record_display_def Let_def res_bind_Ok_iff)
  note c = prepareVirtualDisplay_change [OF v, of e]
  have "gVerbose s1" "\<not> uses_muxer s1"
    using assms(2,3) prepareVirtualDisplay_verbose [OF v] uses_muxer_format [OF session_change_options(1) [OF c]] by simp_all
  then have s': "s' = release_encoder (uses_encoder s) s1" "err = -1"
    using assms v by (simp_all add: record_display_def prepareRawOutput_def)
  from session_change_trans [OF c release_encoder_change [of e s1 "uses_encoder s"]] show ?thesis
    using s' by (simp add: session_change_def)
qed

lemma raw_output_leaks_display_witness:
  "\<exists>s'. record_display 3 eos_env ''-'' (Display_state 0 ROTATION_0 (Size 720 720)) (raw_recorder\<lparr>gVerbose := True\<rparr>) = Ok (-1, s') \<and>
        live_displays s' = 1"
proof -
  let ?s = "raw_recorder\<lparr>gVerbose := True\<rparr>"
  obtain s' where s': "record_display 3 eos_env ''-'' (Display_state 0 ROTATION_0 (Size 720 720)) ?s = Ok (-1, s')"
    using displayRect_square
    by (auto simp: record_display_def prepareVirtualDisplay_def setDisplayProjection_def prepareRawOutput_def
        uses_muxer_def raw_recorder_def)
  have "gVerbose ?s" "\<not> uses_muxer ?s" by (simp_all add: uses_muxer_def raw_recorder_def)
  from raw_output_leaks_display [OF s' this] s' show ?thesis
    by (auto simp: live_displays_def recorder_calls.balance_def raw_recorder_def)
qed

end
