(* ===== verification/Gl_Program.thy ===== *)
theory Gl_Program
  imports Recorder_World
begin

section \<open>EGL windows and GL programs of the recorder\<close>

text \<open>
  \<open>screenrecord/EglWindow.cpp\<close> and \<open>screenrecord/Program.cpp\<close>. EGL and GL are outside: their calls go to
  the trace of the state, an answer (a handle with 0 for failure, a status, an attribute location)
  is read from the parameter \<open>e :: genv\<close>, a
  function of the history up to and including the call (\<open>g_config\<close>: the configuration
  \<open>eglChooseConfig\<close> stores, \<open>None\<close> when it stores none; \<open>g_frame\<close>: whether a frame arrived while a
  thread waited; \<open>g_rgb888\<close>: the platform's constant for 24-bit RGB). \<open>EGL_TRUE\<close> and \<open>GL_TRUE\<close> are 1. Shader sources are opaque;
  reading a log text of the driver is left out, and so are the calls that only set a fixed mode (depth
  test, culling, blend function, texture filters, the active texture unit, the name and the usage bits
  of a buffer queue).
\<close>

datatype egl_call =
    Egl_getDisplay | Egl_initialize int | Egl_chooseConfig int bool | Egl_createContext int int
  | Egl_createWindowSurface int int | Egl_createPbufferSurface int int int int | Egl_makeCurrent int int int
  | Egl_destroyContext int int | Egl_destroySurface int int | Egl_releaseThread
  | Egl_presentationTime int int int | Egl_swapBuffers int int | Window_width | Window_height

datatype shader_source = kVertexShader | kExtFragmentShader | kFragmentShader

datatype shader_call =
    Gl_createShader bool | Gl_compileShader int shader_source | Gl_shaderStatus int | Gl_deleteShader int
  | Gl_createProgram | Gl_attachShader int int | Gl_linkProgram int | Gl_programStatus int | Gl_deleteProgram int
  | Gl_getAttribLocation int string | Gl_getUniformLocation int string

datatype draw_call =
    Gl_getViewport | Gl_useProgram int | Gl_vertexPointer int "rat list" | Gl_enableArray int | Gl_disableArray int
  | Gl_uniformMatrix int "rat list" | Gl_bindTexture bool int | Gl_uniformInt int int
  | Gl_drawStrip nat | Gl_drawTriangles nat | Gl_getError

datatype texture_call =
    Gl_viewport int int | Gl_genTextures | Gl_texImage nat nat "byte list" | Gl_readPixels int int
  | Gl_updateTexImage | Gl_getTransformMatrix | Gl_getTimestamp | Gl_getFrameNumber | Gl_createQueue int int
  | Gl_blend bool | Gl_scissorTest bool | Gl_scissor int int int int | Gl_clearColor rat | Gl_clear

datatype thread_step =
    T_lock | T_unlock | T_wait | T_signal | F_write "byte list" | F_flush | F_error

datatype system_call =
    Sys_monotonic | Sys_realtime | Sys_time | Sys_property string | Sys_glString nat | Sys_date int | Sys_timeOfDay int

datatype gcall =
    GEgl egl_call | GShader shader_call | GDraw draw_call | GTex texture_call | GSync thread_step | GSys system_call

record genv =
  g_ans :: "gcall list \<Rightarrow> int"
  g_config :: "gcall list \<Rightarrow> int option"
  g_bytes :: "gcall list \<Rightarrow> byte list"
  g_matrix :: "gcall list \<Rightarrow> rat list"
  g_viewport :: "gcall list \<Rightarrow> int \<times> int"
  g_frame :: "gcall list \<Rightarrow> bool"
  g_text :: "gcall list \<Rightarrow> string"
  g_rgb888 :: u32

record gl =
  gtrace :: "gcall list"

definition gcall :: "gcall \<Rightarrow> 'a gl_scheme \<Rightarrow> 'a gl_scheme" where
  "gcall c g = g\<lparr>gtrace := gtrace g @ [c]\<rparr>"

definition gask :: "genv \<Rightarrow> gcall \<Rightarrow> 'a gl_scheme \<Rightarrow> int \<times> 'a gl_scheme" where
  "gask e c g = (let g' = gcall c g in (g_ans e (gtrace g'), g'))"

lemma gtrace_gcall [simp]: "gtrace (gcall c g) = gtrace g @ [c]"
  by (simp add: gcall_def)

lemma gask_eq [simp]: "gask e c g = (g_ans e (gtrace g @ [c]), gcall c g)"
  by (simp add: gask_def)

interpretation gl_calls: call_trace gtrace gcall
  by unfold_locales simp

text \<open>A resource count of the trace.\<close>

definition held :: "(gcall list \<Rightarrow> gcall \<Rightarrow> int) \<Rightarrow> 'a gl_scheme \<Rightarrow> int" where
  "held f g = live_count f [] (gtrace g)"

lemma held_balance: "held f = gl_calls.balance f"
  by (rule ext) (simp add: held_def gl_calls.balance_def)

lemma held_gcall [simp]: "held f (gcall c g) = held f g + f (gtrace g) c"
  by (simp add: held_balance gl_calls.balance_record)

subsection \<open>EglWindow\<close>

record eglwindow =
  mEglDisplay :: int
  mEglContext :: int
  mEglSurface :: int
  mEglConfig :: int
  mWidth :: int
  mHeight :: int

definition eglwindow0 :: eglwindow where
  "eglwindow0 = \<lparr>mEglDisplay = 0, mEglContext = 0, mEglSurface = 0, mEglConfig = 0, mWidth = 0, mHeight = 0\<rparr>"

definition eglSetupContext ::
  "genv \<Rightarrow> bool \<Rightarrow> eglwindow \<Rightarrow> 'a gl_scheme \<Rightarrow> int \<times> eglwindow \<times> 'a gl_scheme" where
  "eglSetupContext e forPbuffer w g =
     (let (display, g1) = gask e (GEgl Egl_getDisplay) g; w1 = w\<lparr>mEglDisplay := display\<rparr> in
      if display = 0 then (UNKNOWN_ERROR, w1, g1) else
      let (result, g2) = gask e (GEgl (Egl_initialize display)) g1 in
      if result \<noteq> 1 then (UNKNOWN_ERROR, w1, g2) else
      let (result, g3) = gask e (GEgl (Egl_chooseConfig display forPbuffer)) g2;
          w2 = (case g_config e (gtrace g3) of None \<Rightarrow> w1 | Some config \<Rightarrow> w1\<lparr>mEglConfig := config\<rparr>) in
      if result \<noteq> 1 then (UNKNOWN_ERROR, w2, g3) else
      let (context, g4) = gask e (GEgl (Egl_createContext display (mEglConfig w2))) g3; w3 = w2\<lparr>mEglContext := context\<rparr> in
      if context = 0 then (UNKNOWN_ERROR, w3, g4) else (NO_ERROR, w3, g4))"

definition eglRelease :: "eglwindow \<Rightarrow> 'a gl_scheme \<Rightarrow> eglwindow \<times> 'a gl_scheme" where
  "eglRelease w g =
     (let g1 = (if mEglDisplay w \<noteq> 0 then
            let h1 = gcall (GEgl (Egl_makeCurrent (mEglDisplay w) 0 0)) g;
                h2 = (if mEglContext w \<noteq> 0 then gcall (GEgl (Egl_destroyContext (mEglDisplay w) (mEglContext w))) h1 else h1)
            in if mEglSurface w \<noteq> 0 then gcall (GEgl (Egl_destroySurface (mEglDisplay w) (mEglSurface w))) h2 else h2
          else g)
      in (w\<lparr>mEglDisplay := 0, mEglContext := 0, mEglSurface := 0, mEglConfig := 0\<rparr>,
          gcall (GEgl Egl_releaseThread) g1))"

definition createWindow :: "genv \<Rightarrow> eglwindow \<Rightarrow> 'a gl_scheme \<Rightarrow> int \<times> eglwindow \<times> 'a gl_scheme" where
  "createWindow e w g =
     (if mEglSurface w \<noteq> 0 then (UNKNOWN_ERROR, w, g) else
      let (err, w1, g1) = eglSetupContext e False w g in
      if err \<noteq> NO_ERROR then (err, w1, g1) else
      let (wd, g2) = gask e (GEgl Window_width) g1; (ht, g3) = gask e (GEgl Window_height) g2;
          (surface, g4) = gask e (GEgl (Egl_createWindowSurface (mEglDisplay w1) (mEglConfig w1))) g3;
          w2 = w1\<lparr>mWidth := wd, mHeight := ht, mEglSurface := surface\<rparr>
      in if surface = 0 then (let (w3, g5) = eglRelease w2 g4 in (UNKNOWN_ERROR, w3, g5))
         else (NO_ERROR, w2, g4))"

definition createPbuffer :: "genv \<Rightarrow> int \<Rightarrow> int \<Rightarrow> eglwindow \<Rightarrow> 'a gl_scheme \<Rightarrow> int \<times> eglwindow \<times> 'a gl_scheme" where
  "createPbuffer e wd ht w g =
     (if mEglSurface w \<noteq> 0 then (UNKNOWN_ERROR, w, g) else
      let (err, w1, g1) = eglSetupContext e True w g in
      if err \<noteq> NO_ERROR then (err, w1, g1) else
      let (surface, g2) = gask e (GEgl (Egl_createPbufferSurface (mEglDisplay w1) (mEglConfig w1) wd ht)) g1;
          w2 = w1\<lparr>mWidth := wd, mHeight := ht, mEglSurface := surface\<rparr>
      in if surface = 0 then (let (w3, g3) = eglRelease w2 g2 in (UNKNOWN_ERROR, w3, g3))
         else (NO_ERROR, w2, g2))"

definition makeCurrent :: "genv \<Rightarrow> eglwindow \<Rightarrow> 'a gl_scheme \<Rightarrow> int \<times> 'a gl_scheme" where
  "makeCurrent e w g =
     (let (ok, g1) = gask e (GEgl (Egl_makeCurrent (mEglDisplay w) (mEglSurface w) (mEglContext w))) g
      in (if ok = 0 then UNKNOWN_ERROR else NO_ERROR, g1))"

definition presentationTime :: "eglwindow \<Rightarrow> int \<Rightarrow> 'a gl_scheme \<Rightarrow> 'a gl_scheme" where
  "presentationTime w whenNsec g = gcall (GEgl (Egl_presentationTime (mEglDisplay w) (mEglSurface w) whenNsec)) g"

definition swapBuffers :: "eglwindow \<Rightarrow> 'a gl_scheme \<Rightarrow> 'a gl_scheme" where
  "swapBuffers w g = gcall (GEgl (Egl_swapBuffers (mEglDisplay w) (mEglSurface w))) g"

text \<open>Contexts and surfaces created and not destroyed.\<close>

definition context_count :: "genv \<Rightarrow> gcall list \<Rightarrow> gcall \<Rightarrow> int" where
  "context_count e past c =
     (case c of GEgl (Egl_createContext _ _) \<Rightarrow> if g_ans e (past @ [c]) \<noteq> 0 then 1 else 0
      | GEgl (Egl_destroyContext _ _) \<Rightarrow> -1 | _ \<Rightarrow> 0)"

definition surface_count :: "genv \<Rightarrow> gcall list \<Rightarrow> gcall \<Rightarrow> int" where
  "surface_count e past c =
     (case c of GEgl (Egl_createWindowSurface _ _) \<Rightarrow> if g_ans e (past @ [c]) \<noteq> 0 then 1 else 0
      | GEgl (Egl_createPbufferSurface _ _ _ _) \<Rightarrow> if g_ans e (past @ [c]) \<noteq> 0 then 1 else 0
      | GEgl (Egl_destroySurface _ _) \<Rightarrow> -1 | _ \<Rightarrow> 0)"

definition egl_inv :: "genv \<Rightarrow> int \<Rightarrow> int \<Rightarrow> eglwindow \<Rightarrow> 'a gl_scheme \<Rightarrow> bool" where
  "egl_inv e contexts surfaces w g =
     ((mEglContext w \<noteq> 0 \<longleftrightarrow> mEglSurface w \<noteq> 0) \<and> (mEglSurface w \<noteq> 0 \<longrightarrow> mEglDisplay w \<noteq> 0) \<and>
      held (context_count e) g = contexts + (if mEglContext w \<noteq> 0 then 1 else 0) \<and>
      held (surface_count e) g = surfaces + (if mEglSurface w \<noteq> 0 then 1 else 0))"

lemmas egl_counts = context_count_def surface_count_def egl_inv_def

lemma eglRelease_inv: "egl_inv e n m w g \<Longrightarrow> eglRelease w g = (w', g') \<Longrightarrow> egl_inv e n m w' g' \<and> mEglSurface w' = 0"
  by (auto simp: eglRelease_def egl_counts Let_def split: if_splits)

lemma eglwindow_step:
  assumes "egl_inv e n m w g"
  shows "createWindow e w g = (err, w', g') \<Longrightarrow> egl_inv e n m w' g' \<and> (err = NO_ERROR \<longleftrightarrow> mEglSurface w = 0 \<and> mEglSurface w' \<noteq> 0)"
    and "createPbuffer e wd ht w g = (err, w', g') \<Longrightarrow> egl_inv e n m w' g' \<and> (err = NO_ERROR \<longleftrightarrow> mEglSurface w = 0 \<and> mEglSurface w' \<noteq> 0)"
  using assms
  by (auto simp: createWindow_def createPbuffer_def eglSetupContext_def eglRelease_def egl_counts status_defs Let_def
      split: if_splits option.splits)

text \<open>Both ways of creating a window keep the contract of a resource.\<close>

definition egl_owns :: "genv \<Rightarrow> int \<times> int \<Rightarrow> eglwindow \<Rightarrow> 'a gl_scheme \<Rightarrow> bool" where
  "egl_owns e k w g = egl_inv e (fst k) (snd k) w g"

definition egl_spent :: "genv \<Rightarrow> 'a gl_scheme \<Rightarrow> int \<times> int" where
  "egl_spent e g = (held (context_count e) g, held (surface_count e) g)"

lemma eglRelease_spent:
  "egl_owns e k w g \<Longrightarrow> eglRelease w g = (w', g') \<Longrightarrow> egl_owns e k w' g' \<and> egl_spent e g' = k"
  using eglRelease_inv [of e "fst k" "snd k" w g w' g'] by (auto simp: egl_owns_def egl_spent_def egl_inv_def prod_eq_iff)

lemma createWindow_owns: "egl_owns e k w g \<Longrightarrow> createWindow e w g = (err, w', g') \<Longrightarrow> egl_owns e k w' g'"
  unfolding egl_owns_def using eglwindow_step(1) by blast

lemma createPbuffer_owns: "egl_owns e k w g \<Longrightarrow> createPbuffer e wd ht w g = (err, w', g') \<Longrightarrow> egl_owns e k w' g'"
  unfolding egl_owns_def using eglwindow_step(2) by blast

interpretation egl_window: resource "createWindow e" eglRelease "egl_owns e" "\<lambda>w. True" "egl_spent e" for e
  by unfold_locales (blast intro: createWindow_owns dest: eglRelease_spent)+

interpretation egl_pbuffer: resource "createPbuffer e wd ht" eglRelease "egl_owns e" "\<lambda>w. True" "egl_spent e" for e wd ht
  by unfold_locales (blast intro: createPbuffer_owns dest: eglRelease_spent)+

definition gl0 :: gl where "gl0 = \<lparr>gtrace = []\<rparr>"

definition ok_genv :: genv where
  "ok_genv = \<lparr>g_ans = (\<lambda>t. case last t of GDraw Gl_getError \<Rightarrow> 0 | GSync _ \<Rightarrow> 0 | _ \<Rightarrow> 1), g_config = (\<lambda>t. Some 1), g_bytes = (\<lambda>t. []),
              g_matrix = (\<lambda>t. []), g_viewport = (\<lambda>t. (2, 4)), g_frame = (\<lambda>t. True), g_text = (\<lambda>t. []), g_rgb888 = 3\<rparr>"

lemma ok_genv_simps [simp]:
  "g_ans ok_genv (t @ [GEgl c1]) = 1" "g_ans ok_genv (t @ [GShader c2]) = 1" "g_ans ok_genv (t @ [GTex c3]) = 1"
  "g_ans ok_genv (t @ [GDraw Gl_getError]) = 0" "g_ans ok_genv (t @ [GSync c4]) = 0"
  "g_config ok_genv t = Some 1" "g_viewport ok_genv t = (2, 4)" "g_frame ok_genv t"
  by (simp_all add: ok_genv_def)

lemma egl_inv0: "egl_inv e 0 0 eglwindow0 gl0"
  by (simp add: egl_inv_def eglwindow0_def gl0_def held_def)

text \<open>C31: A window and its EGL objects stay in step through every operation: there is a context exactly when
  there is a surface, and the contexts and surfaces created and not destroyed are just the ones the
  window holds. Creating succeeds only for a window without a surface, and then it has one; a failed
  creation keeps nothing of its own, and releasing gives everything back.\<close>

theorem eglwindow_balanced:
  assumes "egl_inv e n m w g"
  shows "(case createWindow e w g of (err, w', g') \<Rightarrow>
            egl_inv e n m w' g' \<and> (err = NO_ERROR \<longleftrightarrow> mEglSurface w = 0 \<and> mEglSurface w' \<noteq> 0)) \<and>
         (case createPbuffer e wd ht w g of (err, w', g') \<Rightarrow>
            egl_inv e n m w' g' \<and> (err = NO_ERROR \<longleftrightarrow> mEglSurface w = 0 \<and> mEglSurface w' \<noteq> 0)) \<and>
         (case eglRelease w g of (w', g') \<Rightarrow>
            egl_inv e n m w' g' \<and> held (context_count e) g' = n \<and> held (surface_count e) g' = m)"
proof -
  obtain e1 w1 g1 e2 w2 g2 w3 g3 where c: "createWindow e w g = (e1, w1, g1)" "createPbuffer e wd ht w g = (e2, w2, g2)"
    "eglRelease w g = (w3, g3)" by (metis prod_cases3 surj_pair)
  have "egl_inv e n m w3 g3" "mEglSurface w3 = 0" using eglRelease_inv [OF assms c(3)] by simp_all
  then have "held (context_count e) g3 = n \<and> held (surface_count e) g3 = m" by (simp add: egl_inv_def)
  then show ?thesis
    using eglwindow_step(1) [OF assms c(1)] eglwindow_step(2) [OF assms c(2)] \<open>egl_inv e n m w3 g3\<close> by (simp add: c)
qed

theorem eglwindow_balanced_witness:
  "case createWindow ok_genv eglwindow0 gl0 of (err, w', g') \<Rightarrow> egl_inv ok_genv 0 0 w' g' \<and> err = NO_ERROR"
proof -
  have "case createWindow ok_genv eglwindow0 gl0 of (err, w', g') \<Rightarrow> err = NO_ERROR"
    by (simp add: createWindow_def eglSetupContext_def eglwindow0_def Let_def status_defs)
  then show ?thesis
    using eglwindow_balanced [OF egl_inv0, of ok_genv] by (auto split: prod.splits)
qed

subsection \<open>Program: compiling and linking\<close>

unbundle bit_operations_syntax

datatype program_type = PROGRAM_UNKNOWN | PROGRAM_EXTERNAL_TEXTURE | PROGRAM_TEXTURE_2D

record program =
  mProgramType :: program_type
  mProgram :: int
  maPositionLoc :: int
  maTextureCoordLoc :: int
  muMVPMatrixLoc :: int
  muGLCMatrixLoc :: int
  muTextureLoc :: int

definition program0 :: program where
  "program0 = \<lparr>mProgramType = PROGRAM_UNKNOWN, mProgram = 0, maPositionLoc = 0, maTextureCoordLoc = 0,
               muMVPMatrixLoc = 0, muGLCMatrixLoc = 0, muTextureLoc = 0\<rparr>"

definition kIdentity :: "rat list" where
  "kIdentity = [1, 0, 0, 0,  0, 1, 0, 0,  0, 0, 1, 0,  0, 0, 0, 1]"

text \<open>A shader or a program that was made, or the error.\<close>

definition compileShader :: "genv \<Rightarrow> bool \<Rightarrow> shader_source \<Rightarrow> 'a gl_scheme \<Rightarrow> (int + int) \<times> 'a gl_scheme" where
  "compileShader e vertex src g =
     (let (shader, g1) = gask e (GShader (Gl_createShader vertex)) g in
      if shader = 0 then (Inl UNKNOWN_ERROR, gcall (GDraw Gl_getError) g1) else
      let (compiled, g2) = gask e (GShader (Gl_shaderStatus shader)) (gcall (GShader (Gl_compileShader shader src)) g1)
      in if compiled = 0 then (Inl UNKNOWN_ERROR, gcall (GShader (Gl_deleteShader shader)) g2)
         else (Inr shader, g2))"

definition linkShaderProgram :: "genv \<Rightarrow> int \<Rightarrow> int \<Rightarrow> 'a gl_scheme \<Rightarrow> (int + int) \<times> 'a gl_scheme" where
  "linkShaderProgram e vs fs g =
     (let (program, g1) = gask e (GShader Gl_createProgram) g in
      if program = 0 then (Inl UNKNOWN_ERROR, gcall (GDraw Gl_getError) g1) else
      let g2 = gcall (GShader (Gl_linkProgram program))
                 (gcall (GShader (Gl_attachShader program fs)) (gcall (GShader (Gl_attachShader program vs)) g1));
          (linkStatus, g3) = gask e (GShader (Gl_programStatus program)) g2
      in if linkStatus \<noteq> 1 then (Inl UNKNOWN_ERROR, gcall (GShader (Gl_deleteProgram program)) g3)
         else (Inr program, g3))"

definition createProgram ::
  "genv \<Rightarrow> shader_source \<Rightarrow> shader_source \<Rightarrow> 'a gl_scheme \<Rightarrow> (int + int) \<times> 'a gl_scheme" where
  "createProgram e vertexShader fragmentShader g =
     (case compileShader e True vertexShader g of (Inl err, g1) \<Rightarrow> (Inl err, g1) | (Inr vs, g1) \<Rightarrow>
      (case compileShader e False fragmentShader g1 of
         (Inl err, g2) \<Rightarrow> (Inl err, gcall (GShader (Gl_deleteShader vs)) g2)
       | (Inr fs, g2) \<Rightarrow>
           (let (program, g3) = linkShaderProgram e vs fs g2
            in (program, gcall (GShader (Gl_deleteShader fs)) (gcall (GShader (Gl_deleteShader vs)) g3)))))"

definition program_setup :: "genv \<Rightarrow> program_type \<Rightarrow> program \<Rightarrow> 'a gl_scheme \<Rightarrow> int \<times> program \<times> 'a gl_scheme" where
  "program_setup e type p g =
     (let p1 = p\<lparr>mProgramType := type\<rparr> in
      case createProgram e kVertexShader (if type = PROGRAM_TEXTURE_2D then kFragmentShader else kExtFragmentShader) g of
        (Inl err, g1) \<Rightarrow> (err, p1, g1)
      | (Inr program, g1) \<Rightarrow>
          (let (a, g2) = gask e (GShader (Gl_getAttribLocation program ''aPosition'')) g1;
               (b, g3) = gask e (GShader (Gl_getAttribLocation program ''aTextureCoord'')) g2;
               (c, g4) = gask e (GShader (Gl_getUniformLocation program ''uMVPMatrix'')) g3;
               (d, g5) = gask e (GShader (Gl_getUniformLocation program ''uGLCMatrix'')) g4;
               (t, g6) = gask e (GShader (Gl_getUniformLocation program ''uTexture'')) g5;
               p2 = p1\<lparr>maPositionLoc := a, maTextureCoordLoc := b, muMVPMatrixLoc := c, muGLCMatrixLoc := d,
                       muTextureLoc := t\<rparr>
           in if a OR b OR c OR d OR t = -1
              then (UNKNOWN_ERROR, p2, gcall (GShader (Gl_deleteProgram program)) (gcall (GDraw Gl_getError) g6))
              else (NO_ERROR, p2\<lparr>mProgram := program\<rparr>, g6)))"

definition program_release :: "program \<Rightarrow> 'a gl_scheme \<Rightarrow> program \<times> 'a gl_scheme" where
  "program_release p g =
     (if mProgram p \<noteq> 0 then (p\<lparr>mProgram := 0\<rparr>, gcall (GShader (Gl_deleteProgram (mProgram p))) g) else (p, g))"

text \<open>Shaders and programs created and not deleted.\<close>

definition shader_count :: "genv \<Rightarrow> gcall list \<Rightarrow> gcall \<Rightarrow> int" where
  "shader_count e past c =
     (case c of GShader (Gl_createShader _) \<Rightarrow> if g_ans e (past @ [c]) \<noteq> 0 then 1 else 0
      | GShader (Gl_deleteShader _) \<Rightarrow> -1 | _ \<Rightarrow> 0)"

definition program_count :: "genv \<Rightarrow> gcall list \<Rightarrow> gcall \<Rightarrow> int" where
  "program_count e past c =
     (case c of GShader Gl_createProgram \<Rightarrow> if g_ans e (past @ [c]) \<noteq> 0 then 1 else 0
      | GShader (Gl_deleteProgram _) \<Rightarrow> -1 | _ \<Rightarrow> 0)"

lemmas shader_counts = shader_count_def program_count_def

lemma compileShader_counts:
  assumes "compileShader e v src g = (r, g')"
  shows "held (shader_count e) g' = held (shader_count e) g + (case r of Inl _ \<Rightarrow> 0 | Inr _ \<Rightarrow> 1) \<and>
         held (program_count e) g' = held (program_count e) g \<and> r \<noteq> Inl NO_ERROR"
  using assms by (auto simp: compileShader_def shader_counts status_defs Let_def split: if_splits)

lemma linkShaderProgram_counts:
  assumes "linkShaderProgram e vs fs g = (r, g')"
  shows "held (shader_count e) g' = held (shader_count e) g \<and>
         held (program_count e) g' = held (program_count e) g + (case r of Inl _ \<Rightarrow> 0 | Inr _ \<Rightarrow> 1) \<and>
         r \<noteq> Inl NO_ERROR \<and> r \<noteq> Inr 0"
  using assms by (auto simp: linkShaderProgram_def shader_counts status_defs Let_def split: if_splits)

lemma createProgram_counts:
  assumes "createProgram e v f g = (r, g')"
  shows "held (shader_count e) g' = held (shader_count e) g \<and>
         held (program_count e) g' = held (program_count e) g + (case r of Inl _ \<Rightarrow> 0 | Inr _ \<Rightarrow> 1) \<and>
         r \<noteq> Inl NO_ERROR \<and> r \<noteq> Inr 0"
proof -
  obtain r1 g1 where c1: "compileShader e True v g = (r1, g1)" by (cases "compileShader e True v g")
  note k1 = compileShader_counts [OF c1]
  show ?thesis
  proof (cases r1)
    case (Inl err)
    then show ?thesis using assms c1 k1 by (auto simp: createProgram_def)
  next
    case r1: (Inr vs)
    obtain r2 g2 where c2: "compileShader e False f g1 = (r2, g2)" by (cases "compileShader e False f g1")
    note k2 = compileShader_counts [OF c2]
    show ?thesis
    proof (cases r2)
      case (Inl err)
      then show ?thesis using assms c1 c2 r1 k1 k2 by (auto simp: createProgram_def shader_counts)
    next
      case r2: (Inr fs)
      obtain r3 g3 where c3: "linkShaderProgram e vs fs g2 = (r3, g3)" by (cases "linkShaderProgram e vs fs g2")
      show ?thesis
        using assms c1 c2 c3 r1 r2 k1 k2 linkShaderProgram_counts [OF c3] by (auto simp: createProgram_def shader_counts)
    qed
  qed
qed

lemma setup_counts:
  assumes "program_setup e type p g = (err, p', g')"
  shows "held (shader_count e) g' = held (shader_count e) g \<and>
         held (program_count e) g' = held (program_count e) g + (if err = NO_ERROR then 1 else 0) \<and>
         mProgram p' = (if err = NO_ERROR then mProgram p' else mProgram p) \<and> (err = NO_ERROR \<longrightarrow> mProgram p' \<noteq> 0)"
proof -
  obtain r g1 where c: "createProgram e kVertexShader (if type = PROGRAM_TEXTURE_2D then kFragmentShader else kExtFragmentShader) g = (r, g1)"
    by fastforce
  note k = createProgram_counts [OF c]
  show ?thesis
  proof (cases r)
    case (Inl err)
    then show ?thesis using assms c k by (auto simp: program_setup_def)
  next
    case (Inr program)
    then show ?thesis using assms c k
      by (auto simp: program_setup_def shader_counts status_defs Let_def split: if_splits)
  qed
qed

definition program_owns :: "genv \<Rightarrow> int \<times> int \<Rightarrow> program \<Rightarrow> 'a gl_scheme \<Rightarrow> bool" where
  "program_owns e k p g =
     (held (program_count e) g = fst k + (if mProgram p \<noteq> 0 then 1 else 0) \<and> held (shader_count e) g = snd k)"

definition program_spent :: "genv \<Rightarrow> 'a gl_scheme \<Rightarrow> int \<times> int" where
  "program_spent e g = (held (program_count e) g, held (shader_count e) g)"

interpretation gl_program: resource "program_setup e type" program_release "program_owns e" "\<lambda>p. mProgram p = 0" "program_spent e"
  for e type
proof unfold_locales
  fix k p g err p' g'
  assume "program_owns e k p g" "mProgram p = 0" "program_setup e type p g = (err, p', g')"
  then show "program_owns e k p' g'" using setup_counts [of e type p g err p' g'] by (auto simp: program_owns_def split: if_splits)
next
  fix k p g p' g'
  assume "program_owns e k p g" "program_release p g = (p', g')"
  then show "program_owns e k p' g' \<and> mProgram p' = 0 \<and> program_spent e g' = k"
    by (auto simp: program_owns_def program_spent_def program_release_def shader_counts prod_eq_iff split: if_splits)
qed

text \<open>C30: Setting up a program keeps no shader: whatever compiles, links or fails, every shader created is
  deleted. A GL program stays exactly when the setup succeeds, it is then the one the object holds,
  and a later release deletes it.\<close>

theorem program_balanced:
  assumes "mProgram p = 0"
  shows "case program_setup e type p g of (err, p', g') \<Rightarrow>
     held (shader_count e) g' = held (shader_count e) g \<and>
     held (program_count e) g' = held (program_count e) g + (if err = NO_ERROR then 1 else 0) \<and>
     (err = NO_ERROR \<longleftrightarrow> mProgram p' \<noteq> 0) \<and>
     program_spent e (snd (program_release p' g')) = program_spent e g"
proof -
  obtain err p' g' where s: "program_setup e type p g = (err, p', g')" by (metis prod_cases3)
  have "program_owns e (program_spent e g) p g" using assms by (simp add: program_owns_def program_spent_def)
  from gl_program.acquire_release [OF this assms, of type]
  have "program_spent e (snd (program_release p' g')) = program_spent e g" by (simp add: s split: prod.splits)
  then show ?thesis
    using setup_counts [OF s] assms by (auto simp: s split: if_splits)
qed

theorem program_balanced_witness:
  "case program_setup ok_genv PROGRAM_TEXTURE_2D program0 gl0 of (err, p', g') \<Rightarrow>
     err = NO_ERROR \<and> held (program_count ok_genv) g' = 1"
proof -
  have "case program_setup ok_genv PROGRAM_TEXTURE_2D program0 gl0 of (err, p', g') \<Rightarrow> err = NO_ERROR"
    by (simp add: program_setup_def createProgram_def compileShader_def linkShaderProgram_def program0_def ok_genv_def Let_def)
  then show ?thesis
    using program_balanced [where p = program0 and e = ok_genv and type = PROGRAM_TEXTURE_2D and g = gl0]
    by (auto simp: program0_def gl0_def held_def split: prod.splits)
qed

subsection \<open>Program: drawing\<close>

definition add_int32 :: "int \<Rightarrow> int \<Rightarrow> int res" where
  "add_int32 a b = (if - (2 ^ 31) \<le> a + b \<and> a + b < 2 ^ 31 then Ok (a + b) else Undef)"

definition screenToNdc :: "int \<times> int \<Rightarrow> bool \<Rightarrow> rat list res" where
  "screenToNdc vp invert =
     res_bind (fdiv 2 (of_int32 (fst vp))) (\<lambda>sx.
     res_bind (fdiv (-2) (of_int32 (snd vp))) (\<lambda>sy.
     Ok [sx, 0, 0, 0,
         0, (if invert then - sy else sy), 0, 0,
         0, 0, 1, 0,
         -1, (if invert then -1 else 1), 0, 1]))"

definition enable_arrays :: "program \<Rightarrow> 'a gl_scheme \<Rightarrow> 'a gl_scheme" where
  "enable_arrays p g = gcall (GDraw (Gl_enableArray (maTextureCoordLoc p))) (gcall (GDraw (Gl_enableArray (maPositionLoc p))) g)"

definition disable_arrays :: "program \<Rightarrow> 'a gl_scheme \<Rightarrow> 'a gl_scheme" where
  "disable_arrays p g = gcall (GDraw (Gl_disableArray (maTextureCoordLoc p))) (gcall (GDraw (Gl_disableArray (maPositionLoc p))) g)"

definition beforeDraw ::
  "genv \<Rightarrow> program \<Rightarrow> int \<Rightarrow> rat list \<Rightarrow> rat list \<Rightarrow> rat list \<Rightarrow> bool \<Rightarrow> 'a gl_scheme \<Rightarrow> (int \<times> 'a gl_scheme) res" where
  "beforeDraw e p texName texMatrix vertices texes invert g =
     (let g1 = gcall (GDraw Gl_getViewport) g in
      res_bind (screenToNdc (g_viewport e (gtrace g1)) invert) (\<lambda>ndc.
      let g2 = gcall (GDraw (Gl_vertexPointer (maTextureCoordLoc p) texes))
                 (gcall (GDraw (Gl_vertexPointer (maPositionLoc p) vertices)) (gcall (GDraw (Gl_useProgram (mProgram p))) g1));
          g3 = gcall (GDraw (Gl_uniformMatrix (muGLCMatrixLoc p) texMatrix))
                 (gcall (GDraw (Gl_uniformMatrix (muMVPMatrixLoc p) ndc)) (enable_arrays p g2))
      in if mProgramType p = PROGRAM_UNKNOWN then Ok (UNKNOWN_ERROR, g3) else
      let g4 = gcall (GDraw (Gl_uniformInt (muTextureLoc p) 0))
                 (gcall (GDraw (Gl_bindTexture (mProgramType p = PROGRAM_EXTERNAL_TEXTURE) texName)) g3);
          (glErr, g5) = gask e (GDraw Gl_getError) g4
      in Ok (if glErr \<noteq> 0 then (UNKNOWN_ERROR, disable_arrays p g5) else (NO_ERROR, g5))))"

definition afterDraw :: "genv \<Rightarrow> program \<Rightarrow> 'a gl_scheme \<Rightarrow> int \<times> 'a gl_scheme" where
  "afterDraw e p g =
     (let (glErr, g1) = gask e (GDraw Gl_getError) (disable_arrays p g)
      in (if glErr \<noteq> 0 then UNKNOWN_ERROR else NO_ERROR, g1))"

definition blit_uv :: "rat list" where "blit_uv = [0, 0,  1, 0,  0, 1,  1, 1]"

definition blit ::
  "genv \<Rightarrow> program \<Rightarrow> int \<Rightarrow> rat list \<Rightarrow> int \<Rightarrow> int \<Rightarrow> int \<Rightarrow> int \<Rightarrow> bool \<Rightarrow> 'a gl_scheme \<Rightarrow> (int \<times> 'a gl_scheme) res" where
  "blit e p texName texMatrix x y w h invert g =
     res_bind (add_int32 x w) (\<lambda>xw. res_bind (add_int32 y h) (\<lambda>yh.
     let pos = map of_int32 [x, yh, xw, yh, x, y, xw, y] in
     res_map (\<lambda>(err, g1). if err = NO_ERROR then afterDraw e p (gcall (GDraw (Gl_drawStrip 4)) g1) else (err, g1))
       (beforeDraw e p texName texMatrix pos blit_uv invert g)))"

definition drawTriangles ::
  "genv \<Rightarrow> program \<Rightarrow> int \<Rightarrow> rat list \<Rightarrow> rat list \<Rightarrow> rat list \<Rightarrow> nat \<Rightarrow> 'a gl_scheme \<Rightarrow> (int \<times> 'a gl_scheme) res" where
  "drawTriangles e p texName texMatrix vertices texes count g =
     res_map (\<lambda>(err, g1). if err = NO_ERROR then afterDraw e p (gcall (GDraw (Gl_drawTriangles count)) g1) else (err, g1))
       (beforeDraw e p texName texMatrix vertices texes False g)"

text \<open>Vertex arrays that are enabled more often than disabled.\<close>

definition array_count :: "int \<Rightarrow> gcall list \<Rightarrow> gcall \<Rightarrow> int" where
  "array_count loc past c =
     (case c of GDraw (Gl_enableArray l) \<Rightarrow> (if l = loc then 1 else 0)
      | GDraw (Gl_disableArray l) \<Rightarrow> (if l = loc then -1 else 0) | _ \<Rightarrow> 0)"

lemma beforeDraw_arrays:
  assumes "beforeDraw e p tex m vs ts flip g = Ok (err, g')" and "mProgramType p \<noteq> PROGRAM_UNKNOWN"
  shows "held (array_count loc) (if err = NO_ERROR then disable_arrays p g' else g') = held (array_count loc) g"
  using assms
  by (auto simp: beforeDraw_def res_bind_Ok_iff enable_arrays_def disable_arrays_def array_count_def status_defs Let_def
      split: if_splits)

lemma afterDraw_arrays:
  "held (array_count loc) (snd (afterDraw e p g)) = held (array_count loc) (disable_arrays p g)"
  by (simp add: afterDraw_def array_count_def)

lemma disable_draw:
  "array_count loc (gtrace g) c = 0 \<Longrightarrow>
   held (array_count loc) (disable_arrays p (gcall c g)) = held (array_count loc) (disable_arrays p g)"
  by (simp add: disable_arrays_def array_count_def)

lemma draw_arrays:
  assumes "beforeDraw e p tex m vs ts flip g = Ok (err1, g1)" "mProgramType p \<noteq> PROGRAM_UNKNOWN"
    and "(err, g') = (if err1 = NO_ERROR then afterDraw e p (gcall c g1) else (err1, g1))"
    and "array_count loc (gtrace g1) c = 0"
  shows "held (array_count loc) g' = held (array_count loc) g"
  using beforeDraw_arrays [OF assms(1,2), of loc] assms(3,4) afterDraw_arrays [of loc e p "gcall c g1"] disable_draw [of loc g1 c p]
  by (auto split: if_splits) (metis snd_conv)

lemma blit_arrays:
  assumes "blit e p tex m x y w h flip g = Ok (err, g')" "mProgramType p \<noteq> PROGRAM_UNKNOWN"
  shows "held (array_count loc) g' = held (array_count loc) g"
  using assms by (auto simp: blit_def res_bind_Ok_iff res_map_Ok_iff Let_def)
    (rule draw_arrays, auto simp: array_count_def)

lemma drawTriangles_arrays:
  assumes "drawTriangles e p tex m vs ts n g = Ok (err, g')" "mProgramType p \<noteq> PROGRAM_UNKNOWN"
  shows "held (array_count loc) g' = held (array_count loc) g"
  using assms by (auto simp: drawTriangles_def res_map_Ok_iff)
    (rule draw_arrays, auto simp: array_count_def)

text \<open>A program that was never set up is reported by \<open>beforeDraw\<close>, but the early return leaves both
  vertex arrays enabled, where the other error path of the routine disables them.\<close>

theorem unknown_program_keeps_arrays:
  assumes "screenToNdc (g_viewport e (gtrace g @ [GDraw Gl_getViewport])) invert \<noteq> Undef"
    and "mProgramType p = PROGRAM_UNKNOWN"
  shows "\<exists>g'. beforeDraw e p tex m vs ts invert g = Ok (UNKNOWN_ERROR, g') \<and>
              held (array_count (maPositionLoc p)) g' > held (array_count (maPositionLoc p)) g"
proof -
  have "screenToNdc v b \<noteq> NoFuel" for v b by (auto simp: screenToNdc_def fdiv_def)
  then obtain ndc where "screenToNdc (g_viewport e (gtrace g @ [GDraw Gl_getViewport])) invert = Ok ndc"
    using assms(1) by (metis res.exhaust)
  then show ?thesis
    using assms(2) by (auto simp: beforeDraw_def enable_arrays_def array_count_def Let_def)
qed

subsection \<open>What a routine may call\<close>

text \<open>From \<open>g\<close> to \<open>g'\<close> only calls that satisfy \<open>P\<close> were made, and nothing else of the state changed.\<close>

definition calls :: "(gcall \<Rightarrow> bool) \<Rightarrow> 'a gl_scheme \<Rightarrow> 'a gl_scheme \<Rightarrow> bool" where
  "calls P g g' = (\<exists>cs. (\<forall>c \<in> set cs. P c) \<and> g' = g\<lparr>gtrace := gtrace g @ cs\<rparr>)"

lemma calls_refl [simp, intro]: "calls P g g"
  unfolding calls_def by (rule exI [of _ "[]"]) simp

lemma calls_gcall [intro!]: "P c \<Longrightarrow> calls P g g' \<Longrightarrow> calls P g (gcall c g')"
  unfolding calls_def gcall_def by (elim exE, rule_tac x = "cs @ [c]" in exI) auto

lemma calls_trans [trans]: "calls P f g \<Longrightarrow> calls P g h \<Longrightarrow> calls P f h"
  unfolding calls_def by (elim exE, rule_tac x = "cs @ csa" in exI) auto

lemma calls_mono: "calls P g g' \<Longrightarrow> (\<And>c. P c \<Longrightarrow> Q c) \<Longrightarrow> calls Q g g'"
  unfolding calls_def by blast

definition is_draw :: "gcall \<Rightarrow> bool" where
  "is_draw c = (case c of GDraw _ \<Rightarrow> True | _ \<Rightarrow> False)"

lemma is_draw_simps [simp]:
  "is_draw (GDraw d)" "\<not> is_draw (GEgl a)" "\<not> is_draw (GShader b)" "\<not> is_draw (GTex c)" "\<not> is_draw (GSync f)" "\<not> is_draw (GSys h)"
  by (simp_all add: is_draw_def)

abbreviation draws :: "'a gl_scheme \<Rightarrow> 'a gl_scheme \<Rightarrow> bool" where "draws \<equiv> calls is_draw"

definition is_egl :: "gcall \<Rightarrow> bool" where
  "is_egl c = (case c of GEgl _ \<Rightarrow> True | _ \<Rightarrow> False)"

definition is_prog :: "gcall \<Rightarrow> bool" where
  "is_prog c = (case c of GShader _ \<Rightarrow> True | GDraw _ \<Rightarrow> True | _ \<Rightarrow> False)"

lemma is_egl_prog_simps [simp]:
  "is_egl (GEgl a)" "is_prog (GShader b)" "is_prog (GDraw d)" "\<not> is_prog (GEgl a)" "\<not> is_prog (GTex c)"
  by (simp_all add: is_egl_def is_prog_def)

text \<open>Calls that do not touch a resource leave its count alone.\<close>

lemma calls_added: "calls P g g' \<Longrightarrow> gl_calls.added P g g'"
  by (auto simp: calls_def gl_calls.added_def list_all_iff)

lemma held_calls:
  assumes "calls P g g'" and "\<And>past c. P c \<Longrightarrow> f past c = 0"
  shows "held f g' = held f g"
  unfolding held_balance by (rule gl_calls.balance_added [OF calls_added [OF assms(1)] assms(2)])

lemma counts_apart:
  "is_egl c \<Longrightarrow> shader_count e past c = 0" "is_egl c \<Longrightarrow> program_count e past c = 0"
  "is_prog c \<Longrightarrow> context_count e past c = 0" "is_prog c \<Longrightarrow> surface_count e past c = 0"
  "is_draw c \<Longrightarrow> shader_count e past c = 0" "is_draw c \<Longrightarrow> program_count e past c = 0"
  "is_draw c \<Longrightarrow> context_count e past c = 0" "is_draw c \<Longrightarrow> surface_count e past c = 0"
  by (auto simp: is_egl_def is_prog_def is_draw_def egl_counts shader_counts split: gcall.splits)

lemma eglRelease_calls: "calls is_egl g (snd (eglRelease win g))"
  by (auto simp: eglRelease_def Let_def)

lemma eglSetupContext_calls: "calls is_egl g (snd (snd (eglSetupContext e b win g)))"
  by (auto simp: eglSetupContext_def Let_def)

lemma createPbuffer_calls: "calls is_egl g (snd (snd (createPbuffer e w h win g)))"
proof -
  obtain err w1 g1 where s: "eglSetupContext e True win g = (err, w1, g1)" by (metis prod_cases3)
  then have k: "calls is_egl g g1" using eglSetupContext_calls [of g e True win] by simp
  then show ?thesis
    by (auto simp: createPbuffer_def s Let_def prod.case_eq_if intro!: calls_trans [OF _ eglRelease_calls])
qed

lemma createWindow_calls: "calls is_egl g (snd (snd (createWindow e win g)))"
proof -
  obtain err w1 g1 where s: "eglSetupContext e False win g = (err, w1, g1)" by (metis prod_cases3)
  then have k: "calls is_egl g g1" using eglSetupContext_calls [of g e False win] by simp
  then show ?thesis
    by (auto simp: createWindow_def s Let_def prod.case_eq_if intro!: calls_trans [OF _ eglRelease_calls])
qed

lemma makeCurrent_calls: "calls is_egl g (snd (makeCurrent e win g))"
  by (auto simp: makeCurrent_def)

lemmas egl_calls = createPbuffer_calls createWindow_calls makeCurrent_calls eglRelease_calls

lemma compileShader_calls: "compileShader e v src g = (r, g') \<Longrightarrow> calls is_prog g g'"
  by (auto simp: compileShader_def Let_def split: if_splits)

lemma linkShaderProgram_calls: "linkShaderProgram e vs fs g = (r, g') \<Longrightarrow> calls is_prog g g'"
  by (auto simp: linkShaderProgram_def Let_def split: if_splits)

lemma createProgram_calls:
  assumes "createProgram e v f g = (r, g')"
  shows "calls is_prog g g'"
proof -
  obtain r1 g1 where c1: "compileShader e True v g = (r1, g1)" by (cases "compileShader e True v g")
  obtain r2 g2 where c2: "compileShader e False f g1 = (r2, g2)" by (cases "compileShader e False f g1")
  note k1 = compileShader_calls [OF c1] note k2 = calls_trans [OF k1 compileShader_calls [OF c2]]
  show ?thesis
  proof (cases r1)
    case (Inl err)
    then show ?thesis using assms c1 k1 by (simp add: createProgram_def)
  next
    case r1: (Inr vs)
    show ?thesis
    proof (cases r2)
      case (Inl err)
      then show ?thesis using assms c1 c2 r1 k2 by (auto simp: createProgram_def)
    next
      case r2: (Inr fs)
      obtain r3 g3 where c3: "linkShaderProgram e vs fs g2 = (r3, g3)" by (cases "linkShaderProgram e vs fs g2")
      show ?thesis
        using assms c1 c2 c3 r1 r2 calls_trans [OF k2 linkShaderProgram_calls [OF c3]] by (auto simp: createProgram_def)
    qed
  qed
qed

lemma program_setup_calls: "calls is_prog g (snd (snd (program_setup e type p g)))"
proof -
  obtain r g1 where c: "createProgram e kVertexShader (if type = PROGRAM_TEXTURE_2D then kFragmentShader else kExtFragmentShader) g = (r, g1)"
    by fastforce
  then show ?thesis
    using createProgram_calls [OF c] by (auto simp: program_setup_def Let_def split: sum.split)
qed

lemma program_release_calls: "calls is_prog g (snd (program_release p g))"
  by (auto simp: program_release_def)

lemma beforeDraw_draws: "beforeDraw e p tex m vs ts flip g = Ok (err, g') \<Longrightarrow> draws g g'"
  by (auto simp: beforeDraw_def res_bind_Ok_iff enable_arrays_def disable_arrays_def Let_def split: if_splits)

lemma beforeDraw_err: "beforeDraw e p tex m vs ts flip g = Ok (err, g') \<Longrightarrow> err = NO_ERROR \<or> err = UNKNOWN_ERROR"
  by (auto simp: beforeDraw_def res_bind_Ok_iff Let_def split: if_splits)

lemma afterDraw_draws: "draws f g \<Longrightarrow> draws f (snd (afterDraw e p g))"
  by (auto simp: afterDraw_def disable_arrays_def)

lemma afterDraw_err: "fst (afterDraw e p g) = NO_ERROR \<or> fst (afterDraw e p g) = UNKNOWN_ERROR"
  by (simp add: afterDraw_def)

lemma draw_step:
  assumes "beforeDraw e p tex m vs ts flip g = Ok (err1, g1)"
    and "(err, g') = (if err1 = NO_ERROR then afterDraw e p (gcall (GDraw d) g1) else (err1, g1))"
  shows "draws g g' \<and> (err = NO_ERROR \<or> err = UNKNOWN_ERROR)"
proof (cases "err1 = NO_ERROR")
  case True
  then have "err = fst (afterDraw e p (gcall (GDraw d) g1))" "g' = snd (afterDraw e p (gcall (GDraw d) g1))"
    using assms(2) by (metis fst_conv, metis snd_conv)
  then show ?thesis
    using afterDraw_draws [OF calls_gcall [OF is_draw_simps(1) beforeDraw_draws [OF assms(1)]]] afterDraw_err by metis
next
  case False
  then show ?thesis using assms beforeDraw_draws [OF assms(1)] beforeDraw_err [OF assms(1)] by simp
qed

lemma blit_draws:
  assumes "blit e p tex m x y w h flip g = Ok (err, g')"
  shows "draws g g' \<and> (err = NO_ERROR \<or> err = UNKNOWN_ERROR)"
  using assms by (auto simp: blit_def res_bind_Ok_iff res_map_Ok_iff Let_def) (drule (1) draw_step, simp)+

lemma drawTriangles_draws:
  assumes "drawTriangles e p tex m vs ts n g = Ok (err, g')"
  shows "draws g g' \<and> (err = NO_ERROR \<or> err = UNKNOWN_ERROR)"
  using assms by (auto simp: drawTriangles_def res_map_Ok_iff) (drule (1) draw_step, simp)+

end
