(* ===== verification/Frame_Output.thy ===== *)
theory Frame_Output
  imports Gl_Program Wire_Format
begin

section \<open>Frames written as pixels\<close>

text \<open>
  \<open>screenrecord/FrameOutput.cpp\<close>: the input surface, the copy of one frame (wait, draw, read back, drop
  the alpha bytes in place, write a header and the pixels) and the callback that announces a frame.
  \<open>setValueLE\<close> is in \<open>Wire_Format\<close>. A wait lets the callback run, when \<open>g_frame\<close> says so.
\<close>

record frame_output = gl +
  mFrameAvailable :: bool
  mEglWindow :: eglwindow
  mExtTexProgram :: program
  mExtTextureName :: int
  mPixelBuf :: "byte list option"

definition frame_output0 :: frame_output where
  "frame_output0 = \<lparr>gtrace = [], mFrameAvailable = False, mEglWindow = eglwindow0, mExtTexProgram = program0,
     mExtTextureName = 0, mPixelBuf = None\<rparr>"

definition kGlBytesPerPixel :: int where "kGlBytesPerPixel = 4"
definition kOutBytesPerPixel :: int where "kOutBytesPerPixel = 3"

subsection \<open>Dropping the alpha bytes\<close>

text \<open>Three bytes are copied one after the other; \<open>r\<close> is the read and \<open>w\<close> the write position.\<close>

definition copy_byte :: "nat \<Rightarrow> nat \<Rightarrow> byte list \<Rightarrow> byte list res" where
  "copy_byte w r buf = (if w < length buf \<and> r < length buf then Ok (buf[w := buf ! r]) else Undef)"

fun reduce_loop :: "nat \<Rightarrow> nat \<Rightarrow> nat \<Rightarrow> byte list \<Rightarrow> byte list res" where
  "reduce_loop 0 w r buf = Ok buf"
| "reduce_loop (Suc n) w r buf =
     res_bind (copy_byte w r buf) (\<lambda>b1.
     res_bind (copy_byte (w + 1) (r + 1) b1) (\<lambda>b2.
     res_bind (copy_byte (w + 2) (r + 2) b2) (\<lambda>b3. reduce_loop n (w + 3) (r + 4) b3)))"

definition reduceRgbaToRgb :: "byte list \<Rightarrow> nat \<Rightarrow> byte list res" where
  "reduceRgbaToRgb buf pixelCount = reduce_loop pixelCount 0 0 buf"

text \<open>What it is to compute: the first three of every four bytes.\<close>

fun rgb_of :: "byte list \<Rightarrow> byte list" where
  "rgb_of (a # b # c # d # bs) = a # b # c # rgb_of bs"
| "rgb_of bs = []"

lemma copy_pixel:
  assumes "length pre = w" "length mid = k"
  shows "res_bind (copy_byte w (w + k) (pre @ mid @ a # b # c # d # rest)) (\<lambda>b1.
         res_bind (copy_byte (w + 1) (w + k + 1) b1) (\<lambda>b2. copy_byte (w + 2) (w + k + 2) b2)) =
         Ok ((pre @ [a, b, c]) @ drop 3 (mid @ [a, b, c, d]) @ rest)"
proof -
  consider "mid = []" | x where "mid = [x]" | x y where "mid = [x, y]" | x y z m where "mid = x # y # z # m"
    by (metis neq_Nil_conv)
  then show ?thesis
    using assms by cases (auto simp: copy_byte_def nth_append list_update_append)
qed

lemma four_cons: "4 \<le> length xs \<Longrightarrow> \<exists>a b c d t. xs = a # b # c # d # t"
  by (auto simp: numeral_eq_Suc Suc_le_length_iff)

lemma reduce_loop_correct:
  assumes "length pre = w" "length mid = k" "4 * n \<le> length rest"
  shows "reduce_loop n w (w + k) (pre @ mid @ rest) =
         Ok (pre @ rgb_of (take (4 * n) rest) @ drop (3 * n) (mid @ rest))"
  using assms
proof (induction n arbitrary: w k pre mid rest)
  case (Suc n)
  then obtain a b c d tail where rest: "rest = a # b # c # d # tail"
    using four_cons [of rest] by auto
  let ?pre = "pre @ [a, b, c]" let ?mid = "drop 3 (mid @ [a, b, c, d])"
  have "reduce_loop (Suc n) w (w + k) (pre @ mid @ rest) = reduce_loop n (w + 3) (w + k + 4) (?pre @ ?mid @ tail)"
    using copy_pixel [OF Suc.prems(1,2), of a b c d tail] by (simp add: rest flip: res_bind_assoc)
  also have "\<dots> = Ok (?pre @ rgb_of (take (4 * n) tail) @ drop (3 * n) (?mid @ tail))"
  proof -
    have "length ?pre = w + 3" "length ?mid = k + 1" "4 * n \<le> length tail" using Suc.prems by (simp_all add: rest)
    moreover have "w + k + 4 = w + 3 + (k + 1)" by simp
    ultimately show ?thesis by (metis Suc.IH)
  qed
  moreover have "drop (3 * n) (?mid @ tail) = drop (3 * Suc n) (mid @ rest)"
  proof -
    have "?mid @ tail = drop 3 ((mid @ [a, b, c, d]) @ tail)" by (simp only: drop_append) simp
    then have "?mid @ tail = drop 3 (mid @ rest)" by (simp only: rest append_assoc append.simps)
    then show ?thesis by (simp only: drop_drop) (simp add: add.commute)
  qed
  moreover have "rgb_of (take (4 * Suc n) rest) = [a, b, c] @ rgb_of (take (4 * n) tail)"
    by (simp add: rest take_Cons')
  ultimately show ?case by (simp only: append_assoc)
qed simp

lemma reduce_correct_lemma:
  "4 * n \<le> length buf \<Longrightarrow> reduceRgbaToRgb buf n = Ok (rgb_of (take (4 * n) buf) @ drop (3 * n) buf)"
  using reduce_loop_correct [of "[]" 0 "[]" 0 n buf] by (simp add: reduceRgbaToRgb_def)

text \<open>C16: The in-place reduction is the one by definition: although the bytes are moved within one buffer,
  no pixel is overwritten before it is read. Afterwards the buffer starts with the first three bytes
  of every four, in order, and its tail is untouched; no access is out of bounds.\<close>

theorem reduceRgbaToRgb_correct:
  assumes "4 * n \<le> length buf"
  shows "reduceRgbaToRgb buf n = Ok (rgb_of (take (4 * n) buf) @ drop (3 * n) buf)"
  using reduce_correct_lemma [OF assms] .

theorem reduceRgbaToRgb_correct_witness:
  "reduceRgbaToRgb [1, 2, 3, 255, 4, 5, 6, 255] 2 = Ok [1, 2, 3, 4, 5, 6, 6, 255]"
  using reduceRgbaToRgb_correct [of 2 "[1, 2, 3, 255, 4, 5, 6, 255]"] by simp

lemma length_rgb_of: "length (rgb_of xs) = 3 * (length xs div 4)"
  by (induction xs rule: rgb_of.induct) auto

subsection \<open>The input surface\<close>

text \<open>\<open>width * height * 4\<close> in \<open>int\<close>.\<close>

definition pixel_bytes :: "int \<Rightarrow> int \<Rightarrow> nat res" where
  "pixel_bytes w h =
     (let n = w * h * kGlBytesPerPixel
      in if - (2 ^ 31) \<le> w * h \<and> w * h < 2 ^ 31 \<and> 0 \<le> n \<and> n < 2 ^ 31 then Ok (nat n) else Undef)"

definition createInputSurface :: "genv \<Rightarrow> int \<Rightarrow> int \<Rightarrow> frame_output \<Rightarrow> (int \<times> frame_output) res" where
  "createInputSurface e w h s =
     (let (err, win, s1) = createPbuffer e w h (mEglWindow s) s; s2 = s1\<lparr>mEglWindow := win\<rparr> in
      if err \<noteq> NO_ERROR then Ok (err, s2) else
      let s3 = gcall (GTex (Gl_viewport w h)) (snd (makeCurrent e win s2));
          (err, prog, s4) = program_setup e PROGRAM_EXTERNAL_TEXTURE (mExtTexProgram s3) s3;
          s5 = s4\<lparr>mExtTexProgram := prog\<rparr> in
      if err \<noteq> NO_ERROR then Ok (err, s5) else
      let (name, s6) = gask e (GTex Gl_genTextures) s5; s7 = s6\<lparr>mExtTextureName := name\<rparr> in
      if name = 0 then Ok (UNKNOWN_ERROR, gcall (GDraw Gl_getError) s7) else
      res_map (\<lambda>n. (NO_ERROR, (gcall (GTex (Gl_createQueue w h)) s7)\<lparr>mPixelBuf := Some (replicate n 0)\<rparr>))
        (pixel_bytes w h))"

definition prepareToCopy :: "genv \<Rightarrow> frame_output \<Rightarrow> frame_output" where
  "prepareToCopy e s = snd (makeCurrent e (mEglWindow s) s)"

subsection \<open>Copying a frame\<close>

definition onFrameAvailable :: "frame_output \<Rightarrow> frame_output" where
  "onFrameAvailable s =
     gcall (GSync T_unlock) (gcall (GSync T_signal) ((gcall (GSync T_lock) s)\<lparr>mFrameAvailable := True\<rparr>))"

text \<open>The wait gives up the mutex, so the callback may run during it.\<close>

definition wait_frame :: "genv \<Rightarrow> frame_output \<Rightarrow> int \<times> frame_output" where
  "wait_frame e s =
     (let (cc, s1) = gask e (GSync T_wait) s in (cc, if g_frame e (gtrace s1) then onFrameAvailable s1 else s1))"

definition frame_header :: "genv \<Rightarrow> int \<Rightarrow> int \<Rightarrow> byte list" where
  "frame_header e w h =
     (let rgbDataLen = w * h * kOutBytesPerPixel
      in setValueLE (word_of_int (20 - 4 + rgbDataLen)) @ setValueLE (word_of_int w) @ setValueLE (word_of_int h) @
         setValueLE (word_of_int (w * kOutBytesPerPixel)) @ setValueLE (g_rgb888 e))"

definition write_frame :: "genv \<Rightarrow> bool \<Rightarrow> int \<Rightarrow> int \<Rightarrow> frame_output \<Rightarrow> (int \<times> frame_output) res" where
  "write_frame e rawFrames w h s =
     (case mPixelBuf s of None \<Rightarrow> Undef | Some buf \<Rightarrow>
      let n = nat (w * h * kOutBytesPerPixel);
          s1 = (if rawFrames then s else gcall (GSync (F_write (frame_header e w h))) s);
          s2 = gcall (GSync F_flush) (gcall (GSync (F_write (take n buf))) s1);
          (bad, s3) = gask e (GSync F_error) s2
      in if length buf < n then Undef else Ok (if bad \<noteq> 0 then UNKNOWN_ERROR else NO_ERROR, s3))"

definition read_pixels :: "genv \<Rightarrow> int \<Rightarrow> int \<Rightarrow> frame_output \<Rightarrow> frame_output res" where
  "read_pixels e w h s =
     (let s1 = gcall (GTex (Gl_readPixels w h)) s; n = nat (w * h * kGlBytesPerPixel)
      in case mPixelBuf s1 of None \<Rightarrow> Undef
         | Some buf \<Rightarrow> if length buf < n then Undef
                       else Ok (s1\<lparr>mPixelBuf := Some (prefix_of (g_bytes e (gtrace s1)) n @ drop n buf)\<rparr>))"

text \<open>From the frame on: draw it upside down, read it back, reduce it, write it.\<close>

definition copy_available :: "genv \<Rightarrow> bool \<Rightarrow> frame_output \<Rightarrow> (int \<times> frame_output) res" where
  "copy_available e rawFrames s =
     (let s1 = gcall (GTex Gl_getTransformMatrix) (gcall (GTex Gl_updateTexImage) (s\<lparr>mFrameAvailable := False\<rparr>));
          w = mWidth (mEglWindow s1); h = mHeight (mEglWindow s1) in
      res_bind (blit e (mExtTexProgram s1) (mExtTextureName s1) (g_matrix e (gtrace s1)) 0 0 w h True s1) (\<lambda>(err, s2).
      if err \<noteq> NO_ERROR then Ok (err, s2) else
      res_bind (read_pixels e w h s2) (\<lambda>s3.
      let (glErr, s4) = gask e (GDraw Gl_getError) s3 in
      if glErr \<noteq> 0 then Ok (UNKNOWN_ERROR, s4) else
      res_bind (case mPixelBuf s4 of None \<Rightarrow> Undef | Some buf \<Rightarrow> reduceRgbaToRgb buf (nat (w * h))) (\<lambda>buf.
      write_frame e rawFrames w h (s4\<lparr>mPixelBuf := Some buf\<rparr>)))))"

definition copyFrame :: "genv \<Rightarrow> bool \<Rightarrow> frame_output \<Rightarrow> (int \<times> frame_output) res" where
  "copyFrame e rawFrames s =
     (let s1 = gcall (GSync T_lock) s;
          (cc, s2) = (if mFrameAvailable s1 then (0, s1) else wait_frame e s1)
      in res_map (\<lambda>(err, s'). (err, gcall (GSync T_unlock) s'))
           (if cc = - ETIMEDOUT then Ok (ETIMEDOUT, s2)
            else if cc \<noteq> 0 then Ok (cc, s2)
            else if \<not> mFrameAvailable s2 then Ok (ETIMEDOUT, s2)
            else copy_available e rawFrames s2))"

subsection \<open>What is written\<close>

definition file_out :: "gcall \<Rightarrow> byte list" where
  "file_out c = (case c of GSync (F_write bs) \<Rightarrow> bs | _ \<Rightarrow> [])"

definition file_bytes :: "'a gl_scheme \<Rightarrow> byte list" where
  "file_bytes g = concat (map file_out (gtrace g))"

lemma file_bytes_gcall [simp]: "file_bytes (gcall c g) = file_bytes g @ file_out c"
  by (simp add: file_bytes_def)

text \<open>The frames that \<open>glReadPixels\<close> delivered, in order.\<close>

definition reading :: "genv \<Rightarrow> gcall list \<Rightarrow> gcall \<Rightarrow> byte list list" where
  "reading e past c =
     (case c of GTex (Gl_readPixels w h) \<Rightarrow> [prefix_of (g_bytes e (past @ [c])) (nat (w * h * 4))] | _ \<Rightarrow> [])"

fun readings :: "genv \<Rightarrow> gcall list \<Rightarrow> gcall list \<Rightarrow> byte list list" where
  "readings e past [] = []"
| "readings e past (c # cs) = reading e past c @ readings e (past @ [c]) cs"

definition frames_read :: "genv \<Rightarrow> 'a gl_scheme \<Rightarrow> byte list list" where
  "frames_read e g = readings e [] (gtrace g)"

lemma readings_append: "readings e past (xs @ ys) = readings e past xs @ readings e (past @ xs) ys"
  by (induction xs arbitrary: past) auto

lemma frames_read_gcall [simp]: "frames_read e (gcall c g) = frames_read e g @ reading e (gtrace g) c"
  by (simp add: frames_read_def readings_append)

lemma reading_simps [simp]:
  "reading e past (GSync x) = []" "reading e past (GDraw d) = []"
  "reading e past (GTex (Gl_readPixels w h)) = [prefix_of (g_bytes e (past @ [GTex (Gl_readPixels w h)])) (nat (w * h * 4))]"
  "reading e past (GTex Gl_updateTexImage) = []" "reading e past (GTex Gl_getTransformMatrix) = []"
  by (simp_all add: reading_def)

lemma frames_read_update [simp]:
  "frames_read e (s\<lparr>mFrameAvailable := a\<rparr>) = frames_read e s" "frames_read e (s\<lparr>mPixelBuf := b\<rparr>) = frames_read e s"
  by (simp_all add: frames_read_def)

lemma file_bytes_update [simp]:
  "file_bytes (s\<lparr>mFrameAvailable := a\<rparr>) = file_bytes s" "file_bytes (s\<lparr>mPixelBuf := b\<rparr>) = file_bytes s"
  by (simp_all add: file_bytes_def)

lemma frame_output_gcall [simp]:
  "mFrameAvailable (gcall c s) = mFrameAvailable s" "mPixelBuf (gcall c s) = mPixelBuf s"
  "mEglWindow (gcall c s) = mEglWindow s"
  by (simp_all add: gcall_def)

lemma draw_no_output: "\<forall>c \<in> set cs. is_draw c \<Longrightarrow> map file_out cs = map (\<lambda>c. []) cs"
  by (auto simp: file_out_def is_draw_def split: gcall.splits)

lemma draw_no_reading: "\<forall>c \<in> set cs. is_draw c \<Longrightarrow> readings e past cs = []"
  by (induction cs arbitrary: past) (auto simp: reading_def is_draw_def split: gcall.splits)

lemma blit_keeps:
  assumes "blit e p tex m x y w h flip s = Ok (err, s')"
  shows "file_bytes s' = file_bytes s \<and> mFrameAvailable s' = mFrameAvailable s \<and> mPixelBuf s' = mPixelBuf s \<and>
         frames_read e s' = frames_read e s \<and> err \<noteq> ETIMEDOUT"
proof -
  obtain cs where cs: "gtrace s' = gtrace s @ cs" "\<forall>c \<in> set cs. is_draw c" "mFrameAvailable s' = mFrameAvailable s"
    "mPixelBuf s' = mPixelBuf s" "err \<noteq> ETIMEDOUT"
    using blit_draws [OF assms] by (auto simp: calls_def status_defs)
  then show ?thesis
    by (simp add: file_bytes_def frames_read_def readings_append draw_no_output draw_no_reading)
qed

lemma write_frame_out:
  assumes "write_frame e raw w h s = Ok (err, s')"
  shows "\<exists>buf. mPixelBuf s = Some buf \<and> err \<noteq> ETIMEDOUT \<and> mFrameAvailable s' = mFrameAvailable s \<and> frames_read e' s' = frames_read e' s \<and>
           file_bytes s' = file_bytes s @ (if raw then [] else frame_header e w h) @ take (nat (w * h * 3)) buf"
  using assms
  by (auto simp: write_frame_def Let_def kOutBytesPerPixel_def file_out_def status_defs split: option.splits if_splits)

lemma pixels_of_buffer:
  assumes "0 \<le> w * h" "length buf = nat (w * h * 4)" "reduceRgbaToRgb (buf @ rest) (nat (w * h)) = Ok buf'"
  shows "take (nat (w * h * 3)) buf' = rgb_of buf"
proof -
  obtain n where n: "w * h = int n" using assms(1) by (metis nonneg_int_cases)
  have "length buf = 4 * n" using assms(2) by (simp add: n)
  then show ?thesis
    using reduce_correct_lemma [of n "buf @ rest"] assms(3) by (auto simp: n length_rgb_of nat_mult_distrib)
qed

lemma copy_available_out:
  assumes "copy_available e raw s = Ok (err, s')" and wh: "mWidth (mEglWindow s) = w" "mHeight (mEglWindow s) = h" "0 \<le> w * h"
  shows "\<not> mFrameAvailable s' \<and> err \<noteq> ETIMEDOUT \<and>
         (file_bytes s' = file_bytes s \<and> err \<noteq> NO_ERROR \<or>
          (\<exists>px. frames_read e s' = frames_read e s @ [px] \<and> length px = nat (w * h * 4) \<and>
                 file_bytes s' = file_bytes s @ (if raw then [] else frame_header e w h) @ rgb_of px))"
proof -
  let ?s1 = "gcall (GTex Gl_getTransformMatrix) (gcall (GTex Gl_updateTexImage) (s\<lparr>mFrameAvailable := False\<rparr>))"
  obtain err2 s2 where b: "blit e (mExtTexProgram ?s1) (mExtTextureName ?s1) (g_matrix e (gtrace ?s1)) 0 0 w h True ?s1 = Ok (err2, s2)"
    using assms by (auto simp: copy_available_def res_bind_Ok_iff Let_def)
  note k = blit_keeps [OF b]
  show ?thesis
  proof (cases "err2 = NO_ERROR")
    case False
    then show ?thesis using assms b k by (auto simp: copy_available_def Let_def file_out_def)
  next
    case True
    obtain s3 where r: "read_pixels e w h s2 = Ok s3"
      using assms b True by (auto simp: copy_available_def res_bind_Ok_iff Let_def)
    let ?px = "prefix_of (g_bytes e (gtrace s2 @ [GTex (Gl_readPixels w h)])) (nat (w * h * 4))"
    obtain buf where s3: "mPixelBuf s3 = Some (?px @ buf)" "file_bytes s3 = file_bytes s2"
      "mFrameAvailable s3 = mFrameAvailable s2" "frames_read e s3 = frames_read e s2 @ [?px]"
      using r by (auto simp: read_pixels_def Let_def kGlBytesPerPixel_def file_out_def split: option.splits if_splits)
    show ?thesis
    proof (cases "g_ans e (gtrace s3 @ [GDraw Gl_getError]) = 0")
      case False
      then show ?thesis using assms b k r s3 True by (auto simp: copy_available_def Let_def file_out_def status_defs)
    next
      case noerr: True
      obtain buf' where red: "reduceRgbaToRgb (?px @ buf) (nat (w * h)) = Ok buf'"
        and wr: "write_frame e raw w h ((gcall (GDraw Gl_getError) s3)\<lparr>mPixelBuf := Some buf'\<rparr>) = Ok (err, s')"
        using assms b r s3 True noerr by (auto simp: copy_available_def Let_def res_bind_Ok_iff)
      from pixels_of_buffer [OF wh(3) _ red] write_frame_out [OF wr]
      show ?thesis using k s3 by (auto simp: file_out_def)
    qed
  qed
qed

lemma wait_frame_keeps: "wait_frame e s = (cc, s') \<Longrightarrow> file_bytes s' = file_bytes s \<and> mEglWindow s' = mEglWindow s \<and> frames_read e s' = frames_read e s"
  by (auto simp: wait_frame_def onFrameAvailable_def Let_def file_out_def file_bytes_def frames_read_def readings_append
      gcall_def split: if_splits)

lemma copyFrame_out:
  assumes "copyFrame e raw s = Ok (err, s')" "mWidth (mEglWindow s) = w" "mHeight (mEglWindow s) = h" "0 \<le> w * h"
  shows "(err = ETIMEDOUT \<longrightarrow> file_bytes s' = file_bytes s \<and> frames_read e s' = frames_read e s) \<and>
         (err = NO_ERROR \<longrightarrow> \<not> mFrameAvailable s' \<and>
            (\<exists>px. frames_read e s' = frames_read e s @ [px] \<and> length px = nat (w * h * 4) \<and>
                   file_bytes s' = file_bytes s @ (if raw then [] else frame_header e w h) @ rgb_of px))"
proof -
  let ?s1 = "gcall (GSync T_lock) s"
  obtain cc s2 where w2: "(if mFrameAvailable ?s1 then (0, ?s1) else wait_frame e ?s1) = (cc, s2)"
    by (metis surj_pair)
  then have k: "file_bytes s2 = file_bytes s" "mEglWindow s2 = mEglWindow s" "frames_read e s2 = frames_read e s"
    using wait_frame_keeps [of e ?s1 cc s2] by (auto simp: file_out_def split: if_splits)
  show ?thesis
  proof (cases "cc = 0 \<and> mFrameAvailable s2")
    case True
    then obtain s3 where c: "copy_available e raw s2 = Ok (err, s3)" and s': "s' = gcall (GSync T_unlock) s3"
      using assms(1) w2 by (auto simp: copyFrame_def Let_def status_defs res_map_Ok_iff split: if_splits)
    have "mWidth (mEglWindow s2) = w" "mHeight (mEglWindow s2) = h" using assms(2,3) k by simp_all
    from copy_available_out [OF c this assms(4)] show ?thesis using k by (auto simp: s' file_out_def)
  next
    case False
    then show ?thesis
      using assms(1) w2 k by (auto simp: copyFrame_def Let_def status_defs file_out_def split: if_splits)
  qed
qed

text \<open>What one call of \<open>copyFrame\<close> adds to the output file. A time-out, and any error before the pixels
  are written, adds nothing; a success reads one frame back and adds the header (unless raw output
  is asked for) and the first three bytes of each of its pixels.\<close>

theorem copyFrame_output:
  assumes "copyFrame e raw s = Ok (err, s')" "mWidth (mEglWindow s) = w" "mHeight (mEglWindow s) = h" "0 \<le> w * h"
  shows "(err = ETIMEDOUT \<longrightarrow> file_bytes s' = file_bytes s \<and> frames_read e s' = frames_read e s) \<and>
         (err = NO_ERROR \<longrightarrow> \<not> mFrameAvailable s' \<and>
            (\<exists>px. frames_read e s' = frames_read e s @ [px] \<and> length px = nat (w * h * 4) \<and>
                   file_bytes s' = file_bytes s @ (if raw then [] else frame_header e w h) @ rgb_of px))"
  by (rule copyFrame_out [OF assms])

lemma le_value_setValueLE: "0 \<le> i \<Longrightarrow> i < 2 ^ 32 \<Longrightarrow> le_value (setValueLE (word_of_int i)) = nat i"
  by (simp add: set_le.value_enc unsigned_of_int take_bit_int_eq_self)

lemma length_setValueLE [simp]: "length (setValueLE v) = 4"
  by (simp add: setValueLE_def)

lemma append5:
  assumes "length a = n" "length b = n" "length c = n" "length d = n"
  shows "take n (a @ b @ c @ d @ r) = a" "take n (drop n (a @ b @ c @ d @ r)) = b"
    "take n (drop (2 * n) (a @ b @ c @ d @ r)) = c" "take n (drop (3 * n) (a @ b @ c @ d @ r)) = d"
  using assms by (simp_all add: mult_2 algebra_simps flip: drop_drop)

lemma packet_fields:
  fixes pixels :: "byte list" and w h :: int and e :: genv
  defines "packet \<equiv> frame_header e w h @ rgb_of pixels"
  assumes "0 \<le> w" "0 \<le> h" "16 + w * h * 3 < 2 ^ 32" "w * 3 < 2 ^ 32" "h < 2 ^ 32" "length pixels = nat (w * h * 4)"
  shows "le_value (take 4 packet) = length (drop 4 packet) \<and>
         le_value (take 4 (drop 4 packet)) = nat w \<and> le_value (take 4 (drop 8 packet)) = nat h \<and>
         le_value (take 4 (drop 12 packet)) = nat (w * 3) \<and>
         length (drop 20 packet) = nat h * le_value (take 4 (drop 12 packet))"
proof -
  obtain m n where wh: "w = int m" "h = int n" using assms(2,3) by (metis nonneg_int_cases)
  have len: "length (rgb_of pixels) = m * n * 3"
    using assms(7) by (simp add: length_rgb_of wh nat_mult_distrib)
  have p: "packet = setValueLE (word_of_int (16 + w * h * 3)) @ setValueLE (word_of_int w) @ setValueLE (word_of_int h) @
      setValueLE (word_of_int (w * 3)) @ setValueLE (g_rgb888 e) @ rgb_of pixels"
    by (simp add: packet_def frame_header_def Let_def kOutBytesPerPixel_def)
  note f = append5 [of _ 4, simplified, folded p]
  have "le_value (take 4 packet) = nat (16 + w * h * 3)" "le_value (take 4 (drop 4 packet)) = nat w"
    "le_value (take 4 (drop 8 packet)) = nat h" "le_value (take 4 (drop 12 packet)) = nat (w * 3)"
    unfolding p using assms(2-6) wh
    by (simp_all add: le_value_setValueLE del: of_int_add of_int_mult of_int_of_nat_eq)
  moreover have "length packet = 20 + m * n * 3" by (simp add: p len)
  ultimately show ?thesis by (simp add: wh nat_add_distrib nat_mult_distrib)
qed

text \<open>A packet can be read back: its first field is the number of bytes that follow it, then come width,
  height, the bytes of a row and the pixel format, and exactly that many rows of pixels.\<close>

theorem frame_packet_fields:
  fixes pixels :: "byte list" and w h :: int and e :: genv
  defines "packet \<equiv> frame_header e w h @ rgb_of pixels"
  assumes "0 \<le> w" "0 \<le> h" "16 + w * h * 3 < 2 ^ 32" "w * 3 < 2 ^ 32" "h < 2 ^ 32" "length pixels = nat (w * h * 4)"
  shows "le_value (take 4 packet) = length (drop 4 packet) \<and>
         le_value (take 4 (drop 4 packet)) = nat w \<and> le_value (take 4 (drop 8 packet)) = nat h \<and>
         le_value (take 4 (drop 12 packet)) = nat (w * 3) \<and>
         length (drop 20 packet) = nat h * le_value (take 4 (drop 12 packet))"
  unfolding packet_def by (rule packet_fields [OF assms(2-)])

theorem frame_packet_fields_witness:
  "let p = frame_header ok_genv 1 2 @ rgb_of [1, 2, 3, 255, 4, 5, 6, 255]
   in le_value (take 4 p) = length (drop 4 p) \<and> le_value (take 4 (drop 8 p)) = 2"
  using frame_packet_fields [of 1 2 "[1, 2, 3, 255, 4, 5, 6, 255]" ok_genv] by (simp add: Let_def)

subsection \<open>No access out of bounds\<close>

text \<open>What the input surface sets up and every copy keeps.\<close>

definition frame_ready :: "int \<Rightarrow> int \<Rightarrow> frame_output \<Rightarrow> bool" where
  "frame_ready w h s =
     (mWidth (mEglWindow s) = w \<and> mHeight (mEglWindow s) = h \<and>
      (case mPixelBuf s of None \<Rightarrow> False | Some buf \<Rightarrow> length buf = nat (w * h * 4)))"

lemma frame_ready_simps [simp]:
  "frame_ready w h (gcall c s) = frame_ready w h s"
  "frame_ready w h (s\<lparr>mFrameAvailable := b\<rparr>) = frame_ready w h s"
  by (simp_all add: frame_ready_def)

lemma draws_ready: "draws s s' \<Longrightarrow> frame_ready w h s' = frame_ready w h s"
  by (auto simp: calls_def frame_ready_def)

lemma fl_nonzero: "x \<noteq> 0 \<Longrightarrow> fl x \<noteq> 0"
proof -
  assume "x \<noteq> 0"
  then have "0 < fl \<bar>x\<bar>" by (simp add: fl_pos)
  moreover have "fl x = sgn x * fl \<bar>x\<bar>" using \<open>x \<noteq> 0\<close> by (simp add: fl_def Let_def)
  ultimately show ?thesis using \<open>x \<noteq> 0\<close> by (simp add: sgn_if)
qed

lemma screenToNdc_defined: "fst vp \<noteq> 0 \<Longrightarrow> snd vp \<noteq> 0 \<Longrightarrow> \<exists>m. screenToNdc vp flip = Ok m"
  by (simp add: screenToNdc_def fdiv_def of_int32_def fl_nonzero)

lemma blit_defined:
  assumes "fst (g_viewport e (gtrace g @ [GDraw Gl_getViewport])) \<noteq> 0" "snd (g_viewport e (gtrace g @ [GDraw Gl_getViewport])) \<noteq> 0"
    and "0 \<le> w" "w < 2 ^ 31" "0 \<le> h" "h < 2 ^ 31"
  shows "\<exists>err g'. blit e p tex m 0 0 w h flip g = Ok (err, g')"
proof -
  have "\<exists>r. beforeDraw e p tex m vs ts flip g = Ok r" for vs ts
    using screenToNdc_defined [OF assms(1,2), of flip] by (auto simp: beforeDraw_def Let_def)
  then obtain r where "beforeDraw e p tex m (map of_int32 [0, h, w, h, 0, 0, w, 0]) blit_uv flip g = Ok r" by blast
  then show ?thesis using assms(3-6) by (simp add: blit_def add_int32_def Let_def)
qed

lemma read_pixels_ready:
  assumes "frame_ready w h s"
  shows "\<exists>s'. read_pixels e w h s = Ok s' \<and> frame_ready w h s'"
  using assms by (auto simp: read_pixels_def frame_ready_def kGlBytesPerPixel_def Let_def split: option.splits)

lemma write_frame_ready:
  assumes "frame_ready w h s" "0 \<le> w * h"
  shows "\<exists>err s'. write_frame e raw w h s = Ok (err, s') \<and> frame_ready w h s'"
  using assms by (auto simp: write_frame_def frame_ready_def kOutBytesPerPixel_def Let_def split: option.splits)

lemma reduce_ready:
  assumes "frame_ready w h s" "0 \<le> w * h" "mPixelBuf s = Some buf"
  shows "\<exists>buf'. reduceRgbaToRgb buf (nat (w * h)) = Ok buf' \<and> frame_ready w h (s\<lparr>mPixelBuf := Some buf'\<rparr>)"
proof -
  obtain n where n: "w * h = int n" using assms(2) by (metis nonneg_int_cases)
  have "length buf = 4 * n" using assms(1,3) by (simp add: frame_ready_def n)
  then show ?thesis
    using reduce_correct_lemma [of n buf] assms(1) by (simp add: frame_ready_def n length_rgb_of)
qed

lemma copy_available_ready:
  assumes r: "frame_ready w h s" and wh: "0 \<le> w" "w < 2 ^ 31" "0 \<le> h" "h < 2 ^ 31"
    and vp: "\<And>t. fst (g_viewport e t) \<noteq> 0 \<and> snd (g_viewport e t) \<noteq> 0"
  shows "\<exists>err s'. copy_available e raw s = Ok (err, s') \<and> frame_ready w h s'"
proof -
  have pos: "0 \<le> w * h" using wh by simp
  let ?s1 = "gcall (GTex Gl_getTransformMatrix) (gcall (GTex Gl_updateTexImage) (s\<lparr>mFrameAvailable := False\<rparr>))"
  obtain err2 s2 where b: "blit e (mExtTexProgram ?s1) (mExtTextureName ?s1) (g_matrix e (gtrace ?s1)) 0 0 w h True ?s1 = Ok (err2, s2)"
    using blit_defined [OF conjunct1 [OF vp] conjunct2 [OF vp] wh] by blast
  have r2: "frame_ready w h s2" using blit_draws [OF b] draws_ready [of ?s1 s2 w h] r by simp
  have d: "mWidth (mEglWindow s) = w" "mHeight (mEglWindow s) = h" using r by (simp_all add: frame_ready_def)
  obtain s3 where s3: "read_pixels e w h s2 = Ok s3" "frame_ready w h s3" using read_pixels_ready [OF r2] by blast
  then obtain buf where buf: "mPixelBuf s3 = Some buf" by (auto simp: frame_ready_def split: option.splits)
  let ?s4 = "gcall (GDraw Gl_getError) s3"
  obtain buf' where red: "reduceRgbaToRgb buf (nat (w * h)) = Ok buf'" "frame_ready w h (?s4\<lparr>mPixelBuf := Some buf'\<rparr>)"
    using reduce_ready [of w h ?s4 buf] s3 pos buf by auto
  obtain err s' where "write_frame e raw w h (?s4\<lparr>mPixelBuf := Some buf'\<rparr>) = Ok (err, s')" "frame_ready w h s'"
    using write_frame_ready [OF red(2) pos] by blast
  then show ?thesis using b r2 d s3 buf red by (simp add: copy_available_def Let_def)
qed

lemma wait_frame_ready: "frame_ready w h s \<Longrightarrow> frame_ready w h (snd (wait_frame e s))"
  by (simp add: wait_frame_def onFrameAvailable_def Let_def)

lemma createPbuffer_size:
  "createPbuffer e w h win s = (NO_ERROR, win', s') \<Longrightarrow> mWidth win' = w \<and> mHeight win' = h"
  by (auto simp: createPbuffer_def status_defs Let_def split: if_splits prod.splits)

lemma createInputSurface_ready:
  assumes "0 \<le> w" "0 \<le> h" and a: "createInputSurface e w h s = Ok (NO_ERROR, s')"
  shows "frame_ready w h s'"
proof -
  obtain err win s1 where c: "createPbuffer e w h (mEglWindow s) s = (err, win, s1)" by (metis prod_cases3)
  have ok: "err = NO_ERROR" using a by (auto simp: createInputSurface_def c Let_def split: if_splits)
  let ?s3 = "gcall (GTex (Gl_viewport w h)) (snd (makeCurrent e win (s1\<lparr>mEglWindow := win\<rparr>)))"
  obtain err3 prog s4 where p: "program_setup e PROGRAM_EXTERNAL_TEXTURE (mExtTexProgram ?s3) ?s3 = (err3, prog, s4)"
    by (metis prod_cases3)
  have "calls is_prog ?s3 s4" using program_setup_calls [of ?s3 e _ "mExtTexProgram ?s3"] p by (metis snd_conv)
  then have win: "mEglWindow s4 = win"
    using egl_calls(3) [of "s1\<lparr>mEglWindow := win\<rparr>" e win] by (auto simp: calls_def)
  obtain n where "pixel_bytes w h = Ok n" and s': "mEglWindow s' = mEglWindow s4" "mPixelBuf s' = Some (replicate n 0)"
    using a c ok p by (auto simp: createInputSurface_def Let_def res_map_Ok_iff status_defs split: if_splits)
  then have "n = nat (w * h * 4)" by (auto simp: pixel_bytes_def kGlBytesPerPixel_def Let_def split: if_splits)
  then show ?thesis
    using createPbuffer_size [of e w h "mEglWindow s" s win s1] c ok win s' by (simp add: frame_ready_def)
qed

lemma copyFrame_ready:
  assumes r: "frame_ready w h s" and wh: "0 \<le> w" "w < 2 ^ 31" "0 \<le> h" "h < 2 ^ 31"
    and vp: "\<And>t. fst (g_viewport e t) \<noteq> 0 \<and> snd (g_viewport e t) \<noteq> 0"
  shows "\<exists>err s'. copyFrame e raw s = Ok (err, s') \<and> frame_ready w h s'"
proof -
  let ?s1 = "gcall (GSync T_lock) s"
  obtain cc s2 where w2: "(if mFrameAvailable ?s1 then (0, ?s1) else wait_frame e ?s1) = (cc, s2)" by (metis surj_pair)
  then have r2: "frame_ready w h s2"
    using wait_frame_ready [of w h ?s1 e] r by (auto split: if_splits)
  from copy_available_ready [OF r2 wh vp] obtain err s' where "copy_available e raw s2 = Ok (err, s')" "frame_ready w h s'"
    by blast
  then show ?thesis using w2 r2 by (simp add: copyFrame_def Let_def)
qed

text \<open>A surface that was created has the size asked for and a pixel buffer of exactly four bytes for each
  of its pixels; with it, and a viewport that is not empty, copying a frame reads and writes only
  inside the buffer, whatever the driver answers, and the surface stays in that condition.\<close>

theorem frame_output_safe:
  assumes "0 \<le> w" "w < 2 ^ 31" "0 \<le> h" "h < 2 ^ 31" "\<And>t. fst (g_viewport e t) \<noteq> 0 \<and> snd (g_viewport e t) \<noteq> 0"
  shows "(createInputSurface e w h s = Ok (NO_ERROR, s1) \<longrightarrow> frame_ready w h s1) \<and>
         (frame_ready w h s1 \<longrightarrow> (\<exists>err s'. copyFrame e raw s1 = Ok (err, s') \<and> frame_ready w h s'))"
  using createInputSurface_ready [OF assms(1,3)] copyFrame_ready [OF _ assms] by blast

definition frame_output1 :: frame_output where
  "frame_output1 = frame_output0\<lparr>mEglWindow := eglwindow0\<lparr>mWidth := 1, mHeight := 1\<rparr>,
     mExtTexProgram := program0\<lparr>mProgramType := PROGRAM_EXTERNAL_TEXTURE\<rparr>, mPixelBuf := Some [0, 0, 0, 0], mFrameAvailable := True\<rparr>"

theorem frame_output_safe_witness:
  "\<exists>err s'. copyFrame ok_genv False frame_output1 = Ok (err, s') \<and> frame_ready 1 1 s'"
proof -
  have "frame_ready 1 1 frame_output1"
    by (simp add: frame_ready_def frame_output1_def frame_output0_def eglwindow0_def)
  then show ?thesis
    using frame_output_safe [of 1 1 ok_genv frame_output1 frame_output1 False] by simp
qed

lemma copyFrame_ok: "\<exists>s'. copyFrame ok_genv False frame_output1 = Ok (NO_ERROR, s')"
proof -
  obtain m where m: "screenToNdc (2, 4) True = Ok m" using screenToNdc_defined [of "(2, 4)" True] by auto
  show ?thesis
    by (simp add: copyFrame_def copy_available_def blit_def beforeDraw_def afterDraw_def add_int32_def m
        frame_output1_def frame_output0_def eglwindow0_def program0_def Let_def status_defs enable_arrays_def
        disable_arrays_def read_pixels_def kGlBytesPerPixel_def reduceRgbaToRgb_def copy_byte_def eval_nat_numeral
        write_frame_def kOutBytesPerPixel_def gcall_def ok_genv_def)
qed

theorem copyFrame_output_witness:
  "\<exists>s' px. copyFrame ok_genv False frame_output1 = Ok (NO_ERROR, s') \<and> frames_read ok_genv s' = [px] \<and>
     file_bytes s' = frame_header ok_genv 1 1 @ rgb_of px"
proof -
  obtain s' where c: "copyFrame ok_genv False frame_output1 = Ok (NO_ERROR, s')" using copyFrame_ok by blast
  have "mWidth (mEglWindow frame_output1) = 1" "mHeight (mEglWindow frame_output1) = 1" "file_bytes frame_output1 = []"
    "frames_read ok_genv frame_output1 = []"
    by (simp_all add: frame_output1_def frame_output0_def eglwindow0_def file_bytes_def frames_read_def)
  with copyFrame_output [OF c] show ?thesis using c by auto
qed

end
