(* ===== verification/Frame_Session.thy ===== *)
theory Frame_Session
  imports Frame_Output
begin

section \<open>The file of a recording in frames\<close>

text \<open>
  The loop of \<open>recordScreen\<close> that copies frames, over the state of \<open>FrameOutput\<close>, and a reader of the file
  it writes.
\<close>

text \<open>\<open>n\<close> rounds of the loop, after which a stop is requested; the result is the last status.\<close>

fun copy_session :: "nat \<Rightarrow> genv \<Rightarrow> bool \<Rightarrow> int \<Rightarrow> frame_output \<Rightarrow> (int \<times> frame_output) res" where
  "copy_session 0 e rawFrames err s = Ok (err, s)"
| "copy_session (Suc n) e rawFrames err s =
     res_bind (copyFrame e rawFrames s) (\<lambda>(err, s1).
     if err = ETIMEDOUT then copy_session n e rawFrames NO_ERROR s1
     else if err \<noteq> NO_ERROR then Ok (err, s1)
     else copy_session n e rawFrames err s1)"

text \<open>The format described by the header: the length of what follows, width, height, bytes of a row, the
  pixel format, the pixels.\<close>

record packet =
  p_width :: nat
  p_height :: nat
  p_stride :: nat
  p_pixels :: "byte list"

function parse_packets :: "byte list \<Rightarrow> packet list option" where
  "parse_packets bs =
     (if bs = [] then Some []
      else let n = le_value (take 4 bs) in
        if n < 16 \<or> length bs < 4 + n then None
        else map_option ((#) \<lparr>p_width = le_value (take 4 (drop 4 bs)), p_height = le_value (take 4 (drop 8 bs)),
                              p_stride = le_value (take 4 (drop 12 bs)), p_pixels = take (n - 16) (drop 20 bs)\<rparr>)
               (parse_packets (drop (4 + n) bs)))"
  by pat_completeness auto
termination by (relation "measure length") auto

declare parse_packets.simps [simp del]

lemma parse_Nil [simp]: "parse_packets [] = Some []"
  by (simp add: parse_packets.simps)

lemma parse_append: "parse_packets xs = Some ps \<Longrightarrow> parse_packets (xs @ ys) = map_option ((@) ps) (parse_packets ys)"
proof (induction xs arbitrary: ps rule: parse_packets.induct)
  case (1 xs)
  show ?case
  proof (cases "xs = []")
    case True
    then show ?thesis using 1(2) by (simp add: option.map_ident)
  next
    case False
    let ?n = "le_value (take 4 xs)"
    have n: "\<not> (?n < 16 \<or> length xs < 4 + ?n)"
      using 1(2) False by (subst (asm) parse_packets.simps) (auto simp: Let_def split: if_splits)
    then obtain qs where q: "parse_packets (drop (4 + ?n) xs) = Some qs"
      using 1(2) False by (subst (asm) parse_packets.simps) (auto simp: Let_def)
    have ps: "ps = \<lparr>p_width = le_value (take 4 (drop 4 xs)), p_height = le_value (take 4 (drop 8 xs)),
        p_stride = le_value (take 4 (drop 12 xs)), p_pixels = take (?n - 16) (drop 20 xs)\<rparr> # qs"
      using 1(2) False n q by (subst (asm) parse_packets.simps) (simp add: Let_def)
    have "parse_packets (drop (4 + ?n) xs @ ys) = map_option ((@) qs) (parse_packets ys)"
      using 1(1) [OF False refl n q] .
    then show ?thesis using False n
      by (subst parse_packets.simps) (cases "parse_packets ys", simp_all add: Let_def ps)
  qed
qed

text \<open>One packet of the code, read back.\<close>

definition packet_of :: "int \<Rightarrow> int \<Rightarrow> byte list \<Rightarrow> packet" where
  "packet_of w h pixels = \<lparr>p_width = nat w, p_height = nat h, p_stride = nat (w * 3), p_pixels = rgb_of pixels\<rparr>"

lemma length_frame_header [simp]: "length (frame_header e w h) = 20"
  by (simp add: frame_header_def Let_def)

lemma parse_packet:
  assumes "0 \<le> w" "0 \<le> h" "16 + w * h * 3 < 2 ^ 32" "w * 3 < 2 ^ 32" "h < 2 ^ 32" "length pixels = nat (w * h * 4)"
  shows "parse_packets (frame_header e w h @ rgb_of pixels) = Some [packet_of w h pixels]"
proof -
  let ?p = "frame_header e w h @ rgb_of pixels"
  have l: "length ?p = 20 + length (rgb_of pixels)" by simp
  have f: "le_value (take 4 ?p) = length (drop 4 ?p)" "le_value (take 4 (drop 4 ?p)) = nat w"
    "le_value (take 4 (drop 8 ?p)) = nat h" "le_value (take 4 (drop 12 ?p)) = nat (w * 3)"
    using packet_fields [OF assms, of e] by blast+
  have "drop 20 ?p = rgb_of pixels" "?p \<noteq> []" using l by (simp, metis length_0_conv add_is_0 zero_neq_numeral)
  then show ?thesis
    using f l by (subst parse_packets.simps) (simp add: Let_def packet_of_def del: drop_append take_append)
qed

subsection \<open>What a session writes\<close>

lemma session_file:
  assumes "frame_ready w h s" "0 \<le> w" "w < 2 ^ 31" "0 \<le> h" "h < 2 ^ 31" "16 + w * h * 3 < 2 ^ 32" "w * 3 < 2 ^ 32"
    and vp: "\<And>t. fst (g_viewport e t) \<noteq> 0 \<and> snd (g_viewport e t) \<noteq> 0"
    and "parse_packets (file_bytes s) = Some (map (packet_of w h) (frames_read e s))"
  shows "\<exists>err s'. copy_session n e False NO_ERROR s = Ok (err, s') \<and>
           (err = NO_ERROR \<longrightarrow> parse_packets (file_bytes s') = Some (map (packet_of w h) (frames_read e s')))"
  using assms(1,9)
proof (induction n arbitrary: s)
  case (Suc n)
  obtain err s1 where c: "copyFrame e False s = Ok (err, s1)" and r: "frame_ready w h s1"
    using copyFrame_ready [OF Suc.prems(1) assms(2-5) vp] by blast
  have d: "mWidth (mEglWindow s) = w" "mHeight (mEglWindow s) = h" using Suc.prems(1) by (simp_all add: frame_ready_def)
  have pos: "0 \<le> w * h" using assms(2,4) by simp
  note out = copyFrame_out [OF c d pos]
  consider "err = ETIMEDOUT" | "err \<noteq> ETIMEDOUT" "err \<noteq> NO_ERROR" | "err = NO_ERROR" by blast
  then show ?case
  proof cases
    case 1
    then show ?thesis using Suc.IH [OF r] out Suc.prems(2) c by auto
  next
    case 2
    then show ?thesis using c by simp
  next
    case 3
    obtain px where px: "frames_read e s1 = frames_read e s @ [px]" "length px = nat (w * h * 4)"
      "file_bytes s1 = file_bytes s @ frame_header e w h @ rgb_of px" using out 3 by auto
    have "parse_packets (frame_header e w h @ rgb_of px) = Some [packet_of w h px]"
      by (rule parse_packet) (use assms px(2) in auto)
    then have "parse_packets (file_bytes s1) = Some (map (packet_of w h) (frames_read e s1))"
      using parse_append [OF Suc.prems(2)] by (simp add: px)
    then show ?thesis using Suc.IH [OF r] 3 c by (auto simp: status_defs)
  qed
qed auto

text \<open>C18: The file of a recording in frames can be read: on a surface that was set up, any number of rounds of the
  loop, time-outs among them, stays within the pixel buffer, and if no round fails, a reader of the
  file gets back exactly the frames that \<open>glReadPixels\<close> delivered, all of them and in order, each with
  the size of the surface and without the alpha bytes.\<close>

theorem frame_file_readable:
  assumes "frame_ready w h s" "file_bytes s = []" "frames_read e s = []" "0 \<le> w" "w < 2 ^ 31" "0 \<le> h" "h < 2 ^ 31"
    and "16 + w * h * 3 < 2 ^ 32" "w * 3 < 2 ^ 32"
    and "\<And>t. fst (g_viewport e t) \<noteq> 0 \<and> snd (g_viewport e t) \<noteq> 0"
  shows "\<exists>err s'. copy_session n e False NO_ERROR s = Ok (err, s') \<and>
           (err = NO_ERROR \<longrightarrow> parse_packets (file_bytes s') = Some (map (packet_of w h) (frames_read e s')))"
  using session_file [OF assms(1,4-10), of n] assms(2,3) by simp

lemma ready1: "frame_ready 1 1 frame_output1" "file_bytes frame_output1 = []" "frames_read e frame_output1 = []"
  by (simp_all add: frame_ready_def frame_output1_def frame_output0_def eglwindow0_def file_bytes_def frames_read_def)

theorem frame_file_readable_witness:
  "\<exists>s' px. copy_session 1 ok_genv False NO_ERROR frame_output1 = Ok (NO_ERROR, s') \<and>
     frames_read ok_genv s' = [px] \<and> parse_packets (file_bytes s') = Some [packet_of 1 1 px]"
proof -
  obtain s1 where c: "copyFrame ok_genv False frame_output1 = Ok (NO_ERROR, s1)" using copyFrame_ok ..
  then have r: "copy_session 1 ok_genv False NO_ERROR frame_output1 = Ok (NO_ERROR, s1)" by (simp add: status_defs)
  have "mWidth (mEglWindow frame_output1) = 1" "mHeight (mEglWindow frame_output1) = 1"
    using ready1(1) by (simp_all add: frame_ready_def)
  from copyFrame_out [OF c this] ready1(3) obtain px where "frames_read ok_genv s1 = [px]" by auto
  then show ?thesis using r frame_file_readable [OF ready1(1,2,3), of ok_genv 1] by auto
qed

end
