(* ===== verification/Text_Renderer.thy ===== *)
theory Text_Renderer
  imports Gl_Program
begin

section \<open>Text\<close>

text \<open>
  \<open>screenrecord/TextRenderer.cpp\<close> and the tables of \<open>screenrecord/FontBitmap.h\<close> (the 52,224 bytes of the
  glyph bitmap are a parameter). A C string is the list of its characters before the terminator;
  a position past the terminator is \<open>Undef\<close>. The texture offsets are static in the source and are
  kept with the renderer here: they are the same table for every instance.
\<close>

unbundle bit_operations_syntax

definition font_width :: u32 where "font_width = 256"
definition font_height :: u32 where "font_height = 204"
definition numGlyphs :: nat where "numGlyphs = 95"
definition firstGlyphChar :: u32 where "firstGlyphChar = 32"
definition maxGlyphHeight :: nat where "maxGlyphHeight = 34"
definition outlineWidth :: nat where "outlineWidth = 1"

definition glyphWidth :: "16 word list" where
  "glyphWidth =
     [8, 9, 10, 16, 16, 20, 18, 6, 10, 10, 13, 15, 8, 11, 9, 11,
      16, 16, 16, 16, 16, 16, 16, 16, 16, 16, 9, 9, 14, 16, 14, 14,
      23, 17, 17, 17, 18, 16, 16, 18, 19, 9, 16, 18, 15, 23, 19, 19,
      18, 19, 18, 17, 17, 18, 17, 23, 17, 17, 16, 9, 12, 9, 13, 13,
      10, 15, 16, 14, 16, 15, 11, 16, 16, 8, 8, 15, 8, 23, 16, 16,
      16, 16, 11, 14, 10, 16, 14, 20, 14, 14, 14, 10, 8, 10, 18]"

definition yoffset :: "16 word list" where
  "yoffset =
     [0, 0, 0, 0, 0, 0, 0, 0, 0, 0, 0, 0, 0, 0, 0, 0,
      0, 0, 0, 34, 34, 34, 34, 34, 34, 34, 34, 34, 34, 34, 34, 34,
      34, 34, 68, 68, 68, 68, 68, 68, 68, 68, 68, 68, 68, 68, 68, 68,
      102, 102, 102, 102, 102, 102, 102, 102, 102, 102, 102, 102, 102, 102, 102, 136,
      136, 136, 136, 136, 136, 136, 136, 136, 136, 136, 136, 136, 136, 136, 136, 136,
      170, 170, 170, 170, 170, 170, 170, 170, 170, 170, 170, 170, 170, 170, 170]"

lemma glyph_tables [simp]: "length glyphWidth = numGlyphs" "length yoffset = numGlyphs"
  by (simp_all add: glyphWidth_def yoffset_def numGlyphs_def)

record text_renderer =
  mTextureName :: int
  mScale :: rat
  mBorderWidth :: rat
  mIndentMult :: rat
  mScreenWidth :: u32
  mScreenHeight :: u32
  mInitialized :: bool
  mXOffset :: "u32 list"

definition text_renderer0 :: text_renderer where
  "text_renderer0 = \<lparr>mTextureName = 0, mScale = 1, mBorderWidth = 10, mIndentMult = 30, mScreenWidth = 0,
     mScreenHeight = 0, mInitialized = False, mXOffset = replicate numGlyphs 0\<rparr>"

subsection \<open>The glyph cells\<close>

fun xoffset_loop :: "16 word \<Rightarrow> 16 word \<Rightarrow> (16 word \<times> 16 word) list \<Rightarrow> u32 list" where
  "xoffset_loop prevYOffset off [] = []"
| "xoffset_loop prevYOffset off ((y, w) # glyphs) =
     (let off' = (if prevYOffset \<noteq> y then 0 else off)
      in ucast off' # xoffset_loop y (off' + (w + 1)) glyphs)"

definition initXOffset :: "u32 list" where
  "initXOffset = xoffset_loop (- 1) 0 (zip yoffset glyphWidth)"

definition initOnce :: "text_renderer \<Rightarrow> text_renderer" where
  "initOnce r = (if mInitialized r then r else r\<lparr>mXOffset := initXOffset, mInitialized := True\<rparr>)"

text \<open>The cells of the atlas: column, row and width of every glyph.\<close>

definition cells :: "(nat \<times> nat \<times> nat) list" where
  "cells = map2 (\<lambda>x (y, w). (unat x, unat y, unat w)) initXOffset (zip yoffset glyphWidth)"

text \<open>Inside the bitmap; and, of two cells, the first before the second: to its left in the same row
  with a free column between them, or in a row above.\<close>

definition cell_inside :: "nat \<times> nat \<times> nat \<Rightarrow> bool" where
  "cell_inside = (\<lambda>(x, y, w). x + w \<le> unat font_width \<and> y + maxGlyphHeight \<le> unat font_height)"

definition cell_before :: "nat \<times> nat \<times> nat \<Rightarrow> nat \<times> nat \<times> nat \<Rightarrow> bool" where
  "cell_before = (\<lambda>(x, y, w) (x', y', w'). y = y' \<and> x + w < x' \<or> y + maxGlyphHeight \<le> y')"

lemma initXOffset_eq: "initXOffset =
    [0, 9, 19, 30, 47, 64, 85, 104, 111, 122, 133, 147, 163, 172, 184, 194, 206, 223, 240, 0,
     17, 34, 51, 68, 85, 102, 119, 129, 139, 154, 171, 186, 201, 225, 0, 18, 36, 55, 72, 89,
     108, 128, 138, 155, 174, 190, 214, 234, 0, 19, 39, 58, 76, 94, 113, 131, 155, 173, 191, 208,
     218, 231, 241, 0, 14, 25, 41, 58, 73, 90, 106, 118, 135, 152, 161, 170, 186, 195, 219, 236,
     0, 17, 34, 46, 61, 72, 89, 104, 125, 140, 155, 170, 181, 190, 201]"
  by (simp add: initXOffset_def yoffset_def glyphWidth_def unsigned_ucast_eq)

lemma transp_cell_before: "transp cell_before"
  by (rule transpI) (auto simp: cell_before_def)

lemma cells_checked: "length cells = 95" "list_all cell_inside cells" "successively cell_before cells"
  by (simp_all add: cells_def initXOffset_eq yoffset_def glyphWidth_def cell_inside_def cell_before_def
      font_width_def font_height_def maxGlyphHeight_def)

lemma cell_order: "i < j \<Longrightarrow> j < 95 \<Longrightarrow> cell_before (cells ! i) (cells ! j)"
  using cells_checked transp_cell_before by (simp add: successively_conv_sorted_wrt sorted_wrt_iff_nth_less)

lemma nth_cells:
  assumes "i < 95"
  shows "cells ! i = (unat (initXOffset ! i), unat (yoffset ! i), unat (glyphWidth ! i))"
  using assms by (simp add: cells_def numGlyphs_def initXOffset_eq)

text \<open>The atlas is laid out as the renderer computes it from the widths: the cell of every glyph lies inside
  the bitmap, and a later glyph's cell is to the right of an earlier one with a free column between
  them, or in a lower row, so that no two cells overlap.\<close>

theorem glyph_cells:
  "(\<forall>i \<in> {..<95}. unat (initXOffset ! i) + unat (glyphWidth ! i) \<le> unat font_width \<and>
                  unat (yoffset ! i) + maxGlyphHeight \<le> unat font_height) \<and>
   (\<forall>j \<in> {..<95}. \<forall>i \<in> {..<j}.
      yoffset ! i = yoffset ! j \<and> unat (initXOffset ! i) + unat (glyphWidth ! i) < unat (initXOffset ! j) \<or>
      unat (yoffset ! i) + maxGlyphHeight \<le> unat (yoffset ! j))"
proof (intro conjI ballI)
  fix i :: nat assume "i \<in> {..<95}"
  then have "cell_inside (cells ! i)" using cells_checked(1,2) by (simp add: list_all_length)
  then show "unat (initXOffset ! i) + unat (glyphWidth ! i) \<le> unat font_width"
    "unat (yoffset ! i) + maxGlyphHeight \<le> unat font_height"
    using \<open>i \<in> {..<95}\<close> by (simp_all add: nth_cells cell_inside_def)
next
  fix i j :: nat assume "j \<in> {..<95}" "i \<in> {..<j}"
  then show "yoffset ! i = yoffset ! j \<and> unat (initXOffset ! i) + unat (glyphWidth ! i) < unat (initXOffset ! j) \<or>
      unat (yoffset ! i) + maxGlyphHeight \<le> unat (yoffset ! j)"
    using cell_order [of i j] by (simp add: nth_cells cell_before_def word_unat_eq_iff)
qed

subsection \<open>Powers of two\<close>

definition isPowerOfTwo :: "u32 \<Rightarrow> bool" where
  "isPowerOfTwo val = (val AND (val - 1) = 0)"

definition smear :: "nat \<Rightarrow> u32 \<Rightarrow> u32" where
  "smear k val = val OR drop_bit k val"

definition powerOfTwoCeil :: "u32 \<Rightarrow> u32" where
  "powerOfTwoCeil val = smear 16 (smear 8 (smear 4 (smear 2 (smear 1 (val - 1))))) + 1"

text \<open>Every bit is the disjunction of the \<open>k\<close> bits of \<open>v\<close> from it upwards.\<close>

definition smeared :: "nat \<Rightarrow> u32 \<Rightarrow> u32 \<Rightarrow> bool" where
  "smeared k v x = (\<forall>i. bit x i \<longleftrightarrow> (\<exists>d < k. bit v (i + d)))"

lemma smeared_step: "smeared k v x \<Longrightarrow> smeared (2 * k) v (smear k x)"
proof -
  assume s: "smeared k v x"
  have "bit (smear k x) i \<longleftrightarrow> (\<exists>d < 2 * k. bit v (i + d))" for i
  proof -
    have "bit (smear k x) i \<longleftrightarrow> (\<exists>d < k. bit v (i + d)) \<or> (\<exists>d < k. bit v (i + (k + d)))"
      using s by (simp add: smear_def smeared_def bit_simps ac_simps)
    also have "\<dots> \<longleftrightarrow> (\<exists>d < 2 * k. bit v (i + d))" (is "?l \<longleftrightarrow> ?r")
    proof
      show "?l \<Longrightarrow> ?r" by (metis add_less_mono1 mult_2 nat_add_left_cancel_less trans_less_add1)
      assume ?r
      then obtain d where "d < 2 * k" "bit v (i + d)" by blast
      then show ?l by (cases "d < k") (auto intro: exI [of _ "d - k"])
    qed
    finally show ?thesis .
  qed
  then show ?thesis by (simp add: smeared_def)
qed

lemma smeared_32: "smeared 32 v (smear 16 (smear 8 (smear 4 (smear 2 (smear 1 v)))))"
proof -
  have "smeared 1 v v" by (simp add: smeared_def)
  from smeared_step [OF smeared_step [OF smeared_step [OF smeared_step [OF smeared_step [OF this]]]]]
  show ?thesis by simp
qed

lemma smeared_mask:
  assumes "smeared 32 v x" and "2 ^ n \<le> unat v" "unat v < 2 ^ Suc n"
  shows "x = mask (Suc n)"
proof -
  have n: "n < 32"
  proof (rule ccontr)
    assume "\<not> n < 32"
    then have "(2::nat) ^ 32 \<le> 2 ^ n" by (intro power_increasing) simp_all
    then show False using assms(2) unsigned_less [of v, where 'a = nat] by simp
  qed
  have top: "bit v n"
  proof -
    have "unat v div 2 ^ n = 1"
      using assms(2,3) by (metis One_nat_def div_nat_eqI mult_1 mult_2 power_Suc plus_1_eq_Suc nat_mult_1_right mult.commute)
    then have "bit (unat v) n" by (simp add: bit_iff_odd)
    then show ?thesis by (simp add: bit_unsigned_iff)
  qed
  have high: "\<not> bit v m" if "n < m" for m
  proof -
    have "unat v < 2 ^ m" using assms(3) that by (meson Suc_leI less_le_trans one_le_numeral power_increasing)
    then have "\<not> bit (unat v) m" by (simp add: bit_iff_odd)
    then show ?thesis by (auto simp: bit_unsigned_iff dest: bit_imp_le_length)
  qed
  show ?thesis
  proof (rule bit_word_eqI)
    fix i :: nat assume "i < LENGTH(32)"
    have "bit x i \<longleftrightarrow> (\<exists>d < 32. bit v (i + d))" using assms(1) by (simp add: smeared_def)
    also have "\<dots> \<longleftrightarrow> i \<le> n"
    proof
      assume "i \<le> n"
      then have "n - i < 32" "bit v (i + (n - i))" using top n by simp_all
      then show "\<exists>d < 32. bit v (i + d)" by blast
    next
      assume "\<exists>d < 32. bit v (i + d)"
      then show "i \<le> n" using high by (meson le_add1 not_less order_trans)
    qed
    finally have "bit x i \<longleftrightarrow> i \<le> n" .
    then show "bit x i \<longleftrightarrow> bit (mask (Suc n) :: u32) i" using \<open>i < LENGTH(32)\<close> by (simp add: bit_mask_iff less_Suc_eq_le)
  qed
qed

text \<open>\<open>powerOfTwoCeil\<close> is what its name says, for every value that has such a power below \<open>2 ^ 32\<close>: the
  least power of two that is not below the argument. 0 stays 0.\<close>

theorem powerOfTwoCeil_least:
  "powerOfTwoCeil 0 = 0 \<and>
   (\<forall>v. 0 < v \<and> v \<le> 2 ^ 31 \<longrightarrow>
      (\<exists>n. unat (powerOfTwoCeil v) = 2 ^ n \<and> unat v \<le> 2 ^ n \<and> (\<forall>k. unat v \<le> 2 ^ k \<longrightarrow> n \<le> k)))"
proof (intro conjI allI impI)
  show "powerOfTwoCeil 0 = 0" by (simp add: powerOfTwoCeil_def smear_def)
  fix v :: u32 assume v: "0 < v \<and> v \<le> 2 ^ 31"
  show "\<exists>n. unat (powerOfTwoCeil v) = 2 ^ n \<and> unat v \<le> 2 ^ n \<and> (\<forall>k. unat v \<le> 2 ^ k \<longrightarrow> n \<le> k)"
  proof (cases "v = 1")
    case True
    then show ?thesis by (intro exI [of _ 0]) (simp add: powerOfTwoCeil_def smear_def)
  next
    case False
    let ?w = "unat (v - 1)"
    have w: "?w = unat v - 1" using v by (intro unat_minus_one) auto
    have pos: "0 < ?w" using v False by (metis diff_eq_eq add_0 unat_gt_0)
    have bound: "?w < 2 ^ 31" using v w pos by (simp add: word_le_nat_alt; linarith)
    define n where "n = nbits ?w"
    have n: "2 ^ (n - 1) \<le> ?w" "?w < 2 ^ n" using nbits_bounds [OF pos] by (simp_all add: n_def)
    have "0 < n" using nbits_pos [OF pos] by (simp add: n_def)
    then obtain m where m: "n = Suc m" by (cases n) auto
    have "m < 31" using n(1) bound m by (metis diff_Suc_1 order_le_less_trans power_less_imp_less_exp one_less_numeral_iff semiring_norm(76))
    have "powerOfTwoCeil v = mask n + 1"
      using smeared_mask [OF smeared_32, of m "v - 1"] n m by (simp add: powerOfTwoCeil_def)
    also have "\<dots> = 2 ^ n" by (simp add: mask_eq_decr_exp)
    also have "(2 ^ n :: u32) = word_of_nat (2 ^ n)" by simp
    finally have "unat (powerOfTwoCeil v) = take_bit 32 (2 ^ n)" by (simp only: unsigned_of_nat) simp
    moreover have "(2::nat) ^ n < 2 ^ 32" using \<open>m < 31\<close> m by (intro power_strict_increasing) simp_all
    ultimately have p: "unat (powerOfTwoCeil v) = 2 ^ n" by (simp only: take_bit_nat_eq_self)
    have "unat v \<le> 2 ^ n" using n(2) w pos by linarith
    moreover have "n \<le> k" if "unat v \<le> 2 ^ k" for k
    proof -
      have "2 ^ m \<le> ?w" using n(1) m by simp
      also have "?w < 2 ^ k" using w pos that by linarith
      finally have "m < k" by simp
      then show ?thesis using m by simp
    qed
    ultimately show ?thesis using p by blast
  qed
qed

subsection \<open>The texture\<close>

text \<open>One byte of the bitmap as red, green, blue and alpha.\<close>

definition expand_pixel :: "byte \<Rightarrow> byte list" where
  "expand_pixel p =
     (let (color, alpha) = (if p AND 1 = 0 then (0, p AND NOT 1) else (p AND NOT 1, 255))
      in [color, color, color, alpha])"

definition rgba_pixels :: "byte list \<Rightarrow> byte list res" where
  "rgba_pixels pixels =
     (let count = unat (font_width * font_height); room = unat (font_width * powerOfTwoCeil font_height * 4) in
      if length pixels < count \<or> room < 4 * count then Undef
      else Ok (concat (map expand_pixel (take count pixels)) @ replicate (room - 4 * count) 0))"

definition loadIntoTexture ::
  "genv \<Rightarrow> byte list \<Rightarrow> text_renderer \<Rightarrow> 'a gl_scheme \<Rightarrow> (int \<times> text_renderer \<times> 'a gl_scheme) res" where
  "loadIntoTexture e pixels r g =
     (let (name, g1) = gask e (GTex Gl_genTextures) g; r1 = r\<lparr>mTextureName := name\<rparr> in
      if name = 0 then Ok (UNKNOWN_ERROR, r1, gcall (GDraw Gl_getError) g1) else
      let g2 = gcall (GDraw (Gl_bindTexture False name)) g1 in
      if \<not> isPowerOfTwo font_width then Ok (UNKNOWN_ERROR, r1, g2) else
      res_map (\<lambda>rgba.
        let g3 = gcall (GTex (Gl_texImage (unat font_width) (unat (powerOfTwoCeil font_height)) rgba)) g2;
            (glErr, g4) = gask e (GDraw Gl_getError) g3
        in (if glErr \<noteq> 0 then UNKNOWN_ERROR else NO_ERROR, r1, g4))
        (rgba_pixels pixels))"

lemma texture_constants: "powerOfTwoCeil font_height = 256" "isPowerOfTwo font_width"
  by (simp_all add: powerOfTwoCeil_def smear_def font_height_def isPowerOfTwo_def font_width_def)

lemma length_expand_pixel [simp]: "length (expand_pixel p) = 4"
  by (simp add: expand_pixel_def Let_def)

lemma length_concat_expand: "length (concat (map expand_pixel ps)) = 4 * length ps"
  by (induction ps) simp_all

text \<open>The texture that is uploaded has one pixel of four bytes for each of 256 by 256 positions, and every
  pixel of the bitmap keeps its value: an even byte is black with that alpha, an odd byte is opaque
  grey, with the lowest bit cleared.\<close>

theorem texture_complete:
  assumes "length pixels = 256 * 204"
  shows "\<exists>rgba. rgba_pixels pixels = Ok rgba \<and> length rgba = 256 * 256 * 4 \<and>
           (\<forall>i < 256 * 204. take 4 (drop (4 * i) rgba) = expand_pixel (pixels ! i))"
proof -
  let ?px = "concat (map expand_pixel pixels)"
  have len: "length ?px = 4 * (256 * 204)" using assms by (simp add: length_concat_expand)
  have "rgba_pixels pixels = Ok (?px @ replicate (256 * 52 * 4) 0)"
    using assms by (simp add: rgba_pixels_def texture_constants) (simp add: font_width_def font_height_def)
  moreover have "take 4 (drop (4 * i) (?px @ ys)) = expand_pixel (pixels ! i)" if "i < 256 * 204" for i ys
  proof -
    have "pixels = take i pixels @ pixels ! i # drop (Suc i) pixels"
      using that assms by (simp add: id_take_nth_drop)
    then have "?px = concat (map expand_pixel (take i pixels)) @ expand_pixel (pixels ! i) @ concat (map expand_pixel (drop (Suc i) pixels))"
      by (metis concat.simps(2) concat_append list.simps(9) map_append)
    moreover have "length (concat (map expand_pixel (take i pixels))) = 4 * i"
      using that assms by (simp add: length_concat_expand)
    ultimately show ?thesis by simp
  qed
  ultimately show ?thesis using len by (intro exI [of _ "?px @ replicate (256 * 52 * 4) 0"]) simp
qed

subsection \<open>Widths\<close>

definition glyphIndex :: "char \<Rightarrow> nat" where
  "glyphIndex ch =
     (let chi = unat ((of_char ch :: u32) - firstGlyphChar)
      in if numGlyphs \<le> chi then unat ((of_char (CHR ''?'') :: u32) - firstGlyphChar) else chi)"

definition getGlyphHeight :: rat where "getGlyphHeight = of_nat maxGlyphHeight"

definition getScaledGlyphHeight :: "text_renderer \<Rightarrow> rat" where
  "getScaledGlyphHeight r = fmul getGlyphHeight (mScale r)"

definition glyph_width :: "char \<Rightarrow> rat" where
  "glyph_width ch = of_nat (unat (glyphWidth ! glyphIndex ch))"

text \<open>How far a glyph moves the position.\<close>

definition advance :: "text_renderer \<Rightarrow> char \<Rightarrow> rat" where
  "advance r ch = fmul (fsub (fsub (glyph_width ch) 1) (of_nat outlineWidth)) (mScale r)"

fun width_loop :: "text_renderer \<Rightarrow> rat \<Rightarrow> string \<Rightarrow> rat" where
  "width_loop r w [] = w"
| "width_loop r w (ch # str) = width_loop r (fadd w (advance r ch)) str"

definition computeScaledStringWidth :: "text_renderer \<Rightarrow> string \<Rightarrow> nat \<Rightarrow> rat" where
  "computeScaledStringWidth r str len = width_loop r 0 (take len str)"

definition setScale :: "rat \<Rightarrow> text_renderer \<Rightarrow> text_renderer" where
  "setScale scale r = r\<lparr>mScale := scale\<rparr>"

definition setScreenSize :: "u32 \<Rightarrow> u32 \<Rightarrow> text_renderer \<Rightarrow> text_renderer" where
  "setScreenSize w h r = r\<lparr>mScreenWidth := w, mScreenHeight := h\<rparr>"

definition setProportionalScale :: "rat \<Rightarrow> text_renderer \<Rightarrow> text_renderer res" where
  "setProportionalScale linesPerScreen r =
     (if mScreenWidth r = 0 \<or> mScreenHeight r = 0 then Ok r else
      let tallest = of_u32 (if mScreenHeight r < mScreenWidth r then mScreenWidth r else mScreenHeight r)
      in res_map (\<lambda>scale. setScale scale r) (fdiv tallest (fmul linesPerScreen getGlyphHeight)))"

lemma glyphIndex_bound: "glyphIndex ch < numGlyphs"
  by (simp add: glyphIndex_def Let_def numGlyphs_def firstGlyphChar_def)


subsection \<open>Breaking a line\<close>

definition kWhitespace :: string where "kWhitespace = [CHR '' '', CHR 0x09, CHR 0x0A, CHR 0x0D]"

text \<open>\<open>strchr(kWhitespace, c) != NULL\<close>: the terminator counts as found.\<close>

definition strchr_whitespace :: "char \<Rightarrow> bool" where
  "strchr_whitespace c = (c \<in> set kWhitespace \<or> c = nul)"

text \<open>\<open>str[i]\<close> of a C string, the terminator included.\<close>

definition char_at :: "string \<Rightarrow> nat \<Rightarrow> char" where
  "char_at str i = (if i < length str then str ! i else nul)"

text \<open>The longest prefix that fits: \<open>n\<close> positions from \<open>i\<close> on are left to try.\<close>

fun fit_loop :: "text_renderer \<Rightarrow> string \<Rightarrow> rat \<Rightarrow> nat \<Rightarrow> nat \<Rightarrow> nat \<Rightarrow> nat" where
  "fit_loop r str maxWidth 0 i goodPos = goodPos"
| "fit_loop r str maxWidth (Suc n) i goodPos =
     (if computeScaledStringWidth r str i < maxWidth then fit_loop r str maxWidth n (i + 1) i else goodPos)"

fun back_loop :: "string \<Rightarrow> nat \<Rightarrow> nat \<Rightarrow> nat" where
  "back_loop str 0 goodPos = goodPos"
| "back_loop str (Suc i) goodPos = (if strchr_whitespace (char_at str (Suc i)) then Suc i else back_loop str i goodPos)"

text \<open>The offset of the break in the string, or \<open>None\<close> for a null pointer.\<close>

definition breakString :: "text_renderer \<Rightarrow> string \<Rightarrow> rat \<Rightarrow> nat option" where
  "breakString r str maxWidth =
     (let len = length str in
      if len = 0 then None
      else if computeScaledStringWidth r str len \<le> maxWidth then None
      else let goodPos = fit_loop r str maxWidth len 0 0;
               goodPos1 = (if goodPos = 0 then 1 else goodPos)
           in Some (back_loop str goodPos1 goodPos1))"

lemma fit_loop_bound: "goodPos < N \<Longrightarrow> i + n \<le> N \<Longrightarrow> fit_loop r str m n i goodPos < N"
  by (induction n arbitrary: i goodPos) auto

lemma fit_loop_fits:
  "goodPos = 0 \<or> computeScaledStringWidth r str goodPos < m \<Longrightarrow>
   fit_loop r str m n i goodPos = 0 \<or> computeScaledStringWidth r str (fit_loop r str m n i goodPos) < m"
  by (induction n arbitrary: i goodPos) auto

text \<open>No tried position after the result is reached: either the loop went to the end or the next
  prefix is too wide.\<close>

lemma fit_loop_stops:
  "fit_loop r str m n (Suc g) g = g + n \<or> \<not> computeScaledStringWidth r str (Suc (fit_loop r str m n (Suc g) g)) < m"
proof (induction n arbitrary: g)
  case (Suc n)
  then show ?case using Suc [of "Suc g"] by simp
qed simp

lemma back_loop_cases:
  "back_loop str i g = g \<and> (\<forall>j. 0 < j \<and> j \<le> i \<longrightarrow> \<not> strchr_whitespace (char_at str j)) \<or>
   0 < back_loop str i g \<and> back_loop str i g \<le> i \<and> strchr_whitespace (char_at str (back_loop str i g)) \<and>
   (\<forall>j. back_loop str i g < j \<and> j \<le> i \<longrightarrow> \<not> strchr_whitespace (char_at str j))"
  by (induction i) (auto simp: le_Suc_eq)

lemma breakString_cases:
  assumes "breakString r str m = Some k"
  obtains g where "g = fit_loop r str m (length str) 0 0" "k = back_loop str (max g 1) (max g 1)" "str \<noteq> []"
    "m < computeScaledStringWidth r str (length str)" "g < length str"
proof -
  have "str \<noteq> []" using assms by (auto simp: breakString_def)
  then have "fit_loop r str m (length str) 0 0 < length str" by (intro fit_loop_bound) simp_all
  then show ?thesis
    using that [OF refl] assms by (cases "fit_loop r str m (length str) 0 0") (auto simp: breakString_def Let_def split: if_splits)
qed

lemma breakString_bounds:
  assumes "breakString r str m = Some k"
  shows "0 < k \<and> k \<le> length str \<and> (k = length str \<longrightarrow> k = 1)"
proof -
  obtain g where g: "k = back_loop str (max g 1) (max g 1)" "str \<noteq> []" "g < length str"
    using assms by (rule breakString_cases)
  have "0 < k" "k \<le> max g 1" using back_loop_cases [of str "max g 1" "max g 1"] g(1) by auto
  then show ?thesis using g(2,3) by (cases str) (auto simp: max_def split: if_splits)
qed

text \<open>Where a line is broken. There is a break exactly for a text that does not fit. It comes after at
  least one character; what stands before it fits, or is that one character; no later position at
  which the text before it fits is white space; and a break that is not at white space is at the last
  position that fits, with no white space before it.\<close>

theorem breakString_correct:
  "case breakString r str maxWidth of
     None \<Rightarrow> str = [] \<or> computeScaledStringWidth r str (length str) \<le> maxWidth
   | Some k \<Rightarrow>
       maxWidth < computeScaledStringWidth r str (length str) \<and> 0 < k \<and> k \<le> length str \<and>
       (k = length str \<longrightarrow> k = 1) \<and>
       (\<exists>g \<ge> k. (g = 1 \<or> computeScaledStringWidth r str g < maxWidth) \<and>
          (Suc g = length str \<or> length str = 1 \<or> \<not> computeScaledStringWidth r str (Suc g) < maxWidth \<or>
           g = 1 \<and> (\<not> computeScaledStringWidth r str 1 < maxWidth \<or> \<not> 0 < maxWidth)) \<and>
          (\<forall>j \<in> {k<..g}. \<not> strchr_whitespace (char_at str j)) \<and>
          (strchr_whitespace (char_at str k) \<or> k = g \<and> (\<forall>j \<in> {0<..g}. \<not> strchr_whitespace (char_at str j))))"
proof (cases "breakString r str maxWidth")
  case None
  then show ?thesis by (auto simp: breakString_def Let_def split: if_splits)
next
  case (Some k)
  obtain g where g: "g = fit_loop r str maxWidth (length str) 0 0" "k = back_loop str (max g 1) (max g 1)" "str \<noteq> []"
    "maxWidth < computeScaledStringWidth r str (length str)" "g < length str"
    using Some by (rule breakString_cases)
  have fits: "max g 1 = 1 \<or> computeScaledStringWidth r str (max g 1) < maxWidth"
    using fit_loop_fits [of 0 r str maxWidth "length str" 0] g(1) by (auto simp: max_def)
  have stops: "Suc (max g 1) = length str \<or> length str = 1 \<or> \<not> computeScaledStringWidth r str (Suc (max g 1)) < maxWidth \<or>
      max g 1 = 1 \<and> (\<not> computeScaledStringWidth r str 1 < maxWidth \<or> \<not> 0 < maxWidth)"
  proof (cases "0 < maxWidth")
    case True
    obtain n where n: "length str = Suc n" using g(3) by (cases str) auto
    then have "g = fit_loop r str maxWidth n (Suc 0) 0" using True g(1) by (simp add: computeScaledStringWidth_def)
    then show ?thesis using fit_loop_stops [of r str maxWidth n 0] n by (cases g) auto
  next
    case False
    then have "g = 0" using g(1,3) by (cases str) (simp_all add: computeScaledStringWidth_def)
    then show ?thesis using False by simp
  qed
  have bk: "k \<le> max g 1" "\<forall>j \<in> {k<..max g 1}. \<not> strchr_whitespace (char_at str j)"
    "strchr_whitespace (char_at str k) \<or> k = max g 1 \<and> (\<forall>j \<in> {0<..max g 1}. \<not> strchr_whitespace (char_at str j))"
    using back_loop_cases [of str "max g 1" "max g 1"] by (auto simp: g(2))
  show ?thesis
    unfolding Some option.case
    using g(4) breakString_bounds [OF Some] fits stops bk by (intro conjI exI [of _ "max g 1"]) simp_all
qed

subsection \<open>Drawing\<close>

text \<open>The two triangles of a glyph: positions on the screen and in the texture
  (left, right, top, bottom).\<close>

definition quad :: "rat \<Rightarrow> rat \<Rightarrow> rat \<Rightarrow> rat \<Rightarrow> rat list" where
  "quad l r t b = [l, b, r, b, l, t, l, t, r, b, r, t]"

definition full_tex_width :: rat where "full_tex_width = of_u32 font_width"
definition full_tex_height :: rat where "full_tex_height = of_u32 (powerOfTwoCeil font_height)"

definition glyph_vertices :: "text_renderer \<Rightarrow> rat \<Rightarrow> rat \<Rightarrow> char \<Rightarrow> rat list" where
  "glyph_vertices r x y ch =
     quad x (fadd x (fmul (glyph_width ch) (mScale r))) y (fadd y (fmul getGlyphHeight (mScale r)))"

definition glyph_texes :: "text_renderer \<Rightarrow> char \<Rightarrow> rat list" where
  "glyph_texes r ch =
     (let chi = glyphIndex ch; xo = of_u32 (mXOffset r ! chi); yo = of_nat (unat (yoffset ! chi))
      in quad (fl (xo / full_tex_width)) (fl (fadd xo (glyph_width ch) / full_tex_width))
              (fl (yo / full_tex_height)) (fl (fadd yo getGlyphHeight / full_tex_height)))"

fun vertices_of :: "text_renderer \<Rightarrow> rat \<Rightarrow> rat \<Rightarrow> string \<Rightarrow> rat list" where
  "vertices_of r x y [] = []"
| "vertices_of r x y (ch # str) = glyph_vertices r x y ch @ vertices_of r (fadd x (advance r ch)) y str"

definition texes_of :: "text_renderer \<Rightarrow> string \<Rightarrow> rat list" where
  "texes_of r str = concat (map (glyph_texes r) str)"

definition drawString ::
  "genv \<Rightarrow> program \<Rightarrow> rat list \<Rightarrow> rat \<Rightarrow> rat \<Rightarrow> string \<Rightarrow> text_renderer \<Rightarrow> 'a gl_scheme \<Rightarrow>
   (text_renderer \<times> 'a gl_scheme) res" where
  "drawString e p texMatrix x y str r g =
     (let r1 = initOnce r
      in res_map (\<lambda>(err, g1). (r1, g1))
           (drawTriangles e p (mTextureName r1) texMatrix (vertices_of r1 x y str) (texes_of r1 str)
              (length str * 12 div 2) g))"

lemma vertices_complete: "length (vertices_of r x y str) = 12 * length str" "length (texes_of r str) = 12 * length str"
  by (induction str arbitrary: x) (simp_all add: glyph_vertices_def glyph_texes_def texes_of_def quad_def Let_def)

subsection \<open>Wrapping\<close>

text \<open>The loop over the lines: \<open>start\<close> is the offset in the copy of the string.\<close>

definition line_space :: "text_renderer \<Rightarrow> rat \<Rightarrow> rat" where
  "line_space r xposAdj = fsub (fsub (of_u32 (mScreenWidth r)) (mBorderWidth r)) xposAdj"

definition line_xpos :: "rat \<Rightarrow> rat \<Rightarrow> nat \<Rightarrow> rat" where
  "line_xpos xpos indentWidth start = (if start = 0 then xpos else fadd xpos indentWidth)"

definition next_start :: "string \<Rightarrow> nat \<Rightarrow> nat" where
  "next_start rest brk = brk + (if strchr_whitespace (char_at rest brk) then 1 else 0)"

function wrap_loop ::
  "genv \<Rightarrow> program \<Rightarrow> rat \<Rightarrow> rat \<Rightarrow> string \<Rightarrow> nat \<Rightarrow> rat \<Rightarrow> text_renderer \<Rightarrow> 'a gl_scheme \<Rightarrow>
   (rat \<times> text_renderer \<times> 'a gl_scheme) res" where
  "wrap_loop e p xpos indentWidth str start ypos r g =
     (if length str < start then Undef else
      let rest = drop start str; xposAdj = line_xpos xpos indentWidth start
      in case breakString r rest (line_space r xposAdj) of
           None \<Rightarrow>
             res_map (\<lambda>(r1, g1). (fadd ypos (getScaledGlyphHeight r1), r1, g1))
               (drawString e p kIdentity xposAdj ypos rest r g)
         | Some brk \<Rightarrow>
             res_bind (drawString e p kIdentity xposAdj ypos (take brk rest) r g) (\<lambda>(r1, g1).
             wrap_loop e p xpos indentWidth str (start + next_start rest brk) (fadd ypos (getScaledGlyphHeight r1)) r1 g1))"
  by pat_completeness auto

termination
  by (relation "measure (\<lambda>(e, p, xpos, ind, str, start, ypos, r, g). Suc (length str) - start)")
    (auto simp: next_start_def dest!: breakString_bounds)

declare wrap_loop.simps [simp del]

definition to_size :: "rat \<Rightarrow> nat res" where
  "to_size x = (if -1 < x \<and> x < 2 ^ 64 then Ok (nat (trunc x)) else Undef)"

definition clamp_border :: "text_renderer \<Rightarrow> rat \<Rightarrow> rat" where
  "clamp_border r pos = (if pos < mBorderWidth r then mBorderWidth r else pos)"

definition drawWrappedString ::
  "genv \<Rightarrow> program \<Rightarrow> rat \<Rightarrow> rat \<Rightarrow> string \<Rightarrow> text_renderer \<Rightarrow> 'a gl_scheme \<Rightarrow>
   (rat \<times> text_renderer \<times> 'a gl_scheme) res" where
  "drawWrappedString e p xpos ypos str r g =
     (let r1 = initOnce r in
      if mScreenWidth r1 = 0 \<or> mScreenHeight r1 = 0 then Ok (ypos, r1, g) else
      let indentWidth = fmul (mIndentMult r1) (mScale r1); x = clamp_border r1 xpos; y = clamp_border r1 ypos in
      res_bind (to_size (line_space r1 x)) (\<lambda>maxWidth.
      if maxWidth < 1 then Ok (y, r1, g)
      else if computeScaledStringWidth r1 str (length str) \<le> fl (of_nat maxWidth)
      then res_map (\<lambda>(r2, g1). (fadd y (getScaledGlyphHeight r2), r2, g1)) (drawString e p kIdentity x y str r1 g)
      else wrap_loop e p x indentWidth str 0 y r1 g))"

subsection \<open>Wrapping as a list of lines\<close>

text \<open>The lines alone, without drawing.\<close>

function wrap_lines :: "text_renderer \<Rightarrow> rat \<Rightarrow> rat \<Rightarrow> string \<Rightarrow> nat \<Rightarrow> string list res" where
  "wrap_lines r xpos indentWidth str start =
     (if length str < start then Undef else
      let rest = drop start str
      in case breakString r rest (line_space r (line_xpos xpos indentWidth start)) of
           None \<Rightarrow> Ok [rest]
         | Some brk \<Rightarrow> res_map (\<lambda>ls. take brk rest # ls) (wrap_lines r xpos indentWidth str (start + next_start rest brk)))"
  by pat_completeness auto

termination
  by (relation "measure (\<lambda>(r, xpos, ind, str, start). Suc (length str) - start)")
    (auto simp: next_start_def dest!: breakString_bounds)

declare wrap_lines.simps [simp del]

text \<open>Drawing lines below one another.\<close>

fun draw_lines ::
  "genv \<Rightarrow> program \<Rightarrow> rat \<Rightarrow> rat \<Rightarrow> string list \<Rightarrow> rat \<Rightarrow> text_renderer \<Rightarrow> 'a gl_scheme \<Rightarrow>
   (rat \<times> text_renderer \<times> 'a gl_scheme) res" where
  "draw_lines e p x x' [] ypos r g = Ok (ypos, r, g)"
| "draw_lines e p x x' (l # ls) ypos r g =
     res_bind (drawString e p kIdentity x ypos l r g) (\<lambda>(r1, g1).
     draw_lines e p x' x' ls (fadd ypos (getScaledGlyphHeight r1)) r1 g1)"

lemma drawString_init: "drawString e p m x y s r g = Ok (r1, g1) \<Longrightarrow> r1 = initOnce r"
  by (auto simp: drawString_def Let_def res_map_Ok_iff)

lemma advance_init [simp]: "advance (initOnce r) = advance r"
  by (rule ext) (simp add: advance_def initOnce_def)

lemma width_loop_cong: "advance r = advance r' \<Longrightarrow> width_loop r w s = width_loop r' w s"
  by (induction s arbitrary: w) simp_all

lemma computeScaledStringWidth_init [simp]: "computeScaledStringWidth (initOnce r) = computeScaledStringWidth r"
  by (intro ext) (simp add: computeScaledStringWidth_def width_loop_cong [of "initOnce r" r])

lemma fit_loop_init [simp]: "fit_loop (initOnce r) s m n i g = fit_loop r s m n i g"
  by (induction n arbitrary: i g) simp_all

lemma breakString_init [simp]: "breakString (initOnce r) s m = breakString r s m"
  by (simp add: breakString_def Let_def)

lemma line_space_init [simp]: "line_space (initOnce r) = line_space r"
  by (rule ext) (simp add: line_space_def initOnce_def)

lemma wrap_lines_init [simp]: "wrap_lines (initOnce r) x i s st = wrap_lines r x i s st"
proof (induction r x i s st rule: wrap_lines.induct)
  case (1 r x i s st)
  show ?case
    by (subst (1 2) wrap_lines.simps) (auto simp: Let_def 1 split: option.split)
qed

lemma wrap_lines_not_NoFuel: "wrap_lines r x i s st \<noteq> NoFuel"
proof (induction r x i s st rule: wrap_lines.induct)
  case (1 r x i s st)
  have "res_map f m = NoFuel \<longleftrightarrow> m = NoFuel" for f :: "string list \<Rightarrow> string list" and m by (cases m) auto
  then show ?case by (subst wrap_lines.simps) (auto simp: Let_def 1 split: option.split)
qed

lemma drawString_not_NoFuel: "drawString e p m x y s r g \<noteq> NoFuel"
proof -
  have "screenToNdc v b \<noteq> NoFuel" for v b by (auto simp: screenToNdc_def fdiv_def)
  then have "beforeDraw e p n t v u b g \<noteq> NoFuel" for n t v u b
    by (cases "screenToNdc (g_viewport e (gtrace g @ [GDraw Gl_getViewport])) b") (auto simp: beforeDraw_def Let_def)
  then have "drawTriangles e p n t v u c g \<noteq> NoFuel" for n t v u c
    by (cases "beforeDraw e p n t v u False g") (auto simp: drawTriangles_def)
  then show ?thesis
    by (cases "drawTriangles e p (mTextureName (initOnce r)) m (vertices_of (initOnce r) x y s) (texes_of (initOnce r) s)
          (length s * 12 div 2) g") (auto simp: drawString_def)
qed

lemma wrap_loop_lines:
  "wrap_loop e p xpos indentWidth str start ypos r g =
   res_bind (wrap_lines r xpos indentWidth str start) (\<lambda>ls.
   draw_lines e p (line_xpos xpos indentWidth start) (fadd xpos indentWidth) ls ypos r g)"
proof (induction e p xpos indentWidth str start ypos r g rule: wrap_loop.induct)
  case (1 e p xpos ind str start ypos r g)
  let ?rest = "drop start str" let ?x = "line_xpos xpos ind start"
  show ?case
  proof (cases "length str < start")
    case True
    then show ?thesis by (subst wrap_loop.simps, subst wrap_lines.simps) simp
  next
    case ok: False
    show ?thesis
    proof (cases "breakString r ?rest (line_space r ?x)")
      case None
      then show ?thesis using ok
        by (subst wrap_loop.simps, subst wrap_lines.simps)
          (cases "drawString e p kIdentity ?x ypos ?rest r g", auto simp: Let_def)
    next
      case (Some brk)
      let ?next = "start + next_start ?rest brk"
      have pos: "line_xpos xpos ind ?next = fadd xpos ind"
        using breakString_bounds [OF Some] by (simp add: line_xpos_def next_start_def)
      have l: "wrap_lines r xpos ind str start = res_map (\<lambda>ls. take brk ?rest # ls) (wrap_lines r xpos ind str ?next)"
        using ok Some by (subst wrap_lines.simps) (simp add: Let_def)
      show ?thesis
      proof (cases "drawString e p kIdentity ?x ypos (take brk ?rest) r g")
        case (Ok rg)
        obtain r1 g1 where rg: "rg = (r1, g1)" by (cases rg)
        have r1: "r1 = initOnce r" using drawString_init Ok rg by blast
        have "wrap_loop e p xpos ind str start ypos r g =
            wrap_loop e p xpos ind str ?next (fadd ypos (getScaledGlyphHeight r1)) r1 g1"
          using ok Some Ok rg by (subst wrap_loop.simps) (simp add: Let_def)
        also have "\<dots> = res_bind (wrap_lines r xpos ind str ?next) (\<lambda>ls.
            draw_lines e p (fadd xpos ind) (fadd xpos ind) ls (fadd ypos (getScaledGlyphHeight r1)) r1 g1)"
          using 1 [OF ok refl refl Some Ok rg [symmetric, simplified]] rg pos r1 by simp
        finally show ?thesis using Ok rg by (cases "wrap_lines r xpos ind str ?next") (simp_all add: l)
      next
        case Undef
        then have "wrap_loop e p xpos ind str start ypos r g = Undef"
          using ok Some by (subst wrap_loop.simps) (simp add: Let_def)
        then show ?thesis using Undef wrap_lines_not_NoFuel [of r xpos ind str ?next]
          by (cases "wrap_lines r xpos ind str ?next") (simp_all add: l)
      qed (simp add: drawString_not_NoFuel)
    qed
  qed
qed


text \<open>What the lines have to do with the text: put together with at most one white space character between
  two of them they are the text.\<close>

fun joined :: "string list \<Rightarrow> string \<Rightarrow> bool" where
  "joined [] s = False"
| "joined [l] s = (s = l)"
| "joined (l # ls) s =
     (take (length l) s = l \<and> length l \<le> length s \<and>
      (joined ls (drop (length l) s) \<or>
       char_at s (length l) \<in> set kWhitespace \<and> joined ls (drop (Suc (length l)) s)))"

lemma wrap_lines_nonempty: "wrap_lines r x i s st = Ok ls \<Longrightarrow> ls \<noteq> []"
  by (subst (asm) wrap_lines.simps) (auto simp: Let_def res_map_Ok_iff split: if_splits option.splits)

lemma joined_Cons:
  "ls \<noteq> [] \<Longrightarrow> joined (l # ls) s =
     (take (length l) s = l \<and> length l \<le> length s \<and>
      (joined ls (drop (length l) s) \<or>
       char_at s (length l) \<in> set kWhitespace \<and> joined ls (drop (Suc (length l)) s)))"
  by (cases ls) simp_all

lemma wrap_lines_joined:
  "wrap_lines r x i str start = Ok ls \<Longrightarrow> nul \<notin> set str \<Longrightarrow> joined ls (drop start str)"
proof (induction r x i str start arbitrary: ls rule: wrap_lines.induct)
  case (1 r x i str start)
  let ?rest = "drop start str"
  have ok: "\<not> length str < start" using 1(2) by (subst (asm) wrap_lines.simps) (auto split: if_splits)
  show ?case
  proof (cases "breakString r ?rest (line_space r (line_xpos x i start))")
    case None
    then show ?thesis using 1(2) ok by (subst (asm) wrap_lines.simps) (auto simp: Let_def)
  next
    case (Some brk)
    let ?next = "start + next_start ?rest brk"
    obtain ls' where ls': "wrap_lines r x i str ?next = Ok ls'" "ls = take brk ?rest # ls'"
      using 1(2) ok Some by (subst (asm) wrap_lines.simps) (auto simp: Let_def res_map_Ok_iff)
    have j: "joined ls' (drop ?next str)" using 1(1) [OF ok refl Some ls'(1)] 1(3) by simp
    have b: "0 < brk" "brk \<le> length ?rest" using breakString_bounds [OF Some] by simp_all
    have next_le: "\<not> length str < ?next" using ls'(1) by (subst (asm) wrap_lines.simps) (auto split: if_splits)
    have "strchr_whitespace (char_at ?rest brk) \<Longrightarrow> char_at ?rest brk \<in> set kWhitespace"
    proof -
      assume w: "strchr_whitespace (char_at ?rest brk)"
      then have "brk < length ?rest" using next_le by (simp add: next_start_def)
      then have "char_at ?rest brk \<in> set str" by (metis char_at_def in_set_dropD nth_mem)
      then show ?thesis using w 1(3) by (auto simp: strchr_whitespace_def)
    qed
    then show ?thesis
      using j b wrap_lines_nonempty [OF ls'(1)] unfolding ls'(2)
      by (subst joined_Cons) (auto simp: next_start_def add.commute split: if_splits)
  qed
qed

text \<open>When every single glyph fits on a line, wrapping always succeeds.\<close>

lemma breakString_single:
  assumes "breakString r s m = Some k" "\<forall>c \<in> set s. fadd 0 (advance r c) \<le> m"
  shows "k < length s"
proof (rule ccontr)
  assume "\<not> k < length s"
  then have k: "k = length s" "k = 1" using breakString_bounds [OF assms(1)] by auto
  then obtain c where s: "s = [c]" by (cases s) auto
  from assms(1) have "m < computeScaledStringWidth r s (length s)" by (rule breakString_cases)
  then show False using assms(2) by (simp add: s computeScaledStringWidth_def)
qed

lemma wrap_lines_total:
  "\<forall>c \<in> set str. \<forall>y \<in> {x, fadd x i}. fadd 0 (advance r c) \<le> line_space r y \<Longrightarrow> start \<le> length str \<Longrightarrow>
   \<exists>ls. wrap_lines r x i str start = Ok ls"
proof (induction r x i str start rule: wrap_lines.induct)
  case (1 r x i str start)
  let ?rest = "drop start str"
  have ok: "\<not> length str < start" using 1(3) by simp
  show ?case
  proof (cases "breakString r ?rest (line_space r (line_xpos x i start))")
    case None
    then show ?thesis using ok by (subst wrap_lines.simps) (simp add: Let_def)
  next
    case (Some brk)
    have "\<forall>c \<in> set ?rest. fadd 0 (advance r c) \<le> line_space r (line_xpos x i start)"
      using 1(2) by (auto simp: line_xpos_def dest: in_set_dropD)
    then have "brk < length ?rest" using breakString_single [OF Some] by blast
    then have "start + next_start ?rest brk \<le> length str" by (auto simp: next_start_def)
    from 1(1) [OF ok refl Some 1(2) this] show ?thesis
      using ok Some by (subst wrap_lines.simps) (auto simp: Let_def)
  qed
qed

text \<open>C27: Wrapping loses nothing but white space: the lines, joined with nothing or one white space character
  between each two, are the text. When every single glyph of the text fits on a line, and a viewport
  is set, the text is wrapped and drawn without leaving the string.\<close>

theorem wrapped_text_complete:
  assumes "nul \<notin> set str"
  shows "(\<forall>ls. wrap_lines r xpos indentWidth str 0 = Ok ls \<longrightarrow> joined ls str) \<and>
         ((\<forall>c \<in> set str. \<forall>y \<in> {xpos, fadd xpos indentWidth}. fadd 0 (advance r c) \<le> line_space r y) \<longrightarrow>
          (\<exists>ls. wrap_lines r xpos indentWidth str 0 = Ok ls))"
  using wrap_lines_joined [OF _ assms, of r xpos indentWidth 0] wrap_lines_total [of str xpos indentWidth r 0] by auto

subsection \<open>A text of one character that does not fit\<close>

definition narrow :: text_renderer where
  "narrow = setScreenSize 31 100 text_renderer0"

lemma advance_W: "advance narrow (CHR ''W'') = 21" "advance (initOnce narrow) (CHR ''W'') = 21"
  by (simp_all add: advance_def narrow_def setScreenSize_def text_renderer0_def glyph_width_def glyphIndex_def numGlyphs_def
      firstGlyphChar_def glyphWidth_def fsub_def fmul_def outlineWidth_def fl_numeral)

lemma narrow_space: "line_space narrow 10 = 11" "line_space (initOnce narrow) 10 = 11"
  by (simp_all add: line_space_def narrow_def setScreenSize_def text_renderer0_def of_u32_def fsub_def fl_numeral)

lemma break_W: "breakString narrow ''W'' 11 = Some 1"
  by (simp add: breakString_def computeScaledStringWidth_def advance_W fadd_def fl_numeral strchr_whitespace_def
      char_at_def Let_def)

theorem breakString_correct_witness:
  "breakString narrow ''W'' 11 = Some 1 \<and> 11 < computeScaledStringWidth narrow ''W'' 1"
  using breakString_correct [where r = narrow and str = "''W''" and maxWidth = 11] by (simp add: break_W)

text \<open>When the text that is left is one character wider than the line, \<open>breakString\<close> finds no room, takes
  that character, and looks for white space from the terminator on; \<open>strchr\<close> finds the terminator in
  every string, so the break is taken for white space, the position moves past the end of the copy,
  and the loop goes on there instead of stopping.\<close>

theorem single_char_overrun: "drawWrappedString e p 0 0 ''W'' narrow g = Undef"
proof -
  let ?r = "initOnce narrow"
  have c: "clamp_border ?r 0 = 10" "mScreenWidth ?r \<noteq> 0" "mScreenHeight ?r \<noteq> 0"
    by (simp_all add: clamp_border_def narrow_def setScreenSize_def text_renderer0_def initOnce_def)
  have w: "to_size 11 = Ok 11" "computeScaledStringWidth ?r ''W'' 1 = 21" "fl 11 = 11"
    by (simp_all add: to_size_def trunc_def computeScaledStringWidth_def advance_W fadd_def fl_numeral)
  have "wrap_lines ?r 10 i ''W'' 0 = Undef" for i
    by (subst wrap_lines.simps)
      (simp add: line_xpos_def narrow_space break_W next_start_def strchr_whitespace_def char_at_def wrap_lines.simps)
  then have "wrap_loop e p 10 i ''W'' 0 10 ?r g = Undef" for i
    by (simp only: wrap_loop_lines res_bind.simps)
  then show ?thesis
    using c w by (simp add: drawWrappedString_def Let_def narrow_space)
qed

definition wide :: text_renderer where
  "wide = setScreenSize 640 480 text_renderer0"

theorem wrapped_text_complete_witness:
  "\<exists>ls. wrap_lines wide 10 30 ''a b'' 0 = Ok ls \<and> joined ls ''a b''"
proof -
  have "\<forall>c \<in> set ''a b''. \<forall>y \<in> {10, fadd 10 30}. fadd 0 (advance wide c) \<le> line_space wide y"
    by (simp add: advance_def wide_def setScreenSize_def text_renderer0_def glyph_width_def glyphIndex_def numGlyphs_def
        firstGlyphChar_def glyphWidth_def fsub_def fmul_def fadd_def outlineWidth_def line_space_def of_u32_def fl_numeral)
  moreover have "nul \<notin> set ''a b''" by (simp add: nul_def)
  ultimately show ?thesis using wrapped_text_complete [of "''a b''" wide 10 30] by blast
qed

theorem texture_complete_witness:
  "\<exists>rgba. rgba_pixels (replicate (256 * 204) 0) = Ok rgba \<and> length rgba = 256 * 256 * 4"
  using texture_complete [of "replicate (256 * 204) 0"] by auto

theorem glyph_cells_witness:
  "unat (initXOffset ! 94) + unat (glyphWidth ! 94) \<le> unat font_width \<and>
   (yoffset ! 93 = yoffset ! 94 \<and> unat (initXOffset ! 93) + unat (glyphWidth ! 93) < unat (initXOffset ! 94) \<or>
      unat (yoffset ! 93) + maxGlyphHeight \<le> unat (yoffset ! 94))"
proof -
  have m: "(94::nat) \<in> {..<95}" "(93::nat) \<in> {..<94}" by simp_all
  show ?thesis using bspec [OF conjunct1 [OF glyph_cells] m(1)] bspec [OF bspec [OF conjunct2 [OF glyph_cells] m(1)] m(2)] by blast
qed

theorem powerOfTwoCeil_least_witness:
  "\<exists>n. unat (powerOfTwoCeil 204) = 2 ^ n \<and> (\<forall>k. unat (204 :: u32) \<le> 2 ^ k \<longrightarrow> n \<le> k)"
proof -
  have "0 < (204 :: u32) \<and> 204 \<le> (2 ^ 31 :: u32)" by simp
  then show ?thesis using powerOfTwoCeil_least by blast
qed

end
