(* ===== verification/Overlay.thy ===== *)
theory Overlay
  imports Text_Renderer
begin

section \<open>The overlay\<close>

text \<open>
  \<open>screenrecord/Overlay.cpp\<close>: the thread between the virtual display and the encoder that draws the
  time over every frame, and the information page. The object's fields are a record over the GL
  trace; the life of the thread is in \<open>Overlay_Thread\<close>. Reference-counted pointers are kept
  as whether they are set. The texts that depend on the time zone (\<open>strftime\<close>), on system
  properties and on the driver are read from \<open>g_text\<close>.
\<close>

datatype overlay_state = UNINITIALIZED | INIT | RUNNING | STOPPING | STOPPED

record overlay = gl +
  mThreadResult :: int
  mState :: overlay_state
  mFrameAvailable :: bool
  mOutputSurface :: bool
  mProducer :: bool
  mGlConsumer :: bool
  mEglWindow :: eglwindow
  mExtTexProgram :: program
  mTexProgram :: program
  mTextRenderer :: text_renderer
  mExtTextureName :: int
  mStartMonotonicNsecs :: int
  mStartRealtimeNsecs :: int
  mLastFrameNumber :: int
  mTotalDroppedFrames :: u64
  mUseMonotonicTimestamps :: bool

definition overlay0 :: "bool \<Rightarrow> overlay" where
  "overlay0 monotonicTimestamps =
     \<lparr>gtrace = [], mThreadResult = UNKNOWN_ERROR, mState = UNINITIALIZED, mFrameAvailable = False,
      mOutputSurface = False, mProducer = False, mGlConsumer = False, mEglWindow = eglwindow0,
      mExtTexProgram = program0, mTexProgram = program0, mTextRenderer = text_renderer0, mExtTextureName = 0,
      mStartMonotonicNsecs = 0, mStartRealtimeNsecs = 0, mLastFrameNumber = -1, mTotalDroppedFrames = 0,
      mUseMonotonicTimestamps = monotonicTimestamps\<rparr>"

subsection \<open>The time over a frame\<close>

text \<open>C's \<open>/\<close> and \<open>%\<close> of signed integers round towards zero.\<close>

definition cdiv :: "int \<Rightarrow> int \<Rightarrow> int" where "cdiv a b = (if a < 0 then - ((- a) div b) else a div b)"
definition cmod :: "int \<Rightarrow> int \<Rightarrow> int" where "cmod a b = a - b * cdiv a b"

definition pad3 :: "string \<Rightarrow> string" where
  "pad3 s = replicate (3 - length s) (CHR ''0'') @ s"

text \<open>\<open>snprintf(tmpBuf, 5, ".%03d", msec)\<close>.\<close>

definition msec_text :: "int \<Rightarrow> string" where
  "msec_text msec =
     take 4 (CHR ''.'' # (if msec < 0 then CHR ''-'' # replicate (2 - length (nat_to_string (nat (- msec)))) (CHR ''0'') @
                                             nat_to_string (nat (- msec))
                          else pad3 (nat_to_string (nat msec))))"

text \<open>\<open>strlcat\<close> into a buffer of \<open>n\<close> bytes.\<close>

definition strlcat :: "string \<Rightarrow> string \<Rightarrow> nat \<Rightarrow> string" where
  "strlcat dst src n = (if length dst < n then take (n - 1) (dst @ src) else dst)"

definition getTimeString_l :: "genv \<Rightarrow> int \<Rightarrow> nat \<Rightarrow> overlay \<Rightarrow> string \<times> overlay" where
  "getTimeString_l e monotonicNsec bufLen s =
     (if mUseMonotonicTimestamps s then (take (bufLen - 1) (to_string monotonicNsec), s) else
      let realTime = mStartRealtimeNsecs s + (monotonicNsec - mStartMonotonicNsecs s);
          s1 = gcall (GSys (Sys_timeOfDay (cdiv realTime 1000000000))) s;
          msec = cdiv (cmod realTime 1000000000) 1000000
      in (strlcat (g_text e (gtrace s1)) (msec_text msec) bufLen, s1))"

lemma nat_to_string_small:
  "n < 1000 \<Longrightarrow> length (nat_to_string n) \<le> 3"
  by (simp add: nat_to_string.simps [of n] nat_to_string.simps [of "n div 10"] nat_to_string.simps [of "n div 10 div 10"])

lemma digits_value_zeros: "digits_value 0 (replicate k (CHR ''0'') @ s) = digits_value 0 s"
  by (induction k) (simp_all add: digit_val_def)

lemma pad3_digits:
  assumes "n < 1000"
  shows "length (pad3 (nat_to_string n)) = 3" "digits_value 0 (pad3 (nat_to_string n)) = int n"
  using nat_to_string_small [OF assms] by (simp_all add: pad3_def digits_value_zeros digits_value_nat_to_string)

text \<open>The time over a frame: what \<open>strftime\<close> gives for the whole seconds of the frame's wall-clock time, a
  dot, and its milliseconds as three digits.\<close>

theorem frame_time_text:
  assumes "\<not> mUseMonotonicTimestamps s" "0 \<le> t"
    and t: "t = mStartRealtimeNsecs s + (monotonicNsec - mStartMonotonicNsecs s)"
    and "length (g_text e (gtrace s @ [GSys (Sys_timeOfDay (t div 1000000000))])) = 8"
  shows "\<exists>ms. fst (getTimeString_l e monotonicNsec 64 s) =
           g_text e (gtrace s @ [GSys (Sys_timeOfDay (t div 1000000000))]) @ CHR ''.'' # ms \<and>
           length ms = 3 \<and> digits_value 0 ms = t div 1000000 mod 1000"
proof -
  define n where "n = nat (t mod 1000000000 div 1000000)"
  have m: "t mod 1000000000 div 1000000 = t div 1000000 mod 1000"
  proof -
    have "t mod (1000000 * 1000) = 1000000 * (t div 1000000 mod 1000) + t mod 1000000" by (rule zmod_zmult2_eq) simp
    then have "t mod 1000000000 = 1000000 * (t div 1000000 mod 1000) + t mod 1000000" by simp
    then show ?thesis by simp
  qed
  have n: "n < 1000" "int n = t div 1000000 mod 1000" by (simp_all add: n_def m)
  have c: "cdiv t 1000000000 = t div 1000000000" "cdiv (cmod t 1000000000) 1000000 = int n"
    using assms(2) by (simp_all add: cdiv_def cmod_def minus_mult_div_eq_mod n_def)
  have m: "msec_text (int n) = CHR ''.'' # pad3 (nat_to_string n)"
    using pad3_digits(1) [OF n(1)] by (simp add: msec_text_def)
  have "fst (getTimeString_l e monotonicNsec 64 s) =
      strlcat (g_text e (gtrace s @ [GSys (Sys_timeOfDay (t div 1000000000))])) (msec_text (int n)) 64"
    using assms(1) by (simp add: getTimeString_l_def Let_def c [simplified] flip: t)
  also have "\<dots> = g_text e (gtrace s @ [GSys (Sys_timeOfDay (t div 1000000000))]) @ CHR ''.'' # pad3 (nat_to_string n)"
    unfolding m strlcat_def using assms(4) pad3_digits(1) [OF n(1)] by simp
  finally have "fst (getTimeString_l e monotonicNsec 64 s) =
      g_text e (gtrace s @ [GSys (Sys_timeOfDay (t div 1000000000))]) @ CHR ''.'' # pad3 (nat_to_string n)" .
  then show ?thesis using pad3_digits [OF n(1)] n(2) by auto
qed

subsection \<open>Setting up and releasing\<close>

definition overlay_setup :: "genv \<Rightarrow> byte list \<Rightarrow> overlay \<Rightarrow> (int \<times> overlay) res" where
  "overlay_setup e pixels s =
     (let (err, win, s1) = createWindow e (mEglWindow s) s; s2 = s1\<lparr>mEglWindow := win\<rparr> in
      if err \<noteq> NO_ERROR then Ok (err, s2) else
      let w = mWidth win; h = mHeight win;
          s3 = gcall (GTex (Gl_viewport w h)) (snd (makeCurrent e win s2));
          (err, prog, s4) = program_setup e PROGRAM_TEXTURE_2D (mTexProgram s3) s3; s5 = s4\<lparr>mTexProgram := prog\<rparr> in
      if err \<noteq> NO_ERROR then Ok (err, s5) else
      let (err, prog, s6) = program_setup e PROGRAM_EXTERNAL_TEXTURE (mExtTexProgram s5) s5; s7 = s6\<lparr>mExtTexProgram := prog\<rparr> in
      if err \<noteq> NO_ERROR then Ok (err, s7) else
      res_map (\<lambda>(err, text, s8).
        let s9 = s8\<lparr>mTextRenderer := text\<rparr> in
        if err \<noteq> NO_ERROR then (err, s9) else
        let (name, s10) = gask e (GTex Gl_genTextures) (s9\<lparr>mTextRenderer := setScreenSize (word_of_int w) (word_of_int h) text\<rparr>);
            s11 = s10\<lparr>mExtTextureName := name\<rparr>
        in if name = 0 then (UNKNOWN_ERROR, gcall (GDraw Gl_getError) s11)
           else (NO_ERROR, (gcall (GTex (Gl_createQueue w h)) s11)\<lparr>mProducer := True, mGlConsumer := True\<rparr>))
        (loadIntoTexture e pixels (mTextRenderer s7) s7))"

definition overlay_release :: "overlay \<Rightarrow> overlay" where
  "overlay_release s =
     (let s1 = s\<lparr>mOutputSurface := False, mGlConsumer := False, mProducer := False\<rparr>;
          (tex, s2) = program_release (mTexProgram s1) s1; s3 = s2\<lparr>mTexProgram := tex\<rparr>;
          (ext, s4) = program_release (mExtTexProgram s3) s3; s5 = s4\<lparr>mExtTexProgram := ext\<rparr>;
          (win, s6) = eglRelease (mEglWindow s5) s5
      in s6\<lparr>mEglWindow := win\<rparr>)"

subsection \<open>Frames\<close>

text \<open>The frames that were skipped: \<open>size_t(frameNumber - mLastFrameNumber) - 1\<close>.\<close>

definition count_frame :: "int \<Rightarrow> overlay \<Rightarrow> overlay" where
  "count_frame frameNumber s =
     (let s1 = (if 0 < mLastFrameNumber s
                then s\<lparr>mTotalDroppedFrames := mTotalDroppedFrames s + (word_of_int (frameNumber - mLastFrameNumber s) - 1)\<rparr>
                else s)
      in s1\<lparr>mLastFrameNumber := frameNumber\<rparr>)"

definition frame_text :: "string \<Rightarrow> int \<Rightarrow> u64 \<Rightarrow> string" where
  "frame_text timeText frameNumber dropped =
     timeText @ '' f='' @ to_string frameNumber @ '' ('' @ to_string (sint dropped) @ '')''"

definition processFrame_l :: "genv \<Rightarrow> overlay \<Rightarrow> overlay res" where
  "processFrame_l e s =
     (let s1 = gcall (GTex Gl_getTransformMatrix) (gcall (GTex Gl_updateTexImage) s); texMatrix = g_matrix e (gtrace s1);
          (monotonicNsec, s2) = gask e (GTex Gl_getTimestamp) s1; (frameNumber, s3) = gask e (GTex Gl_getFrameNumber) s2;
          s4 = count_frame frameNumber s3 in
      res_bind (setProportionalScale 35 (mTextRenderer s4)) (\<lambda>text.
      let s5 = s4\<lparr>mTextRenderer := text\<rparr>; w = mWidth (mEglWindow s5); h = mHeight (mEglWindow s5) in
      res_bind (blit e (mExtTexProgram s5) (mExtTextureName s5) texMatrix 0 0 w h False s5) (\<lambda>(err, s6).
      let (timeText, s7) = getTimeString_l e monotonicNsec 64 (gcall (GTex (Gl_blend True)) s6) in
      res_map (\<lambda>(text, s8).
        swapBuffers (mEglWindow s8) (presentationTime (mEglWindow s8) monotonicNsec (gcall (GTex (Gl_blend False)) (s8\<lparr>mTextRenderer := text\<rparr>))))
        (drawString e (mTexProgram s7) kIdentity 0 0 (frame_text timeText frameNumber (mTotalDroppedFrames s7))
           (mTextRenderer s7) s7))))"

text \<open>The counter over several frames.\<close>

definition count_frames :: "int list \<Rightarrow> overlay \<Rightarrow> overlay" where
  "count_frames ns s = fold count_frame ns s"

text \<open>After frames with increasing positive numbers the counter has grown by the number of numbers between
  the first and the last that did not come.\<close>

lemma count_frames_from:
  "0 < mLastFrameNumber s \<Longrightarrow>
   mTotalDroppedFrames (count_frames ns s) =
   mTotalDroppedFrames s + (word_of_int (last (mLastFrameNumber s # ns) - mLastFrameNumber s) - word_of_nat (length ns))"
  if "\<forall>n \<in> set ns. 0 < n"
  using that
proof (induction ns arbitrary: s)
  case (Cons n ns)
  let ?s = "count_frame n s"
  have "mLastFrameNumber ?s = n" by (simp add: count_frame_def Let_def)
  moreover have "mTotalDroppedFrames ?s = mTotalDroppedFrames s + (word_of_int (n - mLastFrameNumber s) - 1)"
    using Cons.prems(1) by (simp add: count_frame_def Let_def)
  moreover define l where "l = last (n # ns)"
  moreover have "last (mLastFrameNumber s # n # ns) = l" "count_frames (n # ns) s = count_frames ns ?s"
    by (simp_all add: count_frames_def l_def)
  ultimately show ?case using Cons.IH [of ?s] Cons.prems by (simp del: last.simps)
qed (simp add: count_frames_def)

lemma sorted_range:
  fixes n x :: int
  shows "sorted_wrt (<) (n # ns) \<Longrightarrow> x \<in> set (n # ns) \<Longrightarrow> n \<le> x \<and> x \<le> last (n # ns)"
proof (induction ns arbitrary: n x)
  case (Cons m ns)
  then have "sorted_wrt (<) (m # ns)" "n < m" by simp_all
  then have b: "m \<le> last (m # ns)" "\<forall>y \<in> set (m # ns). m \<le> y \<and> y \<le> last (m # ns)" using Cons.IH [of m] by auto
  have l: "last (n # m # ns) = last (m # ns)" by simp
  have "x = n \<or> x \<in> set (m # ns)" using Cons.prems(2) by simp
  then show ?case unfolding l
  proof
    assume "x \<in> set (m # ns)"
    with b(2) have "m \<le> x \<and> x \<le> last (m # ns)" by (rule bspec)
    then show "n \<le> x \<and> x \<le> last (m # ns)" using \<open>n < m\<close> by linarith
  next
    assume "x = n"
    then show "n \<le> x \<and> x \<le> last (m # ns)" using b(1) \<open>n < m\<close> by linarith
  qed
qed simp

theorem dropped_frames_counted:
  assumes "mLastFrameNumber s \<le> 0" "0 < n" "sorted_wrt (<) (n # ns)" "int (unat (mTotalDroppedFrames s)) + last (n # ns) < 2 ^ 64"
  shows "unat (mTotalDroppedFrames (count_frames (n # ns) s)) =
         unat (mTotalDroppedFrames s) + card ({n..last (n # ns)} - set (n # ns))"
proof -
  let ?l = "last (n # ns)" let ?c = "card ({n..?l} - set (n # ns))"
  have range: "x \<in> {n..?l}" if "x \<in> set (n # ns)" for x
    using sorted_range [OF assms(3) that] by simp
  have pos: "\<forall>k \<in> set ns. 0 < k" using assms(2,3) by auto
  have "card (set (n # ns)) = length (n # ns)" using assms(3) by (intro distinct_card) (metis strict_sorted_iff)
  moreover have "card ({n..?l} - set (n # ns)) = card {n..?l} - card (set (n # ns))"
    using range by (intro card_Diff_subset) auto
  moreover have "card (set (n # ns)) \<le> card {n..?l}" using range by (intro card_mono) auto
  moreover have "n \<le> ?l" using range [of n] by simp
  ultimately have c: "int ?c = ?l - n - int (length ns)" by simp
  have s1: "mLastFrameNumber (count_frame n s) = n" "mTotalDroppedFrames (count_frame n s) = mTotalDroppedFrames s"
    using assms(1) by (simp_all add: count_frame_def Let_def)
  have "count_frames (n # ns) s = count_frames ns (count_frame n s)" by (simp add: count_frames_def)
  then have "mTotalDroppedFrames (count_frames (n # ns) s) =
      mTotalDroppedFrames s + (word_of_int (?l - n) - word_of_nat (length ns))"
    using count_frames_from [OF pos, of "count_frame n s"] s1 assms(2) by simp
  also have "word_of_int (?l - n) - word_of_nat (length ns) = (word_of_int (int ?c) :: u64)"
    by (simp only: c of_int_diff of_int_of_nat_eq)
  also have "mTotalDroppedFrames s + word_of_int (int ?c) = word_of_nat (unat (mTotalDroppedFrames s) + ?c)"
    by simp
  finally have "unat (mTotalDroppedFrames (count_frames (n # ns) s)) = take_bit 64 (unat (mTotalDroppedFrames s) + ?c)"
    by (simp only: unsigned_of_nat) simp
  moreover have "unat (mTotalDroppedFrames s) + ?c < 2 ^ 64"
  proof -
    have "int (unat (mTotalDroppedFrames s) + ?c) < 2 ^ 64" using assms(2,4) c by linarith
    then have "int (unat (mTotalDroppedFrames s) + ?c) < int (2 ^ 64)" by simp
    then show ?thesis by (simp only: of_nat_less_iff)
  qed
  ultimately show ?thesis by (simp only: take_bit_nat_eq_self)
qed

subsection \<open>Nothing of EGL and GL is kept\<close>

text \<open>The programs of the object that exist, and the counts against the ones before it.\<close>

definition overlay_holds :: "genv \<Rightarrow> int \<Rightarrow> int \<Rightarrow> int \<Rightarrow> overlay \<Rightarrow> bool" where
  "overlay_holds e contexts surfaces programs s =
     (egl_inv e contexts surfaces (mEglWindow s) s \<and>
      held (program_count e) s =
        programs + (if mProgram (mTexProgram s) \<noteq> 0 then 1 else 0) + (if mProgram (mExtTexProgram s) \<noteq> 0 then 1 else 0))"

lemma egl_inv_calls: "calls P g g' \<Longrightarrow> (\<And>c. P c \<Longrightarrow> \<not> is_egl c) \<Longrightarrow> egl_inv e n m w g' = egl_inv e n m w g"
proof -
  assume c: "calls P g g'" and P: "\<And>c. P c \<Longrightarrow> \<not> is_egl c"
  have z: "\<not> is_egl d \<Longrightarrow> context_count e past d = 0 \<and> surface_count e past d = 0" for d past
    by (auto simp: is_egl_def egl_counts split: gcall.splits)
  have "held (context_count e) g' = held (context_count e) g" "held (surface_count e) g' = held (surface_count e) g"
    using z P by (blast intro!: held_calls [OF c])+
  then show ?thesis by (simp add: egl_inv_def)
qed

lemma held_update [simp]:
  "held f (s\<lparr>mEglWindow := w\<rparr>) = held f s" "held f (s\<lparr>mTexProgram := p\<rparr>) = held f s"
  "held f (s\<lparr>mExtTexProgram := p\<rparr>) = held f s" "held f (s\<lparr>mTextRenderer := t\<rparr>) = held f s"
  "held f (s\<lparr>mExtTextureName := n\<rparr>) = held f s" "held f (s\<lparr>mProducer := b\<rparr>) = held f s"
  "held f (s\<lparr>mGlConsumer := b\<rparr>) = held f s" "held f (s\<lparr>mOutputSurface := b\<rparr>) = held f s"
  "held f (s\<lparr>mState := st\<rparr>) = held f s" "held f (s\<lparr>mThreadResult := r\<rparr>) = held f s"
  "held f (s\<lparr>mFrameAvailable := b\<rparr>) = held f s" "held f (s\<lparr>mLastFrameNumber := k\<rparr>) = held f s"
  "held f (s\<lparr>mTotalDroppedFrames := d\<rparr>) = held f s"
  by (simp_all add: held_def)

lemma egl_inv_update [simp]:
  fixes s :: overlay
  shows "egl_inv e n m w (s\<lparr>mEglWindow := w'\<rparr>) = egl_inv e n m w s" "egl_inv e n m w (s\<lparr>mTexProgram := p\<rparr>) = egl_inv e n m w s"
    "egl_inv e n m w (s\<lparr>mExtTexProgram := p\<rparr>) = egl_inv e n m w s" "egl_inv e n m w (s\<lparr>mTextRenderer := t\<rparr>) = egl_inv e n m w s"
    "egl_inv e n m w (s\<lparr>mExtTextureName := k\<rparr>) = egl_inv e n m w s" "egl_inv e n m w (s\<lparr>mProducer := b\<rparr>) = egl_inv e n m w s"
    "egl_inv e n m w (s\<lparr>mGlConsumer := b\<rparr>) = egl_inv e n m w s" "egl_inv e n m w (s\<lparr>mOutputSurface := b\<rparr>) = egl_inv e n m w s"
    "egl_inv e n m w (s\<lparr>mState := st\<rparr>) = egl_inv e n m w s" "egl_inv e n m w (s\<lparr>mThreadResult := i\<rparr>) = egl_inv e n m w s"
    "egl_inv e n m w (s\<lparr>mFrameAvailable := b\<rparr>) = egl_inv e n m w s" "egl_inv e n m w (s\<lparr>mLastFrameNumber := i\<rparr>) = egl_inv e n m w s"
    "egl_inv e n m w (s\<lparr>mTotalDroppedFrames := d\<rparr>) = egl_inv e n m w s"
  by (simp_all add: egl_inv_def)

lemma egl_inv_gcall [simp]: "\<not> is_egl c \<Longrightarrow> egl_inv e n m w (gcall c g) = egl_inv e n m w g"
  by (rule egl_inv_calls [of "\<lambda>d. \<not> is_egl d"]) auto

lemma overlay_gcall [simp]:
  "mEglWindow (gcall c s) = mEglWindow s" "mTexProgram (gcall c s) = mTexProgram s" "mExtTexProgram (gcall c s) = mExtTexProgram s"
  "mTextRenderer (gcall c s) = mTextRenderer s" "mState (gcall c s) = mState s" "mFrameAvailable (gcall c s) = mFrameAvailable s"
  "mThreadResult (gcall c s) = mThreadResult s"
  by (simp_all add: gcall_def)

lemma calls_fields:
  assumes "calls P s s'"
  shows "mEglWindow s' = mEglWindow s" "mTexProgram s' = mTexProgram s" "mExtTexProgram s' = mExtTexProgram s"
    "mTextRenderer s' = mTextRenderer s" "mState s' = mState s" "mFrameAvailable s' = mFrameAvailable s"
    "mThreadResult s' = mThreadResult s"
  using assms by (auto simp: calls_def)

definition is_tex :: "gcall \<Rightarrow> bool" where
  "is_tex c = (case c of GTex _ \<Rightarrow> True | GDraw _ \<Rightarrow> True | _ \<Rightarrow> False)"

lemma loadIntoTexture_calls:
  "loadIntoTexture e pixels r g = Ok (err, r', g') \<Longrightarrow> calls is_tex g g'"
  by (auto simp: loadIntoTexture_def res_map_Ok_iff is_tex_def Let_def split: if_splits)

lemma not_egl: "is_tex c \<Longrightarrow> \<not> is_egl c" "is_prog c \<Longrightarrow> \<not> is_egl c" "is_draw c \<Longrightarrow> \<not> is_egl c"
  by (auto simp: is_tex_def is_prog_def is_draw_def is_egl_def split: gcall.splits)

lemma is_tex_programs: "is_tex c \<Longrightarrow> program_count e past c = 0"
  by (auto simp: is_tex_def shader_counts split: gcall.splits draw_call.splits)

lemma is_egl_programs: "is_egl c \<Longrightarrow> program_count e past c = 0"
  by (rule counts_apart)

text \<open>What setting up one program does to the counts, on an object whose program it is.\<close>

lemma setup_program_step:
  assumes "program_setup e type p s = (err, p', s')" "mProgram p = 0"
  shows "calls is_prog s s' \<and> egl_inv e n m w s' = egl_inv e n m w s \<and>
         held (program_count e) s' = held (program_count e) s + (if mProgram p' \<noteq> 0 then 1 else 0) \<and>
         (err = NO_ERROR \<longleftrightarrow> mProgram p' \<noteq> 0)"
proof -
  have c: "calls is_prog s s'" using program_setup_calls [of s e type p] assms(1) by simp
  have "egl_inv e n m w s' = egl_inv e n m w s" by (rule egl_inv_calls [OF c]) (rule not_egl)
  then show ?thesis using c setup_counts [OF assms(1)] assms(2) by (auto split: if_splits)
qed

lemma overlay_holds_font [simp]: "overlay_holds e n m k (s\<lparr>mTextRenderer := t\<rparr>) = overlay_holds e n m k s"
  by (simp add: overlay_holds_def)

lemma overlay_setup_holds:
  assumes "overlay_setup e pixels s = Ok (err, s')" "overlay_holds e n m k s"
    and "mProgram (mTexProgram s) = 0" "mProgram (mExtTexProgram s) = 0" "mEglSurface (mEglWindow s) = 0"
  shows "overlay_holds e n m k s' \<and> mState s' = mState s \<and> mFrameAvailable s' = mFrameAvailable s"
proof -
  obtain err1 win s1 where w: "createWindow e (mEglWindow s) s = (err1, win, s1)" by (metis prod_cases3)
  have cw: "calls is_egl s s1" using createWindow_calls [of s e "mEglWindow s"] w by simp
  have p1: "held (program_count e) s1 = held (program_count e) s" by (rule held_calls [OF cw is_egl_programs])
  have i1: "egl_inv e n m win s1" using eglwindow_step(1) [OF _ w] assms(2) by (simp add: overlay_holds_def)
  note f1 = calls_fields [OF cw]
  show ?thesis
  proof (cases "err1 = NO_ERROR")
    case False
    then have "s' = s1\<lparr>mEglWindow := win\<rparr>" using assms(1) w by (simp add: overlay_setup_def)
    then show ?thesis using i1 p1 f1 assms by (simp add: overlay_holds_def)
  next
    case True
    let ?s2 = "s1\<lparr>mEglWindow := win\<rparr>"
    let ?s3 = "gcall (GTex (Gl_viewport (mWidth win) (mHeight win))) (snd (makeCurrent e win ?s2))"
    have s3: "egl_inv e n m win ?s3" "held (program_count e) ?s3 = held (program_count e) s"
      "mTexProgram ?s3 = mTexProgram s" "mExtTexProgram ?s3 = mExtTexProgram s" "mEglWindow ?s3 = win"
      "mState ?s3 = mState s" "mFrameAvailable ?s3 = mFrameAvailable s"
      using i1 p1 f1 by (simp_all add: makeCurrent_def is_egl_def shader_counts egl_inv_def egl_counts)
    obtain err4 tex s4 where t: "program_setup e PROGRAM_TEXTURE_2D (mTexProgram ?s3) ?s3 = (err4, tex, s4)" by (metis prod_cases3)
    have k4: "calls is_prog ?s3 s4" "egl_inv e n m win s4"
      "held (program_count e) s4 = held (program_count e) s + (if mProgram tex \<noteq> 0 then 1 else 0)"
      using setup_program_step [OF t, of n m win] s3 assms(3) by simp_all
    note f4 = calls_fields [OF k4(1), unfolded s3]
    show ?thesis
    proof (cases "err4 = NO_ERROR")
      case False
      then have "s' = s4\<lparr>mTexProgram := tex\<rparr>" using assms(1) w True t by (simp add: overlay_setup_def Let_def)
      then show ?thesis using k4 f4 assms by (simp add: overlay_holds_def)
    next
      case ok4: True
      let ?s5 = "s4\<lparr>mTexProgram := tex\<rparr>"
      obtain err6 ext s6 where x: "program_setup e PROGRAM_EXTERNAL_TEXTURE (mExtTexProgram ?s5) ?s5 = (err6, ext, s6)"
        by (metis prod_cases3)
      have k6: "calls is_prog ?s5 s6" "egl_inv e n m win s6"
        "held (program_count e) s6 = held (program_count e) s + (if mProgram tex \<noteq> 0 then 1 else 0) + (if mProgram ext \<noteq> 0 then 1 else 0)"
        using setup_program_step [OF x, of n m win] k4 f4 assms(4) by simp_all
      note f6 = calls_fields [OF k6(1)]
      let ?s7 = "s6\<lparr>mExtTexProgram := ext\<rparr>"
      have h7: "overlay_holds e n m k ?s7" "mState ?s7 = mState s" "mFrameAvailable ?s7 = mFrameAvailable s"
        using k6 f6 f4 assms by (simp_all add: overlay_holds_def)
      show ?thesis
      proof (cases "err6 = NO_ERROR")
        case False
        then have "s' = ?s7" using assms(1) w True t ok4 x by (simp add: overlay_setup_def Let_def)
        then show ?thesis using h7 by simp
      next
        case ok6: True
        obtain err8 font s8 where l: "loadIntoTexture e pixels (mTextRenderer ?s7) ?s7 = Ok (err8, font, s8)"
          using assms(1) w True t ok4 x ok6 by (auto simp: overlay_setup_def Let_def res_map_Ok_iff)
        have c8: "calls is_tex ?s7 s8" by (rule loadIntoTexture_calls [OF l])
        have "egl_inv e n m w s8 = egl_inv e n m w ?s7" for w by (rule egl_inv_calls [OF c8]) (rule not_egl)
        moreover have "held (program_count e) s8 = held (program_count e) ?s7" by (rule held_calls [OF c8 is_tex_programs])
        ultimately have h8: "overlay_holds e n m k s8" "mState s8 = mState s" "mFrameAvailable s8 = mFrameAvailable s"
          using h7 calls_fields [OF c8] by (simp_all add: overlay_holds_def)
        show ?thesis
        proof (cases "err8 = NO_ERROR")
          case False
          then have "s' = s8\<lparr>mTextRenderer := font\<rparr>"
            using assms(1) w True t ok4 x ok6 l by (simp add: overlay_setup_def Let_def)
          then show ?thesis using h8 by simp
        next
          case ok8: True
          let ?s9 = "s8\<lparr>mTextRenderer := setScreenSize (word_of_int (mWidth win)) (word_of_int (mHeight win)) font\<rparr>"
          have "\<exists>nm q b. s' = (gcall q ((gcall (GTex Gl_genTextures) ?s9)\<lparr>mExtTextureName := nm\<rparr>)) \<and> (\<exists>d. q = GDraw Gl_getError) \<or>
                 s' = (gcall q ((gcall (GTex Gl_genTextures) ?s9)\<lparr>mExtTextureName := nm\<rparr>))\<lparr>mProducer := True, mGlConsumer := True\<rparr> \<and>
                 q = GTex (Gl_createQueue (mWidth win) (mHeight win))"
            using assms(1) w True t ok4 x ok6 l ok8 by (auto simp: overlay_setup_def Let_def split: if_splits)
          then show ?thesis using h8 by (auto simp: overlay_holds_def is_egl_def shader_counts)
        qed
      qed
    qed
  qed
qed

lemma overlay_release_holds:
  assumes "overlay_holds e n m k s"
  shows "held (context_count e) (overlay_release s) = n \<and> held (surface_count e) (overlay_release s) = m \<and>
         held (program_count e) (overlay_release s) = k \<and> \<not> mProducer (overlay_release s) \<and> \<not> mGlConsumer (overlay_release s) \<and>
         mState (overlay_release s) = mState s \<and> mThreadResult (overlay_release s) = mThreadResult s \<and>
         mFrameAvailable (overlay_release s) = mFrameAvailable s"
proof -
  let ?s1 = "s\<lparr>mOutputSurface := False, mGlConsumer := False, mProducer := False\<rparr>"
  obtain tex s2 where t: "program_release (mTexProgram ?s1) ?s1 = (tex, s2)" by (metis surj_pair)
  have k2: "held (program_count e) s2 = held (program_count e) s - (if mProgram (mTexProgram s) \<noteq> 0 then 1 else 0)"
    using t by (auto simp: program_release_def shader_counts split: if_splits)
  have c2: "calls is_prog ?s1 s2" using program_release_calls [of ?s1 "mTexProgram ?s1"] t by simp
  let ?s3 = "s2\<lparr>mTexProgram := tex\<rparr>"
  obtain ext s4 where x: "program_release (mExtTexProgram ?s3) ?s3 = (ext, s4)" by (metis surj_pair)
  have k4: "held (program_count e) s4 = held (program_count e) s2 - (if mProgram (mExtTexProgram s) \<noteq> 0 then 1 else 0)"
    using x calls_fields [OF c2] by (auto simp: program_release_def shader_counts split: if_splits)
  have c4: "calls is_prog ?s3 s4" using program_release_calls [of ?s3 "mExtTexProgram ?s3"] x by simp
  let ?s5 = "s4\<lparr>mExtTexProgram := ext\<rparr>"
  have win: "mEglWindow ?s5 = mEglWindow s" using calls_fields [OF c2] calls_fields [OF c4] by simp
  have "egl_inv e n m w s4 = egl_inv e n m w ?s3" "egl_inv e n m w s2 = egl_inv e n m w ?s1" for w
    by (rule egl_inv_calls [OF c4] egl_inv_calls [OF c2], rule not_egl, assumption)+
  then have i5: "egl_inv e n m (mEglWindow ?s5) ?s5" using assms win by (simp add: overlay_holds_def)
  obtain w6 s6 where r: "eglRelease (mEglWindow ?s5) ?s5 = (w6, s6)" by (metis surj_pair)
  have c6: "calls is_egl ?s5 s6" using eglRelease_calls [of ?s5 "mEglWindow ?s5"] r by simp
  have i6: "egl_inv e n m w6 s6" "mEglSurface w6 = 0" using eglRelease_inv [OF i5 r] by simp_all
  have k6: "held (program_count e) s6 = held (program_count e) s4"
    using held_calls [OF c6 is_egl_programs] by simp
  have "overlay_release s = s6\<lparr>mEglWindow := w6\<rparr>"
    unfolding overlay_release_def Let_def t prod.case x r ..
  moreover have "\<not> mProducer s6 \<and> \<not> mGlConsumer s6"
    using c2 c4 c6 by (auto simp: calls_def)
  ultimately show ?thesis
    using i6 k6 k4 k2 assms calls_fields [OF c6] calls_fields [OF c4] calls_fields [OF c2]
    by (simp add: overlay_holds_def egl_inv_def)
qed

lemma count_frame_holds [simp]:
  "overlay_holds e n m k (count_frame i s) = overlay_holds e n m k s" "mState (count_frame i s) = mState s"
  "mThreadResult (count_frame i s) = mThreadResult s" "mFrameAvailable (count_frame i s) = mFrameAvailable s"
  by (simp_all add: count_frame_def overlay_holds_def Let_def)

text \<open>A call that makes and frees nothing.\<close>

definition is_free :: "gcall \<Rightarrow> bool" where
  "is_free c = (is_draw c \<or> is_tex c \<or> (case c of GSys _ \<Rightarrow> True | GSync _ \<Rightarrow> True | _ \<Rightarrow> False))"

lemma is_free_simps [simp]: "is_free (GTex t)" "is_free (GSys y)" "is_free (GSync z)" "is_free (GDraw d)"
  by (simp_all add: is_free_def is_tex_def)

lemma free_holds:
  assumes "calls is_free s s'"
  shows "overlay_holds e n m k s' = overlay_holds e n m k s"
proof -
  have "egl_inv e n m w s' = egl_inv e n m w s" for w
    by (rule egl_inv_calls [OF assms]) (auto simp: is_free_def is_draw_def is_tex_def is_egl_def split: gcall.splits)
  moreover have "held (program_count e) s' = held (program_count e) s"
    by (rule held_calls [OF assms]) (auto simp: is_free_def is_draw_def is_tex_def shader_counts split: gcall.splits)
  ultimately show ?thesis using calls_fields [OF assms] by (simp add: overlay_holds_def)
qed

lemma draws_free: "draws g g' \<Longrightarrow> calls is_free g g'"
  by (erule calls_mono) (simp add: is_free_def)

lemma drawString_calls: "drawString e p m x y str r g = Ok (r', g') \<Longrightarrow> draws g g'"
  by (auto simp: drawString_def res_map_Ok_iff Let_def dest: drawTriangles_draws)

lemma getTimeString_calls: "getTimeString_l e t n s = (txt, s') \<Longrightarrow> calls is_free s s'"
  by (auto simp: getTimeString_l_def Let_def split: if_splits)

definition same_life :: "overlay \<Rightarrow> overlay \<Rightarrow> bool" where
  "same_life s s' = (mState s' = mState s \<and> mThreadResult s' = mThreadResult s \<and> mFrameAvailable s' = mFrameAvailable s)"

lemma processFrame_holds:
  assumes "processFrame_l e s = Ok s'"
  shows "overlay_holds e n m k s' = overlay_holds e n m k s \<and> same_life s s'"
proof -
  let ?s1 = "gcall (GTex Gl_getTransformMatrix) (gcall (GTex Gl_updateTexImage) s)"
  let ?s3 = "gcall (GTex Gl_getFrameNumber) (gcall (GTex Gl_getTimestamp) ?s1)"
  let ?fn = "g_ans e (gtrace (gcall (GTex Gl_getTimestamp) ?s1) @ [GTex Gl_getFrameNumber])"
  let ?s4 = "count_frame ?fn ?s3"
  obtain font where f: "setProportionalScale 35 (mTextRenderer ?s4) = Ok font"
    using assms by (auto simp: processFrame_l_def Let_def res_bind_Ok_iff)
  let ?s5 = "?s4\<lparr>mTextRenderer := font\<rparr>"
  obtain err s6 where b: "blit e (mExtTexProgram ?s5) (mExtTextureName ?s5) (g_matrix e (gtrace ?s1)) 0 0
      (mWidth (mEglWindow ?s5)) (mHeight (mEglWindow ?s5)) False ?s5 = Ok (err, s6)"
    using assms f by (auto simp: processFrame_l_def Let_def res_bind_Ok_iff)
  let ?t = "g_ans e (gtrace ?s1 @ [GTex Gl_getTimestamp])"
  obtain tt s7 where t: "getTimeString_l e ?t 64 (gcall (GTex (Gl_blend True)) s6) = (tt, s7)" by (metis surj_pair)
  obtain font' s8 where d: "drawString e (mTexProgram s7) kIdentity 0 0 (frame_text tt ?fn (mTotalDroppedFrames s7)) (mTextRenderer s7) s7 = Ok (font', s8)"
    and s': "s' = swapBuffers (mEglWindow s8) (presentationTime (mEglWindow s8) ?t (gcall (GTex (Gl_blend False)) (s8\<lparr>mTextRenderer := font'\<rparr>)))"
    using assms f b t by (auto simp: processFrame_l_def Let_def res_map_Ok_iff)
  have c3: "calls is_free s ?s3" by (auto intro!: calls_gcall)
  have c6: "calls is_free ?s5 s6" using blit_draws [OF b] draws_free by blast
  have c7: "calls is_free s6 s7" using getTimeString_calls [OF t] by (rule calls_trans [rotated]) auto
  have c8: "calls is_free s7 s8" by (rule draws_free [OF drawString_calls [OF d]])
  have "overlay_holds e n m k ?s5 = overlay_holds e n m k s" using free_holds [OF c3] by simp
  then have h8: "overlay_holds e n m k s8 = overlay_holds e n m k s"
    using free_holds [OF c6] free_holds [OF c7] free_holds [OF c8] by simp
  have l8: "same_life s s8"
    using calls_fields [OF c3] calls_fields [OF c6] calls_fields [OF c7] calls_fields [OF c8] by (simp add: same_life_def)
  show ?thesis using h8 l8
    by (simp add: s' swapBuffers_def presentationTime_def overlay_holds_def egl_inv_def egl_counts shader_counts same_life_def)
qed

subsection \<open>The information page\<close>

definition kPropertyNames :: "string list" where
  "kPropertyNames = [''ro.build.description'', ''ro.product.manufacturer'', ''ro.product.model'', ''ro.board.platform'',
     ''ro.revision'', ''dalvik.vm.heapgrowthlimit'', ''dalvik.vm.heapsize'', ''persist.sys.dalvik.vm.lib.2'']"

definition gtext :: "genv \<Rightarrow> system_call \<Rightarrow> 'a gl_scheme \<Rightarrow> string \<times> 'a gl_scheme" where
  "gtext e c g = (let g' = gcall (GSys c) g in (g_text e (gtrace g'), g'))"

definition draw_border :: "int \<Rightarrow> int \<Rightarrow> 'a gl_scheme \<Rightarrow> 'a gl_scheme" where
  "draw_border w h g =
     (let lineWidth = 4; box = (\<lambda>x y bw bh g. gcall (GTex Gl_clear) (gcall (GTex (Gl_scissor x y bw bh)) g));
          g1 = gcall (GTex (Gl_clearColor (1 / 2))) (gcall (GTex (Gl_scissorTest True)) g)
      in gcall (GTex (Gl_scissorTest False))
           (box (w - lineWidth) 0 lineWidth h (box 0 0 lineWidth h (box 0 (h - lineWidth) w lineWidth (box 0 0 w lineWidth g1)))))"

text \<open>One line of the page: where the next one starts, the font and the trace.\<close>

type_synonym 'a page = "rat \<times> text_renderer \<times> 'a gl_scheme"

definition page_line :: "genv \<Rightarrow> program \<Rightarrow> string \<Rightarrow> 'a page \<Rightarrow> 'a page res" where
  "page_line e prog str = (\<lambda>(ypos, r, g). drawWrappedString e prog 0 ypos str r g)"

definition page_gap :: "'a page \<Rightarrow> 'a page" where
  "page_gap = (\<lambda>(ypos, r, g). (fadd ypos (fmul 8 (mScale r)), r, g))"

fun draw_properties :: "genv \<Rightarrow> program \<Rightarrow> string list \<Rightarrow> 'a page \<Rightarrow> 'a page res" where
  "draw_properties e prog [] pg = Ok pg"
| "draw_properties e prog (name # names) (ypos, r, g) =
     (let (val, g1) = gtext e (Sys_property name) g in
      if val = [] then draw_properties e prog names (ypos, r, g1)
      else res_bind (page_line e prog (name @ '': ['' @ val @ '']'') (ypos, r, g1)) (draw_properties e prog names))"

definition gl_line :: "genv \<Rightarrow> 'a page \<Rightarrow> string \<times> 'a page" where
  "gl_line e = (\<lambda>(ypos, r, g).
     let (vendor, g1) = gtext e (Sys_glString 0) g; (renderer, g2) = gtext e (Sys_glString 1) g1;
         (version, g3) = gtext e (Sys_glString 2) g2
     in (''OpenGL: '' @ vendor @ '' / '' @ renderer @ '', '' @ version, ypos, r, g3))"

definition doDrawInfoPage :: "genv \<Rightarrow> eglwindow \<Rightarrow> program \<Rightarrow> text_renderer \<Rightarrow> 'a gl_scheme \<Rightarrow> (text_renderer \<times> 'a gl_scheme) res" where
  "doDrawInfoPage e win prog r g =
     (let g1 = draw_border (mWidth win) (mHeight win) (gcall (GTex Gl_clear) (gcall (GTex (Gl_clearColor 0)) g)) in
      res_bind (setProportionalScale 30 r) (\<lambda>r1.
      res_bind (page_line e prog (''Android screenrecord v'' @ to_string 1 @ ''.'' @ to_string 3) (0, r1, g1)) (\<lambda>(y2, r2, g2).
      let (now, g3) = gask e (GSys Sys_time) g2; (date, g4) = gtext e (Sys_date now) g3 in
      res_bind (page_line e prog (''Started '' @ date) (y2, r2, g4)) (\<lambda>p5.
      res_bind (draw_properties e prog kPropertyNames (page_gap p5)) (\<lambda>p6.
      let (str, p7) = gl_line e (page_gap p6) in
      res_map (\<lambda>(y8, r8, g8).
        let (mono, g9) = gask e (GSys Sys_monotonic) g8
        in (r8, swapBuffers win (presentationTime win (mono - 250000000) g9)))
        (page_line e prog str p7))))))"

text \<open>The destructors of the local program and window.\<close>

definition info_page_end :: "eglwindow \<Rightarrow> program \<Rightarrow> 'a gl_scheme \<Rightarrow> 'a gl_scheme" where
  "info_page_end win prog g = snd (eglRelease win (snd (program_release prog g)))"

definition drawInfoPage :: "genv \<Rightarrow> byte list \<Rightarrow> 'a gl_scheme \<Rightarrow> (int \<times> 'a gl_scheme) res" where
  "drawInfoPage e pixels g =
     (let (err, win, g1) = createWindow e eglwindow0 g in
      if err \<noteq> NO_ERROR then Ok (err, snd (eglRelease win g1)) else
      let w = mWidth win; h = mHeight win;
          g3 = gcall (GTex (Gl_viewport w h)) (snd (makeCurrent e win g1));
          (err, prog, g4) = program_setup e PROGRAM_TEXTURE_2D program0 g3 in
      if err \<noteq> NO_ERROR then Ok (err, info_page_end win prog g4) else
      res_bind (loadIntoTexture e pixels text_renderer0 g4) (\<lambda>(err, font, g5).
      if err \<noteq> NO_ERROR then Ok (err, info_page_end win prog g5) else
      res_map (\<lambda>(font, g6).
        let (prog', g7) = program_release prog g6; (win', g8) = eglRelease win g7
        in (NO_ERROR, info_page_end win' prog' g8))
        (doDrawInfoPage e win prog (setScreenSize (word_of_int w) (word_of_int h) font) g5)))"

subsection \<open>The page keeps nothing\<close>

definition is_page :: "gcall \<Rightarrow> bool" where
  "is_page c = (is_free c \<or> (case c of GEgl (Egl_presentationTime d u t) \<Rightarrow> True | GEgl (Egl_swapBuffers d u) \<Rightarrow> True | _ \<Rightarrow> False))"

lemma is_page_simps [simp]:
  "is_page (GTex t)" "is_page (GSys y)" "is_page (GDraw d)" "is_page (GEgl (Egl_presentationTime d1 d2 i))" "is_page (GEgl (Egl_swapBuffers d1 d2))"
  by (simp_all add: is_page_def)

lemma page_counts:
  assumes "is_page c"
  shows "context_count e past c = 0" "surface_count e past c = 0" "program_count e past c = 0"
  using assms
  by (auto simp: is_page_def is_free_def is_draw_def is_tex_def egl_counts shader_counts split: gcall.splits egl_call.splits)

lemma draws_page: "draws g g' \<Longrightarrow> calls is_page g g'"
  by (erule calls_mono) (simp add: is_page_def is_free_def)

lemma wrap_loop_calls: "wrap_loop e p x i str start y r g = Ok (y', r', g') \<Longrightarrow> draws g g'"
proof (induction e p x i str start y r g rule: wrap_loop.induct)
  case (1 e p x i str start y r g)
  show ?case
  proof (cases "breakString r (drop start str) (line_space r (line_xpos x i start))")
    case None
    then show ?thesis using 1(2)
      by (subst (asm) wrap_loop.simps) (auto simp: Let_def res_map_Ok_iff split: if_splits dest: drawString_calls)
  next
    case (Some brk)
    have s: "\<not> length str < start" using 1(2) by (subst (asm) wrap_loop.simps) (auto split: if_splits)
    obtain r1 g1 where d: "drawString e p kIdentity (line_xpos x i start) y (take brk (drop start str)) r g = Ok (r1, g1)"
      and w: "wrap_loop e p x i str (start + next_start (drop start str) brk) (fadd y (getScaledGlyphHeight r1)) r1 g1 = Ok (y', r', g')"
      using 1(2) Some s by (subst (asm) wrap_loop.simps) (auto simp: Let_def res_bind_Ok_iff)
    show ?thesis
      using drawString_calls [OF d] 1(1) [OF s refl refl Some d refl w] by (rule calls_trans)
  qed
qed

lemma page_line_calls: "page_line e prog str (y, r, g) = Ok (y', r', g') \<Longrightarrow> calls is_page g g'"
  by (auto simp: page_line_def drawWrappedString_def Let_def res_bind_Ok_iff res_map_Ok_iff split: if_splits
      intro!: draws_page dest: drawString_calls wrap_loop_calls)

lemma draw_properties_calls: "draw_properties e prog ns (y, r, g) = Ok (y', r', g') \<Longrightarrow> calls is_page g g'"
proof (induction ns arbitrary: y r g)
  case (Cons n ns)
  let ?g1 = "gcall (GSys (Sys_property n)) g"
  have c: "calls is_page g ?g1" by auto
  show ?case
  proof (cases "g_text e (gtrace ?g1) = []")
    case True
    then show ?thesis using Cons by (auto simp: gtext_def Let_def intro: calls_trans [OF c])
  next
    case False
    then obtain y1 r1 g1 where "page_line e prog (n @ '': ['' @ g_text e (gtrace ?g1) @ '']'') (y, r, ?g1) = Ok (y1, r1, g1)"
      "draw_properties e prog ns (y1, r1, g1) = Ok (y', r', g')"
      using Cons.prems by (auto simp: gtext_def Let_def res_bind_Ok_iff)
    then show ?thesis using page_line_calls Cons.IH c by (meson calls_trans)
  qed
qed auto

lemma doDrawInfoPage_calls:
  assumes "doDrawInfoPage e win prog r g = Ok (r', g')"
  shows "calls is_page g g'"
proof -
  let ?g1 = "draw_border (mWidth win) (mHeight win) (gcall (GTex Gl_clear) (gcall (GTex (Gl_clearColor 0)) g))"
  obtain r1 y2 r2 g2 where l1: "page_line e prog (''Android screenrecord v'' @ to_string 1 @ ''.'' @ to_string 3) (0, r1, ?g1) = Ok (y2, r2, g2)"
    and sc: "setProportionalScale 30 r = Ok r1"
    using assms by (fastforce simp: doDrawInfoPage_def Let_def res_bind_Ok_iff)
  let ?g3 = "gcall (GSys Sys_time) g2" let ?d = "Sys_date (g_ans e (gtrace ?g3))"
  obtain y5 r5 g5 where l2: "page_line e prog (''Started '' @ g_text e (gtrace (gcall (GSys ?d) ?g3))) (y2, r2, gcall (GSys ?d) ?g3) = Ok (y5, r5, g5)"
    using assms l1 sc by (auto simp: doDrawInfoPage_def gtext_def Let_def res_bind_Ok_iff)
  obtain y6 r6 g6 where l3: "draw_properties e prog kPropertyNames (page_gap (y5, r5, g5)) = Ok (y6, r6, g6)"
    using assms l1 sc l2 by (auto simp: doDrawInfoPage_def gtext_def Let_def res_bind_Ok_iff)
  obtain str y7 r7 g7 where l4: "gl_line e (page_gap (y6, r6, g6)) = (str, y7, r7, g7)" by (metis prod_cases4)
  obtain y8 r8 g8 where l5: "page_line e prog str (y7, r7, g7) = Ok (y8, r8, g8)"
    and g': "g' = swapBuffers win (presentationTime win (g_ans e (gtrace (gcall (GSys Sys_monotonic) g8)) - 250000000) (gcall (GSys Sys_monotonic) g8))"
    using assms l1 sc l2 l3 l4 by (auto simp: doDrawInfoPage_def gtext_def Let_def res_bind_Ok_iff res_map_Ok_iff)
  have "calls is_page g ?g1" by (auto simp: draw_border_def Let_def)
  also have "calls is_page ?g1 g2" by (rule page_line_calls [OF l1])
  also have "calls is_page g2 (gcall (GSys ?d) ?g3)" by auto
  also have "calls is_page (gcall (GSys ?d) ?g3) g5" by (rule page_line_calls [OF l2])
  also have "calls is_page g5 g6" using l3 by (auto simp: page_gap_def intro: draw_properties_calls)
  also have "calls is_page g6 g7" using l4 by (auto simp: page_gap_def gl_line_def gtext_def Let_def)
  also have "calls is_page g7 g8" by (rule page_line_calls [OF l5])
  also have "calls is_page g8 g'" by (auto simp: g' swapBuffers_def presentationTime_def)
  finally show ?thesis .
qed

lemma page_holds:
  assumes "calls is_page g g'"
  shows "egl_inv e n m w g' = egl_inv e n m w g" "held (program_count e) g' = held (program_count e) g"
  using held_calls [OF assms page_counts(1)] held_calls [OF assms page_counts(2)] held_calls [OF assms page_counts(3)]
  by (simp_all add: egl_inv_def)

lemma tex_page: "calls is_tex g g' \<Longrightarrow> calls is_page g g'"
  by (erule calls_mono) (simp add: is_page_def is_free_def)

text \<open>The window and program of the page, while they live.\<close>

definition page_objects :: "genv \<Rightarrow> int \<Rightarrow> int \<Rightarrow> int \<Rightarrow> eglwindow \<Rightarrow> program \<Rightarrow> 'a gl_scheme \<Rightarrow> bool" where
  "page_objects e n m k win prog g =
     (egl_inv e n m win g \<and> held (program_count e) g = k + (if mProgram prog \<noteq> 0 then 1 else 0))"

definition all_counts :: "genv \<Rightarrow> 'a gl_scheme \<Rightarrow> int \<times> int \<times> int" where
  "all_counts e g = (held (context_count e) g, held (surface_count e) g, held (program_count e) g)"

lemma release_objects:
  assumes "page_objects e n m k win prog g" "program_release prog g = (prog', g1)" "eglRelease win g1 = (win', g2)"
  shows "page_objects e n m k win' prog' g2 \<and> all_counts e g2 = (n, m, k)"
proof -
  have c1: "calls is_prog g g1" using program_release_calls [of g prog] assms(2) by simp
  have "egl_inv e n m win g1" using egl_inv_calls [OF c1 not_egl(2)] assms(1) by (simp add: page_objects_def)
  then have i2: "egl_inv e n m win' g2" "mEglSurface win' = 0" using eglRelease_inv assms(3) by blast+
  have c2: "calls is_egl g1 g2" using eglRelease_calls [of g1 win] assms(3) by simp
  have k2: "held (program_count e) g2 = held (program_count e) g1" by (rule held_calls [OF c2 is_egl_programs])
  have k1: "held (program_count e) g1 = k \<and> mProgram prog' = 0"
    using assms(1,2) by (auto simp: program_release_def page_objects_def shader_counts split: if_splits)
  show ?thesis using i2 k1 k2 by (simp add: page_objects_def all_counts_def egl_inv_def)
qed

lemma info_page_end_counts:
  assumes "page_objects e n m k win prog g"
  shows "all_counts e (info_page_end win prog g) = (n, m, k)"
proof -
  obtain prog' g1 win' g2 where r: "program_release prog g = (prog', g1)" "eglRelease win g1 = (win', g2)" by (metis surj_pair)
  then show ?thesis using release_objects [OF assms r] by (simp add: info_page_end_def)
qed

lemma drawInfoPage_counts:
  assumes "drawInfoPage e pixels g = Ok (err, g')"
  shows "all_counts e g' = all_counts e g"
proof -
  let ?n = "held (context_count e) g" let ?m = "held (surface_count e) g" let ?k = "held (program_count e) g"
  have i0: "egl_inv e ?n ?m eglwindow0 g" by (simp add: egl_inv_def eglwindow0_def)
  obtain err1 win g1 where w: "createWindow e eglwindow0 g = (err1, win, g1)" by (metis prod_cases3)
  have c1: "calls is_egl g g1" using createWindow_calls [of g e eglwindow0] w by simp
  have i1: "egl_inv e ?n ?m win g1" using eglwindow_step(1) [OF i0 w] by simp
  have k1: "held (program_count e) g1 = ?k" by (rule held_calls [OF c1 is_egl_programs])
  show ?thesis
  proof (cases "err1 = NO_ERROR")
    case False
    then have g': "g' = snd (eglRelease win g1)" using assms w by (simp add: drawInfoPage_def)
    have "page_objects e ?n ?m ?k win program0 g1" using i1 k1 by (simp add: page_objects_def program0_def)
    moreover have "snd (program_release program0 g1) = g1" by (simp add: program_release_def program0_def)
    ultimately show ?thesis using info_page_end_counts [of e ?n ?m ?k win program0 g1]
      by (simp add: g' info_page_end_def all_counts_def)
  next
    case True
    let ?g3 = "gcall (GTex (Gl_viewport (mWidth win) (mHeight win))) (snd (makeCurrent e win g1))"
    have g3: "egl_inv e ?n ?m win ?g3" "held (program_count e) ?g3 = ?k"
      using i1 k1 by (simp_all add: makeCurrent_def is_egl_def shader_counts egl_inv_def egl_counts)
    obtain err4 prog g4 where p: "program_setup e PROGRAM_TEXTURE_2D program0 ?g3 = (err4, prog, g4)" by (metis prod_cases3)
    have c4: "calls is_prog ?g3 g4" using program_setup_calls [of ?g3 e PROGRAM_TEXTURE_2D program0] p by simp
    have o4: "page_objects e ?n ?m ?k win prog g4"
      using egl_inv_calls [OF c4 not_egl(2)] g3 setup_counts [OF p] by (auto simp: page_objects_def program0_def split: if_splits)
    show ?thesis
    proof (cases "err4 = NO_ERROR")
      case False
      then have "g' = info_page_end win prog g4" using assms w True p by (simp add: drawInfoPage_def Let_def)
      then show ?thesis using info_page_end_counts [OF o4] by (simp add: all_counts_def)
    next
      case ok4: True
      obtain err5 font g5 where l: "loadIntoTexture e pixels text_renderer0 g4 = Ok (err5, font, g5)"
        using assms w True p ok4 by (auto simp: drawInfoPage_def Let_def res_bind_Ok_iff)
      have c5: "calls is_page g4 g5" by (rule tex_page [OF loadIntoTexture_calls [OF l]])
      have o5: "page_objects e ?n ?m ?k win prog g5" using o4 page_holds [OF c5] by (simp add: page_objects_def)
      show ?thesis
      proof (cases "err5 = NO_ERROR")
        case False
        then have "g' = info_page_end win prog g5" using assms w True p ok4 l by (simp add: drawInfoPage_def Let_def)
        then show ?thesis using info_page_end_counts [OF o5] by (simp add: all_counts_def)
      next
        case ok5: True
        obtain font6 g6 where d: "doDrawInfoPage e win prog (setScreenSize (word_of_int (mWidth win)) (word_of_int (mHeight win)) font) g5 = Ok (font6, g6)"
          using assms w True p ok4 l ok5 by (auto simp: drawInfoPage_def Let_def res_map_Ok_iff)
        have o6: "page_objects e ?n ?m ?k win prog g6"
          using o5 page_holds [OF doDrawInfoPage_calls [OF d]] by (simp add: page_objects_def)
        obtain prog' g7 win' g8 where r: "program_release prog g6 = (prog', g7)" "eglRelease win g7 = (win', g8)" by (metis surj_pair)
        then have "g' = info_page_end win' prog' g8"
          using assms w True p ok4 l ok5 d by (simp add: drawInfoPage_def Let_def)
        then show ?thesis using info_page_end_counts [OF conjunct1 [OF release_objects [OF o6 r]]] by (simp add: all_counts_def)
      qed
    qed
  qed
qed

text \<open>The information page gives everything back: on every path, the failures of the window, the program and
  the font included, as many EGL contexts, surfaces and GL programs exist afterwards as before.\<close>

theorem info_page_balanced:
  assumes "drawInfoPage e pixels g = Ok (err, g')"
  shows "all_counts e g' = all_counts e g"
  using drawInfoPage_counts [OF assms] .

text \<open>An environment in which no shader can be made.\<close>

definition no_shader_genv :: genv where
  "no_shader_genv = ok_genv\<lparr>g_ans := (\<lambda>t. case last t of GShader _ \<Rightarrow> 0 | _ \<Rightarrow> 1)\<rparr>"

theorem info_page_balanced_witness:
  "\<exists>g'. drawInfoPage no_shader_genv [] gl0 = Ok (UNKNOWN_ERROR, g') \<and> all_counts no_shader_genv g' = all_counts no_shader_genv gl0"
proof -
  have "\<exists>g'. drawInfoPage no_shader_genv [] gl0 = Ok (UNKNOWN_ERROR, g')"
    by (simp add: drawInfoPage_def createWindow_def eglSetupContext_def eglwindow0_def no_shader_genv_def Let_def status_defs
        program_setup_def createProgram_def compileShader_def makeCurrent_def)
  then show ?thesis using info_page_balanced by blast
qed

theorem dropped_frames_counted_witness:
  "unat (mTotalDroppedFrames (count_frames [5, 6, 9] (overlay0 True))) = 2"
proof -
  have "{5..9} - set [5, 6, 9] = {7, 8 :: int}" by auto
  then show ?thesis using dropped_frames_counted [of "overlay0 True" 5 "[6, 9]"] by (simp add: overlay0_def)
qed

definition clock_genv :: genv where
  "clock_genv = ok_genv\<lparr>g_text := (\<lambda>t. ''12:34:56'')\<rparr>"

theorem frame_time_text_witness:
  "\<exists>ms. fst (getTimeString_l clock_genv 7000000 64 (overlay0 False)) = ''12:34:56.'' @ ms \<and> length ms = 3 \<and> digits_value 0 ms = 7"
  using frame_time_text [of "overlay0 False" 7000000 7000000 clock_genv] by (simp add: overlay0_def clock_genv_def)

end
