(* ===== verification/Overlay_Thread.thy ===== *)
theory Overlay_Thread
  imports Overlay
begin

section \<open>The life of the overlay thread\<close>

text \<open>
  \<open>start\<close>, \<open>stop\<close>, \<open>threadLoop\<close> and \<open>onFrameAvailable\<close> of \<open>screenrecord/Overlay.cpp\<close> as a step relation: the
  caller of the object, its thread, and the consumer's callback. Each critical section under
  \<open>mMutex\<close> is one step; \<open>mEventCond.wait\<close> gives the mutex up until a signal (or, as POSIX allows, for
  no reason), \<open>mStartCond.wait\<close> until the state is no longer \<open>INIT\<close>. \<open>run\<close> is taken to create the thread.
\<close>

datatype caller = Idle | In_start | Started int

datatype worker = No_thread | Created | Sleeping | Notified | Exited

record overlay_run =
  ov :: overlay
  caller :: caller
  worker :: worker

definition overlay_run0 :: "bool \<Rightarrow> overlay_run" where
  "overlay_run0 monotonic = \<lparr>ov = overlay0 monotonic, caller = Idle, worker = No_thread\<rparr>"

definition overlay_start :: "genv \<Rightarrow> overlay \<Rightarrow> overlay" where
  "overlay_start e s =
     (let (mono, s1) = gask e (GSys Sys_monotonic) (s\<lparr>mOutputSurface := True\<rparr>); (real, s2) = gask e (GSys Sys_realtime) s1
      in s2\<lparr>mStartMonotonicNsecs := mono, mStartRealtimeNsecs := real, mState := INIT\<rparr>)"

definition overlay_stop :: "overlay \<Rightarrow> overlay" where
  "overlay_stop s = s\<lparr>mState := STOPPING\<rparr>"

definition overlay_onFrameAvailable :: "overlay \<Rightarrow> overlay" where
  "overlay_onFrameAvailable s = s\<lparr>mFrameAvailable := True\<rparr>"

text \<open>\<open>threadLoop\<close> up to the first wait, and from a wake-up to the next wait: whether the thread goes on.\<close>

definition thread_begin :: "genv \<Rightarrow> byte list \<Rightarrow> overlay \<Rightarrow> (bool \<times> overlay) res" where
  "thread_begin e pixels s =
     res_map (\<lambda>(err, s1).
       let s2 = s1\<lparr>mThreadResult := err\<rparr>
       in if err \<noteq> NO_ERROR then (False, overlay_release (s2\<lparr>mState := STOPPED\<rparr>))
          else (True, s2\<lparr>mState := RUNNING\<rparr>))
       (overlay_setup e pixels s)"

definition thread_wake :: "genv \<Rightarrow> overlay \<Rightarrow> (bool \<times> overlay) res" where
  "thread_wake e s =
     res_map (\<lambda>s1. if mState s1 = RUNNING then (True, s1) else (False, (overlay_release s1)\<lparr>mState := STOPPED\<rparr>))
       (if mFrameAvailable s then res_map (\<lambda>s1. s1\<lparr>mFrameAvailable := False\<rparr>) (processFrame_l e s) else Ok s)"

text \<open>The condition under which the destructor's assertion holds.\<close>

definition destructor_ok :: "overlay \<Rightarrow> bool" where
  "destructor_ok s = (mState s = UNINITIALIZED \<or> mState s = STOPPED)"

definition notify :: "worker \<Rightarrow> worker" where
  "notify t = (if t = Sleeping then Notified else t)"

inductive overlay_step :: "genv \<Rightarrow> byte list \<Rightarrow> overlay_run \<Rightarrow> overlay_run \<Rightarrow> bool" for e pixels where
  call_start: "caller r = Idle \<Longrightarrow>
    overlay_step e pixels r (r\<lparr>ov := overlay_start e (ov r), caller := In_start, worker := Created\<rparr>)"
| start_returns: "caller r = In_start \<Longrightarrow> mState (ov r) \<noteq> INIT \<Longrightarrow>
    overlay_step e pixels r (r\<lparr>caller := Started (mThreadResult (ov r))\<rparr>)"
| call_stop: "caller r \<noteq> In_start \<Longrightarrow>
    overlay_step e pixels r (r\<lparr>ov := overlay_stop (ov r), worker := notify (worker r)\<rparr>)"
| frame: "worker r = Sleeping \<or> worker r = Notified \<Longrightarrow>
    overlay_step e pixels r (r\<lparr>ov := overlay_onFrameAvailable (ov r), worker := notify (worker r)\<rparr>)"
| begins: "worker r = Created \<Longrightarrow> thread_begin e pixels (ov r) = Ok (go, s) \<Longrightarrow>
    overlay_step e pixels r (r\<lparr>ov := s, worker := if go then Sleeping else Exited\<rparr>)"
| wakes: "worker r = Notified \<Longrightarrow> thread_wake e (ov r) = Ok (go, s) \<Longrightarrow>
    overlay_step e pixels r (r\<lparr>ov := s, worker := if go then Sleeping else Exited\<rparr>)"
| spurious: "worker r = Sleeping \<Longrightarrow> overlay_step e pixels r (r\<lparr>worker := Notified\<rparr>)"

inductive overlay_reachable :: "genv \<Rightarrow> byte list \<Rightarrow> bool \<Rightarrow> overlay_run \<Rightarrow> bool" for e pixels monotonic where
  begin_run: "overlay_reachable e pixels monotonic (overlay_run0 monotonic)"
| then_step: "overlay_reachable e pixels monotonic r \<Longrightarrow> overlay_step e pixels r r' \<Longrightarrow> overlay_reachable e pixels monotonic r'"

inductive_cases overlay_stepE: "overlay_step e pixels r r'"

subsection \<open>The invariant\<close>

definition overlay_fresh :: "overlay \<Rightarrow> bool" where
  "overlay_fresh s = (mProgram (mTexProgram s) = 0 \<and> mProgram (mExtTexProgram s) = 0 \<and> mEglSurface (mEglWindow s) = 0 \<and>
     \<not> mFrameAvailable s)"

text \<open>What each stage of the thread guarantees.\<close>

definition run_inv :: "genv \<Rightarrow> overlay_run \<Rightarrow> bool" where
  "run_inv e r =
     (case worker r of
        No_thread \<Rightarrow> caller r = Idle \<and> overlay_fresh (ov r) \<and> overlay_holds e 0 0 0 (ov r)
      | Created \<Rightarrow> caller r = In_start \<and> mState (ov r) = INIT \<and> overlay_fresh (ov r) \<and> overlay_holds e 0 0 0 (ov r)
      | Sleeping \<Rightarrow> caller r \<noteq> Idle \<and> mState (ov r) = RUNNING \<and> \<not> mFrameAvailable (ov r) \<and>
                    mThreadResult (ov r) = NO_ERROR \<and> overlay_holds e 0 0 0 (ov r)
      | Notified \<Rightarrow> caller r \<noteq> Idle \<and> (mState (ov r) = RUNNING \<or> mState (ov r) = STOPPING \<and> caller r \<noteq> In_start) \<and>
                    mThreadResult (ov r) = NO_ERROR \<and> overlay_holds e 0 0 0 (ov r)
      | Exited \<Rightarrow> caller r \<noteq> Idle \<and> all_counts e (ov r) = (0, 0, 0) \<and>
                  (caller r = In_start \<longrightarrow> mState (ov r) = STOPPED \<and> mThreadResult (ov r) \<noteq> NO_ERROR))"

lemma overlay_holds_update [simp]:
  "overlay_holds e n m k (s\<lparr>mState := st\<rparr>) = overlay_holds e n m k s"
  "overlay_holds e n m k (s\<lparr>mThreadResult := i\<rparr>) = overlay_holds e n m k s"
  "overlay_holds e n m k (s\<lparr>mFrameAvailable := b\<rparr>) = overlay_holds e n m k s"
  "overlay_fresh (s\<lparr>mState := st\<rparr>) = overlay_fresh s"
  by (simp_all add: overlay_holds_def overlay_fresh_def)

lemma all_counts_update [simp]:
  fixes s :: overlay
  shows "all_counts e (s\<lparr>mState := st\<rparr>) = all_counts e s"
  by (simp add: all_counts_def)

lemma overlay_start_holds:
  "overlay_holds e n m k (overlay_start e s) = overlay_holds e n m k s" "overlay_fresh (overlay_start e s) = overlay_fresh s"
  "mState (overlay_start e s) = INIT"
  by (simp_all add: overlay_start_def overlay_holds_def overlay_fresh_def egl_inv_def held_def gcall_def live_count_append
      egl_counts shader_counts)

lemma thread_begin_cases:
  assumes "thread_begin e pixels s = Ok (go, s')" "overlay_fresh s" "overlay_holds e 0 0 0 s"
  shows "if go then mState s' = RUNNING \<and> \<not> mFrameAvailable s' \<and> mThreadResult s' = NO_ERROR \<and> overlay_holds e 0 0 0 s'
         else mState s' = STOPPED \<and> mThreadResult s' \<noteq> NO_ERROR \<and> all_counts e s' = (0, 0, 0)"
proof -
  obtain err s1 where u: "overlay_setup e pixels s = Ok (err, s1)"
    and g: "(go, s') = (if err \<noteq> NO_ERROR then (False, overlay_release (s1\<lparr>mThreadResult := err, mState := STOPPED\<rparr>))
                        else (True, s1\<lparr>mThreadResult := err, mState := RUNNING\<rparr>))"
    using assms(1) by (auto simp: thread_begin_def res_map_Ok_iff Let_def)
  have h: "overlay_holds e 0 0 0 s1" "mFrameAvailable s1 = mFrameAvailable s"
    using overlay_setup_holds [OF u assms(3)] assms(2) by (simp_all add: overlay_fresh_def)
  show ?thesis
  proof (cases "err = NO_ERROR")
    case True
    then show ?thesis using g h assms(2) by (simp add: overlay_fresh_def)
  next
    case False
    have "overlay_holds e 0 0 0 (s1\<lparr>mThreadResult := err, mState := STOPPED\<rparr>)" using h(1) by simp
    from overlay_release_holds [OF this] show ?thesis using g False by (simp add: all_counts_def)
  qed
qed

lemma thread_wake_cases:
  assumes "thread_wake e s = Ok (go, s')" "overlay_holds e 0 0 0 s"
  shows "(go \<longleftrightarrow> mState s = RUNNING) \<and> mThreadResult s' = mThreadResult s \<and>
         (if go then mState s' = RUNNING \<and> \<not> mFrameAvailable s' \<and> overlay_holds e 0 0 0 s'
          else mState s' = STOPPED \<and> all_counts e s' = (0, 0, 0))"
proof -
  obtain s1 where s1: "(if mFrameAvailable s then res_map (\<lambda>s1. s1\<lparr>mFrameAvailable := False\<rparr>) (processFrame_l e s) else Ok s) = Ok s1"
    and g: "(go, s') = (if mState s1 = RUNNING then (True, s1) else (False, (overlay_release s1)\<lparr>mState := STOPPED\<rparr>))"
    using assms(1) by (auto simp: thread_wake_def res_map_Ok_iff)
  have h: "overlay_holds e 0 0 0 s1 \<and> mState s1 = mState s \<and> mThreadResult s1 = mThreadResult s \<and> \<not> mFrameAvailable s1"
  proof (cases "mFrameAvailable s")
    case True
    then obtain s2 where "processFrame_l e s = Ok s2" "s1 = s2\<lparr>mFrameAvailable := False\<rparr>"
      using s1 by (auto simp: res_map_Ok_iff)
    then show ?thesis using processFrame_holds [of e s s2 0 0 0] assms(2) by (simp add: same_life_def)
  next
    case False
    then show ?thesis using s1 assms(2) by simp
  qed
  show ?thesis
    using g h overlay_release_holds [of e 0 0 0 s1] by (auto simp: all_counts_def split: if_splits)
qed

lemma run_inv_step: "overlay_step e pixels r r' \<Longrightarrow> run_inv e r \<Longrightarrow> run_inv e r'"
proof (erule overlay_stepE)
  fix go s assume "run_inv e r" "r' = r\<lparr>ov := s, worker := if go then Sleeping else Exited\<rparr>" "worker r = Created"
    and b: "thread_begin e pixels (ov r) = Ok (go, s)"
  then show "run_inv e r'" using thread_begin_cases [OF b] by (auto simp: run_inv_def split: if_splits)
next
  fix go s assume "run_inv e r" "r' = r\<lparr>ov := s, worker := if go then Sleeping else Exited\<rparr>" "worker r = Notified"
    and w: "thread_wake e (ov r) = Ok (go, s)"
  then show "run_inv e r'" using thread_wake_cases [OF w] by (auto simp: run_inv_def split: if_splits)
qed (auto simp: run_inv_def overlay_start_holds overlay_stop_def overlay_onFrameAvailable_def notify_def
    all_counts_def split: worker.splits)

lemma run_inv_start: "run_inv e (overlay_run0 monotonic)"
  by (simp add: run_inv_def overlay_run0_def overlay_fresh_def overlay0_def overlay_holds_def egl_inv_def held_def
      eglwindow0_def program0_def)

lemma reachable_run_inv: "overlay_reachable e pixels monotonic r \<Longrightarrow> run_inv e r"
  by (induction rule: overlay_reachable.induct) (blast intro: run_inv_start run_inv_step)+

subsection \<open>What holds in every run\<close>

text \<open>C15: The overlay's thread never sleeps through a frame or a stop, its resources are all given back when it is
  gone, and the assertion of \<open>start\<close> holds: in every reachable state a sleeping thread is in the
  state \<open>RUNNING\<close> with no frame waiting; a thread that has ended leaves no EGL context, surface or GL
  program; and when \<open>start\<close> may return with success the state is \<open>RUNNING\<close>.\<close>

theorem overlay_thread_safe:
  assumes "overlay_reachable e pixels monotonic r"
  shows "(worker r = Sleeping \<longrightarrow> mState (ov r) = RUNNING \<and> \<not> mFrameAvailable (ov r)) \<and>
         (worker r = Exited \<longrightarrow> all_counts e (ov r) = (0, 0, 0)) \<and>
         (caller r = In_start \<and> mState (ov r) \<noteq> INIT \<and> mThreadResult (ov r) = NO_ERROR \<longrightarrow> mState (ov r) = RUNNING)"
  using reachable_run_inv [OF assms] by (auto simp: run_inv_def split: worker.splits)

lemma run0_simps [simp]: "caller (overlay_run0 m) = Idle" "worker (overlay_run0 m) = No_thread" "ov (overlay_run0 m) = overlay0 m"
  by (simp_all add: overlay_run0_def)

theorem overlay_thread_safe_witness:
  "\<exists>r. overlay_reachable no_shader_genv [] True r \<and> worker r = Exited \<and> all_counts no_shader_genv (ov r) = (0, 0, 0)"
proof -
  let ?e = no_shader_genv
  let ?r1 = "(overlay_run0 True)\<lparr>ov := overlay_start ?e (overlay0 True), caller := In_start, worker := Created\<rparr>"
  have r1: "overlay_reachable ?e [] True ?r1"
    using then_step [OF begin_run call_start] by simp
  have "\<exists>s. thread_begin ?e [] (overlay_start ?e (overlay0 True)) = Ok (False, s)"
    by (simp add: thread_begin_def overlay_setup_def overlay_start_def overlay0_def createWindow_def eglSetupContext_def
        eglwindow0_def no_shader_genv_def Let_def status_defs program_setup_def createProgram_def compileShader_def
        makeCurrent_def gcall_def)
  then obtain s where b: "thread_begin ?e [] (overlay_start ?e (overlay0 True)) = Ok (False, s)" ..
  have "overlay_step ?e [] ?r1 (?r1\<lparr>ov := s, worker := if False then Sleeping else Exited\<rparr>)"
    by (rule begins) (simp_all add: b)
  then have "overlay_reachable ?e [] True (?r1\<lparr>ov := s, worker := Exited\<rparr>)" using then_step [OF r1] by simp
  then show ?thesis using overlay_thread_safe by fastforce
qed


lemma thread_begin_ok:
  "\<exists>s. thread_begin ok_genv (replicate 52224 0) (overlay_start ok_genv (overlay0 True)) = Ok (True, s)"
proof -
  have "\<exists>rgba. rgba_pixels (replicate 52224 0) = Ok rgba"
    by (simp add: rgba_pixels_def texture_constants) (simp add: font_width_def font_height_def)
  then obtain rgba where p: "rgba_pixels (replicate 52224 0) = Ok rgba" ..
  show ?thesis
    by (simp add: thread_begin_def overlay_setup_def overlay_start_def overlay0_def createWindow_def eglSetupContext_def
        eglwindow0_def ok_genv_def Let_def status_defs program_setup_def createProgram_def compileShader_def
        linkShaderProgram_def makeCurrent_def gcall_def loadIntoTexture_def texture_constants p program0_def)
qed


text \<open>The header says that \<open>stop\<close> may be called although \<open>start\<close> never was; it leaves the state \<open>STOPPING\<close>,
  which the destructor's assertion does not allow\<close>

theorem stop_without_start:
  "caller r = Idle \<Longrightarrow> worker r = No_thread \<Longrightarrow>
   \<exists>r'. overlay_step e pixels r r' \<and> mState (ov r') = STOPPING \<and> \<not> destructor_ok (ov r')"
proof -
  assume a: "caller r = Idle" "worker r = No_thread"
  have "overlay_step e pixels r (r\<lparr>ov := overlay_stop (ov r), worker := notify (worker r)\<rparr>)"
    by (rule call_stop) (simp add: a)
  then show ?thesis by (intro exI conjI) (auto simp: overlay_stop_def destructor_ok_def)
qed

theorem stop_without_start_witness:
  "\<exists>r'. overlay_step ok_genv [] (overlay_run0 True) r' \<and> \<not> destructor_ok (ov r')"
  using stop_without_start [of "overlay_run0 True" ok_genv "[]"] by auto

end
