(* ===== verification/Overlay_Life.thy ===== *)
theory Overlay_Life
  imports Overlay_Thread Step_Systems
begin

section \<open>The states of the overlay\<close>

text \<open>
  The comment at \<open>mState\<close> in \<open>Overlay.h\<close> says that the states advance from left to right. The states are
  ordered as they are declared, the life of the object is specified by the changes of \<open>mState\<close> alone,
  and the threads of \<open>Overlay_Thread\<close> refine that specification.
\<close>

definition state_rank :: "overlay_state \<Rightarrow> nat" where
  "state_rank st = (case st of UNINITIALIZED \<Rightarrow> 0 | INIT \<Rightarrow> 1 | RUNNING \<Rightarrow> 2 | STOPPING \<Rightarrow> 3 | STOPPED \<Rightarrow> 4)"

instantiation overlay_state :: linorder
begin

definition less_eq_overlay_state :: "overlay_state \<Rightarrow> overlay_state \<Rightarrow> bool" where
  "st \<le> st' = (state_rank st \<le> state_rank st')"

definition less_overlay_state :: "overlay_state \<Rightarrow> overlay_state \<Rightarrow> bool" where
  "st < st' = (state_rank st < state_rank st')"

instance
proof
  fix x y :: overlay_state
  assume "x \<le> y" "y \<le> x"
  then show "x = y" by (cases x; cases y) (simp_all add: less_eq_overlay_state_def state_rank_def)
qed (auto simp: less_eq_overlay_state_def less_overlay_state_def)

end

text \<open>\<open>starts\<close> from \<open>UNINITIALIZED\<close>, or from \<open>STOPPING\<close> when \<open>stop\<close> came first; the setup succeeds or fails; \<open>stop\<close>
  is accepted in every state but \<open>INIT\<close>, in which the caller is inside \<open>start\<close>; the thread ends.\<close>

inductive life_step :: "overlay_state \<Rightarrow> overlay_state \<Rightarrow> bool" where
  life_start: "st = UNINITIALIZED \<or> st = STOPPING \<Longrightarrow> life_step st INIT"
| life_running: "life_step INIT RUNNING"
| life_failed: "life_step INIT STOPPED"
| life_stop: "st \<noteq> INIT \<Longrightarrow> life_step st STOPPING"
| life_ended: "life_step STOPPING STOPPED"

code_pred life_step .

inductive_simps life_step_iff: "life_step st st'"

abbreviation life :: "overlay_run \<Rightarrow> overlay_state" where "life r \<equiv> mState (ov r)"

text \<open>Before \<open>start\<close> the state is the initial one, unless it was stopped; the caller leaves \<open>start\<close> after \<open>INIT\<close>.\<close>

definition life_inv :: "overlay_run \<Rightarrow> bool" where
  "life_inv r =
     ((caller r = Idle \<longrightarrow> life r = UNINITIALIZED \<or> life r = STOPPING) \<and>
      (life r = INIT \<longrightarrow> caller r = In_start))"

lemma life_step_refines:
  assumes "run_inv e r" "life_inv r" "overlay_step e pixels r r'"
  shows "life_step\<^sup>=\<^sup>= (life r) (life r') \<and> life_inv r'"
  using assms(3)
proof cases
  case (begins go s)
  then show ?thesis
    using assms(1,2) thread_begin_cases [OF begins(3)]
    by (auto simp: run_inv_def life_inv_def life_step_iff split: if_splits)
next
  case (wakes go s)
  then show ?thesis
    using assms(1,2) thread_wake_cases [OF wakes(3)]
    by (auto simp: run_inv_def life_inv_def life_step_iff split: if_splits)
qed (use assms(1,2) in \<open>auto simp: run_inv_def life_inv_def life_step_iff overlay_start_holds overlay_stop_def
    overlay_onFrameAvailable_def split: worker.splits\<close>)

lemma reachable_life:
  "overlay_reachable e pixels monotonic r \<Longrightarrow> life_inv r"
proof (induction rule: overlay_reachable.induct)
  case begin_run
  then show ?case by (simp add: life_inv_def overlay0_def)
next
  case (then_step r r')
  then show ?case using life_step_refines [OF reachable_run_inv] by blast
qed

lemma reachable_overlay: "(overlay_step e pixels)\<^sup>*\<^sup>* (overlay_run0 monotonic) r \<longleftrightarrow> overlay_reachable e pixels monotonic r"
proof
  show "(overlay_step e pixels)\<^sup>*\<^sup>* (overlay_run0 monotonic) r \<Longrightarrow> overlay_reachable e pixels monotonic r"
    by (induction rule: rtranclp_induct) (auto intro: begin_run then_step)
  show "overlay_reachable e pixels monotonic r \<Longrightarrow> (overlay_step e pixels)\<^sup>*\<^sup>* (overlay_run0 monotonic) r"
    by (induction rule: overlay_reachable.induct) (auto intro: rtranclp.rtrancl_into_rtrancl)
qed

lemma refl_step_run: "R\<^sup>=\<^sup>= x y \<Longrightarrow> R\<^sup>*\<^sup>* x y"
  by auto

interpretation overlay_life: simulation "overlay_run0 monotonic" "overlay_step e pixels" UNINITIALIZED life_step life
  for e pixels monotonic
proof unfold_locales
  show "life (overlay_run0 monotonic) = UNINITIALIZED" by (simp add: overlay0_def)
next
  fix r r' assume "(overlay_step e pixels)\<^sup>*\<^sup>* (overlay_run0 monotonic) r" "overlay_step e pixels r r'"
  then show "life_step\<^sup>*\<^sup>* (life r) (life r')"
    using life_step_refines [OF reachable_run_inv reachable_life]
    unfolding reachable_overlay by (intro refl_step_run) blast
qed

text \<open>C33: In every interleaving each step of the caller, the consumer or the thread changes the state as
  specified or not at all. The states advance in the order of their declaration except for two steps
  of the caller: a \<open>start\<close> after a \<open>stop\<close>, and a \<open>stop\<close> when the thread has ended, which takes \<open>STOPPED\<close> back.\<close>

theorem overlay_refines_life:
  assumes "overlay_reachable e pixels monotonic r" and "overlay_step e pixels r r'"
  shows "life_step\<^sup>*\<^sup>* UNINITIALIZED (life r) \<and> (life r' = life r \<or> life_step (life r) (life r')) \<and>
         (life r \<le> life r' \<or> (life r, life r') = (STOPPED, STOPPING) \<or> (life r, life r') = (STOPPING, INIT))"
proof -
  have "life_step\<^sup>*\<^sup>* UNINITIALIZED (life r)"
    using overlay_life.view_reachable assms(1) unfolding reachable_overlay by blast
  moreover have "life r' = life r \<or> life_step (life r) (life r')"
    using life_step_refines [OF reachable_run_inv reachable_life, OF assms(1,1,2)] by auto
  moreover have "st \<le> st' \<or> (st, st') = (STOPPED, STOPPING) \<or> (st, st') = (STOPPING, INIT)"
    if "st' = st \<or> life_step st st'" for st st'
    using that by (cases st; cases st') (auto simp: life_step_iff less_eq_overlay_state_def state_rank_def)
  ultimately show ?thesis by blast
qed

theorem overlay_refines_life_witness:
  "life_step\<^sup>*\<^sup>* UNINITIALIZED UNINITIALIZED \<and>
   overlay_step ok_genv [] (overlay_run0 True) ((overlay_run0 True)\<lparr>ov := overlay_stop (overlay0 True)\<rparr>) \<and>
   UNINITIALIZED \<le> mState (overlay_stop (overlay0 True))"
proof -
  let ?r = "overlay_run0 True" let ?r' = "?r\<lparr>ov := overlay_stop (overlay0 True)\<rparr>"
  have s: "overlay_step ok_genv [] ?r ?r'"
    using call_stop [of ?r ok_genv "[]"] by (simp add: notify_def overlay_run0_def)
  have "UNINITIALIZED \<le> life ?r'"
    using overlay_refines_life [OF begin_run s] by (simp add: overlay0_def overlay_stop_def)
  then show ?thesis using s by simp
qed

text \<open>The thread has ended and the caller asked it to stop: no step changes this any more.\<close>

definition stopped_for_good :: "overlay_run \<Rightarrow> bool" where
  "stopped_for_good r = (worker r = Exited \<and> caller r \<noteq> Idle \<and> caller r \<noteq> In_start \<and> life r = STOPPING)"

lemma stopped_for_good_step: "overlay_step e pixels r r' \<Longrightarrow> stopped_for_good r \<Longrightarrow> stopped_for_good r'"
  by (erule overlay_stepE) (auto simp: stopped_for_good_def notify_def overlay_stop_def)

lemma stopped_for_good_run: "(overlay_step e pixels)\<^sup>*\<^sup>* r r' \<Longrightarrow> stopped_for_good r \<Longrightarrow> stopped_for_good r'"
  by (induction rule: rtranclp_induct) (auto dest: stopped_for_good_step)

text \<open>A second \<open>stop\<close>, after the thread has ended, takes the state back to \<open>STOPPING\<close>, from which nothing leads
  on: the assertion of the destructor fails from then on.\<close>

theorem second_stop_undoes:
  assumes "overlay_reachable e pixels monotonic r" "worker r = Exited" "caller r \<noteq> In_start"
  shows "\<exists>r'. overlay_step e pixels r r' \<and>
          (\<forall>r''. (overlay_step e pixels)\<^sup>*\<^sup>* r' r'' \<longrightarrow> \<not> destructor_ok (ov r''))"
proof -
  let ?r' = "r\<lparr>ov := overlay_stop (ov r), worker := notify (worker r)\<rparr>"
  have s: "overlay_step e pixels r ?r'" using assms(3) by (rule call_stop)
  have "caller r \<noteq> Idle" using reachable_run_inv [OF assms(1)] assms(2) by (simp add: run_inv_def)
  then have "stopped_for_good ?r'" using assms(2,3) by (simp add: stopped_for_good_def overlay_stop_def notify_def)
  then have "\<not> destructor_ok (ov r'')" if "(overlay_step e pixels)\<^sup>*\<^sup>* ?r' r''" for r''
    using stopped_for_good_run [OF that] by (simp add: stopped_for_good_def destructor_ok_def)
  then show ?thesis using s by blast
qed

end
