(* ===== verification/Pointer_Lists.thy ===== *)
theory Pointer_Lists
  imports MC_Prelude
begin

section \<open>Doubly linked lists: rings in memory and \<open>cutils/list.h\<close>\<close>

text \<open>
  Three of the bundled headers keep doubly linked lists: \<open>cutils/list.h\<close> (intrusive, circular),
  \<open>utils/List.h\<close> (circular around a node without a value) and \<open>utils/LruCache.h\<close> (from \<open>mOldest\<close> to
  \<open>mYoungest\<close>, closed by null pointers). All are rings of two functions: \<open>nx\<close>, the successor, and \<open>pv\<close>,
  the predecessor; in the last the null pointer is the node that closes the ring. The first part holds
  the facts about rings the three share, the second the intrusive list.

  Memory is a partial function from addresses to nodes; reading or writing an address that is not
  allocated is \<open>Undef\<close>.
\<close>

named_theorems ring_simps "rewriting facts for chains and rings"

subsection \<open>Chains and rings\<close>

text \<open>From \<open>p\<close> through the nodes \<open>xs\<close> to \<open>q\<close>, every step linked in both directions.\<close>

fun chain :: "(nat \<Rightarrow> nat) \<Rightarrow> (nat \<Rightarrow> nat) \<Rightarrow> nat \<Rightarrow> nat list \<Rightarrow> nat \<Rightarrow> bool" where
  "chain nx pv p [] q = (nx p = q \<and> pv q = p)"
| "chain nx pv p (x # xs) q = (nx p = x \<and> pv x = p \<and> chain nx pv x xs q)"

definition ring :: "(nat \<Rightarrow> nat) \<Rightarrow> (nat \<Rightarrow> nat) \<Rightarrow> nat \<Rightarrow> nat list \<Rightarrow> bool" where
  "ring nx pv m xs = (distinct (m # xs) \<and> chain nx pv m xs m)"

lemma chain_append [ring_simps]:
  "chain nx pv p (xs @ y # ys) q = (chain nx pv p xs y \<and> chain nx pv y ys q)"
  by (induction xs arbitrary: p) auto

lemma chain_cong:
  assumes "\<And>x. x \<in> set (p # xs) \<Longrightarrow> nx' x = nx x" "\<And>x. x \<in> set (xs @ [q]) \<Longrightarrow> pv' x = pv x"
  shows "chain nx' pv' p xs q = chain nx pv p xs q"
  using assms by (induction xs arbitrary: p) auto

lemma ring_cong:
  "(\<And>x. x \<in> set (m # xs) \<Longrightarrow> nx' x = nx x \<and> pv' x = pv x) \<Longrightarrow> ring nx' pv' m xs = ring nx pv m xs"
  unfolding ring_def by (subst chain_cong [of m xs nx' nx m pv' pv]) auto

lemma chain_first [ring_simps]: "chain nx pv p xs q \<Longrightarrow> nx p = hd (xs @ [q])"
  by (cases xs) auto

lemma chain_last [ring_simps]: "chain nx pv p xs q \<Longrightarrow> pv q = last (p # xs)"
  by (induction xs arbitrary: p) auto

text \<open>The two neighbours of a node, or of the closing node.\<close>

lemma ring_at:
  assumes "ring nx pv m (us @ vs)"
  shows "nx (last (m # us)) = hd (vs @ [m])" "pv (hd (vs @ [m])) = last (m # us)"
proof -
  have "chain nx pv m us (hd (vs @ [m]))"
    using assms by (cases vs) (auto simp: ring_def chain_append)
  then show "pv (hd (vs @ [m])) = last (m # us)" by (rule chain_last)
  show "nx (last (m # us)) = hd (vs @ [m])"
    using assms by (cases us rule: rev_cases; cases vs) (auto simp: ring_def chain_append)
qed

text \<open>Away from the cells that change, a chain is kept.\<close>

lemma chain_away:
  assumes "chain nx pv p xs q" "\<And>x. x \<notin> A \<Longrightarrow> nx' x = nx x" "\<And>x. x \<notin> B \<Longrightarrow> pv' x = pv x"
    and "A \<inter> set (p # xs) = {}" "B \<inter> set (xs @ [q]) = {}"
  shows "chain nx' pv' p xs q"
proof -
  have "nx' x = nx x" if "x \<in> set (p # xs)" for x using assms(2,4) that by blast
  moreover have "pv' x = pv x" if "x \<in> set (xs @ [q])" for x using assms(3,5) that by blast
  ultimately show ?thesis using chain_cong [of p xs nx' nx q pv' pv] assms(1) by blast
qed

text \<open>The chain up to a node is redirected to end in another one.\<close>

lemma chain_redirect:
  assumes "chain nx pv m us s" "\<And>x. x \<notin> {n, last (m # us)} \<Longrightarrow> nx' x = nx x" "\<And>x. x \<notin> {n, q} \<Longrightarrow> pv' x = pv x"
    and "nx' (last (m # us)) = t" "pv' t = last (m # us)" "n \<notin> set (m # us)" "q \<notin> set us" "distinct (m # us)"
  shows "chain nx' pv' m us t"
proof (cases us rule: rev_cases)
  case (snoc ys y)
  have "chain nx' pv' m ys y"
    using assms(1,6-8) snoc by (intro chain_away [where A = "{n, last (m # us)}" and B = "{n, q}", OF _ assms(2,3)]) (auto simp: chain_append)
  then show ?thesis using assms(4,5) by (simp add: snoc chain_append)
qed (use assms in simp)

text \<open>Linking a new node in between, and unlinking one.\<close>

lemma ring_insert:
  assumes "ring nx pv m (us @ vs)" "n \<notin> set (m # us @ vs)"
    and "nx' n = hd (vs @ [m])" "nx' (last (m # us)) = n" "\<And>x. x \<notin> {n, last (m # us)} \<Longrightarrow> nx' x = nx x"
    and "pv' n = last (m # us)" "pv' (hd (vs @ [m])) = n" "\<And>x. x \<notin> {n, hd (vs @ [m])} \<Longrightarrow> pv' x = pv x"
  shows "ring nx' pv' m (us @ n # vs)"
proof -
  let ?q = "hd (vs @ [m])"
  have l: "last (m # us) \<in> set (m # us)" by (rule last_in_set) simp
  have d: "distinct (m # us @ vs)" and c: "chain nx pv m (us @ vs) m" using assms(1) by (auto simp: ring_def)
  have "chain nx pv m us ?q" using c by (cases vs) (auto simp: chain_append)
  moreover have "?q \<notin> set us" using d by (cases vs) auto
  ultimately have "chain nx' pv' m us n"
    using d assms(2,4,6) by (intro chain_redirect [where n = n and q = ?q, OF _ assms(5,8)]) auto
  moreover have "chain nx' pv' n vs m"
  proof (cases vs)
    case (Cons y ys)
    have "chain nx pv y ys m" using c Cons by (auto simp: chain_append)
    then have "chain nx' pv' y ys m"
      using d l assms(2) Cons by (intro chain_away [where A = "{n, last (m # us)}" and B = "{n, ?q}", OF _ assms(5,8)]) (auto simp del: last.simps)
    then show ?thesis using assms(3,7) Cons by simp
  qed (use assms in simp)
  ultimately show ?thesis using d assms(2) by (auto simp: ring_def chain_append)
qed

lemma ring_remove:
  assumes "ring nx pv m (us @ n # vs)"
    and "nx' (last (m # us)) = hd (vs @ [m])" "\<And>x. x \<notin> {n, last (m # us)} \<Longrightarrow> nx' x = nx x"
    and "pv' (hd (vs @ [m])) = last (m # us)" "\<And>x. x \<notin> {n, hd (vs @ [m])} \<Longrightarrow> pv' x = pv x"
  shows "ring nx' pv' m (us @ vs)"
proof -
  let ?q = "hd (vs @ [m])"
  have l: "last (m # us) \<in> set (m # us)" by (rule last_in_set) simp
  have d: "distinct (m # us @ n # vs)" and c: "chain nx pv m us n" "chain nx pv n vs m"
    using assms(1) by (auto simp: ring_def chain_append)
  have "?q \<notin> set us" using d by (cases vs) auto
  then have u: "chain nx' pv' m us ?q"
    using d assms(2,4) by (intro chain_redirect [where n = n and q = ?q, OF c(1) assms(3,5)]) auto
  show ?thesis
  proof (cases vs)
    case (Cons y ys)
    have "chain nx pv y ys m" using c Cons by auto
    then have "chain nx' pv' y ys m"
      using d l Cons by (intro chain_away [where A = "{n, last (m # us)}" and B = "{n, ?q}", OF _ assms(3,5)]) (auto simp del: last.simps)
    then show ?thesis using u d Cons by (auto simp: ring_def chain_append)
  qed (use u d in \<open>simp add: ring_def\<close>)
qed

subsection \<open>Memory\<close>

definition fetch :: "(nat \<rightharpoonup> 'n) \<Rightarrow> nat \<Rightarrow> 'n res" where
  "fetch h p = (case h p of None \<Rightarrow> Undef | Some x \<Rightarrow> Ok x)"

definition modify :: "nat \<Rightarrow> ('n \<Rightarrow> 'n) \<Rightarrow> (nat \<rightharpoonup> 'n) \<Rightarrow> (nat \<rightharpoonup> 'n) res" where
  "modify p f h = (case h p of None \<Rightarrow> Undef | Some x \<Rightarrow> Ok (h(p \<mapsto> f x)))"

definition dealloc :: "nat \<Rightarrow> (nat \<rightharpoonup> 'n) \<Rightarrow> (nat \<rightharpoonup> 'n) res" where
  "dealloc p h = (if h p = None then Undef else Ok (h(p := None)))"

text \<open>
  \<open>new\<close> is the allocator: an address for the next node, given what is allocated. All that is used of it
  is that the address is neither null nor in use.
\<close>

definition allocates :: "((nat \<rightharpoonup> 'n) \<Rightarrow> nat) \<Rightarrow> bool" where
  "allocates new = (\<forall>h. finite (dom h) \<longrightarrow> new h \<noteq> 0 \<and> h (new h) = None)"

definition next_free :: "(nat \<rightharpoonup> 'n) \<Rightarrow> nat" where
  "next_free h = Suc (Max (insert 0 (dom h)))"

lemma next_free_allocates: "allocates (next_free :: (nat \<rightharpoonup> 'n) \<Rightarrow> nat)"
proof -
  have "Suc (Max (insert 0 (dom h))) \<notin> dom h" if "finite (dom h)" for h :: "nat \<rightharpoonup> 'n"
    using that Max_ge [of "insert 0 (dom h)" "Suc (Max (insert 0 (dom h)))"] by fastforce
  then show ?thesis by (simp add: allocates_def next_free_def domIff)
qed

lemma fetch_Some [simp]: "h p = Some x \<Longrightarrow> fetch h p = Ok x"
  by (simp add: fetch_def)

lemma modify_Some [simp]: "h p = Some x \<Longrightarrow> modify p f h = Ok (h(p \<mapsto> f x))"
  by (simp add: modify_def)

lemma dealloc_Some [simp]: "h p = Some x \<Longrightarrow> dealloc p h = Ok (h(p := None))"
  by (simp add: dealloc_def)

subsection \<open>\<open>cutils/list.h\<close>: the operations\<close>

text \<open>
  \<open>struct listnode\<close> sits inside the structures that are listed; the record is extended by the rest of
  its container, which is what \<open>node_to_item\<close> reaches.
\<close>

record listnode =
  lnext :: nat
  lprev :: nat

type_synonym 'a nodes = "nat \<rightharpoonup> 'a listnode_scheme"

definition set_next :: "nat \<Rightarrow> nat \<Rightarrow> 'a nodes \<Rightarrow> 'a nodes res" where
  "set_next p q = modify p (\<lambda>x. x\<lparr>lnext := q\<rparr>)"

definition set_prev :: "nat \<Rightarrow> nat \<Rightarrow> 'a nodes \<Rightarrow> 'a nodes res" where
  "set_prev p q = modify p (\<lambda>x. x\<lparr>lprev := q\<rparr>)"

definition list_init :: "nat \<Rightarrow> 'a nodes \<Rightarrow> 'a nodes res" where
  "list_init node h = res_bind (set_next node node h) (set_prev node node)"

definition list_add_tail :: "nat \<Rightarrow> nat \<Rightarrow> 'a nodes \<Rightarrow> 'a nodes res" where
  "list_add_tail head item h =
     res_bind (set_next item head h) (\<lambda>h.
     res_bind (fetch h head) (\<lambda>hd. res_bind (set_prev item (lprev hd) h) (\<lambda>h.
     res_bind (fetch h head) (\<lambda>hd. res_bind (set_next (lprev hd) item h) (\<lambda>h.
     set_prev head item h)))))"

definition list_add_head :: "nat \<Rightarrow> nat \<Rightarrow> 'a nodes \<Rightarrow> 'a nodes res" where
  "list_add_head head item h =
     res_bind (fetch h head) (\<lambda>hd. res_bind (set_next item (lnext hd) h) (\<lambda>h.
     res_bind (set_prev item head h) (\<lambda>h.
     res_bind (fetch h head) (\<lambda>hd. res_bind (set_prev (lnext hd) item h) (\<lambda>h.
     set_next head item h)))))"

definition list_remove :: "nat \<Rightarrow> 'a nodes \<Rightarrow> 'a nodes res" where
  "list_remove item h =
     res_bind (fetch h item) (\<lambda>x. res_bind (set_prev (lnext x) (lprev x) h) (\<lambda>h.
     res_bind (fetch h item) (\<lambda>x. set_next (lprev x) (lnext x) h)))"

definition list_empty :: "nat \<Rightarrow> 'a nodes \<Rightarrow> bool res" where
  "list_empty list h = res_map (\<lambda>x. list = lnext x) (fetch h list)"

definition list_head :: "nat \<Rightarrow> 'a nodes \<Rightarrow> nat res" where
  "list_head list h = res_map lnext (fetch h list)"

definition list_tail :: "nat \<Rightarrow> 'a nodes \<Rightarrow> nat res" where
  "list_tail list h = res_map lprev (fetch h list)"

text \<open>
  The three loops. \<open>body\<close> is what the user of the macro writes; it sees and changes the memory and a
  state of its own. \<open>list_for_each\<close> reads the successor after the body, \<open>list_for_each_safe\<close> has read it
  before.
\<close>

fun for_each_from :: "nat \<Rightarrow> ('a listnode_scheme \<Rightarrow> nat) \<Rightarrow> (nat \<Rightarrow> 'a nodes \<times> 's \<Rightarrow> ('a nodes \<times> 's) res) \<Rightarrow>
    nat \<Rightarrow> nat \<Rightarrow> 'a nodes \<times> 's \<Rightarrow> ('a nodes \<times> 's) res" where
  "for_each_from 0 step body list node hs = NoFuel"
| "for_each_from (Suc fuel) step body list node hs =
     (if node = list then Ok hs
      else res_bind (body node hs) (\<lambda>hs'.
           res_bind (fetch (fst hs') node) (\<lambda>x. for_each_from fuel step body list (step x) hs')))"

definition list_for_each where
  "list_for_each fuel body list hs =
     res_bind (fetch (fst hs) list) (\<lambda>x. for_each_from fuel lnext body list (lnext x) hs)"

definition list_for_each_reverse where
  "list_for_each_reverse fuel body list hs =
     res_bind (fetch (fst hs) list) (\<lambda>x. for_each_from fuel lprev body list (lprev x) hs)"

fun for_each_safe_from :: "nat \<Rightarrow> (nat \<Rightarrow> 'a nodes \<times> 's \<Rightarrow> ('a nodes \<times> 's) res) \<Rightarrow>
    nat \<Rightarrow> nat \<Rightarrow> nat \<Rightarrow> 'a nodes \<times> 's \<Rightarrow> ('a nodes \<times> 's) res" where
  "for_each_safe_from 0 body list node n hs = NoFuel"
| "for_each_safe_from (Suc fuel) body list node n hs =
     (if node = list then Ok hs
      else res_bind (body node hs) (\<lambda>hs'.
           res_bind (fetch (fst hs') n) (\<lambda>x. for_each_safe_from fuel body list n (lnext x) hs')))"

definition list_for_each_safe where
  "list_for_each_safe fuel body list hs =
     res_bind (fetch (fst hs) list) (\<lambda>x. res_bind (fetch (fst hs) (lnext x)) (\<lambda>y.
     for_each_safe_from fuel body list (lnext x) (lnext y) hs))"

subsection \<open>\<open>cutils/list.h\<close>: the list that is kept\<close>

definition nexts :: "'a nodes \<Rightarrow> nat \<Rightarrow> nat" where
  "nexts h p = (case h p of None \<Rightarrow> 0 | Some x \<Rightarrow> lnext x)"

definition prevs :: "'a nodes \<Rightarrow> nat \<Rightarrow> nat" where
  "prevs h p = (case h p of None \<Rightarrow> 0 | Some x \<Rightarrow> lprev x)"

definition linked :: "'a nodes \<Rightarrow> nat \<Rightarrow> nat list \<Rightarrow> bool" where
  "linked h m xs = (set (m # xs) \<subseteq> dom h \<and> ring (nexts h) (prevs h) m xs)"

text \<open>Only the nodes of \<open>A\<close> change, and of these only the links.\<close>

definition relinks :: "nat set \<Rightarrow> 'a nodes \<Rightarrow> 'a nodes \<Rightarrow> bool" where
  "relinks A h h' = ((\<forall>p. p \<notin> A \<longrightarrow> h' p = h p) \<and>
     (\<forall>p. map_option listnode.more (h' p) = map_option listnode.more (h p)))"

lemma linked_nodes: "linked h m xs \<Longrightarrow> p \<in> set (m # xs) \<Longrightarrow> \<exists>x. h p = Some x \<and> lnext x = nexts h p \<and> lprev x = prevs h p"
  by (auto simp: linked_def nexts_def prevs_def subset_iff split: option.splits)

lemma linked_outside:
  "linked h m xs \<Longrightarrow> (\<And>p. p \<in> set (m # xs) \<Longrightarrow> h' p = h p) \<Longrightarrow> linked h' m xs"
  using ring_cong [of m xs "nexts h'" "nexts h" "prevs h'" "prevs h"]
  by (auto simp: linked_def nexts_def prevs_def subset_iff domIff)

lemma linked_at:
  assumes "linked h m (us @ vs)"
  shows "nexts h (last (m # us)) = hd (vs @ [m])" "prevs h (hd (vs @ [m])) = last (m # us)"
  using assms by (auto simp only: linked_def ring_at)

text \<open>Writing one link.\<close>

definition put_next :: "nat \<Rightarrow> nat \<Rightarrow> 'a nodes \<Rightarrow> 'a nodes" where
  "put_next p q h = h(p := map_option (\<lambda>x. x\<lparr>lnext := q\<rparr>) (h p))"

definition put_prev :: "nat \<Rightarrow> nat \<Rightarrow> 'a nodes \<Rightarrow> 'a nodes" where
  "put_prev p q h = h(p := map_option (\<lambda>x. x\<lparr>lprev := q\<rparr>) (h p))"

lemma put_simps [ring_simps]:
  "p \<in> dom h \<Longrightarrow> set_next p q h = Ok (put_next p q h)" "p \<in> dom h \<Longrightarrow> set_prev p q h = Ok (put_prev p q h)"
  "dom (put_next p q h) = dom h" "dom (put_prev p q h) = dom h"
  "p \<in> dom h \<Longrightarrow> nexts (put_next p q h) = (nexts h)(p := q)" "nexts (put_prev p q h) = nexts h"
  "p \<in> dom h \<Longrightarrow> prevs (put_prev p q h) = (prevs h)(p := q)" "prevs (put_next p q h) = prevs h"
  by (auto simp: set_next_def set_prev_def modify_def put_next_def put_prev_def nexts_def prevs_def fun_eq_iff
      split: option.splits if_splits)

lemma fetch_dom [ring_simps]:
  "p \<in> dom h \<Longrightarrow> fetch h p = Ok (the (h p))"
  "p \<in> dom h \<Longrightarrow> lnext (the (h p)) = nexts h p" "p \<in> dom h \<Longrightarrow> lprev (the (h p)) = prevs h p"
  by (auto simp: nexts_def prevs_def)

lemma relinks_refl [simp]: "relinks A h h"
  by (simp add: relinks_def)

lemma relinks_put [ring_simps]:
  "p \<in> A \<Longrightarrow> relinks A h h' \<Longrightarrow> relinks A h (put_next p q h')"
  "p \<in> A \<Longrightarrow> relinks A h h' \<Longrightarrow> relinks A h (put_prev p q h')"
  by (auto simp: relinks_def put_next_def put_prev_def option.map_comp o_def)

lemma linked_dom: "linked h m xs \<Longrightarrow> p \<in> set (m # xs) \<Longrightarrow> p \<in> dom h"
  by (auto simp only: linked_def)

lemma linked_neighbours:
  assumes "linked h m (us @ vs)"
  shows "last (m # us) \<in> dom h" "hd (vs @ [m]) \<in> dom h" "last (m # us) \<in> set (m # us)"
proof -
  show l: "last (m # us) \<in> set (m # us)" by (rule last_in_set) simp
  then show "last (m # us) \<in> dom h" using assms by (auto simp: linked_def simp del: last.simps)
  show "hd (vs @ [m]) \<in> dom h" using assms by (cases vs) (auto simp: linked_def)
qed

subsection \<open>\<open>cutils/list.h\<close>: what the operations do\<close>

text \<open>An initialised list is empty, whatever the node was linked to.\<close>

lemma list_init_linked:
  "m \<in> dom h \<Longrightarrow> \<exists>h'. list_init m h = Ok h' \<and> linked h' m [] \<and> relinks {m} h h'"
  by (simp add: list_init_def ring_simps linked_def ring_def)

lemma linked_insert:
  assumes "linked h m (us @ vs)" "n \<in> dom h" "n \<notin> set (m # us @ vs)" "dom h' = dom h"
    and "nexts h' = (nexts h)(n := hd (vs @ [m]), last (m # us) := n)"
    and "prevs h' = (prevs h)(n := last (m # us), hd (vs @ [m]) := n)"
  shows "linked h' m (us @ n # vs)"
proof -
  have "ring (nexts h') (prevs h') m (us @ n # vs)"
  proof (rule ring_insert)
    show "ring (nexts h) (prevs h) m (us @ vs)" using assms(1) by (simp add: linked_def)
    have "last (m # us) \<noteq> n" using linked_neighbours(3) [OF assms(1)] assms(3) by auto
    moreover have "hd (vs @ [m]) \<noteq> n" using assms(3) by (cases vs) auto
    ultimately show "nexts h' n = hd (vs @ [m])" "prevs h' n = last (m # us)" using assms(5,6) by auto
  qed (use assms in auto)
  then show ?thesis using assms(1-4) by (simp add: linked_def)
qed

lemma linked_remove:
  assumes "linked h m (us @ n # vs)" "dom h' = dom h"
    and "nexts h' = (nexts h)(last (m # us) := hd (vs @ [m]))"
    and "prevs h' = (prevs h)(hd (vs @ [m]) := last (m # us))"
  shows "linked h' m (us @ vs)"
proof -
  have "ring (nexts h') (prevs h') m (us @ vs)"
    using assms by (intro ring_remove [of "nexts h" "prevs h" m us n vs]) (auto simp: linked_def)
  then show ?thesis using assms(1,2) by (simp add: linked_def)
qed

text \<open>An item is appended, or put in front; the containers keep everything but their links, and nodes
  outside the list are not touched. Appending is linking in before the head, and the same code links in
  before any node.\<close>

lemma list_add_before:
  assumes "linked h m (us @ vs)" "n \<in> dom h" "n \<notin> set (m # us @ vs)"
  shows "\<exists>h'. list_add_tail (hd (vs @ [m])) n h = Ok h' \<and> linked h' m (us @ n # vs) \<and> relinks (set (n # m # us @ vs)) h h'"
proof -
  let ?p = "last (m # us)" and ?q = "hd (vs @ [m])"
  note nb = linked_neighbours [OF assms(1)] and at = linked_at [OF assms(1)]
  have q: "?q \<in> set (m # us @ vs)" by (cases vs) auto
  have np: "?p \<noteq> n" "?q \<noteq> n" using nb(3) q assms(3) by auto
  let ?h = "put_prev ?q n (put_next ?p n (put_prev n ?p (put_next n ?q h)))"
  have "list_add_tail ?q n h = Ok ?h"
    using assms(2) at(2) nb(1,2) np by (simp add: list_add_tail_def ring_simps del: last.simps)
  moreover have "linked ?h m (us @ n # vs)"
    using assms(2,3) nb(1,2) np
    by (intro linked_insert [OF assms(1)]) (auto simp: ring_simps simp del: last.simps)
  moreover have "relinks (set (n # m # us @ vs)) h ?h"
    using nb(3) q by (intro ring_simps relinks_refl) auto
  ultimately show ?thesis by blast
qed

lemma list_add_tail_lemma:
  assumes "linked h m xs" "n \<in> dom h" "n \<notin> set (m # xs)"
  shows "\<exists>h'. list_add_tail m n h = Ok h' \<and> linked h' m (xs @ [n]) \<and> relinks (set (n # m # xs)) h h'"
  using list_add_before [of h m xs "[]" n] assms by simp

lemma list_add_head_lemma:
  assumes "linked h m xs" "n \<in> dom h" "n \<notin> set (m # xs)"
  shows "\<exists>h'. list_add_head m n h = Ok h' \<and> linked h' m (n # xs) \<and> relinks (set (n # m # xs)) h h'"
proof -
  let ?q = "hd (xs @ [m])"
  have l: "linked h m ([] @ xs)" using assms(1) by simp
  note nb = linked_neighbours [OF l] and at = linked_at [OF l]
  have m: "m \<in> dom h" "nexts h m = ?q" using nb at by simp_all
  have nq: "?q \<noteq> n" "m \<noteq> n" "?q \<in> set (m # xs)" using assms(3) by (cases xs; auto)+
  let ?h = "put_next m n (put_prev ?q n (put_prev n m (put_next n ?q h)))"
  have "list_add_head m n h = Ok ?h"
    using assms(2) m nb(2) nq by (simp add: list_add_head_def ring_simps)
  moreover have "linked ?h m ([] @ n # xs)"
    using assms(2,3) m nb(2) nq by (intro linked_insert [OF l]) (auto simp: ring_simps)
  moreover have "relinks (set (n # m # xs)) h ?h"
    using nq(3) by (intro ring_simps relinks_refl) auto
  ultimately show ?thesis by auto
qed

lemma list_remove_lemma:
  assumes "linked h m (us @ n # vs)"
  shows "\<exists>h'. list_remove n h = Ok h' \<and> linked h' m (us @ vs) \<and> relinks (set (m # us @ vs)) h h'"
proof -
  let ?p = "last (m # us)" and ?q = "hd (vs @ [m])"
  have "n \<noteq> m" and dd: "distinct (m # us @ n # vs)" using assms by (auto simp: linked_def ring_def)
  have l1: "linked h m (us @ n # vs)" and l2: "linked h m ((us @ [n]) @ vs)" using assms by simp_all
  have n: "n \<in> dom h" "nexts h n = ?q" "prevs h n = ?p"
    using linked_at [OF l1] linked_at [OF l2] linked_neighbours [OF l1] by simp_all
  have pq: "?p \<in> dom h" "?q \<in> dom h" "?p \<in> set (m # us)" "?q \<in> set (m # vs)"
    using linked_neighbours [OF l1] linked_neighbours [OF l2] by (simp_all, cases vs, auto)
  have "?p \<noteq> n" "?q \<noteq> n" using pq(3,4) dd by auto
  let ?h = "put_next ?p ?q (put_prev ?q ?p h)"
  have "list_remove n h = Ok ?h"
    using n pq \<open>?q \<noteq> n\<close> by (simp add: list_remove_def ring_simps del: last.simps)
  moreover have "linked ?h m (us @ vs)"
    using pq by (intro linked_remove [OF assms]) (simp_all add: ring_simps del: last.simps)
  moreover have "relinks (set (m # us @ vs)) h ?h"
    using pq(3,4) by (intro ring_simps relinks_refl) auto
  ultimately show ?thesis by auto
qed

lemma list_ends:
  assumes "linked h m xs"
  shows "list_empty m h = Ok (xs = [])" "list_head m h = Ok (hd (xs @ [m]))" "list_tail m h = Ok (last (m # xs))"
proof -
  have l: "linked h m ([] @ xs)" "linked h m (xs @ [])" and d: "distinct (m # xs)" using assms by (auto simp: linked_def ring_def)
  have m: "m \<in> dom h" "nexts h m = hd (xs @ [m])" "prevs h m = last (m # xs)"
    using linked_at [OF l(1)] linked_at [OF l(2)] linked_neighbours [OF l(1)] by simp_all
  then show "list_empty m h = Ok (xs = [])" using d by (cases xs) (auto simp: list_empty_def ring_simps)
  show "list_head m h = Ok (hd (xs @ [m]))" "list_tail m h = Ok (last (m # xs))"
    using m by (simp_all add: list_head_def list_tail_def ring_simps del: last.simps)
qed

subsection \<open>\<open>cutils/list.h\<close>: the loops\<close>

text \<open>A body that leaves the nodes alone is run on each item, from the head or from the tail.\<close>

lemma for_each_from_linked:
  assumes "linked h m (us @ vs)" "\<And>p h s. body p (h, s) = Ok (h, f p s)" "length vs < fuel"
  shows "for_each_from fuel lnext body m (hd (vs @ [m])) (h, s) = Ok (h, fold f vs s)"
  using assms(1,3)
proof (induction vs arbitrary: us s fuel)
  case Nil
  then show ?case by (cases fuel) auto
next
  case (Cons v vs)
  then obtain k where k: "fuel = Suc k" "length vs < k" by (cases fuel) auto
  have l: "linked h m ((us @ [v]) @ vs)" using Cons.prems(1) by simp
  have "v \<noteq> m" "v \<in> dom h" "nexts h v = hd (vs @ [m])"
    using Cons.prems(1) linked_at [OF l] linked_neighbours [OF l] by (auto simp: linked_def ring_def)
  then show ?case using Cons.IH [OF l k(2)] assms(2) by (simp add: k(1) ring_simps)
qed

lemma for_each_from_linked_reverse:
  assumes "linked h m (us @ vs)" "\<And>p h s. body p (h, s) = Ok (h, f p s)" "length us < fuel"
  shows "for_each_from fuel lprev body m (last (m # us)) (h, s) = Ok (h, fold f (rev us) s)"
  using assms(1,3)
proof (induction us arbitrary: vs s fuel rule: rev_induct)
  case Nil
  then show ?case by (cases fuel) auto
next
  case (snoc u us)
  then obtain k where k: "fuel = Suc k" "length us < k" by (cases fuel) auto
  have l: "linked h m (us @ (u # vs))" using snoc.prems(1) by simp
  have "u \<noteq> m" "u \<in> dom h" "prevs h u = last (m # us)"
    using snoc.prems(1) linked_at [OF l] linked_neighbours [OF l] by (auto simp: linked_def ring_def)
  moreover have "last (m # us @ [u]) = u" by simp
  ultimately show ?case using snoc.IH [OF l k(2)] assms(2) by (simp add: k(1) ring_simps del: last.simps)
qed

lemma list_for_each_folds:
  assumes "linked h m xs" "\<And>p h s. body p (h, s) = Ok (h, f p s)" "length xs < fuel"
  shows "list_for_each fuel body m (h, s) = Ok (h, fold f xs s)"
    "list_for_each_reverse fuel body m (h, s) = Ok (h, fold f (rev xs) s)"
proof -
  have l: "linked h m ([] @ xs)" "linked h m (xs @ [])" using assms(1) by simp_all
  show "list_for_each fuel body m (h, s) = Ok (h, fold f xs s)"
    using for_each_from_linked [where s = s, OF l(1) assms(2,3)] linked_at(1) [OF l(1)] linked_neighbours [OF l(1)]
    by (simp add: list_for_each_def ring_simps)
  show "list_for_each_reverse fuel body m (h, s) = Ok (h, fold f (rev xs) s)"
    using for_each_from_linked_reverse [where s = s, OF l(2) assms(2,3)] linked_at(2) [OF l(2)] linked_neighbours [OF l(1)]
    by (simp add: list_for_each_reverse_def ring_simps del: last.simps)
qed

text \<open>
  The use \<open>list_for_each_safe\<close> is for: the body unlinks the item and frees its container. Every item is
  freed once, in order, the list is left empty, and nothing else is touched.
\<close>

definition unlink_and_free :: "nat \<Rightarrow> 'a nodes \<times> nat list \<Rightarrow> ('a nodes \<times> nat list) res" where
  "unlink_and_free p hs = res_bind (list_remove p (fst hs)) (\<lambda>h. res_map (\<lambda>h. (h, snd hs @ [p])) (dealloc p h))"

lemma unlink_and_free_first:
  assumes "linked h m (n # vs)"
  shows "\<exists>h'. unlink_and_free n (h, s) = Ok (h', s @ [n]) \<and> linked h' m vs \<and> h' n = None \<and> (\<forall>p. p \<notin> set (m # n # vs) \<longrightarrow> h' p = h p)"
proof -
  obtain h1 where h1: "list_remove n h = Ok h1" "linked h1 m vs" "relinks (set (m # vs)) h h1"
    using list_remove_lemma [of h m "[]" n vs] assms by auto
  have n: "n \<in> dom h" "n \<notin> set (m # vs)" using assms by (auto simp: linked_def ring_def)
  then obtain x where "h1 n = Some x" using h1(3) by (auto simp: relinks_def)
  moreover have "linked (h1(n := None)) m vs" using h1(2) n(2) by (intro linked_outside [OF h1(2)]) auto
  ultimately show ?thesis using h1 n by (intro exI [of _ "h1(n := None)"]) (auto simp: unlink_and_free_def relinks_def)
qed

lemma for_each_safe_from_frees:
  assumes "linked h m vs" "length vs < fuel" "n = nexts h (hd (vs @ [m]))"
  shows "\<exists>h'. for_each_safe_from fuel unlink_and_free m (hd (vs @ [m])) n (h, s) = Ok (h', s @ vs) \<and>
     linked h' m [] \<and> (\<forall>p \<in> set vs. h' p = None) \<and> (\<forall>p. p \<notin> set (m # vs) \<longrightarrow> h' p = h p)"
  using assms
proof (induction vs arbitrary: h s n fuel)
  case Nil
  then show ?case by (cases fuel) auto
next
  case (Cons v vs)
  then obtain k where k: "fuel = Suc k" "length vs < k" by (cases fuel) auto
  have l: "linked h m ([v] @ vs)" and v: "v \<noteq> m" "v \<notin> set vs" using Cons.prems(1) by (auto simp: linked_def ring_def)
  have n: "n = hd (vs @ [m])" using Cons.prems(3) linked_at(1) [OF l] by simp
  obtain h1 where h1: "unlink_and_free v (h, s) = Ok (h1, s @ [v])" "linked h1 m vs" "h1 v = None"
    "\<forall>p. p \<notin> set (m # v # vs) \<longrightarrow> h1 p = h p" using unlink_and_free_first [OF Cons.prems(1)] by blast
  have "hd (vs @ [m]) \<in> dom h1" using linked_neighbours(2) [of h1 m "[]" vs] h1(2) by simp
  moreover obtain h2 where "for_each_safe_from k unlink_and_free m (hd (vs @ [m])) (nexts h1 (hd (vs @ [m]))) (h1, s @ [v]) = Ok (h2, (s @ [v]) @ vs)"
    "linked h2 m []" "\<forall>p \<in> set vs. h2 p = None" "\<forall>p. p \<notin> set (m # vs) \<longrightarrow> h2 p = h1 p"
    using Cons.IH [OF h1(2) k(2) refl, of "s @ [v]"] by blast
  ultimately show ?case using h1 v by (intro exI [of _ h2]) (auto simp: k(1) n ring_simps)
qed

theorem list_for_each_safe_frees:
  assumes "linked h m xs" "length xs < fuel"
  shows "\<exists>h'. list_for_each_safe fuel unlink_and_free m (h, []) = Ok (h', xs) \<and>
     linked h' m [] \<and> (\<forall>p \<in> set xs. h' p = None) \<and> (\<forall>p. p \<notin> set (m # xs) \<longrightarrow> h' p = h p)"
proof -
  have l: "linked h m ([] @ xs)" using assms(1) by simp
  have "m \<in> dom h" "nexts h m = hd (xs @ [m])" "hd (xs @ [m]) \<in> dom h"
    using linked_at [OF l] linked_neighbours [OF l] by simp_all
  then show ?thesis
    using for_each_safe_from_frees [OF assms refl, of "[]"] by (simp add: list_for_each_safe_def ring_simps)
qed

text \<open>The plain loop must not be used like this: it reads the successor out of the freed item.\<close>

theorem list_for_each_use_after_free:
  assumes "linked h m (x # xs)"
  shows "list_for_each (Suc fuel) unlink_and_free m (h, s) = Undef"
proof -
  have l: "linked h m ([] @ x # xs)" and x: "x \<noteq> m" using assms by (auto simp: linked_def ring_def)
  have "m \<in> dom h" "nexts h m = x" using linked_at [OF l] linked_neighbours [OF l] by simp_all
  moreover obtain h1 where "unlink_and_free x (h, s) = Ok (h1, s @ [x])" "h1 x = None"
    using unlink_and_free_first [OF assms] by blast
  ultimately show ?thesis using x by (simp add: list_for_each_def ring_simps fetch_def [of h1])
qed

text \<open>A ring of three in memory.\<close>

lemma list_for_each_safe_frees_witness:
  "\<exists>h'. list_for_each_safe 3 unlink_and_free 1
      ([1 \<mapsto> \<lparr>lnext = 7, lprev = 4\<rparr>, 7 \<mapsto> \<lparr>lnext = 4, lprev = 1\<rparr>, 4 \<mapsto> \<lparr>lnext = 1, lprev = 7\<rparr>], []) = Ok (h', [7, 4]) \<and> h' 7 = None"
proof -
  let ?h = "[1 \<mapsto> \<lparr>lnext = 7, lprev = 4\<rparr>, 7 \<mapsto> \<lparr>lnext = 4, lprev = 1\<rparr>, 4 \<mapsto> \<lparr>lnext = 1, lprev = 7\<rparr>]"
  have "linked ?h 1 [7, 4]" by (simp add: linked_def ring_def nexts_def prevs_def)
  from list_for_each_safe_frees [OF this, of 3] show ?thesis by auto
qed

lemma list_for_each_use_after_free_witness:
  "list_for_each 5 unlink_and_free 1 ([1 \<mapsto> \<lparr>lnext = 7, lprev = 7\<rparr>, 7 \<mapsto> \<lparr>lnext = 1, lprev = 1\<rparr>], []) = Undef"
proof -
  have "linked [1 \<mapsto> \<lparr>lnext = 7, lprev = 7\<rparr>, 7 \<mapsto> \<lparr>lnext = 1, lprev = 1\<rparr>] 1 [7]"
    by (simp add: linked_def ring_def nexts_def prevs_def)
  from list_for_each_use_after_free [OF this, of 4] show ?thesis by (simp add: eval_nat_numeral)
qed

end
