(* ===== verification/Utils_List.thy ===== *)
theory Utils_List
  imports Pointer_Lists
begin

section \<open>\<open>utils/List.h\<close>: the list template\<close>

text \<open>
  A list object is the address of its middle node \<open>mpMiddle\<close>, which closes the ring and holds no value;
  an iterator is the address of a node. Nodes come from \<open>new\<close> and go back with \<open>delete\<close>. The theorems
  follow a list value: each operation does to the values what its name says, frees what it drops,
  allocates nothing else, and leaves every other object of the memory alone, so that two lists do not
  disturb one another.
\<close>

record 'v list_node = listnode +
  mVal :: "'v option"

type_synonym 'v list_mem = "nat \<rightharpoonup> 'v list_node"

subsection \<open>Operations\<close>

text \<open>\<open>new _Node(val)\<close>; the links are written before they are read. The middle node is raw memory.\<close>

definition new_Node :: "('v list_mem \<Rightarrow> nat) \<Rightarrow> 'v option \<Rightarrow> 'v list_mem \<Rightarrow> nat \<times> 'v list_mem" where
  "new_Node new v h = (let p = new h in (p, h(p \<mapsto> \<lparr>lnext = 0, lprev = 0, mVal = v\<rparr>)))"

definition getNext :: "nat \<Rightarrow> 'v list_mem \<Rightarrow> nat res" where
  "getNext p h = res_map lnext (fetch h p)"

definition getPrev :: "nat \<Rightarrow> 'v list_mem \<Rightarrow> nat res" where
  "getPrev p h = res_map lprev (fetch h p)"

text \<open>\<open>*it\<close>: the middle node has no value to read.\<close>

definition getRef :: "nat \<Rightarrow> 'v list_mem \<Rightarrow> 'v res" where
  "getRef p h = res_bind (fetch h p) (\<lambda>x. case mVal x of None \<Rightarrow> Undef | Some v \<Rightarrow> Ok v)"

definition setVal :: "nat \<Rightarrow> 'v \<Rightarrow> 'v list_mem \<Rightarrow> 'v list_mem res" where
  "setVal p v = modify p (\<lambda>x. x\<lparr>mVal := Some v\<rparr>)"

definition prep :: "('v list_mem \<Rightarrow> nat) \<Rightarrow> 'v list_mem \<Rightarrow> (nat \<times> 'v list_mem) res" where
  "prep new h = (case new_Node new None h of (p, h) \<Rightarrow>
     res_bind (set_prev p p h) (\<lambda>h. res_map (\<lambda>h. (p, h)) (set_next p p h)))"

definition list_is_empty :: "nat \<Rightarrow> 'v list_mem \<Rightarrow> bool res" where
  "list_is_empty m h = res_map (\<lambda>n. n = m) (getNext m h)"

definition insert_node :: "('v list_mem \<Rightarrow> nat) \<Rightarrow> nat \<Rightarrow> 'v \<Rightarrow> 'v list_mem \<Rightarrow> (nat \<times> 'v list_mem) res" where
  "insert_node new posn v h = (case new_Node new (Some v) h of (newNode, h) \<Rightarrow>
     res_bind (set_next newNode posn h) (\<lambda>h.
     res_bind (getPrev posn h) (\<lambda>q. res_bind (set_prev newNode q h) (\<lambda>h.
     res_bind (getPrev posn h) (\<lambda>q. res_bind (set_next q newNode h) (\<lambda>h.
     res_map (\<lambda>h. (newNode, h)) (set_prev posn newNode h)))))))"

definition push_front :: "('v list_mem \<Rightarrow> nat) \<Rightarrow> nat \<Rightarrow> 'v \<Rightarrow> 'v list_mem \<Rightarrow> (nat \<times> 'v list_mem) res" where
  "push_front new m v h = res_bind (getNext m h) (\<lambda>b. insert_node new b v h)"

definition push_back :: "('v list_mem \<Rightarrow> nat) \<Rightarrow> nat \<Rightarrow> 'v \<Rightarrow> 'v list_mem \<Rightarrow> (nat \<times> 'v list_mem) res" where
  "push_back new m v h = insert_node new m v h"

fun insert_range :: "nat \<Rightarrow> ('v list_mem \<Rightarrow> nat) \<Rightarrow> nat \<Rightarrow> nat \<Rightarrow> nat \<Rightarrow> 'v list_mem \<Rightarrow> 'v list_mem res" where
  "insert_range 0 new posn first stop h = NoFuel"
| "insert_range (Suc fuel) new posn first stop h =
     (if first = stop then Ok h
      else res_bind (getRef first h) (\<lambda>v. res_bind (insert_node new posn v h) (\<lambda>(_, h).
           res_bind (getNext first h) (\<lambda>first. insert_range fuel new posn first stop h))))"

definition erase_node :: "nat \<Rightarrow> 'v list_mem \<Rightarrow> (nat \<times> 'v list_mem) res" where
  "erase_node posn h =
     res_bind (getNext posn h) (\<lambda>pNext. res_bind (getPrev posn h) (\<lambda>pPrev.
     res_bind (set_next pPrev pNext h) (\<lambda>h. res_bind (set_prev pNext pPrev h) (\<lambda>h.
     res_map (\<lambda>h. (pNext, h)) (dealloc posn h)))))"

fun erase_range :: "nat \<Rightarrow> nat \<Rightarrow> nat \<Rightarrow> 'v list_mem \<Rightarrow> 'v list_mem res" where
  "erase_range 0 first stop h = NoFuel"
| "erase_range (Suc fuel) first stop h =
     (if first = stop then Ok h
      else res_bind (getNext first h) (\<lambda>n. res_bind (erase_node first h) (\<lambda>(_, h). erase_range fuel n stop h)))"

fun clear_from :: "nat \<Rightarrow> nat \<Rightarrow> nat \<Rightarrow> 'v list_mem \<Rightarrow> 'v list_mem res" where
  "clear_from 0 m pCurrent h = NoFuel"
| "clear_from (Suc fuel) m pCurrent h =
     (if pCurrent = m then Ok h
      else res_bind (getNext pCurrent h) (\<lambda>pNext. res_bind (dealloc pCurrent h) (\<lambda>h. clear_from fuel m pNext h)))"

definition clear_list :: "nat \<Rightarrow> nat \<Rightarrow> 'v list_mem \<Rightarrow> 'v list_mem res" where
  "clear_list fuel m h =
     res_bind (getNext m h) (\<lambda>p. res_bind (clear_from fuel m p h) (\<lambda>h.
     res_bind (set_prev m m h) (set_next m m)))"

text \<open>\<open>~List\<close>\<close>

definition destroy_list :: "nat \<Rightarrow> nat \<Rightarrow> 'v list_mem \<Rightarrow> 'v list_mem res" where
  "destroy_list fuel m h = res_bind (clear_list fuel m h) (dealloc m)"

fun distance_from :: "nat \<Rightarrow> nat \<Rightarrow> nat \<Rightarrow> nat \<Rightarrow> 'v list_mem \<Rightarrow> nat res" where
  "distance_from 0 first stop n h = NoFuel"
| "distance_from (Suc fuel) first stop n h =
     (if first = stop then Ok n
      else res_bind (getNext first h) (\<lambda>first. distance_from fuel first stop (Suc n) h))"

definition list_size :: "nat \<Rightarrow> nat \<Rightarrow> 'v list_mem \<Rightarrow> nat res" where
  "list_size fuel m h = res_bind (getNext m h) (\<lambda>b. distance_from fuel b m 0 h)"

text \<open>The copy constructor.\<close>

definition copy_list :: "nat \<Rightarrow> ('v list_mem \<Rightarrow> nat) \<Rightarrow> nat \<Rightarrow> 'v list_mem \<Rightarrow> (nat \<times> 'v list_mem) res" where
  "copy_list fuel new src h =
     res_bind (prep new h) (\<lambda>(m, h). res_bind (getNext m h) (\<lambda>b. res_bind (getNext src h) (\<lambda>f.
     res_map (\<lambda>h. (m, h)) (insert_range fuel new b f src h))))"

text \<open>\<open>operator=\<close>: values are copied into the nodes there are, then the rest of the longer list is erased
  or inserted. The loop returns both iterators.\<close>

fun assign_loop :: "nat \<Rightarrow> nat \<Rightarrow> nat \<Rightarrow> nat \<Rightarrow> nat \<Rightarrow> 'v list_mem \<Rightarrow> (nat \<times> nat \<times> 'v list_mem) res" where
  "assign_loop 0 firstDst lastDst firstSrc lastSrc h = NoFuel"
| "assign_loop (Suc fuel) firstDst lastDst firstSrc lastSrc h =
     (if firstSrc \<noteq> lastSrc \<and> firstDst \<noteq> lastDst
      then res_bind (getRef firstSrc h) (\<lambda>v. res_bind (setVal firstDst v h) (\<lambda>h.
           res_bind (getNext firstSrc h) (\<lambda>s. res_bind (getNext firstDst h) (\<lambda>d.
           assign_loop fuel d lastDst s lastSrc h))))
      else Ok (firstDst, firstSrc, h))"

definition assign_list :: "nat \<Rightarrow> ('v list_mem \<Rightarrow> nat) \<Rightarrow> nat \<Rightarrow> nat \<Rightarrow> 'v list_mem \<Rightarrow> 'v list_mem res" where
  "assign_list fuel new this right h =
     (if this = right then Ok h
      else res_bind (getNext this h) (\<lambda>d. res_bind (getNext right h) (\<lambda>s.
           res_bind (assign_loop fuel d this s right h) (\<lambda>(d, s, h).
           if s = right then erase_range fuel d this h else insert_range fuel new this s right h))))"

subsection \<open>Lists in memory\<close>

definition list_at :: "'v list_mem \<Rightarrow> nat \<Rightarrow> nat list \<Rightarrow> 'v list \<Rightarrow> bool" where
  "list_at h m ns vs = (linked h m ns \<and> map (\<lambda>p. Option.bind (h p) mVal) ns = map Some vs)"

text \<open>The objects at \<open>A\<close> become objects at \<open>B\<close>; everything else stays, and no address is shared.\<close>

definition becomes :: "nat set \<Rightarrow> nat set \<Rightarrow> (nat \<rightharpoonup> 'n) \<Rightarrow> (nat \<rightharpoonup> 'n) \<Rightarrow> bool" where
  "becomes A B h h' = (\<forall>p. if p \<in> B then h' p \<noteq> None \<and> (h p = None \<or> p \<in> A)
     else h' p = (if p \<in> A then None else h p))"

lemma becomes_refl: "A \<subseteq> dom h \<Longrightarrow> becomes A A h h"
  by (auto simp: becomes_def subset_iff domIff)

lemma becomes_trans:
  assumes "becomes A B h h'" "becomes B C h' h''"
  shows "becomes A C h h''"
  unfolding becomes_def
proof
  fix p
  show "if p \<in> C then h'' p \<noteq> None \<and> (h p = None \<or> p \<in> A) else h'' p = (if p \<in> A then None else h p)"
    using assms [unfolded becomes_def, THEN spec, of p] by (auto split: if_splits)
qed

lemma becomes_elsewhere:
  assumes "becomes A B h h'" "h p = Some x" "p \<notin> A"
  shows "h' p = Some x \<and> p \<notin> B"
  using assms(1) [unfolded becomes_def, THEN spec, of p] assms(2,3) by (simp split: if_splits)

lemma becomes_relinks:
  assumes "relinks A h h'" "A \<subseteq> dom h"
  shows "becomes A A h h'"
  unfolding becomes_def
proof
  fix p
  have "map_option listnode.more (h' p) = map_option listnode.more (h p)" using assms(1) by (simp add: relinks_def)
  then have "h' p = None \<longleftrightarrow> h p = None" by (cases "h p"; cases "h' p") simp_all
  moreover have "p \<in> A \<Longrightarrow> h p \<noteq> None" using assms(2) by blast
  moreover have "p \<notin> A \<Longrightarrow> h' p = h p" using assms(1) by (simp add: relinks_def)
  ultimately show "if p \<in> A then h' p \<noteq> None \<and> (h p = None \<or> p \<in> A) else h' p = (if p \<in> A then None else h p)"
    by simp
qed

lemma becomes_new:
  assumes "h p = None" "A \<subseteq> dom h"
  shows "becomes A (insert p A) h (h(p \<mapsto> x))"
  unfolding becomes_def
proof
  fix q
  show "if q \<in> insert p A then (h(p \<mapsto> x)) q \<noteq> None \<and> (h q = None \<or> q \<in> A) else (h(p \<mapsto> x)) q = (if q \<in> A then None else h q)"
    using assms by (cases "q = p"; cases "q \<in> A") auto
qed

lemma becomes_free:
  assumes "p \<in> A" "A \<subseteq> dom h"
  shows "becomes A (A - {p}) h (h(p := None))"
  unfolding becomes_def
proof
  fix q
  show "if q \<in> A - {p} then (h(p := None)) q \<noteq> None \<and> (h q = None \<or> q \<in> A) else (h(p := None)) q = (if q \<in> A then None else h q)"
    using assms by (cases "q = p"; cases "q \<in> A") auto
qed

lemma becomes_finite:
  assumes "becomes A B h h'" "finite (dom h)" "finite B"
  shows "finite (dom h')"
proof -
  have "p \<in> dom h \<union> B" if "p \<in> dom h'" for p
    using assms(1) [unfolded becomes_def, THEN spec, of p] that by (cases "h p") (auto split: if_splits)
  then show ?thesis using assms(2,3) by (meson finite_Un finite_subset subsetI)
qed

lemma list_at_dom: "list_at h m ns vs \<Longrightarrow> set (m # ns) \<subseteq> dom h"
  by (simp add: list_at_def linked_def)

lemma list_at_length: "list_at h m ns vs \<Longrightarrow> length ns = length vs"
  by (auto simp: list_at_def dest: arg_cong [of _ _ length])

text \<open>A list elsewhere is not disturbed.\<close>

lemma list_at_elsewhere:
  assumes "list_at h m ns vs" "becomes A B h h'" "set (m # ns) \<inter> A = {}"
  shows "list_at h' m ns vs" "set (m # ns) \<inter> B = {}"
proof -
  have e: "h' p = h p \<and> p \<notin> B" if p: "p \<in> set (m # ns)" for p
  proof -
    obtain x where "h p = Some x" using list_at_dom [OF assms(1)] p by blast
    then show ?thesis using becomes_elsewhere [OF assms(2)] assms(3) p by auto
  qed
  have "linked h' m ns"
  proof (rule linked_outside)
    show "linked h m ns" using assms(1) by (simp add: list_at_def)
  qed (use e in blast)
  moreover have "map (\<lambda>p. Option.bind (h' p) mVal) ns = map (\<lambda>p. Option.bind (h p) mVal) ns" using e by (intro map_cong) auto
  ultimately show "list_at h' m ns vs" using assms(1) by (simp only: list_at_def)
  show "set (m # ns) \<inter> B = {}" using e by blast
qed

lemma list_at_free: "list_at h m ns vs \<Longrightarrow> n \<notin> set (m # ns) \<Longrightarrow> n \<in> dom h \<Longrightarrow> list_at (h(n := None)) m ns vs"
  by (rule list_at_elsewhere(1) [OF _ becomes_free [of n "{n}" h]]) auto

lemma more_mVal: "listnode.more x = listnode.more y \<Longrightarrow> mVal x = mVal (y :: 'v list_node)"
  by (cases x; cases y) simp

lemma relinks_values:
  assumes "relinks A h (h' :: 'v list_mem)"
  shows "Option.bind (h' p) mVal = Option.bind (h p) mVal"
proof -
  have "map_option listnode.more (h' p) = map_option listnode.more (h p)" using assms by (simp add: relinks_def)
  then show ?thesis by (cases "h p"; cases "h' p") (auto intro: more_mVal)
qed

lemma list_at_relinks: "linked h' m ns \<Longrightarrow> relinks A h h' \<Longrightarrow>
    map (\<lambda>p. Option.bind (h p) mVal) ns = map Some vs \<Longrightarrow> list_at h' m ns vs"
  by (simp add: list_at_def relinks_values)

subsection \<open>What the operations do\<close>

lemma list_at_split:
  assumes "list_at h m (us @ ns) (vs @ ws)" "length us = length vs"
  shows "map (\<lambda>p. Option.bind (h p) mVal) us = map Some vs" "map (\<lambda>p. Option.bind (h p) mVal) ns = map Some ws"
  using assms by (simp_all add: list_at_def)

lemma values_away: "p \<notin> set ns \<Longrightarrow> map (\<lambda>q. Option.bind ((h(p := y)) q) mVal) ns = map (\<lambda>q. Option.bind (h q) mVal) ns"
  by (auto simp: map_eq_conv)

lemma list_at_next:
  assumes "list_at h m (us @ ns) vs"
  shows "getNext (last (m # us)) h = Ok (hd (ns @ [m]))" "getPrev (hd (ns @ [m])) h = Ok (last (m # us))"
proof -
  have l: "linked h m (us @ ns)" using assms by (simp add: list_at_def)
  show "getNext (last (m # us)) h = Ok (hd (ns @ [m]))" "getPrev (hd (ns @ [m])) h = Ok (last (m # us))"
    using linked_at [OF l] linked_neighbours [OF l]
    by (simp_all add: getNext_def getPrev_def ring_simps del: last.simps)
qed

lemma list_at_middle:
  assumes "list_at h m (us @ n # ns) (vs @ v # ws)" "length us = length vs"
  shows "getRef n h = Ok v" "getNext n h = Ok (hd (ns @ [m]))" "n \<noteq> m" "\<exists>x. h n = Some x \<and> mVal x = Some v"
proof -
  have "Option.bind (h n) mVal = Some v" using list_at_split(2) [OF assms] by simp
  then show "\<exists>x. h n = Some x \<and> mVal x = Some v" by (cases "h n") auto
  then show "getRef n h = Ok v" by (auto simp: getRef_def)
  show "getNext n h = Ok (hd (ns @ [m]))" using list_at_next(1) [of h m "us @ [n]" ns] assms(1) by simp
  show "n \<noteq> m" using assms(1) by (auto simp: list_at_def linked_def ring_def)
qed

lemma prep_empty:
  assumes "allocates new" "finite (dom h)"
  shows "\<exists>m h'. prep new h = Ok (m, h') \<and> m = new h \<and> list_at h' m [] [] \<and> becomes {} {m} h h'"
proof -
  let ?m = "new h" and ?x = "\<lparr>lnext = 0, lprev = 0, mVal = None\<rparr>"
  let ?h = "h(?m \<mapsto> ?x)"
  let ?h' = "put_next ?m ?m (put_prev ?m ?m ?h)"
  have "prep new h = Ok (?m, ?h')" by (simp add: prep_def new_Node_def Let_def ring_simps)
  moreover have "list_at ?h' ?m [] []" by (simp add: list_at_def linked_def ring_def ring_simps)
  moreover have "h ?m = None" using assms by (simp add: allocates_def)
  then have "becomes {} {?m} h ?h'" by (simp add: becomes_def put_next_def put_prev_def)
  ultimately show ?thesis by blast
qed

lemma insert_node_lemma:
  assumes "allocates new" "finite (dom h)" "list_at h m (us @ ns) (vs @ ws)" "length us = length vs"
  shows "\<exists>p h'. insert_node new (hd (ns @ [m])) v h = Ok (p, h') \<and> list_at h' m (us @ p # ns) (vs @ v # ws) \<and>
     becomes (set (m # us @ ns)) (set (m # us @ p # ns)) h h' \<and> h p = None"
proof -
  let ?p = "new h" and ?x = "\<lparr>lnext = 0, lprev = 0, mVal = Some v\<rparr>" and ?q = "hd (ns @ [m])"
  let ?h = "h(?p \<mapsto> ?x)" and ?A = "set (m # us @ ns)"
  have p: "h ?p = None" using assms(1,2) by (simp add: allocates_def)
  have A: "?A \<subseteq> dom h" using list_at_dom [OF assms(3)] .
  then have pA: "?p \<notin> ?A" using p by blast
  have "linked ?h m (us @ ns)"
  proof (rule linked_outside)
    show "linked h m (us @ ns)" using assms(3) by (simp add: list_at_def)
  qed (use pA in auto)
  then obtain h' where h': "list_add_tail ?q ?p ?h = Ok h'" "linked h' m (us @ ?p # ns)" "relinks (set (?p # m # us @ ns)) ?h h'"
    using list_add_before [of ?h m us ns ?p] pA by auto
  have "insert_node new ?q v h = res_map (\<lambda>h. (?p, h)) (list_add_tail ?q ?p ?h)"
    by (simp add: insert_node_def new_Node_def Let_def list_add_tail_def getPrev_def res_bind_map res_map_bind)
  moreover have "list_at h' m (us @ ?p # ns) (vs @ v # ws)"
  proof (rule list_at_relinks [OF h'(2,3)])
    have pu: "?p \<notin> set us" "?p \<notin> set ns" using pA by auto
    have "map (\<lambda>p. Option.bind (?h p) mVal) us = map Some vs" "map (\<lambda>p. Option.bind (?h p) mVal) ns = map Some ws"
      unfolding values_away [OF pu(1)] values_away [OF pu(2)] by (rule list_at_split [OF assms(3,4)])+
    then show "map (\<lambda>p. Option.bind (?h p) mVal) (us @ ?p # ns) = map Some (vs @ v # ws)" by simp
  qed
  moreover have "becomes ?A (insert ?p ?A) h ?h" using becomes_new [OF p A] .
  then have "becomes ?A (set (m # us @ ?p # ns)) h h'"
  proof (rule becomes_trans)
    have "insert ?p ?A = set (m # us @ ?p # ns)" by auto
    moreover have "becomes (insert ?p ?A) (insert ?p ?A) ?h h'"
      using A h'(3) by (intro becomes_relinks) auto
    ultimately show "becomes (insert ?p ?A) (set (m # us @ ?p # ns)) ?h h'" by simp
  qed
  ultimately show ?thesis using h'(1) p by (intro exI [of _ ?p] exI [of _ h']) simp
qed

lemma erase_node_lemma:
  assumes "list_at h m (us @ n # ns) (vs @ v # ws)" "length us = length vs"
  shows "\<exists>h'. erase_node n h = Ok (hd (ns @ [m]), h') \<and> list_at h' m (us @ ns) (vs @ ws) \<and>
     becomes (set (m # us @ n # ns)) (set (m # us @ ns)) h h'"
proof -
  let ?p = "last (m # us)" and ?q = "hd (ns @ [m])" and ?A = "set (m # us @ n # ns)"
  have l: "linked h m (us @ n # ns)" and l2: "linked h m ((us @ [n]) @ ns)" and A: "?A \<subseteq> dom h"
    using assms(1) list_at_dom [OF assms(1)] by (auto simp: list_at_def)
  have d: "n \<notin> set (m # us @ ns)" using l by (auto simp: linked_def ring_def)
  have n: "getNext n h = Ok ?q" "getPrev n h = Ok ?p"
    using list_at_next(1) [of h m "us @ [n]" ns] list_at_next(2) [OF assms(1)] assms(1) by simp_all
  have "?q \<in> set (m # us @ ns)" "?p \<in> set (m # us)"
    using linked_neighbours(3) [OF l] by (cases ns; auto)+
  then have pq: "?p \<in> dom h" "?q \<in> dom h" "?p \<in> ?A" "?q \<in> ?A" "?p \<noteq> n" "?q \<noteq> n"
    using A d by (auto simp del: last.simps)
  let ?h = "put_prev ?q ?p (put_next ?p ?q h)"
  have "linked ?h m (us @ ns)" using pq by (intro linked_remove [OF l]) (simp_all add: ring_simps del: last.simps)
  moreover have r: "relinks ?A h ?h" using pq by (intro ring_simps relinks_refl)
  moreover have "map (\<lambda>p. Option.bind (h p) mVal) (us @ ns) = map Some (vs @ ws)"
    using list_at_split [OF assms] by (simp del: map_eq_conv)
  ultimately have "list_at ?h m (us @ ns) (vs @ ws)" using list_at_relinks by blast
  moreover have "n \<in> dom ?h" using A by (simp add: ring_simps)
  then obtain x where x: "?h n = Some x" by blast
  ultimately have "list_at (?h(n := None)) m (us @ ns) (vs @ ws)" using list_at_free d by blast
  moreover have "erase_node n h = Ok (?q, ?h(n := None))"
    using n pq x by (simp add: erase_node_def ring_simps del: last.simps)
  moreover have "?A \<subseteq> dom ?h" using A by (simp add: ring_simps)
  then have "becomes ?A (set (m # us @ ns)) h (?h(n := None))"
    using becomes_trans [OF becomes_relinks [OF r A] becomes_free [of n ?A ?h]] d by (simp add: insert_Diff_if)
  ultimately show ?thesis by blast
qed

subsection \<open>What the loops do\<close>

lemma list_at_first_range:
  assumes "list_at h m (us @ xs @ ns) vs" "xs \<noteq> []"
  shows "hd (xs @ ns @ [m]) \<noteq> hd (ns @ [m])"
proof -
  have "distinct (m # us @ xs @ ns)" using assms(1) by (auto simp: list_at_def linked_def ring_def)
  then show ?thesis using assms(2) by (cases xs; cases ns) auto
qed

text \<open>\<open>erase(first, last)\<close> drops the nodes from \<open>first\<close> up to, not including, \<open>last\<close>.\<close>

lemma erase_range_lemma:
  assumes "list_at h m (us @ xs @ ns) (vs @ ys @ ws)" "length us = length vs" "length xs = length ys" "length xs < fuel"
  shows "\<exists>h'. erase_range fuel (hd (xs @ ns @ [m])) (hd (ns @ [m])) h = Ok h' \<and> list_at h' m (us @ ns) (vs @ ws) \<and>
     becomes (set (m # us @ xs @ ns)) (set (m # us @ ns)) h h'"
  using assms
proof (induction xs arbitrary: ys h fuel)
  case Nil
  moreover obtain k where "fuel = Suc k" using Nil.prems(4) by (cases fuel) auto
  ultimately show ?case using becomes_refl [OF list_at_dom [OF Nil.prems(1)]] by auto
next
  case (Cons x xs)
  obtain k where k: "fuel = Suc k" "length xs < k" using Cons.prems(4) by (cases fuel) auto
  obtain y ys' where ys: "ys = y # ys'" "length xs = length ys'" using Cons.prems(3) by (cases ys) auto
  have l: "list_at h m (us @ x # xs @ ns) (vs @ y # ys' @ ws)" using Cons.prems(1) ys by simp
  obtain h1 where h1: "erase_node x h = Ok (hd (xs @ ns @ [m]), h1)" "list_at h1 m (us @ xs @ ns) (vs @ ys' @ ws)"
    "becomes (set (m # us @ x # xs @ ns)) (set (m # us @ xs @ ns)) h h1"
    using erase_node_lemma [OF l Cons.prems(2)] by auto
  obtain h2 where h2: "erase_range k (hd (xs @ ns @ [m])) (hd (ns @ [m])) h1 = Ok h2" "list_at h2 m (us @ ns) (vs @ ws)"
    "becomes (set (m # us @ xs @ ns)) (set (m # us @ ns)) h1 h2"
    using Cons.IH [OF h1(2) Cons.prems(2) ys(2) k(2)] by blast
  have "getNext x h = Ok (hd (xs @ ns @ [m]))" using list_at_middle(2) [OF l Cons.prems(2)] by simp
  moreover have "x \<noteq> hd (ns @ [m])" using list_at_first_range [OF Cons.prems(1)] by simp
  ultimately show ?case using h1 h2 becomes_trans [OF h1(3) h2(3)] by (intro exI [of _ h2]) (simp add: k(1))
qed

text \<open>\<open>insert(posn, first, last)\<close> copies a range of another list, in its order, in front of \<open>posn\<close>.\<close>

lemma insert_range_lemma:
  assumes "allocates new" "finite (dom h)" "list_at h m (us @ ns) (vs @ ws)" "length us = length vs"
    and "list_at h s (as @ bs) (xs @ ys)" "length as = length xs" "set (s # as @ bs) \<inter> set (m # us @ ns) = {}" "length bs < fuel"
  shows "\<exists>ps h'. insert_range fuel new (hd (ns @ [m])) (hd (bs @ [s])) s h = Ok h' \<and> list_at h' m (us @ ps @ ns) (vs @ ys @ ws) \<and>
     becomes (set (m # us @ ns)) (set (m # us @ ps @ ns)) h h' \<and> list_at h' s (as @ bs) (xs @ ys)"
  using assms(2-)
proof (induction bs arbitrary: as xs ys us vs h fuel)
  case Nil
  moreover obtain k where "fuel = Suc k" using Nil.prems(7) by (cases fuel) auto
  moreover have "ys = []" using list_at_split(2) [OF Nil.prems(4,5)] by simp
  ultimately show ?case using becomes_refl [OF list_at_dom [OF Nil.prems(2)]] by (intro exI [of _ "[]"] exI [of _ h]) simp
next
  case (Cons b bs)
  obtain k where k: "fuel = Suc k" "length bs < k" using Cons.prems(7) by (cases fuel) auto
  obtain y ys' where ys: "ys = y # ys'" using list_at_split(2) [OF Cons.prems(4,5)] by (cases ys) auto
  note b = list_at_middle [OF Cons.prems(4) [unfolded ys] Cons.prems(5)]
  let ?A = "set (m # us @ ns)"
  obtain p h1 where h1: "insert_node new (hd (ns @ [m])) y h = Ok (p, h1)" "list_at h1 m (us @ p # ns) (vs @ y # ws)"
    "becomes ?A (set (m # us @ p # ns)) h h1" "h p = None"
    using insert_node_lemma [OF assms(1) Cons.prems(1-3)] by blast
  note src = list_at_elsewhere [OF Cons.prems(4) h1(3) Cons.prems(6)]
  have s1: "list_at h1 s ((as @ [b]) @ bs) ((xs @ [y]) @ ys')" using src(1) ys by simp
  have d1: "list_at h1 m ((us @ [p]) @ ns) ((vs @ [y]) @ ws)" using h1(2) by simp
  have len: "length (us @ [p]) = length (vs @ [y])" "length (as @ [b]) = length (xs @ [y])" using Cons.prems(3,5) by simp_all
  have "finite (dom h1)" using becomes_finite [OF h1(3) Cons.prems(1)] by simp
  then obtain ps h2 where h2: "insert_range k new (hd (ns @ [m])) (hd (bs @ [s])) s h1 = Ok h2"
    "list_at h2 m ((us @ [p]) @ ps @ ns) ((vs @ [y]) @ ys' @ ws)"
    "becomes (set (m # (us @ [p]) @ ns)) (set (m # (us @ [p]) @ ps @ ns)) h1 h2" "list_at h2 s ((as @ [b]) @ bs) ((xs @ [y]) @ ys')"
    using Cons.IH [OF _ d1 len(1) s1 len(2) _ k(2)] src(2) by (auto simp: Int_commute)
  have "getNext b h1 = Ok (hd (bs @ [s]))" using list_at_next(1) [of h1 s "as @ [b]" bs] s1 by simp
  then have "insert_range fuel new (hd (ns @ [m])) (hd ((b # bs) @ [s])) s h = Ok h2"
    using b h1(1) h2(1) by (simp add: k(1))
  moreover have "becomes ?A (set (m # us @ (p # ps) @ ns)) h h2" using becomes_trans h1(3) h2(3) by simp
  ultimately show ?case using h2(2,4) ys by (intro exI [of _ "p # ps"] exI [of _ h2]) simp
qed

text \<open>\<open>clear\<close> and the destructor.\<close>

lemma clear_from_lemma:
  assumes "linked h m (us @ ns)" "length ns < fuel"
  shows "clear_from fuel m (hd (ns @ [m])) (h |` (- set us)) = Ok (h |` (- set (us @ ns)))"
  using assms
proof (induction ns arbitrary: us fuel)
  case Nil
  then show ?case by (cases fuel) auto
next
  case (Cons n ns)
  obtain k where k: "fuel = Suc k" "length ns < k" using Cons.prems(2) by (cases fuel) auto
  have l: "linked h m ((us @ [n]) @ ns)" using Cons.prems(1) by simp
  have n: "n \<noteq> m" "n \<notin> set us" "n \<in> dom h" "nexts h n = hd (ns @ [m])"
    using Cons.prems(1) linked_at [OF l] linked_neighbours [OF l] by (auto simp: linked_def ring_def)
  then obtain x where x: "h n = Some x" "lnext x = hd (ns @ [m])" by (auto simp: nexts_def)
  then have "(h |` (- set us)) n = Some x" using n(2) by simp
  moreover have "(h |` (- set us))(n := None) = h |` (- set (us @ [n]))"
    by (auto simp: restrict_map_def fun_eq_iff)
  ultimately show ?case using Cons.IH [OF l k(2)] n(1) x(2) by (simp add: k(1) getNext_def)
qed

lemma clear_list_lemma:
  assumes "list_at h m ns vs" "length ns < fuel"
  shows "\<exists>h'. clear_list fuel m h = Ok h' \<and> list_at h' m [] [] \<and> becomes (set (m # ns)) {m} h h'"
proof -
  have l: "linked h m ([] @ ns)" and m: "m \<notin> set ns" and A: "set (m # ns) \<subseteq> dom h"
    using assms(1) list_at_dom [OF assms(1)] by (auto simp: list_at_def linked_def ring_def)
  let ?h = "h |` (- set ns)"
  have "getNext m h = Ok (hd (ns @ [m]))" using list_at_next(1) [of h m "[]" ns] assms(1) by simp
  moreover have "clear_from fuel m (hd (ns @ [m])) h = Ok ?h"
    using clear_from_lemma [OF l assms(2)] by (simp add: restrict_map_def)
  moreover have d: "m \<in> dom ?h" using A m by auto
  ultimately have "clear_list fuel m h = Ok (put_next m m (put_prev m m ?h))"
    by (simp add: clear_list_def ring_simps)
  moreover have "list_at (put_next m m (put_prev m m ?h)) m [] []"
    using d by (simp add: list_at_def linked_def ring_def ring_simps)
  moreover have "becomes (set (m # ns)) {m} h ?h"
    using A m by (auto simp: becomes_def restrict_map_def subset_iff domIff)
  then have "becomes (set (m # ns)) {m} h (put_next m m (put_prev m m ?h))"
    using d by (rule_tac becomes_trans) (auto intro!: becomes_relinks ring_simps relinks_refl)
  ultimately show ?thesis by blast
qed

lemma destroy_list_lemma:
  assumes "list_at h m ns vs" "length ns < fuel"
  shows "\<exists>h'. destroy_list fuel m h = Ok h' \<and> becomes (set (m # ns)) {} h h'"
proof -
  obtain h1 where h1: "clear_list fuel m h = Ok h1" "list_at h1 m [] []" "becomes (set (m # ns)) {m} h h1"
    using clear_list_lemma [OF assms] by blast
  obtain x where x: "h1 m = Some x" using list_at_dom [OF h1(2)] by auto
  then have "becomes {m} {} h1 (h1(m := None))" using becomes_free [of m "{m}" h1] by auto
  then show ?thesis using becomes_trans [OF h1(3)] h1(1) x by (auto simp: destroy_list_def)
qed

lemma distance_lemma:
  assumes "list_at h m (us @ ns) vs" "length ns < fuel"
  shows "distance_from fuel (hd (ns @ [m])) m n h = Ok (n + length ns)"
  using assms
proof (induction ns arbitrary: us n fuel)
  case Nil
  then show ?case by (cases fuel) auto
next
  case (Cons x ns)
  obtain k where k: "fuel = Suc k" "length ns < k" using Cons.prems(2) by (cases fuel) auto
  have l: "list_at h m ((us @ [x]) @ ns) vs" using Cons.prems(1) by simp
  have "x \<noteq> m" using Cons.prems(1) by (auto simp: list_at_def linked_def ring_def)
  then show ?case using Cons.IH [OF l k(2)] list_at_next(1) [OF l] by (simp add: k(1))
qed

lemma setVal_lemma:
  assumes "list_at h m (us @ n # ns) (vs @ v # ws)" "length us = length vs"
  shows "\<exists>h'. setVal n w h = Ok h' \<and> list_at h' m (us @ n # ns) (vs @ w # ws) \<and> becomes (set (m # us @ n # ns)) (set (m # us @ n # ns)) h h'"
proof -
  obtain x where x: "h n = Some x" using list_at_middle(4) [OF assms] by blast
  let ?h = "h(n \<mapsto> x\<lparr>mVal := Some w\<rparr>)"
  have "nexts ?h = nexts h" "prevs ?h = prevs h" "dom ?h = dom h"
    using x by (auto simp: nexts_def prevs_def fun_eq_iff)
  then have l: "linked ?h m (us @ n # ns)" using assms(1) by (simp add: list_at_def linked_def)
  have n: "n \<notin> set us" "n \<notin> set ns" using l by (auto simp: linked_def ring_def)
  have "map (\<lambda>p. Option.bind (?h p) mVal) us = map Some vs" "map (\<lambda>p. Option.bind (?h p) mVal) ns = map Some ws"
    unfolding values_away [OF n(1)] values_away [OF n(2)] using list_at_split [OF assms] by simp_all
  then have "list_at ?h m (us @ n # ns) (vs @ w # ws)" using l by (simp add: list_at_def del: map_eq_conv)
  moreover have "becomes (set (m # us @ n # ns)) (set (m # us @ n # ns)) h ?h"
    using list_at_dom [OF assms(1)] by (auto simp: becomes_def subset_iff domIff)
  ultimately show ?thesis using x by (auto simp: setVal_def)
qed

text \<open>The loop of \<open>operator=\<close> stops at the end of the shorter list.\<close>

lemma assign_loop_lemma:
  assumes "list_at h m (us @ ns) (vs @ ws)" "length us = length vs"
    and "list_at h s (as @ bs) (xs @ ys)" "length as = length xs" "set (s # as @ bs) \<inter> set (m # us @ ns) = {}" "length ns < fuel"
  shows "\<exists>h'. assign_loop fuel (hd (ns @ [m])) m (hd (bs @ [s])) s h =
       Ok (hd (drop (length bs) ns @ [m]), hd (drop (length ns) bs @ [s]), h') \<and>
     list_at h' m (us @ ns) (vs @ take (length ns) ys @ drop (length bs) ws) \<and> list_at h' s (as @ bs) (xs @ ys) \<and>
     becomes (set (m # us @ ns)) (set (m # us @ ns)) h h'"
  using assms
proof (induction ns arbitrary: us vs ws as bs xs ys h fuel)
  case Nil
  moreover obtain k where "fuel = Suc k" using Nil.prems(6) by (cases fuel) auto
  moreover have "ws = []" using list_at_split(2) [OF Nil.prems(1,2)] by simp
  ultimately show ?case using becomes_refl [OF list_at_dom [OF Nil.prems(1)]] by simp
next
  case (Cons n ns)
  obtain k where k: "fuel = Suc k" "length ns < k" using Cons.prems(6) by (cases fuel) auto
  obtain w ws' where ws: "ws = w # ws'" using list_at_split(2) [OF Cons.prems(1,2)] by (cases ws) auto
  note n = list_at_middle [OF Cons.prems(1) [unfolded ws] Cons.prems(2)]
  show ?case
  proof (cases bs)
    case Nil
    then have "ys = []" using list_at_split(2) [OF Cons.prems(3,4)] by simp
    then show ?thesis using Nil Cons.prems becomes_refl [OF list_at_dom [OF Cons.prems(1)]] by (simp add: k(1))
  next
    case (Cons b bs')
    obtain y ys' where ys: "ys = y # ys'" using list_at_split(2) [OF Cons.prems(3,4)] Cons by (cases ys) auto
    note b = list_at_middle [OF Cons.prems(3) [unfolded Cons ys] Cons.prems(4)]
    obtain h1 where h1: "setVal n y h = Ok h1" "list_at h1 m (us @ n # ns) (vs @ y # ws')"
      "becomes (set (m # us @ n # ns)) (set (m # us @ n # ns)) h h1"
      using setVal_lemma [OF Cons.prems(1) [unfolded ws] Cons.prems(2)] by blast
    note s1 = list_at_elsewhere [OF Cons.prems(3) h1(3) Cons.prems(5), unfolded Cons ys]
    have d1: "list_at h1 m ((us @ [n]) @ ns) ((vs @ [y]) @ ws')" using h1(2) by simp
    have s2: "list_at h1 s ((as @ [b]) @ bs') ((xs @ [y]) @ ys')" using s1(1) by simp
    have len: "length (us @ [n]) = length (vs @ [y])" "length (as @ [b]) = length (xs @ [y])" using Cons.prems(2,4) by simp_all
    have "set (s # (as @ [b]) @ bs') \<inter> set (m # (us @ [n]) @ ns) = {}" using s1(2) by simp
    then obtain h2 where h2: "assign_loop k (hd (ns @ [m])) m (hd (bs' @ [s])) s h1 =
         Ok (hd (drop (length bs') ns @ [m]), hd (drop (length ns) bs' @ [s]), h2)"
      "list_at h2 m ((us @ [n]) @ ns) ((vs @ [y]) @ take (length ns) ys' @ drop (length bs') ws')"
      "list_at h2 s ((as @ [b]) @ bs') ((xs @ [y]) @ ys')"
      "becomes (set (m # (us @ [n]) @ ns)) (set (m # (us @ [n]) @ ns)) h1 h2"
      using Cons.IH [OF d1 len(1) s2 len(2) _ k(2)] by blast
    have "getNext b h1 = Ok (hd (bs' @ [s]))" "getNext n h1 = Ok (hd (ns @ [m]))"
      using list_at_next(1) [OF s2] list_at_next(1) [OF d1] by simp_all
    then show ?thesis using h2 n(3) b(1,3) h1(1) becomes_trans [OF h1(3)] Cons ys ws
      by (intro exI [of _ h2]) (simp add: k(1))
  qed
qed

text \<open>C36: 
  Assignment: the list holds the values of the right one, which keeps its own; nodes are reused where
  both have them, the surplus is freed or the rest allocated, and nothing else in memory changes.
\<close>

theorem assign_list_correct:
  assumes "allocates new" "finite (dom h)" "list_at h m ns vs" "list_at h s ss ws"
    and "set (s # ss) \<inter> set (m # ns) = {}" "length ns < fuel" "length ss < fuel"
  shows "\<exists>ns' h'. assign_list fuel new m s h = Ok h' \<and> list_at h' m ns' ws \<and> list_at h' s ss ws \<and>
     becomes (set (m # ns)) (set (m # ns')) h h' \<and>
     take (length ss) ns = take (length ns) ns'"
proof -
  have l: "length ns = length vs" "length ss = length ws" using list_at_length assms(3,4) by blast+
  obtain h1 where h1: "assign_loop fuel (hd (ns @ [m])) m (hd (ss @ [s])) s h =
       Ok (hd (drop (length ss) ns @ [m]), hd (drop (length ns) ss @ [s]), h1)"
    "list_at h1 m ns (take (length ns) ws @ drop (length ss) vs)" "list_at h1 s ss ws"
    "becomes (set (m # ns)) (set (m # ns)) h h1"
    using assign_loop_lemma [of h m "[]" ns "[]" vs s "[]" ss "[]" ws fuel] assms by auto
  have d: "m \<noteq> s" and g: "getNext m h = Ok (hd (ns @ [m]))" "getNext s h = Ok (hd (ss @ [s]))"
    using list_at_next(1) [of h m "[]" ns vs] list_at_next(1) [of h s "[]" ss ws] assms(3-5) by auto
  note s1 = list_at_elsewhere(2) [OF assms(4) h1(4) assms(5)]
  show ?thesis
  proof (cases "length ss \<le> length ns")
    case True
    let ?ns = "take (length ss) ns"
    have "list_at h1 m (?ns @ drop (length ss) ns @ []) (ws @ drop (length ss) vs @ [])"
      using h1(2) True l by simp
    moreover have "length (drop (length ss) ns) < fuel" using assms(6) by simp
    ultimately obtain h2 where h2: "erase_range fuel (hd (drop (length ss) ns @ [m])) m h1 = Ok h2" "list_at h2 m ?ns ws"
      "becomes (set (m # ns)) (set (m # ?ns)) h1 h2"
      using erase_range_lemma [of h1 m ?ns "drop (length ss) ns" "[]" ws "drop (length ss) vs" "[]" fuel] True l assms(6) by auto
    then have "list_at h2 s ss ws" using list_at_elsewhere(1) [OF h1(3)] s1 by blast
    then show ?thesis using h1(1) h2 g d True becomes_trans [OF h1(4) h2(3)]
      by (intro exI [of _ ?ns] exI [of _ h2]) (auto simp: assign_list_def)
  next
    case False
    let ?n = "length ns"
    have hs: "hd (drop ?n ss @ [s]) \<noteq> s"
      using False list_at_first_range [of h1 s "take ?n ss" "drop ?n ss" "[]" ws] h1(3) by auto
    have m1: "list_at h1 m (ns @ []) (take ?n ws @ [])" and sp: "list_at h1 s (take ?n ss @ drop ?n ss) (take ?n ws @ drop ?n ws)"
      using h1(2,3) False l by simp_all
    have "finite (dom h1)" using becomes_finite [OF h1(4) assms(2)] by simp
    moreover have "length (drop ?n ss) < fuel" using assms(7) by simp
    ultimately obtain ps h2 where h2: "insert_range fuel new m (hd (drop ?n ss @ [s])) s h1 = Ok h2"
      "list_at h2 m (ns @ ps) (take ?n ws @ drop ?n ws)" "becomes (set (m # ns)) (set (m # ns @ ps)) h1 h2" "list_at h2 s ss ws"
      using insert_range_lemma [OF assms(1) _ m1 _ sp, of fuel] False l s1 assms(7) by auto
    then show ?thesis using h1(1) g d hs False becomes_trans [OF h1(4) h2(3)]
      by (intro exI [of _ "ns @ ps"] exI [of _ h2]) (auto simp: assign_list_def)
  qed
qed

theorem copy_list_correct:
  assumes "allocates new" "finite (dom h)" "list_at h s ss ws" "length ss < fuel"
  shows "\<exists>m ns h'. copy_list fuel new s h = Ok (m, h') \<and> list_at h' m ns ws \<and> list_at h' s ss ws \<and>
     becomes {} (set (m # ns)) h h'"
proof -
  obtain m h1 where h1: "prep new h = Ok (m, h1)" "list_at h1 m [] []" "becomes {} {m} h h1"
    using prep_empty [OF assms(1,2)] by blast
  note s1 = list_at_elsewhere [OF assms(3) h1(3)]
  have "finite (dom h1)" using becomes_finite [OF h1(3) assms(2)] by simp
  then obtain ps h2 where h2: "insert_range fuel new m (hd (ss @ [s])) s h1 = Ok h2" "list_at h2 m ps ws"
    "becomes {m} (set (m # ps)) h1 h2" "list_at h2 s ss ws"
    using insert_range_lemma [of new h1 m "[]" "[]" "[]" "[]" s "[]" ss "[]" ws fuel] assms(1,4) h1(2) s1 by auto
  moreover have "getNext m h1 = Ok m" "getNext s h1 = Ok (hd (ss @ [s]))"
    using list_at_next(1) [of h1 m "[]" "[]"] list_at_next(1) [of h1 s "[]" ss] h1(2) s1(1) by auto
  ultimately show ?thesis using h1(1) becomes_trans [OF h1(3) h2(3)]
    by (intro exI [of _ m] exI [of _ ps] exI [of _ h2]) (simp add: copy_list_def)
qed

lemma assign_self: "assign_list fuel new m m h = Ok h"
  by (simp add: assign_list_def)

lemma list_size_lemma:
  assumes "list_at h m ns vs" "length ns < fuel"
  shows "list_size fuel m h = Ok (length vs)" "list_is_empty m h = Ok (vs = [])"
proof -
  have l: "list_at h m ([] @ ns) vs" and g: "getNext m h = Ok (hd (ns @ [m]))" and len: "length ns = length vs" and d: "m \<notin> set ns"
    using assms(1) list_at_next(1) [of h m "[]" ns vs] list_at_length [OF assms(1)] by (auto simp: list_at_def linked_def ring_def)
  show "list_size fuel m h = Ok (length vs)" using distance_lemma [OF l assms(2), of 0] g len by (simp add: list_size_def)
  show "list_is_empty m h = Ok (vs = [])" using g len d by (cases ns; cases vs) (auto simp: list_is_empty_def)
qed

lemma push_back_lemma:
  assumes "allocates new" "finite (dom h)" "list_at h m ns vs"
  shows "\<exists>p h'. push_back new m v h = Ok (p, h') \<and> list_at h' m (ns @ [p]) (vs @ [v]) \<and> becomes (set (m # ns)) (set (m # ns @ [p])) h h'"
  using insert_node_lemma [OF assms(1,2), of m ns "[]" vs "[]" v] assms(3) list_at_length [OF assms(3)]
  by (auto simp: push_back_def)

lemma push_front_lemma:
  assumes "allocates new" "finite (dom h)" "list_at h m ns vs"
  shows "\<exists>p h'. push_front new m v h = Ok (p, h') \<and> list_at h' m (p # ns) (v # vs) \<and> becomes (set (m # ns)) (set (m # p # ns)) h h'"
  using insert_node_lemma [OF assms(1,2), of m "[]" ns "[]" vs v] assms(3) list_at_next(1) [of h m "[]" ns vs]
  by (auto simp: push_front_def)

lemma becomes_nothing: "becomes {} {} h h' \<Longrightarrow> h' = h"
  by (auto simp: becomes_def)

text \<open>A copy that is destroyed leaves no trace.\<close>

theorem copy_destroy:
  assumes "allocates new" "finite (dom h)" "list_at h s ss ws" "length ss < fuel"
  shows "\<exists>m h'. copy_list fuel new s h = Ok (m, h') \<and> destroy_list fuel m h' = Ok h"
proof -
  obtain m ns h1 where h1: "copy_list fuel new s h = Ok (m, h1)" "list_at h1 m ns ws" "becomes {} (set (m # ns)) h h1"
    using copy_list_correct [OF assms] by blast
  have "length ns < fuel" using list_at_length [OF assms(3)] list_at_length [OF h1(2)] assms(4) by simp
  then obtain h2 where "destroy_list fuel m h1 = Ok h2" "becomes (set (m # ns)) {} h1 h2"
    using destroy_list_lemma [OF h1(2)] by blast
  then show ?thesis using becomes_nothing [OF becomes_trans [OF h1(3)]] h1(1) by blast
qed

lemma assign_list_correct_witness:
  "\<exists>h1 h2 a b h3 h4. prep next_free Map.empty = Ok (1, h1) \<and> push_back next_free 1 True h1 = Ok (a, h2) \<and>
     copy_list 2 next_free 1 h2 = Ok (b, h3) \<and> assign_list 2 next_free 1 b h3 = Ok h4"
proof -
  note new = next_free_allocates
  obtain h1 :: "bool list_mem" where h1: "prep next_free Map.empty = Ok (1, h1)" "list_at h1 1 [] []" "becomes {} {1} Map.empty h1"
    using prep_empty [OF new, of Map.empty] by (auto simp: next_free_def)
  have f1: "finite (dom h1)" using becomes_finite [OF h1(3)] by simp
  obtain a h2 where h2: "push_back next_free 1 True h1 = Ok (a, h2)" "list_at h2 1 [a] [True]" "becomes {1} {1, a} h1 h2"
    using push_back_lemma [OF new f1 h1(2), of True] by auto
  have f2: "finite (dom h2)" using becomes_finite [OF h2(3) f1] by simp
  obtain b ns h3 where h3: "copy_list 2 next_free 1 h2 = Ok (b, h3)" "list_at h3 b ns [True]" "list_at h3 1 [a] [True]"
    "becomes {} (set (b # ns)) h2 h3"
    using copy_list_correct [OF new f2 h2(2), of 2] by auto
  have "finite (dom h3)" using becomes_finite [OF h3(4) f2] by simp
  moreover have "set (b # ns) \<inter> set [1, a] = {}" using list_at_elsewhere(2) [OF h2(2) h3(4)] by auto
  moreover have "length ns = 1" using list_at_length [OF h3(2)] by simp
  ultimately show ?thesis
    using assign_list_correct [OF new _ h3(3,2), of 2] h1(1) h2(1) h3(1) by auto
qed

end
