(* ===== verification/Lru_Cache.thy ===== *)
theory Lru_Cache
  imports Pointer_Lists
begin

section \<open>\<open>utils/LruCache.h\<close>: the least recently used cache\<close>

text \<open>
  The cache owns its entries. They are found through the hash set \<open>mSet\<close>, here the list of the pointers
  it holds, and linked from \<open>mOldest\<close> to \<open>mYoungest\<close> by \<open>parent\<close> and \<open>child\<close>; null is address 0. The
  listener, if there is one, is seen through the calls it gets (\<open>told\<close>).

  The specification is an association list, oldest first. Every operation refines its counterpart on
  that list; memory holds exactly the entries of the list at every moment.
\<close>

record ('k, 'v) entry =
  key :: 'k
  val :: 'v
  parent :: nat
  child :: nat

record ('k, 'v) lru =
  entries :: "nat \<rightharpoonup> ('k, 'v) entry"
  mSet :: "nat list"
  has_listener :: bool
  told :: "('k \<times> 'v) list"
  mOldest :: nat
  mYoungest :: nat
  mMaxCapacity :: nat
  mNullValue :: 'v

subsection \<open>Operations\<close>

definition new_lru :: "nat \<Rightarrow> 'v \<Rightarrow> ('k, 'v) lru" where
  "new_lru maxCapacity null =
     \<lparr>entries = Map.empty, mSet = [], has_listener = False, told = [], mOldest = 0, mYoungest = 0,
      mMaxCapacity = maxCapacity, mNullValue = null\<rparr>"

definition setOnEntryRemovedListener :: "bool \<Rightarrow> ('k, 'v) lru \<Rightarrow> ('k, 'v) lru" where
  "setOnEntryRemovedListener b c = c\<lparr>has_listener := b\<rparr>"

definition lru_size :: "('k, 'v) lru \<Rightarrow> nat" where
  "lru_size c = length (mSet c)"

definition findByKey :: "'k \<Rightarrow> ('k, 'v) lru \<Rightarrow> nat option" where
  "findByKey k c = find (\<lambda>p. map_option key (entries c p) = Some k) (mSet c)"

text \<open>An assignment to \<open>p->child\<close>, or to \<open>mOldest\<close> where there is no \<open>p\<close>, and the same for \<open>parent\<close>.\<close>

definition link_child :: "nat \<Rightarrow> nat \<Rightarrow> ('k, 'v) lru \<Rightarrow> ('k, 'v) lru res" where
  "link_child p q c = (if p \<noteq> 0 then res_map (\<lambda>m. c\<lparr>entries := m\<rparr>) (modify p (\<lambda>e. e\<lparr>child := q\<rparr>) (entries c))
     else Ok (c\<lparr>mOldest := q\<rparr>))"

definition link_parent :: "nat \<Rightarrow> nat \<Rightarrow> ('k, 'v) lru \<Rightarrow> ('k, 'v) lru res" where
  "link_parent p q c = (if p \<noteq> 0 then res_map (\<lambda>m. c\<lparr>entries := m\<rparr>) (modify p (\<lambda>e. e\<lparr>parent := q\<rparr>) (entries c))
     else Ok (c\<lparr>mYoungest := q\<rparr>))"

definition attachToCache :: "nat \<Rightarrow> ('k, 'v) lru \<Rightarrow> ('k, 'v) lru res" where
  "attachToCache p c =
     (if mYoungest c = 0 then Ok (c\<lparr>mOldest := p, mYoungest := p\<rparr>)
      else res_bind (modify p (\<lambda>e. e\<lparr>parent := mYoungest c\<rparr>) (entries c)) (\<lambda>m.
           res_bind (modify (mYoungest c) (\<lambda>e. e\<lparr>child := p\<rparr>) m) (\<lambda>m.
           Ok (c\<lparr>entries := m, mYoungest := p\<rparr>))))"

definition detachFromCache :: "nat \<Rightarrow> ('k, 'v) lru \<Rightarrow> ('k, 'v) lru res" where
  "detachFromCache p c =
     res_bind (fetch (entries c) p) (\<lambda>e. res_bind (link_child (parent e) (child e) c) (\<lambda>c.
     res_bind (fetch (entries c) p) (\<lambda>e. res_bind (link_parent (child e) (parent e) c) (\<lambda>c.
     res_map (\<lambda>m. c\<lparr>entries := m\<rparr>) (modify p (\<lambda>e. e\<lparr>parent := 0, child := 0\<rparr>) (entries c))))))"

definition lru_get :: "'k \<Rightarrow> ('k, 'v) lru \<Rightarrow> ('v \<times> ('k, 'v) lru) res" where
  "lru_get k c = (case findByKey k c of
       None \<Rightarrow> Ok (mNullValue c, c)
     | Some p \<Rightarrow> res_bind (detachFromCache p c) (\<lambda>c. res_bind (attachToCache p c) (\<lambda>c.
         res_map (\<lambda>e. (val e, c)) (fetch (entries c) p))))"

text \<open>\<open>mSet->erase(entry)\<close> erases by key; then the listener is told, the entry unlinked and deleted.\<close>

definition lru_remove :: "'k \<Rightarrow> ('k, 'v) lru \<Rightarrow> (bool \<times> ('k, 'v) lru) res" where
  "lru_remove k c = (case findByKey k c of
       None \<Rightarrow> Ok (False, c)
     | Some p \<Rightarrow> res_bind (fetch (entries c) p) (\<lambda>e.
         let c = c\<lparr>mSet := filter (\<lambda>q. map_option key (entries c q) \<noteq> Some (key e)) (mSet c)\<rparr>;
             c = (if has_listener c then c\<lparr>told := told c @ [(key e, val e)]\<rparr> else c)
         in res_bind (detachFromCache p c) (\<lambda>c. res_map (\<lambda>m. (True, c\<lparr>entries := m\<rparr>)) (dealloc p (entries c)))))"

definition removeOldest :: "('k, 'v) lru \<Rightarrow> (bool \<times> ('k, 'v) lru) res" where
  "removeOldest c = (if mOldest c \<noteq> 0 then res_bind (fetch (entries c) (mOldest c)) (\<lambda>e. lru_remove (key e) c) else Ok (False, c))"

definition peekOldestValue :: "('k, 'v) lru \<Rightarrow> 'v res" where
  "peekOldestValue c = (if mOldest c \<noteq> 0 then res_map val (fetch (entries c) (mOldest c)) else Ok (mNullValue c))"

definition lru_put :: "((nat \<rightharpoonup> ('k, 'v) entry) \<Rightarrow> nat) \<Rightarrow> 'k \<Rightarrow> 'v \<Rightarrow> ('k, 'v) lru \<Rightarrow> (bool \<times> ('k, 'v) lru) res" where
  "lru_put new k v c =
     res_bind (if mMaxCapacity c \<noteq> 0 \<and> lru_size c \<ge> mMaxCapacity c then res_map snd (removeOldest c) else Ok c) (\<lambda>c.
     if findByKey k c \<noteq> None then Ok (False, c)
     else let p = new (entries c);
              c = c\<lparr>entries := (entries c)(p \<mapsto> \<lparr>key = k, val = v, parent = 0, child = 0\<rparr>), mSet := mSet c @ [p]\<rparr>
          in res_map (\<lambda>c. (True, c)) (attachToCache p c))"

fun tell_all :: "nat \<Rightarrow> nat \<Rightarrow> ('k, 'v) lru \<Rightarrow> ('k, 'v) lru res" where
  "tell_all 0 p c = NoFuel"
| "tell_all (Suc fuel) p c =
     (if p = 0 then Ok c
      else res_bind (fetch (entries c) p) (\<lambda>e. tell_all fuel (child e) (c\<lparr>told := told c @ [(key e, val e)]\<rparr>)))"

fun delete_all :: "nat list \<Rightarrow> (nat \<rightharpoonup> 'n) \<Rightarrow> (nat \<rightharpoonup> 'n) res" where
  "delete_all [] m = Ok m"
| "delete_all (p # ps) m = res_bind (dealloc p m) (delete_all ps)"

definition lru_clear :: "nat \<Rightarrow> ('k, 'v) lru \<Rightarrow> ('k, 'v) lru res" where
  "lru_clear fuel c =
     res_bind (if has_listener c then tell_all fuel (mOldest c) c else Ok c) (\<lambda>c.
     res_map (\<lambda>m. c\<lparr>mYoungest := 0, mOldest := 0, entries := m, mSet := []\<rparr>) (delete_all (mSet c) (entries c)))"

text \<open>\<open>Iterator\<close>: the position in \<open>mSet\<close> and whether it was returned yet.\<close>

type_synonym lru_iterator = "nat \<times> bool"

definition lru_iterator :: lru_iterator where
  "lru_iterator = (0, False)"

definition iterator_next :: "('k, 'v) lru \<Rightarrow> lru_iterator \<Rightarrow> bool \<times> lru_iterator" where
  "iterator_next c it = (case it of (i, returned) \<Rightarrow>
     if i = lru_size c then (False, it)
     else let i = (if returned then i + 1 else i) in (i \<noteq> lru_size c, (i, True)))"

definition iterator_item :: "('k, 'v) lru \<Rightarrow> lru_iterator \<Rightarrow> ('k \<times> 'v) res" where
  "iterator_item c it = (if fst it < lru_size c then res_map (\<lambda>e. (key e, val e)) (fetch (entries c) (mSet c ! fst it)) else Undef)"

text \<open>The loop the comment of the class shows: \<open>while (it.next()) { ... }\<close>, here collecting the items.\<close>

fun iterate :: "nat \<Rightarrow> ('k, 'v) lru \<Rightarrow> lru_iterator \<Rightarrow> ('k \<times> 'v) list res" where
  "iterate 0 c it = NoFuel"
| "iterate (Suc fuel) c it = (case iterator_next c it of (found, it) \<Rightarrow>
     if found then res_bind (iterator_item c it) (\<lambda>x. res_map (\<lambda>xs. x # xs) (iterate fuel c it)) else Ok [])"

subsection \<open>The specification\<close>

text \<open>The items, oldest first, and what the listener was told.\<close>

record ('k, 'v) lru_spec =
  items :: "('k \<times> 'v) list"
  notified :: "('k \<times> 'v) list"

definition without :: "'k \<Rightarrow> ('k \<times> 'v) list \<Rightarrow> ('k \<times> 'v) list" where
  "without k xs = filter (\<lambda>x. fst x \<noteq> k) xs"

definition spec_get :: "'v \<Rightarrow> 'k \<Rightarrow> ('k, 'v) lru_spec \<Rightarrow> 'v \<times> ('k, 'v) lru_spec" where
  "spec_get null k s = (case map_of (items s) k of None \<Rightarrow> (null, s)
     | Some v \<Rightarrow> (v, s\<lparr>items := without k (items s) @ [(k, v)]\<rparr>))"

definition spec_remove :: "bool \<Rightarrow> 'k \<Rightarrow> ('k, 'v) lru_spec \<Rightarrow> bool \<times> ('k, 'v) lru_spec" where
  "spec_remove listen k s = (case map_of (items s) k of None \<Rightarrow> (False, s)
     | Some v \<Rightarrow> (True, s\<lparr>items := without k (items s), notified := notified s @ (if listen then [(k, v)] else [])\<rparr>))"

definition spec_remove_oldest :: "bool \<Rightarrow> ('k, 'v) lru_spec \<Rightarrow> bool \<times> ('k, 'v) lru_spec" where
  "spec_remove_oldest listen s = (case items s of [] \<Rightarrow> (False, s)
     | x # xs \<Rightarrow> (True, s\<lparr>items := xs, notified := notified s @ (if listen then [x] else [])\<rparr>))"

text \<open>A full cache makes room first, then a key that is present is refused.\<close>

definition spec_put :: "bool \<Rightarrow> nat \<Rightarrow> 'k \<Rightarrow> 'v \<Rightarrow> ('k, 'v) lru_spec \<Rightarrow> bool \<times> ('k, 'v) lru_spec" where
  "spec_put listen cap k v s =
     (let s = (if cap \<noteq> 0 \<and> length (items s) \<ge> cap then snd (spec_remove_oldest listen s) else s)
      in if k \<in> fst ` set (items s) then (False, s) else (True, s\<lparr>items := items s @ [(k, v)]\<rparr>))"

definition spec_clear :: "bool \<Rightarrow> ('k, 'v) lru_spec \<Rightarrow> ('k, 'v) lru_spec" where
  "spec_clear listen s = s\<lparr>items := [], notified := notified s @ (if listen then items s else [])\<rparr>"

subsection \<open>The cache in memory\<close>

definition children :: "('k, 'v) lru \<Rightarrow> nat \<Rightarrow> nat" where
  "children c p = (if p = 0 then mOldest c else case entries c p of None \<Rightarrow> 0 | Some e \<Rightarrow> child e)"

definition parents :: "('k, 'v) lru \<Rightarrow> nat \<Rightarrow> nat" where
  "parents c p = (if p = 0 then mYoungest c else case entries c p of None \<Rightarrow> 0 | Some e \<Rightarrow> parent e)"

definition item_of :: "('k, 'v) lru \<Rightarrow> nat \<Rightarrow> ('k \<times> 'v) option" where
  "item_of c p = map_option (\<lambda>e. (key e, val e)) (entries c p)"

definition lru_ring :: "('k, 'v) lru \<Rightarrow> nat list \<Rightarrow> bool" where
  "lru_ring c ns = ring (children c) (parents c) 0 ns"

text \<open>The list of entries \<open>ns\<close> holds the items \<open>xs\<close>; these entries are all of memory, and all of \<open>mSet\<close>.\<close>

definition lru_holds :: "('k, 'v) lru \<Rightarrow> nat list \<Rightarrow> ('k \<times> 'v) list \<Rightarrow> bool" where
  "lru_holds c ns xs = (lru_ring c ns \<and> dom (entries c) = set ns \<and> map (item_of c) ns = map Some xs \<and>
     distinct (map fst xs) \<and> distinct (mSet c) \<and> set (mSet c) = set ns)"

text \<open>What linking does not change.\<close>

definition same_items :: "('k, 'v) lru \<Rightarrow> ('k, 'v) lru \<Rightarrow> bool" where
  "same_items c c' = (item_of c' = item_of c \<and> mSet c' = mSet c \<and> has_listener c' = has_listener c \<and> told c' = told c \<and>
     mMaxCapacity c' = mMaxCapacity c \<and> mNullValue c' = mNullValue c)"

lemma same_items_refl [simp]: "same_items c c"
  by (simp add: same_items_def)

lemma same_items_trans: "same_items c c' \<Longrightarrow> same_items c' c'' \<Longrightarrow> same_items c c''"
  by (simp add: same_items_def)

lemma item_of_dom: "dom (entries c) = dom (item_of c)"
  by (auto simp: item_of_def)

lemma same_items_dom: "same_items c c' \<Longrightarrow> dom (entries c') = dom (entries c)"
  by (simp add: item_of_dom same_items_def)

lemma link_child_ok:
  assumes "p = 0 \<or> p \<in> dom (entries c)"
  shows "\<exists>c'. link_child p q c = Ok c' \<and> same_items c c' \<and> children c' = (children c)(p := q) \<and> parents c' = parents c"
proof (cases "p = 0")
  case False
  then obtain e where e: "entries c p = Some e" using assms by auto
  have "item_of (c\<lparr>entries := (entries c)(p \<mapsto> e\<lparr>child := q\<rparr>)\<rparr>) = item_of c"
    using e by (auto simp: item_of_def)
  moreover have "children (c\<lparr>entries := (entries c)(p \<mapsto> e\<lparr>child := q\<rparr>)\<rparr>) = (children c)(p := q)"
    "parents (c\<lparr>entries := (entries c)(p \<mapsto> e\<lparr>child := q\<rparr>)\<rparr>) = parents c"
    using e False by (auto simp: children_def parents_def fun_eq_iff)
  ultimately show ?thesis using e False by (simp add: link_child_def same_items_def)
qed (auto simp: link_child_def same_items_def item_of_def children_def parents_def fun_eq_iff)

lemma link_parent_ok:
  assumes "p = 0 \<or> p \<in> dom (entries c)"
  shows "\<exists>c'. link_parent p q c = Ok c' \<and> same_items c c' \<and> parents c' = (parents c)(p := q) \<and> children c' = children c"
proof (cases "p = 0")
  case False
  then obtain e where e: "entries c p = Some e" using assms by auto
  have "item_of (c\<lparr>entries := (entries c)(p \<mapsto> e\<lparr>parent := q\<rparr>)\<rparr>) = item_of c"
    using e by (auto simp: item_of_def)
  moreover have "parents (c\<lparr>entries := (entries c)(p \<mapsto> e\<lparr>parent := q\<rparr>)\<rparr>) = (parents c)(p := q)"
    "children (c\<lparr>entries := (entries c)(p \<mapsto> e\<lparr>parent := q\<rparr>)\<rparr>) = children c"
    using e False by (auto simp: children_def parents_def fun_eq_iff)
  ultimately show ?thesis using e False by (simp add: link_parent_def same_items_def)
qed (auto simp: link_parent_def same_items_def item_of_def children_def parents_def fun_eq_iff)

lemma fetch_links:
  assumes "p \<in> dom (entries c)" "p \<noteq> 0"
  shows "fetch (entries c) p = Ok (the (entries c p))" "child (the (entries c p)) = children c p" "parent (the (entries c p)) = parents c p"
  using assms by (auto simp: children_def parents_def)

lemma ring_in_dom:
  assumes "lru_ring c (us @ vs)" "set (us @ vs) \<subseteq> dom (entries c)"
  shows "last (0 # us) = 0 \<or> last (0 # us) \<in> dom (entries c)" "hd (vs @ [0]) = 0 \<or> hd (vs @ [0]) \<in> dom (entries c)"
proof -
  have "last (0 # us) \<in> set (0 # us)" by (rule last_in_set) simp
  then show "last (0 # us) = 0 \<or> last (0 # us) \<in> dom (entries c)" using assms(2) by auto
  show "hd (vs @ [0]) = 0 \<or> hd (vs @ [0]) \<in> dom (entries c)" using assms(2) by (cases vs) auto
qed

text \<open>Detaching takes the entry out of the list and clears its links, attaching puts it at the young end.\<close>

lemma detachFromCache_ok:
  assumes "lru_ring c (us @ p # vs)" "set (us @ p # vs) \<subseteq> dom (entries c)"
  shows "\<exists>c'. detachFromCache p c = Ok c' \<and> same_items c c' \<and> lru_ring c' (us @ vs) \<and> children c' p = 0 \<and> parents c' p = 0"
proof -
  let ?l = "last (0 # us)" and ?h = "hd (vs @ [0])"
  have r: "ring (children c) (parents c) 0 (us @ p # vs)" "ring (children c) (parents c) 0 ((us @ [p]) @ vs)"
    using assms(1) by (simp_all add: lru_ring_def)
  have p: "p \<noteq> 0" "p \<in> dom (entries c)" "p \<notin> set (us @ vs)" using r(1) assms(2) by (auto simp: ring_def)
  have cp: "children c p = ?h" "parents c p = ?l" using ring_at [OF r(1)] ring_at [OF r(2)] by simp_all
  have d: "?l = 0 \<or> ?l \<in> dom (entries c)" "?h = 0 \<or> ?h \<in> dom (entries c)"
    using ring_in_dom(1) [of c us "p # vs"] ring_in_dom(2) [of c "us @ [p]" vs] assms by simp_all
  have "last (0 # us) \<in> set (0 # us)" by (rule last_in_set) simp
  then have lp: "?l \<noteq> p" using p(1,3) by (metis Un_iff set_ConsD set_append)
  have hp: "?h \<noteq> p" using p(1,3) by (cases vs) auto
  obtain c1 where c1: "link_child ?l ?h c = Ok c1" "same_items c c1" "children c1 = (children c)(?l := ?h)" "parents c1 = parents c"
    using link_child_ok d(1) by blast
  note dom1 = same_items_dom [OF c1(2)]
  obtain c2 where c2: "link_parent ?h ?l c1 = Ok c2" "same_items c1 c2" "parents c2 = (parents c1)(?h := ?l)" "children c2 = children c1"
    using link_parent_ok [of ?h c1 ?l] d(2) dom1 by auto
  have dom2: "p \<in> dom (entries c2)" using same_items_dom [OF c2(2)] dom1 p(2) by simp
  then obtain e where e: "entries c2 p = Some e" by auto
  let ?c = "c2\<lparr>entries := (entries c2)(p \<mapsto> e\<lparr>parent := 0, child := 0\<rparr>)\<rparr>"
  have n: "children ?c = (children c2)(p := 0)" "parents ?c = (parents c2)(p := 0)" "same_items c2 ?c"
    using e p(1) by (auto simp: children_def parents_def same_items_def item_of_def fun_eq_iff)
  have "fetch (entries c) p = Ok (the (entries c p))" "fetch (entries c1) p = Ok (the (entries c1 p))"
    "child (the (entries c p)) = ?h" "parent (the (entries c p)) = ?l" "child (the (entries c1 p)) = ?h" "parent (the (entries c1 p)) = ?l"
    using fetch_links [of p c] fetch_links [of p c1] p dom1 cp c1(3,4) lp by simp_all
  then have "detachFromCache p c = Ok ?c"
    using c1(1) c2(1) e by (simp add: detachFromCache_def)
  moreover have "lru_ring ?c (us @ vs)"
    unfolding lru_ring_def
  proof (rule ring_remove [OF r(1)])
    show "children ?c ?l = ?h" "parents ?c ?h = ?l" using n c1(3,4) c2(3,4) lp hp by simp_all
  qed (use n c1(3,4) c2(3,4) in auto)
  moreover have "same_items c ?c" using same_items_trans c1(2) c2(2) n(3) by blast
  ultimately show ?thesis using n by simp
qed

lemma attachToCache_ok:
  assumes "lru_ring c ns" "set ns \<subseteq> dom (entries c)" "p \<in> dom (entries c)" "p \<noteq> 0" "p \<notin> set ns" "children c p = 0" "parents c p = 0"
  shows "\<exists>c'. attachToCache p c = Ok c' \<and> same_items c c' \<and> lru_ring c' (ns @ [p])"
proof -
  let ?y = "mYoungest c"
  have r: "ring (children c) (parents c) 0 (ns @ [])" using assms(1) by (simp add: lru_ring_def)
  have y: "?y = last (0 # ns)" using ring_at(2) [OF r] by (simp add: parents_def)
  have ydom: "?y = 0 \<or> ?y \<in> dom (entries c)" using ring_in_dom(1) [of c ns "[]"] assms(1,2) y by simp
  have "last (0 # ns) \<in> set (0 # ns)" by (rule last_in_set) simp
  then have yp: "?y \<noteq> p" using y assms(4,5) by auto
  obtain e where e: "entries c p = Some e" using assms(3) by auto
  have "\<exists>c'. attachToCache p c = Ok c' \<and> same_items c c' \<and> children c' = (children c)(?y := p) \<and> parents c' = (parents c)(p := ?y, 0 := p)"
  proof (cases "?y = 0")
    case True
    let ?c = "c\<lparr>mOldest := p, mYoungest := p\<rparr>"
    have "children ?c = (children c)(?y := p)" "parents ?c = (parents c)(p := ?y, 0 := p)" "same_items c ?c"
      using True assms(4,7) by (auto simp: children_def parents_def same_items_def item_of_def fun_eq_iff)
    then show ?thesis using True by (simp add: attachToCache_def)
  next
    case False
    then obtain f where f: "entries c ?y = Some f" using ydom by auto
    let ?c = "c\<lparr>entries := (entries c)(p \<mapsto> e\<lparr>parent := ?y\<rparr>, ?y \<mapsto> f\<lparr>child := p\<rparr>), mYoungest := p\<rparr>"
    have "children ?c = (children c)(?y := p)" "parents ?c = (parents c)(p := ?y, 0 := p)" "same_items c ?c"
      using e f False yp assms(4) by (auto simp: children_def parents_def same_items_def item_of_def fun_eq_iff)
    moreover have "attachToCache p c = Ok ?c" using e f False yp by (simp add: attachToCache_def)
    ultimately show ?thesis by blast
  qed
  then obtain c' where c': "attachToCache p c = Ok c'" "same_items c c'" "children c' = (children c)(?y := p)"
    "parents c' = (parents c)(p := ?y, 0 := p)" by blast
  have "ring (children c') (parents c') 0 (ns @ p # [])"
    using assms(4-6) yp y c'(3,4) by (intro ring_insert [OF r]) auto
  then show ?thesis using c' by (auto simp: lru_ring_def)
qed

subsection \<open>Each operation refines its specification\<close>

lemma lru_holds_nth:
  assumes "lru_holds c ns xs"
  shows "length ns = length xs" "i < length xs \<Longrightarrow> item_of c (ns ! i) = Some (xs ! i)"
proof -
  have m: "map (item_of c) ns = map Some xs" using assms by (simp add: lru_holds_def)
  show l: "length ns = length xs" using arg_cong [OF m, of length] by simp
  show "item_of c (ns ! i) = Some (xs ! i)" if "i < length xs"
    using arg_cong [OF m, of "\<lambda>l. l ! i"] that l by simp
qed

lemma item_of_Some: "item_of c p = Some x \<longleftrightarrow> (\<exists>e. entries c p = Some e \<and> key e = fst x \<and> val e = snd x)"
  by (cases x) (auto simp: item_of_def)

lemma lru_holds_key:
  assumes "lru_holds c ns xs" "q \<in> set (mSet c)" "map_option key (entries c q) = Some k"
  obtains i where "i < length xs" "ns ! i = q" "fst (xs ! i) = k"
proof -
  have "q \<in> set ns" using assms(1,2) by (simp add: lru_holds_def)
  then obtain i where i: "i < length xs" "ns ! i = q" using lru_holds_nth(1) [OF assms(1)] by (auto simp: in_set_conv_nth)
  then have "item_of c q = Some (xs ! i)" using lru_holds_nth(2) [OF assms(1), of i] by simp
  then have "fst (xs ! i) = k" using assms(3) by (auto simp: item_of_Some)
  then show thesis using that i by blast
qed

lemma find_None_key: "find P xs = None \<longleftrightarrow> (\<forall>x \<in> set xs. \<not> P x)"
  by (auto simp: find_None_iff)

lemma findByKey_absent:
  assumes "lru_holds c ns xs"
  shows "findByKey k c = None \<longleftrightarrow> k \<notin> fst ` set xs"
proof
  assume f: "findByKey k c = None"
  show "k \<notin> fst ` set xs"
  proof
    assume "k \<in> fst ` set xs"
    then obtain i where i: "i < length xs" "fst (xs ! i) = k" by (auto simp: in_set_conv_nth)
    then have "item_of c (ns ! i) = Some (xs ! i)" "ns ! i \<in> set (mSet c)"
      using lru_holds_nth [OF assms] assms by (auto simp: lru_holds_def)
    then show False using f i(2) by (auto simp: findByKey_def find_None_key item_of_Some)
  qed
next
  assume k: "k \<notin> fst ` set xs"
  have "map_option key (entries c q) \<noteq> Some k" if "q \<in> set (mSet c)" for q
    using lru_holds_key [OF assms that] k by (metis image_eqI nth_mem)
  then show "findByKey k c = None" by (simp add: findByKey_def find_None_key)
qed

lemma findByKey_present:
  assumes "lru_holds c ns xs" "map_of xs k = Some v"
  obtains p us vs as bs where "findByKey k c = Some p" "ns = us @ p # vs" "xs = as @ (k, v) # bs" "length us = length as"
    "without k xs = as @ bs" "item_of c p = Some (k, v)"
proof -
  have d: "distinct (map fst xs)" using assms(1) by (simp add: lru_holds_def)
  have "k \<in> fst ` set xs" using map_of_SomeD [OF assms(2)] by force
  then obtain p where f: "findByKey k c = Some p" using findByKey_absent [OF assms(1)] by (cases "findByKey k c") auto
  then have "p \<in> set (mSet c)" "map_option key (entries c p) = Some k"
    by (auto simp: findByKey_def find_Some_iff)
  then obtain i where i: "i < length xs" "ns ! i = p" "fst (xs ! i) = k" by (rule lru_holds_key [OF assms(1)])
  then have "xs ! i = (k, v)" using d assms(2) by (metis eq_key_imp_eq_value map_of_SomeD nth_mem prod.collapse)
  then have x: "xs = take i xs @ (k, v) # drop (Suc i) xs" using id_take_nth_drop [OF i(1)] by simp
  have n: "ns = take i ns @ p # drop (Suc i) ns" using id_take_nth_drop [of i ns] i lru_holds_nth(1) [OF assms(1)] by simp
  have "without k xs = take i xs @ drop (Suc i) xs"
  proof -
    have "distinct (map fst (take i xs @ (k, v) # drop (Suc i) xs))" using d x by simp
    then have "without k (take i xs @ (k, v) # drop (Suc i) xs) = take i xs @ drop (Suc i) xs"
      by (auto simp: without_def intro!: arg_cong2 [where f = append] filter_True)
    then show ?thesis using x by simp
  qed
  then show thesis
    using that [OF f n x _ _] lru_holds_nth(1) [OF assms(1)] lru_holds_nth(2) [OF assms(1) i(1)] i \<open>xs ! i = (k, v)\<close> by simp
qed

definition spec_of :: "('k, 'v) lru \<Rightarrow> ('k \<times> 'v) list \<Rightarrow> ('k, 'v) lru_spec" where
  "spec_of c xs = \<lparr>items = xs, notified = told c\<rparr>"

text \<open>\<open>s\<close> is what the cache \<open>c\<close> holds; the settings are these.\<close>

definition implements :: "bool \<Rightarrow> nat \<Rightarrow> 'v \<Rightarrow> ('k, 'v) lru \<Rightarrow> ('k, 'v) lru_spec \<Rightarrow> bool" where
  "implements listen cap null c s = ((\<exists>ns. lru_holds c ns (items s)) \<and> told c = notified s \<and> has_listener c = listen \<and>
     mMaxCapacity c = cap \<and> mNullValue c = null)"

lemma implementsI:
  "lru_holds c ns xs \<Longrightarrow> told c = l \<Longrightarrow> has_listener c = listen \<Longrightarrow> mMaxCapacity c = cap \<Longrightarrow> mNullValue c = null \<Longrightarrow>
   implements listen cap null c (s\<lparr>items := xs, notified := l\<rparr>)"
  by (auto simp: implements_def)

lemma same_items_holds:
  assumes "same_items c c'" "lru_ring c' ns" "set ns = dom (entries c)" "map (item_of c) ns = map Some xs" "distinct (map fst xs)"
    "distinct (mSet c)" "set (mSet c) = set ns"
  shows "lru_holds c' ns xs"
  using assms same_items_dom [OF assms(1)] by (simp add: lru_holds_def same_items_def)

lemma map_split_eq: "map f (us @ p # vs) = map g (as @ x # bs) \<Longrightarrow> length us = length as \<Longrightarrow> map f us = map g as \<and> f p = g x \<and> map f vs = map g bs"
  by simp

lemma lru_get_refines:
  assumes "implements listen cap null c s"
  shows "\<exists>c'. lru_get k c = Ok (fst (spec_get null k s), c') \<and> implements listen cap null c' (snd (spec_get null k s))"
proof -
  obtain ns where h: "lru_holds c ns (items s)" using assms by (auto simp: implements_def)
  show ?thesis
  proof (cases "map_of (items s) k")
    case None
    then have "findByKey k c = None" using findByKey_absent [OF h] by (simp add: map_of_eq_None_iff)
    then show ?thesis using None assms by (auto simp: lru_get_def spec_get_def implements_def)
  next
    case (Some v)
    obtain p us vs as bs where p: "findByKey k c = Some p" "ns = us @ p # vs" "items s = as @ (k, v) # bs" "length us = length as"
      "without k (items s) = as @ bs" "item_of c p = Some (k, v)" using findByKey_present [OF h Some] .
    note hh = h [unfolded lru_holds_def]
    have r: "lru_ring c (us @ p # vs)" "set (us @ p # vs) \<subseteq> dom (entries c)" using hh p(2) by auto
    have dp: "p \<noteq> 0" "p \<notin> set (us @ vs)" using r(1) by (auto simp: lru_ring_def ring_def)
    obtain c1 where c1: "detachFromCache p c = Ok c1" "same_items c c1" "lru_ring c1 (us @ vs)" "children c1 p = 0" "parents c1 p = 0"
      using detachFromCache_ok [OF r] by blast
    have "p \<in> dom (entries c1)" "set (us @ vs) \<subseteq> dom (entries c1)" using same_items_dom [OF c1(2)] r(2) by auto
    then obtain c2 where c2: "attachToCache p c1 = Ok c2" "same_items c1 c2" "lru_ring c2 ((us @ vs) @ [p])"
      using attachToCache_ok [OF c1(3) _ _ dp c1(4,5)] by blast
    have s: "same_items c c2" using same_items_trans c1(2) c2(2) .
    have "lru_holds c2 (us @ vs @ [p]) (as @ bs @ [(k, v)])"
    proof (rule same_items_holds [OF s])
      show "lru_ring c2 (us @ vs @ [p])" using c2(3) by simp
      show "map (item_of c) (us @ vs @ [p]) = map Some (as @ bs @ [(k, v)])"
        using map_split_eq [of "item_of c" us p vs Some as "(k, v)" bs] hh p(2-4) by simp
    qed (use hh p(2,3) in auto)
    moreover have "item_of c2 p = Some (k, v)" using s p(6) by (simp add: same_items_def)
    then obtain e where "entries c2 p = Some e" "val e = v" by (auto simp: item_of_def)
    ultimately show ?thesis using p(1,5) c1(1) c2(1) s assms Some
      by (auto simp: lru_get_def spec_get_def implements_def same_items_def)
  qed
qed

lemma lru_remove_refines:
  assumes "implements listen cap null c s"
  shows "\<exists>c'. lru_remove k c = Ok (fst (spec_remove listen k s), c') \<and> implements listen cap null c' (snd (spec_remove listen k s))"
proof -
  obtain ns where h: "lru_holds c ns (items s)" using assms by (auto simp: implements_def)
  show ?thesis
  proof (cases "map_of (items s) k")
    case None
    then have "findByKey k c = None" using findByKey_absent [OF h] by (simp add: map_of_eq_None_iff)
    then show ?thesis using None assms by (auto simp: lru_remove_def spec_remove_def implements_def)
  next
    case (Some v)
    obtain p us vs as bs where p: "findByKey k c = Some p" "ns = us @ p # vs" "items s = as @ (k, v) # bs" "length us = length as"
      "without k (items s) = as @ bs" "item_of c p = Some (k, v)" using findByKey_present [OF h Some] .
    note hh = h [unfolded lru_holds_def]
    obtain e where e: "entries c p = Some e" "key e = k" "val e = v" using p(6) by (auto simp: item_of_def)
    let ?c0 = "c\<lparr>mSet := filter (\<lambda>q. map_option key (entries c q) \<noteq> Some k) (mSet c)\<rparr>"
    let ?c = "if listen then ?c0\<lparr>told := told ?c0 @ [(k, v)]\<rparr> else ?c0"
    have keep: "children ?c = children c" "parents ?c = parents c" "entries ?c = entries c" "item_of ?c = item_of c"
      by (auto simp: children_def parents_def item_of_def fun_eq_iff)
    have dn: "distinct (us @ p # vs)" and r: "lru_ring ?c (us @ p # vs)" "set (us @ p # vs) \<subseteq> dom (entries ?c)"
      using hh p(2) keep by (auto simp: lru_ring_def ring_def)
    have ms: "set (mSet ?c0) = set (us @ vs)"
    proof -
      have "map_option key (entries c q) = Some k \<longleftrightarrow> q = p" if q: "q \<in> set ns" for q
      proof
        assume "map_option key (entries c q) = Some k"
        then obtain i where i: "i < length (items s)" "ns ! i = q" "fst (items s ! i) = k"
          using lru_holds_key [OF h, of q k] q hh by auto
        moreover have "length as < length (items s)" "ns ! length as = p" "fst (items s ! length as) = k"
          using p(2-4) by (simp_all add: nth_append)
        moreover have "distinct (map fst (items s))" using hh by simp
        ultimately have "i = length as" by (metis length_map nth_eq_iff_index_eq nth_map)
        then show "q = p" using i(2) \<open>ns ! length as = p\<close> by simp
      qed (use e in simp)
      then show ?thesis using hh p(2) dn by auto
    qed
    obtain c1 where c1: "detachFromCache p ?c = Ok c1" "same_items ?c c1" "lru_ring c1 (us @ vs)"
      using detachFromCache_ok [OF r] by blast
    have "item_of c1 = item_of c" using c1(2) keep by (simp add: same_items_def)
    then have "item_of c1 p = Some (k, v)" using p(6) by simp
    then obtain e1 where e1: "entries c1 p = Some e1" by (auto simp: item_of_Some)
    let ?d = "c1\<lparr>entries := (entries c1)(p := None)\<rparr>"
    have "p \<noteq> 0" "p \<notin> set (us @ vs)" using r(1) by (auto simp: lru_ring_def ring_def)
    then have "lru_ring ?d (us @ vs)"
      using c1(3) unfolding lru_ring_def
      by (subst ring_cong [where nx = "children c1" and pv = "parents c1"]) (auto simp: children_def parents_def)
    moreover have "dom (entries ?d) = set (us @ vs)"
      using same_items_dom [OF c1(2)] keep(3) hh p(2) dn by auto
    moreover have "map (item_of ?d) (us @ vs) = map Some (as @ bs)"
    proof -
      have "item_of ?d q = item_of c q" if q: "q \<in> set (us @ vs)" for q
      proof -
        have "item_of ?d q = item_of c1 q" using q \<open>p \<notin> set (us @ vs)\<close> by (simp add: item_of_def split: if_splits) blast
        then show ?thesis by (simp only: \<open>item_of c1 = item_of c\<close>)
      qed
      then have "map (item_of ?d) (us @ vs) = map (item_of c) (us @ vs)" by (rule map_cong [OF refl])
      moreover have "map (item_of c) (us @ p # vs) = map Some (as @ (k, v) # bs)" using hh p(2,3) by (simp only:)
      then have "map (item_of c) us = map Some as \<and> item_of c p = Some (k, v) \<and> map (item_of c) vs = map Some bs"
        using p(4) by (rule map_split_eq)
      ultimately show ?thesis by (simp only: map_append)
    qed
    moreover have "distinct (mSet ?d)" "set (mSet ?d) = set (us @ vs)"
      using c1(2) hh ms by (auto simp: same_items_def)
    moreover have "distinct (map fst (as @ bs))" using hh p(3) by simp
    ultimately have "lru_holds ?d (us @ vs) (as @ bs)" by (simp add: lru_holds_def)
    moreover have "lru_remove k c = Ok (True, ?d)"
      using p(1) e e1 c1(1) assms by (cases listen) (simp_all add: lru_remove_def Let_def implements_def)
    moreover have "told ?d = notified s @ (if listen then [(k, v)] else [])" "has_listener ?d = listen"
      "mMaxCapacity ?d = cap" "mNullValue ?d = null"
      using c1(2) assms by (simp_all add: same_items_def implements_def)
    ultimately have "implements listen cap null ?d
        (s\<lparr>items := as @ bs, notified := notified s @ (if listen then [(k, v)] else [])\<rparr>)"
      by (intro implementsI)
    then have "implements listen cap null ?d (snd (spec_remove listen k s))"
      using p(5) Some by (simp only: spec_remove_def option.case snd_conv)
    with \<open>lru_remove k c = Ok (True, ?d)\<close> show ?thesis using Some by (simp add: spec_remove_def)
  qed
qed

lemma lru_holds_oldest:
  assumes "lru_holds c ns xs"
  shows "mOldest c = hd (ns @ [0])" "mOldest c = 0 \<longleftrightarrow> xs = []"
    "xs \<noteq> [] \<Longrightarrow> \<exists>e. entries c (mOldest c) = Some e \<and> key e = fst (hd xs) \<and> val e = snd (hd xs)"
proof -
  have r: "ring (children c) (parents c) 0 ([] @ ns)" using assms by (simp add: lru_holds_def lru_ring_def)
  show o: "mOldest c = hd (ns @ [0])" using ring_at(1) [OF r] by (simp add: children_def)
  have l: "length ns = length xs" by (rule lru_holds_nth(1) [OF assms])
  show "mOldest c = 0 \<longleftrightarrow> xs = []" using o l r by (cases ns) (auto simp: ring_def)
  assume "xs \<noteq> []"
  then have "ns ! 0 = mOldest c" "xs ! 0 = hd xs" "0 < length xs" using o l by (cases ns; cases xs; simp)+
  then show "\<exists>e. entries c (mOldest c) = Some e \<and> key e = fst (hd xs) \<and> val e = snd (hd xs)"
    using lru_holds_nth(2) [OF assms, of 0] by (simp add: item_of_Some)
qed

lemma removeOldest_refines:
  assumes "implements listen cap null c s"
  shows "\<exists>c'. removeOldest c = Ok (fst (spec_remove_oldest listen s), c') \<and> implements listen cap null c' (snd (spec_remove_oldest listen s))"
proof -
  obtain ns where h: "lru_holds c ns (items s)" using assms by (auto simp: implements_def)
  show ?thesis
  proof (cases "items s")
    case Nil
    then show ?thesis using assms lru_holds_oldest(2) [OF h] by (simp add: removeOldest_def spec_remove_oldest_def)
  next
    case (Cons x xs)
    obtain e where e: "entries c (mOldest c) = Some e" "key e = fst x" using lru_holds_oldest(3) [OF h] Cons by auto
    have d: "distinct (map fst (x # xs))" using h Cons by (simp add: lru_holds_def)
    have "without (fst x) (items s) = xs" using d Cons by (auto simp: without_def intro!: filter_True) (metis fst_conv imageI)
    then have "spec_remove listen (fst x) s = spec_remove_oldest listen s"
      using Cons by (simp add: spec_remove_def spec_remove_oldest_def)
    then show ?thesis using lru_remove_refines [OF assms, of "fst x"] e lru_holds_oldest(2) [OF h] Cons
      by (simp add: removeOldest_def)
  qed
qed

lemma peekOldestValue_refines:
  assumes "implements listen cap null c s"
  shows "peekOldestValue c = Ok (if items s = [] then null else snd (hd (items s)))"
proof -
  obtain ns where h: "lru_holds c ns (items s)" using assms by (auto simp: implements_def)
  show ?thesis using lru_holds_oldest(2,3) [OF h] assms by (auto simp: peekOldestValue_def implements_def)
qed

lemma lru_size_refines: "implements listen cap null c s \<Longrightarrow> lru_size c = length (items s)"
proof -
  assume "implements listen cap null c s"
  then obtain ns where h: "lru_holds c ns (items s)" by (auto simp: implements_def)
  then have "card (set (mSet c)) = card (set ns)" "distinct (mSet c)" "distinct ns"
    by (auto simp: lru_holds_def lru_ring_def ring_def)
  then show ?thesis using lru_holds_nth(1) [OF h] by (simp add: lru_size_def distinct_card)
qed

lemma lru_insert_refines:
  assumes "implements listen cap null c s" "k \<notin> fst ` set (items s)" "allocates new"
  shows "\<exists>c'. attachToCache (new (entries c)) (c\<lparr>entries := (entries c)(new (entries c) \<mapsto> \<lparr>key = k, val = v, parent = 0, child = 0\<rparr>),
       mSet := mSet c @ [new (entries c)]\<rparr>) = Ok c' \<and> implements listen cap null c' (s\<lparr>items := items s @ [(k, v)]\<rparr>)"
proof -
  obtain ns where h: "lru_holds c ns (items s)" using assms(1) by (auto simp: implements_def)
  note hh = h [unfolded lru_holds_def]
  let ?p = "new (entries c)" and ?e = "\<lparr>key = k, val = v, parent = 0, child = 0\<rparr>"
  let ?c = "c\<lparr>entries := (entries c)(?p \<mapsto> ?e), mSet := mSet c @ [?p]\<rparr>"
  have p: "?p \<noteq> 0" "entries c ?p = None" using assms(3) hh by (simp_all add: allocates_def)
  then have pn: "?p \<notin> set ns" using hh by auto
  have "lru_ring ?c ns"
    unfolding lru_ring_def using hh p pn
    by (subst ring_cong [where nx = "children c" and pv = "parents c"]) (auto simp: children_def parents_def lru_ring_def)
  moreover have "set ns \<subseteq> dom (entries ?c)" "children ?c ?p = 0" "parents ?c ?p = 0"
    using hh p by (auto simp: children_def parents_def)
  ultimately obtain c' where c': "attachToCache ?p ?c = Ok c'" "same_items ?c c'" "lru_ring c' (ns @ [?p])"
    using attachToCache_ok [of ?c ns ?p] p pn by auto
  have it: "item_of ?c q = item_of c q" if "q \<in> set ns" for q
    using that pn by (simp add: item_of_def split: if_splits) blast
  have "lru_holds c' (ns @ [?p]) (items s @ [(k, v)])"
  proof (rule same_items_holds [OF c'(2,3)])
    show "set (ns @ [?p]) = dom (entries ?c)" using hh by auto
    have "map (item_of ?c) ns = map (item_of c) ns" using it by (rule map_cong [OF refl])
    moreover have "item_of ?c ?p = Some (k, v)" by (simp add: item_of_def)
    moreover have "map (item_of c) ns = map Some (items s)" using hh by blast
    ultimately show "map (item_of ?c) (ns @ [?p]) = map Some (items s @ [(k, v)])" by (simp only: map_append list.map)
    show "distinct (map fst (items s @ [(k, v)]))" using hh assms(2) by simp
    show "distinct (mSet ?c)" "set (mSet ?c) = set (ns @ [?p])" using hh pn by auto
  qed
  then have "implements listen cap null c' (s\<lparr>items := items s @ [(k, v)], notified := notified s\<rparr>)"
    using c'(2) assms(1) by (intro implementsI) (auto simp: same_items_def implements_def)
  then show ?thesis using c'(1) by auto
qed

lemma lru_put_refines:
  assumes "implements listen cap null c s" "allocates new"
  shows "\<exists>c'. lru_put new k v c = Ok (fst (spec_put listen cap k v s), c') \<and> implements listen cap null c' (snd (spec_put listen cap k v s))"
proof -
  let ?full = "cap \<noteq> 0 \<and> cap \<le> length (items s)"
  let ?s = "if ?full then snd (spec_remove_oldest listen s) else s"
  obtain c1 where c1: "(if mMaxCapacity c \<noteq> 0 \<and> lru_size c \<ge> mMaxCapacity c then res_map snd (removeOldest c) else Ok c) = Ok c1"
    "implements listen cap null c1 ?s"
  proof (cases ?full)
    case True
    moreover obtain b c1 where "removeOldest c = Ok (b, c1)" "implements listen cap null c1 (snd (spec_remove_oldest listen s))"
      using removeOldest_refines [OF assms(1)] by blast
    moreover have "mMaxCapacity c = cap" using assms(1) by (simp add: implements_def)
    ultimately show thesis using that [of c1] lru_size_refines [OF assms(1)] by simp
  next
    case False
    moreover have "mMaxCapacity c = cap" using assms(1) by (simp add: implements_def)
    ultimately show thesis using that [of c] lru_size_refines [OF assms(1)] assms(1) by auto
  qed
  obtain ns where h: "lru_holds c1 ns (items ?s)" using c1(2) by (auto simp: implements_def)
  note f = findByKey_absent [OF h, of k]
  have put: "lru_put new k v c = (if findByKey k c1 \<noteq> None then Ok (False, c1)
     else res_map (\<lambda>c. (True, c)) (attachToCache (new (entries c1)) (c1\<lparr>entries := (entries c1)(new (entries c1) \<mapsto>
       \<lparr>key = k, val = v, parent = 0, child = 0\<rparr>), mSet := mSet c1 @ [new (entries c1)]\<rparr>)))"
    unfolding lru_put_def c1(1) by (simp only: res_bind.simps Let_def lru.simps lru.select_convs lru.update_convs)
  have spec: "spec_put listen cap k v s = (if k \<in> fst ` set (items ?s) then (False, ?s) else (True, ?s\<lparr>items := items ?s @ [(k, v)]\<rparr>))"
    unfolding spec_put_def Let_def by (rule refl)
  show ?thesis
  proof (cases "k \<in> fst ` set (items ?s)")
    case True
    then show ?thesis using c1(2) f unfolding put spec by auto
  next
    case False
    then obtain c' where "attachToCache (new (entries c1)) (c1\<lparr>entries := (entries c1)(new (entries c1) \<mapsto>
        \<lparr>key = k, val = v, parent = 0, child = 0\<rparr>), mSet := mSet c1 @ [new (entries c1)]\<rparr>) = Ok c'"
      "implements listen cap null c' (?s\<lparr>items := items ?s @ [(k, v)]\<rparr>)"
      using lru_insert_refines [OF c1(2) _ assms(2)] by blast
    then show ?thesis using False f unfolding put spec by simp
  qed
qed

lemma tell_all_walks:
  assumes "lru_ring c (us @ vs)" "set (us @ vs) \<subseteq> dom (entries c)" "length vs < fuel" "map (item_of c) vs = map Some ys"
  shows "tell_all fuel (hd (vs @ [0])) (c\<lparr>told := l\<rparr>) = Ok (c\<lparr>told := l @ ys\<rparr>)"
  using assms
proof (induction vs arbitrary: us ys l fuel)
  case Nil
  then show ?case by (cases fuel) auto
next
  case (Cons v vs)
  obtain k where k: "fuel = Suc k" "length vs < k" using Cons.prems(3) by (cases fuel) auto
  obtain y ys' where ys: "ys = y # ys'" "item_of c v = Some y" "map (item_of c) vs = map Some ys'"
    using Cons.prems(4) by (cases ys) auto
  have r: "lru_ring c ((us @ [v]) @ vs)" using Cons.prems(1) by simp
  have "children c v = hd (vs @ [0])" "v \<noteq> 0"
    using ring_at(1) [of "children c" "parents c" 0 "us @ [v]" vs] r Cons.prems(1) by (auto simp: lru_ring_def ring_def)
  then obtain e where "entries c v = Some e" "child e = hd (vs @ [0])" "(key e, val e) = y"
    using ys(2) by (auto simp: children_def item_of_def)
  then show ?case using Cons.IH [OF r _ k(2) ys(3), of "l @ [y]"] Cons.prems(2) \<open>v \<noteq> 0\<close> by (simp add: k(1) ys(1))
qed

lemma delete_all_ok: "distinct ps \<Longrightarrow> set ps \<subseteq> dom m \<Longrightarrow> delete_all ps m = Ok (m |` (- set ps))"
proof (induction ps arbitrary: m)
  case (Cons p ps)
  then obtain e where "m p = Some e" by auto
  moreover have "(m(p := None)) |` (- set ps) = m |` (- set (p # ps))" by (auto simp: restrict_map_def fun_eq_iff)
  moreover have "set ps \<subseteq> dom (m(p := None))" using Cons.prems by auto
  ultimately show ?case using Cons by simp
qed (simp add: restrict_map_def)

text \<open>Clearing tells of all items, oldest first, and leaves no entry in memory.\<close>

lemma lru_clear_refines:
  assumes "implements listen cap null c s" "length (items s) < fuel"
  shows "\<exists>c'. lru_clear fuel c = Ok c' \<and> implements listen cap null c' (spec_clear listen s) \<and> entries c' = Map.empty"
proof -
  obtain ns where h: "lru_holds c ns (items s)" using assms by (auto simp: implements_def)
  note hh = h [unfolded lru_holds_def] and l = lru_holds_nth(1) [OF h]
  let ?l = "notified s @ (if listen then items s else [])"
  have "tell_all fuel (mOldest c) c = Ok (c\<lparr>told := told c @ items s\<rparr>)"
    using tell_all_walks [of c "[]" ns fuel "items s" "told c"] hh l assms(2) lru_holds_oldest(1) [OF h] by simp
  then have t: "(if has_listener c then tell_all fuel (mOldest c) c else Ok c) = Ok (c\<lparr>told := ?l\<rparr>)"
    using assms(1) by (cases listen) (auto simp: implements_def)
  have "entries c |` (- set (mSet c)) = Map.empty"
    using hh by (auto simp: restrict_map_def fun_eq_iff)
  then have "delete_all (mSet c) (entries c) = Ok Map.empty"
    using delete_all_ok [of "mSet c" "entries c"] hh by auto
  then have c': "lru_clear fuel c = Ok (c\<lparr>told := ?l, mYoungest := 0, mOldest := 0, entries := Map.empty, mSet := []\<rparr>)" (is "_ = Ok ?c")
    by (simp add: lru_clear_def t)
  have "lru_holds ?c [] []"
    by (simp add: lru_holds_def lru_ring_def ring_def children_def parents_def)
  then have "implements listen cap null ?c (s\<lparr>items := [], notified := ?l\<rparr>)"
    using assms(1) by (intro implementsI) (auto simp: implements_def)
  then show ?thesis using c' by (auto simp: spec_clear_def)
qed

text \<open>The loop over an iterator meets every item once, in the order of the hash set.\<close>

lemma iterate_returned:
  assumes "set (mSet c) \<subseteq> dom (entries c)" "i < lru_size c" "lru_size c - i < fuel"
  shows "\<exists>ys. iterate fuel c (i, True) = Ok ys \<and> map Some ys = map (item_of c) (drop (Suc i) (mSet c))"
  using assms(2,3)
proof (induction fuel arbitrary: i)
  case (Suc fuel)
  show ?case
  proof (cases "Suc i = lru_size c")
    case True
    then show ?thesis using Suc.prems by (auto simp: iterator_next_def lru_size_def)
  next
    case False
    then have lt: "Suc i < length (mSet c)" using Suc.prems(1) by (simp add: lru_size_def)
    then obtain e where e: "entries c (mSet c ! Suc i) = Some e" using assms(1) by (meson domD nth_mem subsetD)
    moreover obtain ys where "iterate fuel c (Suc i, True) = Ok ys" "map Some ys = map (item_of c) (drop (Suc (Suc i)) (mSet c))"
      using Suc.IH [of "Suc i"] Suc.prems lt unfolding lru_size_def by (metis Suc_less_eq Suc_diff_Suc Suc_lessD)
    moreover have "drop (Suc i) (mSet c) = mSet c ! Suc i # drop (Suc (Suc i)) (mSet c)" using lt by (simp add: Cons_nth_drop_Suc)
    ultimately show ?thesis using lt False Suc.prems(1)
      by (intro exI [of _ "(key e, val e) # ys"]) (simp add: iterator_next_def iterator_item_def lru_size_def item_of_def)
  qed
qed simp

theorem iterate_all:
  assumes "implements listen cap null c s" "Suc (length (items s)) < fuel"
  shows "\<exists>ys. iterate fuel c lru_iterator = Ok ys \<and> set ys = set (items s) \<and> length ys = length (items s)"
proof -
  obtain ns where h: "lru_holds c ns (items s)" using assms(1) by (auto simp: implements_def)
  note hh = h [unfolded lru_holds_def] and size = lru_size_refines [OF assms(1)]
  obtain k where k: "fuel = Suc k" "length (items s) < k" using assms(2) by (cases fuel) auto
  have "\<exists>ys. iterate fuel c lru_iterator = Ok ys \<and> map Some ys = map (item_of c) (mSet c)"
  proof (cases "mSet c")
    case Nil
    then show ?thesis by (simp add: k(1) lru_iterator_def iterator_next_def lru_size_def)
  next
    case (Cons p ps)
    then obtain e where e: "entries c p = Some e" using hh by (metis domD list.set_intros(1))
    moreover obtain ys where "iterate k c (0, True) = Ok ys" "map Some ys = map (item_of c) ps"
      using iterate_returned [of c 0 k] hh size k(2) Cons by (fastforce simp: lru_size_def)
    ultimately show ?thesis using Cons
      by (intro exI [of _ "(key e, val e) # ys"])
        (simp add: k(1) lru_iterator_def iterator_next_def iterator_item_def lru_size_def item_of_def)
  qed
  then obtain ys where ys: "iterate fuel c lru_iterator = Ok ys" "map Some ys = map (item_of c) (mSet c)" by blast
  have "Some ` set ys = item_of c ` set (mSet c)" using arg_cong [OF ys(2), of set] by simp
  also have "\<dots> = item_of c ` set ns" using hh by simp
  also have "\<dots> = Some ` set (items s)" using hh by (metis list.set_map)
  finally have "set ys = set (items s)" by (simp add: inj_image_eq_iff)
  moreover have "length ys = length (items s)" using arg_cong [OF ys(2), of length] size by (simp add: lru_size_def)
  ultimately show ?thesis using ys(1) by blast
qed

subsection \<open>Any use of a cache\<close>

datatype ('k, 'v) lru_op = Get 'k | Put 'k 'v | Remove 'k | Remove_oldest | Peek_oldest | Size | Clear

datatype 'v answer = Value 'v | Flag bool | Number nat | Nothing

fun lru_step :: "nat \<Rightarrow> ((nat \<rightharpoonup> ('k, 'v) entry) \<Rightarrow> nat) \<Rightarrow> ('k, 'v) lru_op \<Rightarrow> ('k, 'v) lru \<Rightarrow> ('v answer \<times> ('k, 'v) lru) res" where
  "lru_step fuel new (Get k) c = res_map (\<lambda>(v, c). (Value v, c)) (lru_get k c)"
| "lru_step fuel new (Put k v) c = res_map (\<lambda>(b, c). (Flag b, c)) (lru_put new k v c)"
| "lru_step fuel new (Remove k) c = res_map (\<lambda>(b, c). (Flag b, c)) (lru_remove k c)"
| "lru_step fuel new Remove_oldest c = res_map (\<lambda>(b, c). (Flag b, c)) (removeOldest c)"
| "lru_step fuel new Peek_oldest c = res_map (\<lambda>v. (Value v, c)) (peekOldestValue c)"
| "lru_step fuel new Size c = Ok (Number (lru_size c), c)"
| "lru_step fuel new Clear c = res_map (\<lambda>c. (Nothing, c)) (lru_clear fuel c)"

fun spec_step :: "bool \<Rightarrow> nat \<Rightarrow> 'v \<Rightarrow> ('k, 'v) lru_op \<Rightarrow> ('k, 'v) lru_spec \<Rightarrow> 'v answer \<times> ('k, 'v) lru_spec" where
  "spec_step listen cap null (Get k) s = (case spec_get null k s of (v, s) \<Rightarrow> (Value v, s))"
| "spec_step listen cap null (Put k v) s = (case spec_put listen cap k v s of (b, s) \<Rightarrow> (Flag b, s))"
| "spec_step listen cap null (Remove k) s = (case spec_remove listen k s of (b, s) \<Rightarrow> (Flag b, s))"
| "spec_step listen cap null Remove_oldest s = (case spec_remove_oldest listen s of (b, s) \<Rightarrow> (Flag b, s))"
| "spec_step listen cap null Peek_oldest s = (Value (if items s = [] then null else snd (hd (items s))), s)"
| "spec_step listen cap null Size s = (Number (length (items s)), s)"
| "spec_step listen cap null Clear s = (Nothing, spec_clear listen s)"

fun lru_run :: "nat \<Rightarrow> ((nat \<rightharpoonup> ('k, 'v) entry) \<Rightarrow> nat) \<Rightarrow> ('k, 'v) lru_op list \<Rightarrow> ('k, 'v) lru \<Rightarrow> ('v answer list \<times> ('k, 'v) lru) res" where
  "lru_run fuel new [] c = Ok ([], c)"
| "lru_run fuel new (op # ops) c = res_bind (lru_step fuel new op c) (\<lambda>(a, c).
     res_map (\<lambda>(as, c). (a # as, c)) (lru_run fuel new ops c))"

fun spec_run :: "bool \<Rightarrow> nat \<Rightarrow> 'v \<Rightarrow> ('k, 'v) lru_op list \<Rightarrow> ('k, 'v) lru_spec \<Rightarrow> 'v answer list \<times> ('k, 'v) lru_spec" where
  "spec_run listen cap null [] s = ([], s)"
| "spec_run listen cap null (op # ops) s = (case spec_step listen cap null op s of (a, s) \<Rightarrow>
     case spec_run listen cap null ops s of (as, s) \<Rightarrow> (a # as, s))"

lemma lru_step_refines:
  assumes "implements listen cap null c s" "allocates new" "length (items s) < fuel"
  shows "\<exists>c'. lru_step fuel new op c = Ok (fst (spec_step listen cap null op s), c') \<and>
     implements listen cap null c' (snd (spec_step listen cap null op s))"
proof (cases op)
  case (Get k)
  then show ?thesis using lru_get_refines [OF assms(1), of k] by (auto simp: split_def)
next
  case (Put k v)
  then show ?thesis using lru_put_refines [OF assms(1,2), of k v] by (auto simp: split_def)
next
  case (Remove k)
  then show ?thesis using lru_remove_refines [OF assms(1), of k] by (auto simp: split_def)
next
  case Remove_oldest
  then show ?thesis using removeOldest_refines [OF assms(1)] by (auto simp: split_def)
next
  case Clear
  then show ?thesis using lru_clear_refines [OF assms(1,3)] by auto
qed (use assms(1) peekOldestValue_refines [OF assms(1)] lru_size_refines [OF assms(1)] in simp_all)

lemma length_without: "length (without k xs) \<le> length xs"
  by (simp add: without_def)

lemma map_of_without: "map_of xs k = Some v \<Longrightarrow> length (without k xs) < length xs"
  by (metis (mono_tags, lifting) filter_id_conv fst_conv length_filter_less map_of_SomeD without_def)

text \<open>The list grows by at most one item per operation, and never past the capacity.\<close>

lemma spec_step_length: "length (items (snd (spec_step listen cap null op s))) \<le> Suc (length (items s))"
  using map_of_without [of "items s"] length_without
  by (cases op) (auto simp: spec_get_def spec_put_def spec_remove_def spec_remove_oldest_def spec_clear_def Let_def
      split: option.splits list.splits intro: le_SucI less_imp_le)

lemma spec_step_cap:
  assumes "cap \<noteq> 0" "length (items s) \<le> cap"
  shows "length (items (snd (spec_step listen cap null op s))) \<le> cap"
proof (cases op)
  case (Get k)
  then show ?thesis using assms(2) map_of_without [of "items s" k] by (auto simp: spec_get_def split: option.splits)
next
  case (Put k v)
  then show ?thesis using assms by (auto simp: spec_put_def spec_remove_oldest_def Let_def split: list.splits)
next
  case (Remove k)
  then show ?thesis using assms(2) length_without [of k "items s"] by (auto simp: spec_remove_def split: option.splits)
qed (use assms(2) in \<open>auto simp: spec_remove_oldest_def spec_clear_def split: list.splits\<close>)

lemma lru_run_refines:
  assumes "implements listen cap null c s" "allocates new" "length (items s) + length ops \<le> fuel"
    and "cap \<noteq> 0 \<longrightarrow> length (items s) \<le> cap"
  shows "\<exists>c'. lru_run fuel new ops c = Ok (fst (spec_run listen cap null ops s), c') \<and>
     implements listen cap null c' (snd (spec_run listen cap null ops s)) \<and>
     (cap \<noteq> 0 \<longrightarrow> length (items (snd (spec_run listen cap null ops s))) \<le> cap)"
  using assms(1,3,4)
proof (induction ops arbitrary: c s)
  case (Cons op ops)
  let ?s = "snd (spec_step listen cap null op s)"
  obtain c1 where c1: "lru_step fuel new op c = Ok (fst (spec_step listen cap null op s), c1)" "implements listen cap null c1 ?s"
    using lru_step_refines [OF Cons.prems(1) assms(2), of fuel op] Cons.prems(2) by auto
  have "length (items ?s) + length ops \<le> fuel" "cap \<noteq> 0 \<longrightarrow> length (items ?s) \<le> cap"
    using Cons.prems spec_step_length [of listen cap null op s] spec_step_cap [of cap s listen null op] by auto
  then show ?case using Cons.IH [OF c1(2)] c1(1) by (auto simp: split_def)
qed auto

lemma new_lru_implements: "implements listen cap null (setOnEntryRemovedListener listen (new_lru cap null)) \<lparr>items = [], notified = []\<rparr>"
  by (simp add: implements_def lru_holds_def lru_ring_def ring_def children_def parents_def setOnEntryRemovedListener_def new_lru_def)

text \<open>C35: 
  Whatever is done with a cache, from its construction on, is defined and gives the answers of the
  specification; it never holds more than its capacity; and in memory are exactly the entries of the
  items it holds, none lost and none left behind.
\<close>

theorem lru_refines:
  assumes "allocates new" "length ops \<le> fuel"
  shows "case spec_run listen cap null ops \<lparr>items = [], notified = []\<rparr> of (as, s) \<Rightarrow>
     \<exists>c. lru_run fuel new ops (setOnEntryRemovedListener listen (new_lru cap null)) = Ok (as, c) \<and>
       told c = notified s \<and> card (dom (entries c)) = length (items s) \<and> (cap \<noteq> 0 \<longrightarrow> length (items s) \<le> cap)"
proof -
  obtain as s where s: "spec_run listen cap null ops \<lparr>items = [], notified = []\<rparr> = (as, s)" by force
  obtain c where c: "lru_run fuel new ops (setOnEntryRemovedListener listen (new_lru cap null)) = Ok (as, c)"
    "implements listen cap null c s" "cap \<noteq> 0 \<longrightarrow> length (items s) \<le> cap"
    using lru_run_refines [OF new_lru_implements [of listen cap null] assms(1), of ops fuel] assms(2) s by auto
  then obtain ns where h: "lru_holds c ns (items s)" by (auto simp: implements_def)
  then have "card (dom (entries c)) = length (items s)"
    using lru_holds_nth(1) [OF h] by (simp add: lru_holds_def lru_ring_def ring_def distinct_card)
  then show ?thesis using c s by (auto simp: implements_def)
qed

lemma lru_refines_witness:
  "\<exists>c. lru_run 5 next_free [Put 1 True, Put 2 False, Get (1::nat), Put 3 True, Get 2] (setOnEntryRemovedListener True (new_lru 2 False)) =
      Ok ([Flag True, Flag True, Value True, Flag True, Value False], c) \<and> told c = [(2, False)]"
  using lru_refines [OF next_free_allocates, of "[Put 1 True, Put 2 False, Get (1::nat), Put 3 True, Get 2]" 5 True 2 False]
  by (auto simp: spec_put_def spec_get_def spec_remove_oldest_def without_def Let_def)

text \<open>
  \<open>put\<close> makes room before it looks for the key: putting a key that a full cache holds drops the oldest
  item and then refuses, so an item is lost and nothing is stored.
\<close>

theorem put_present_loses_oldest:
  assumes "implements listen cap null c s" "allocates new" "cap = length (items s)" "items s = x # xs" "k \<in> fst ` set xs"
  shows "\<exists>c'. lru_put new k v c = Ok (False, c') \<and> implements listen cap null c' (s\<lparr>items := xs, notified := notified s @ (if listen then [x] else [])\<rparr>)"
  using lru_put_refines [OF assms(1,2), of k v] assms(3-5) by (simp add: spec_put_def spec_remove_oldest_def)

end
