(* ===== verification/Ring_Buffer.thy ===== *)
theory Ring_Buffer
  imports MC_Prelude
begin

section \<open>\<open>media/RingBuffer.h\<close>: the ring buffer\<close>

text \<open>
  A vector that grows up to \<open>mMaxBufferSize\<close> elements and then overwrites the oldest; \<open>mFrontIdx\<close> is where
  the next element goes. Positions are \<open>size_t\<close>; the only subtraction that can wrap, in the increment of
  an iterator over an empty buffer, is written out. The specification is the list of elements, latest first.
\<close>

record 'a ring_buffer =
  mFrontIdx :: nat
  mMaxBufferSize :: nat
  mBuffer :: "'a list"

definition SIZE_MAX :: nat where
  "SIZE_MAX = 2 ^ 32 - 1"

subsection \<open>Operations\<close>

definition new_ring :: "nat \<Rightarrow> 'a ring_buffer" where
  "new_ring n = \<lparr>mFrontIdx = 0, mMaxBufferSize = n, mBuffer = []\<rparr>"

text \<open>\<open>mFrontIdx = (mFrontIdx + 1) % mMaxBufferSize\<close>; division by zero is undefined.\<close>

definition advance_front :: "'a ring_buffer \<Rightarrow> 'a ring_buffer res" where
  "advance_front b = (if mMaxBufferSize b = 0 then Undef else Ok (b\<lparr>mFrontIdx := (mFrontIdx b + 1) mod mMaxBufferSize b\<rparr>))"

definition overwrite_front :: "'a \<Rightarrow> 'a ring_buffer \<Rightarrow> 'a ring_buffer res" where
  "overwrite_front x b = (if mFrontIdx b < length (mBuffer b) then Ok (b\<lparr>mBuffer := (mBuffer b)[mFrontIdx b := x]\<rparr>) else Undef)"

definition ring_add :: "'a \<Rightarrow> 'a ring_buffer \<Rightarrow> 'a ring_buffer res" where
  "ring_add x b = (if length (mBuffer b) < mMaxBufferSize b then advance_front (b\<lparr>mBuffer := mBuffer b @ [x]\<rparr>)
     else res_bind (overwrite_front x b) advance_front)"

text \<open>The overload for temporaries, and \<open>emplace\<close> with \<open>x\<close> the element its arguments construct.\<close>

definition ring_add_moved :: "'a \<Rightarrow> 'a ring_buffer \<Rightarrow> 'a ring_buffer res" where
  "ring_add_moved x b = (if length (mBuffer b) \<noteq> mMaxBufferSize b then advance_front (b\<lparr>mBuffer := mBuffer b @ [x]\<rparr>)
     else res_bind (overwrite_front x b) advance_front)"

definition ring_emplace :: "'a \<Rightarrow> 'a ring_buffer \<Rightarrow> 'a ring_buffer res" where
  "ring_emplace x b = (if length (mBuffer b) \<noteq> mMaxBufferSize b then advance_front (b\<lparr>mBuffer := mBuffer b @ [x]\<rparr>)
     else res_bind (overwrite_front x b) advance_front)"

definition ring_size :: "'a ring_buffer \<Rightarrow> nat" where
  "ring_size b = length (mBuffer b)"

definition ring_clear :: "'a ring_buffer \<Rightarrow> 'a ring_buffer" where
  "ring_clear b = b\<lparr>mBuffer := [], mFrontIdx := 0\<rparr>"

text \<open>\<open>operator[]\<close>: an index out of range is fatal.\<close>

definition ring_index :: "nat \<Rightarrow> 'a ring_buffer \<Rightarrow> 'a res" where
  "ring_index i b =
     (if i \<ge> length (mBuffer b) then Undef
      else let pos = (if i \<ge> mFrontIdx b then length (mBuffer b) - 1 - (i - mFrontIdx b) else mFrontIdx b - 1 - i)
      in if pos < length (mBuffer b) then Ok (mBuffer b ! pos) else Undef)"

record ring_iterator =
  mSize :: nat
  mPos :: nat
  mCtr :: nat

definition ring_begin :: "'a ring_buffer \<Rightarrow> ring_iterator" where
  "ring_begin b =
     (let n = length (mBuffer b); tmp = (if n = 0 then 0 else n - 1)
      in \<lparr>mSize = n, mPos = (if mFrontIdx b = 0 then tmp else mFrontIdx b - 1), mCtr = 0\<rparr>)"

definition ring_end :: "'a ring_buffer \<Rightarrow> ring_iterator" where
  "ring_end b = (let s = length (mBuffer b) in \<lparr>mSize = s, mPos = s, mCtr = s\<rparr>)"

definition iterator_inc :: "ring_iterator \<Rightarrow> ring_iterator" where
  "iterator_inc it =
     (let it = it\<lparr>mCtr := mCtr it + 1\<rparr>
      in if mCtr it = mSize it then it\<lparr>mPos := mSize it\<rparr>
         else it\<lparr>mPos := (if mPos it = 0 then (if mSize it = 0 then SIZE_MAX else mSize it - 1) else mPos it - 1)\<rparr>)"

text \<open>Iterators of one buffer are equal when their positions are.\<close>

definition iterator_eq :: "ring_iterator \<Rightarrow> ring_iterator \<Rightarrow> bool" where
  "iterator_eq it it' = (mPos it = mPos it')"

definition iterator_deref :: "'a ring_buffer \<Rightarrow> ring_iterator \<Rightarrow> 'a res" where
  "iterator_deref b it = (if mPos it < length (mBuffer b) then Ok (mBuffer b ! mPos it) else Undef)"

text \<open>The loop of a user: from \<open>begin()\<close> to \<open>end()\<close>, collecting the elements.\<close>

fun ring_walk :: "nat \<Rightarrow> 'a ring_buffer \<Rightarrow> ring_iterator \<Rightarrow> 'a list res" where
  "ring_walk 0 b it = NoFuel"
| "ring_walk (Suc fuel) b it =
     (if iterator_eq it (ring_end b) then Ok []
      else res_bind (iterator_deref b it) (\<lambda>x. res_map (\<lambda>xs. x # xs) (ring_walk fuel b (iterator_inc it))))"

subsection \<open>The elements, latest first\<close>

definition latest :: "'a ring_buffer \<Rightarrow> 'a list" where
  "latest b = rev (take (mFrontIdx b) (mBuffer b)) @ rev (drop (mFrontIdx b) (mBuffer b))"

definition ring_ok :: "'a ring_buffer \<Rightarrow> bool" where
  "ring_ok b = (length (mBuffer b) \<le> mMaxBufferSize b \<and> mFrontIdx b < mMaxBufferSize b \<and>
     (length (mBuffer b) < mMaxBufferSize b \<longrightarrow> mFrontIdx b = length (mBuffer b)))"

lemma ring_ok_new: "0 < n \<Longrightarrow> ring_ok (new_ring n :: 'a ring_buffer) \<and> latest (new_ring n :: 'a ring_buffer) = []"
  by (simp add: ring_ok_def new_ring_def latest_def)

lemma ring_ok_clear: "ring_ok b \<Longrightarrow> ring_ok (ring_clear b) \<and> latest (ring_clear b) = []"
  by (auto simp: ring_ok_def ring_clear_def latest_def)

lemma ring_size_latest: "ring_size b = length (latest b)"
  by (simp add: ring_size_def latest_def)

text \<open>Adding puts the element first and drops the oldest of a full buffer.\<close>

lemma ring_add_latest:
  assumes "ring_ok b"
  shows "\<exists>b'. ring_add x b = Ok b' \<and> ring_ok b' \<and> mMaxBufferSize b' = mMaxBufferSize b \<and>
     latest b' = take (mMaxBufferSize b) (x # latest b)"
proof -
  let ?n = "length (mBuffer b)" and ?f = "mFrontIdx b" and ?max = "mMaxBufferSize b"
  show ?thesis
  proof (cases "?n < ?max")
    case True
    then have f: "?f = ?n" using assms by (simp add: ring_ok_def)
    then have "latest b = rev (mBuffer b)" by (simp add: latest_def)
    then show ?thesis using True f
      by (cases "Suc ?n = ?max") (auto simp: ring_add_def advance_front_def ring_ok_def latest_def)
  next
    case False
    then have n: "?n = ?max" "?f < ?max" using assms by (auto simp: ring_ok_def)
    have d: "drop ?f (mBuffer b) = mBuffer b ! ?f # drop (Suc ?f) (mBuffer b)" using n by (simp add: Cons_nth_drop_Suc)
    have l: "take ?max (x # latest b) = x # rev (take ?f (mBuffer b)) @ rev (drop (Suc ?f) (mBuffer b))"
      using n by (cases ?max) (simp_all add: latest_def d)
    show ?thesis
    proof (cases "Suc ?f = ?max")
      case True
      then show ?thesis using n l
        by (auto simp: ring_add_def overwrite_front_def advance_front_def ring_ok_def latest_def take_Suc_conv_app_nth
            upd_conv_take_nth_drop)
    next
      case False
      then show ?thesis using n l
        by (auto simp: ring_add_def overwrite_front_def advance_front_def ring_ok_def latest_def take_Suc_conv_app_nth
            upd_conv_take_nth_drop)
    qed
  qed
qed

text \<open>The other two ways to add test for inequality, which is the same within the invariant.\<close>

lemma ring_adds_agree:
  assumes "ring_ok b"
  shows "ring_add_moved x b = ring_add x b" "ring_emplace x b = ring_add x b"
  using assms by (auto simp: ring_ok_def ring_add_def ring_add_moved_def ring_emplace_def)

lemma ring_index_latest:
  assumes "ring_ok b" "i < ring_size b"
  shows "ring_index i b = Ok (latest b ! i)"
proof -
  have f: "mFrontIdx b \<le> length (mBuffer b)" using assms(1) by (auto simp: ring_ok_def)
  then show ?thesis using assms(2)
    by (auto simp: ring_index_def latest_def nth_append rev_nth ring_size_def Let_def add.commute)
qed

subsection \<open>Iterators\<close>

text \<open>The iterator that has been advanced \<open>k\<close> times.\<close>

definition iterator_at :: "'a ring_buffer \<Rightarrow> nat \<Rightarrow> ring_iterator" where
  "iterator_at b k = (let n = length (mBuffer b); f = mFrontIdx b in
     \<lparr>mSize = n, mPos = (if k = n then n else if k \<ge> f then n - 1 - (k - f) else f - 1 - k), mCtr = k\<rparr>)"

lemma iterator_at_begin: "ring_ok b \<Longrightarrow> ring_begin b = iterator_at b 0"
  by (auto simp: ring_begin_def iterator_at_def Let_def ring_ok_def)

lemma iterator_at_inc:
  assumes "ring_ok b" "k < length (mBuffer b)"
  shows "iterator_inc (iterator_at b k) = iterator_at b (Suc k)"
proof -
  have "mFrontIdx b \<le> length (mBuffer b)" using assms(1) by (auto simp: ring_ok_def)
  then show ?thesis using assms(2) by (auto simp: iterator_inc_def iterator_at_def Let_def)
qed

lemma iterator_at_deref:
  assumes "ring_ok b" "k < length (mBuffer b)"
  shows "iterator_deref b (iterator_at b k) = Ok (latest b ! k)" "\<not> iterator_eq (iterator_at b k) (ring_end b)"
proof -
  have f: "mFrontIdx b \<le> length (mBuffer b)" using assms(1) by (auto simp: ring_ok_def)
  show "iterator_deref b (iterator_at b k) = Ok (latest b ! k)"
    using ring_index_latest [of b k] assms
    by (auto simp: iterator_deref_def iterator_at_def ring_index_def ring_size_def Let_def split: if_splits)
  show "\<not> iterator_eq (iterator_at b k) (ring_end b)"
    using f assms(2) by (auto simp: iterator_eq_def iterator_at_def ring_end_def Let_def)
qed

lemma ring_walk_from:
  assumes "ring_ok b" "k + length xs = length (mBuffer b)" "xs = drop k (latest b)" "length xs < fuel"
  shows "ring_walk fuel b (iterator_at b k) = Ok xs"
  using assms(2-)
proof (induction xs arbitrary: k fuel)
  case Nil
  then show ?case by (cases fuel) (auto simp: iterator_eq_def iterator_at_def ring_end_def Let_def)
next
  case (Cons x xs)
  obtain f where f: "fuel = Suc f" "length xs < f" using Cons.prems(3) by (cases fuel) auto
  have lt: "k < length (mBuffer b)" using Cons.prems(1) by simp
  have k: "k < length (latest b)" using lt by (simp add: latest_def)
  have "x = latest b ! k" "xs = drop (Suc k) (latest b)"
    using Cons.prems(2) Cons_nth_drop_Suc [OF k] by (metis list.sel(1), metis list.sel(3))
  then show ?case
    using Cons.IH [of "Suc k" f] Cons.prems(1) f iterator_at_deref [OF assms(1) lt] iterator_at_inc [OF assms(1) lt] by simp
qed

text \<open>Walking from \<open>begin()\<close> to \<open>end()\<close> meets the elements latest first and stops.\<close>

lemma ring_walk_latest:
  assumes "ring_ok b" "ring_size b < fuel"
  shows "ring_walk fuel b (ring_begin b) = Ok (latest b)"
  using ring_walk_from [OF assms(1), of 0 "latest b" fuel] assms ring_size_latest [of b]
  by (simp add: iterator_at_begin ring_size_def)

subsection \<open>Any use of a ring buffer\<close>

datatype 'a ring_op = Add 'a | Add_moved 'a | Emplace 'a

fun ring_step :: "'a ring_op \<Rightarrow> 'a ring_buffer \<Rightarrow> 'a ring_buffer res" where
  "ring_step (Add x) = ring_add x"
| "ring_step (Add_moved x) = ring_add_moved x"
| "ring_step (Emplace x) = ring_emplace x"

fun element :: "'a ring_op \<Rightarrow> 'a" where
  "element (Add x) = x"
| "element (Add_moved x) = x"
| "element (Emplace x) = x"

fun ring_run :: "'a ring_op list \<Rightarrow> 'a ring_buffer \<Rightarrow> 'a ring_buffer res" where
  "ring_run [] b = Ok b"
| "ring_run (op # ops) b = res_bind (ring_step op b) (ring_run ops)"

lemma ring_step_latest:
  assumes "ring_ok b"
  shows "\<exists>b'. ring_step op b = Ok b' \<and> ring_ok b' \<and> mMaxBufferSize b' = mMaxBufferSize b \<and>
     latest b' = take (mMaxBufferSize b) (element op # latest b)"
  using ring_add_latest [OF assms, of "element op"] ring_adds_agree [OF assms] by (cases op) auto

lemma ring_run_latest:
  assumes "ring_ok b"
  shows "\<exists>b'. ring_run ops b = Ok b' \<and> ring_ok b' \<and> mMaxBufferSize b' = mMaxBufferSize b \<and>
     latest b' = take (mMaxBufferSize b) (rev (map element ops) @ latest b)"
  using assms
proof (induction ops arbitrary: b)
  case Nil
  then show ?case by (auto simp: latest_def ring_ok_def)
next
  case (Cons op ops)
  obtain b1 where b1: "ring_step op b = Ok b1" "ring_ok b1" "mMaxBufferSize b1 = mMaxBufferSize b"
    "latest b1 = take (mMaxBufferSize b) (element op # latest b)" using ring_step_latest [OF Cons.prems] by blast
  have "take n (xs @ take n ys) = take n (xs @ ys)" for n and xs ys :: "'a list" by simp
  then show ?case using Cons.IH [OF b1(2)] b1 by (auto simp del: take_append)
qed

text \<open>C37: 
  The buffer keeps the latest elements: after any additions, in any of the three ways, an iterator and the
  index operator give the last \<open>n\<close> of them, latest first.
\<close>

theorem ring_buffer_keeps_latest:
  fixes ops :: "'a ring_op list"
  assumes "0 < n" "n < fuel"
  shows "\<exists>b. ring_run ops (new_ring n) = Ok b \<and> ring_walk fuel b (ring_begin b) = Ok (take n (rev (map element ops))) \<and>
     ring_size b = min n (length ops) \<and> (\<forall>i < ring_size b. ring_index i b = Ok (rev (map element ops) ! i))"
proof -
  have i: "ring_ok (new_ring n :: 'a ring_buffer)" "latest (new_ring n :: 'a ring_buffer) = []"
    "mMaxBufferSize (new_ring n :: 'a ring_buffer) = n"
    using ring_ok_new [OF assms(1), where 'a = 'a] by (simp_all add: new_ring_def)
  obtain b where b: "ring_run ops (new_ring n) = Ok b" "ring_ok b" "latest b = take n (rev (map element ops))"
    using ring_run_latest [OF i(1), of ops] i(2,3) by auto
  then have s: "ring_size b = min n (length ops)" by (simp add: ring_size_latest)
  then show ?thesis using b ring_walk_latest [OF b(2), of fuel] ring_index_latest [OF b(2)] assms(2) by auto
qed

lemma ring_buffer_keeps_latest_witness:
  "\<exists>b. ring_run [Add 1, Emplace 2, Add_moved 3, Add (4::nat)] (new_ring 3) = Ok b \<and> ring_walk 4 b (ring_begin b) = Ok [4, 3, 2]"
  using ring_buffer_keeps_latest [of 3 4 "[Add 1, Emplace 2, Add_moved 3, Add (4::nat)]"] by auto

text \<open>A buffer of length 0 can be constructed, but nothing can be added to it.\<close>

theorem ring_add_zero: "ring_add x (new_ring 0) = Undef" "ring_add_moved x (new_ring 0) = Undef" "ring_emplace x (new_ring 0) = Undef"
  by (simp_all add: new_ring_def ring_add_def ring_add_moved_def ring_emplace_def overwrite_front_def)

end
