(* ===== verification/Bit_Set.thy ===== *)
theory Bit_Set
  imports MC_Prelude
begin

section \<open>\<open>utils/BitSet.h\<close>: sets of 32 and of 64 bits\<close>

text \<open>
  Bit 0 is the most significant one. The constants of the 32 bit set are \<open>unsigned long\<close>, which is modelled as on
  the 32 bit ABIs among those of the project (\<open>armeabi-v7a\<close>, \<open>x86\<close>): shifting by the width or more is undefined. (Where
  \<open>unsigned long\<close> has 64 bits, a shift by 32 to 63 gives 0.) The counting
  builtins are undefined at 0. The two structures are written out in the source one after the other, and here; the
  locale \<open>bit_set\<close> is what they promise, sets of numbers below the width.
\<close>

unbundle bit_operations_syntax

subsection \<open>The builtins of the compiler\<close>

definition popcount :: "'a::len word \<Rightarrow> nat" where
  "popcount w = length (filter (bit w) [0..<LENGTH('a)])"

definition builtin_clz :: "'a::len word \<Rightarrow> nat res" where
  "builtin_clz w = (if w = 0 then Undef else Ok (length (takeWhile (\<lambda>i. \<not> bit w (LENGTH('a) - 1 - i)) [0..<LENGTH('a)])))"

definition builtin_ctz :: "'a::len word \<Rightarrow> nat res" where
  "builtin_ctz w = (if w = 0 then Undef else Ok (length (takeWhile (\<lambda>i. \<not> bit w i) [0..<LENGTH('a)])))"

subsection \<open>\<open>BitSet32\<close>\<close>

definition valueForBit32 :: "nat \<Rightarrow> u32 res" where
  "valueForBit32 n = (if n < 32 then Ok (drop_bit n 0x80000000) else Undef)"

definition clear32 :: "u32 \<Rightarrow> u32" where
  "clear32 v = 0"

definition count32 :: "u32 \<Rightarrow> nat" where
  "count32 v = popcount v"

definition isEmpty32 :: "u32 \<Rightarrow> bool" where
  "isEmpty32 v = (v = 0)"

definition isFull32 :: "u32 \<Rightarrow> bool" where
  "isFull32 v = (v = 0xffffffff)"

definition hasBit32 :: "u32 \<Rightarrow> nat \<Rightarrow> bool res" where
  "hasBit32 v n = res_map (\<lambda>b. v AND b \<noteq> 0) (valueForBit32 n)"

definition markBit32 :: "u32 \<Rightarrow> nat \<Rightarrow> u32 res" where
  "markBit32 v n = res_map (\<lambda>b. v OR b) (valueForBit32 n)"

definition clearBit32 :: "u32 \<Rightarrow> nat \<Rightarrow> u32 res" where
  "clearBit32 v n = res_map (\<lambda>b. v AND NOT b) (valueForBit32 n)"

definition firstMarkedBit32 :: "u32 \<Rightarrow> nat res" where
  "firstMarkedBit32 v = builtin_clz v"

definition firstUnmarkedBit32 :: "u32 \<Rightarrow> nat res" where
  "firstUnmarkedBit32 v = builtin_clz (NOT v)"

definition lastMarkedBit32 :: "u32 \<Rightarrow> nat res" where
  "lastMarkedBit32 v = res_map (\<lambda>n. 31 - n) (builtin_ctz v)"

definition clearFirstMarkedBit32 :: "u32 \<Rightarrow> (nat \<times> u32) res" where
  "clearFirstMarkedBit32 v = res_bind (firstMarkedBit32 v) (\<lambda>n. res_map (\<lambda>v. (n, v)) (clearBit32 v n))"

definition markFirstUnmarkedBit32 :: "u32 \<Rightarrow> (nat \<times> u32) res" where
  "markFirstUnmarkedBit32 v = res_bind (firstUnmarkedBit32 v) (\<lambda>n. res_map (\<lambda>v. (n, v)) (markBit32 v n))"

definition clearLastMarkedBit32 :: "u32 \<Rightarrow> (nat \<times> u32) res" where
  "clearLastMarkedBit32 v = res_bind (lastMarkedBit32 v) (\<lambda>n. res_map (\<lambda>v. (n, v)) (clearBit32 v n))"

definition getIndexOfBit32 :: "u32 \<Rightarrow> nat \<Rightarrow> nat res" where
  "getIndexOfBit32 v n = (if n < 32 then Ok (popcount (v AND NOT (drop_bit n 0xffffffff))) else Undef)"

text \<open>The operators: equality of the values is equality of the words.\<close>

definition and32 :: "u32 \<Rightarrow> u32 \<Rightarrow> u32" where
  "and32 v w = v AND w"

definition or32 :: "u32 \<Rightarrow> u32 \<Rightarrow> u32" where
  "or32 v w = v OR w"

subsection \<open>\<open>BitSet64\<close>\<close>

definition valueForBit64 :: "nat \<Rightarrow> u64 res" where
  "valueForBit64 n = (if n < 64 then Ok (drop_bit n 0x8000000000000000) else Undef)"

definition clear64 :: "u64 \<Rightarrow> u64" where
  "clear64 v = 0"

definition count64 :: "u64 \<Rightarrow> nat" where
  "count64 v = popcount v"

definition isEmpty64 :: "u64 \<Rightarrow> bool" where
  "isEmpty64 v = (v = 0)"

definition isFull64 :: "u64 \<Rightarrow> bool" where
  "isFull64 v = (v = 0xffffffffffffffff)"

definition hasBit64 :: "u64 \<Rightarrow> nat \<Rightarrow> bool res" where
  "hasBit64 v n = res_map (\<lambda>b. v AND b \<noteq> 0) (valueForBit64 n)"

definition markBit64 :: "u64 \<Rightarrow> nat \<Rightarrow> u64 res" where
  "markBit64 v n = res_map (\<lambda>b. v OR b) (valueForBit64 n)"

definition clearBit64 :: "u64 \<Rightarrow> nat \<Rightarrow> u64 res" where
  "clearBit64 v n = res_map (\<lambda>b. v AND NOT b) (valueForBit64 n)"

definition firstMarkedBit64 :: "u64 \<Rightarrow> nat res" where
  "firstMarkedBit64 v = builtin_clz v"

definition firstUnmarkedBit64 :: "u64 \<Rightarrow> nat res" where
  "firstUnmarkedBit64 v = builtin_clz (NOT v)"

definition lastMarkedBit64 :: "u64 \<Rightarrow> nat res" where
  "lastMarkedBit64 v = res_map (\<lambda>n. 63 - n) (builtin_ctz v)"

definition clearFirstMarkedBit64 :: "u64 \<Rightarrow> (nat \<times> u64) res" where
  "clearFirstMarkedBit64 v = res_bind (firstMarkedBit64 v) (\<lambda>n. res_map (\<lambda>v. (n, v)) (clearBit64 v n))"

definition markFirstUnmarkedBit64 :: "u64 \<Rightarrow> (nat \<times> u64) res" where
  "markFirstUnmarkedBit64 v = res_bind (firstUnmarkedBit64 v) (\<lambda>n. res_map (\<lambda>v. (n, v)) (markBit64 v n))"

definition clearLastMarkedBit64 :: "u64 \<Rightarrow> (nat \<times> u64) res" where
  "clearLastMarkedBit64 v = res_bind (lastMarkedBit64 v) (\<lambda>n. res_map (\<lambda>v. (n, v)) (clearBit64 v n))"

definition getIndexOfBit64 :: "u64 \<Rightarrow> nat \<Rightarrow> nat res" where
  "getIndexOfBit64 v n = (if n < 64 then Ok (popcount (v AND NOT (drop_bit n 0xffffffffffffffff))) else Undef)"

definition and64 :: "u64 \<Rightarrow> u64 \<Rightarrow> u64" where
  "and64 v w = v AND w"

definition or64 :: "u64 \<Rightarrow> u64 \<Rightarrow> u64" where
  "or64 v w = v OR w"

subsection \<open>The set of a word\<close>

definition marked :: "'a::len word \<Rightarrow> nat set" where
  "marked w = {n. n < LENGTH('a) \<and> bit w (LENGTH('a) - 1 - n)}"

abbreviation top_bit :: "nat \<Rightarrow> 'a::len word" where
  "top_bit n \<equiv> drop_bit n (push_bit (LENGTH('a) - 1) 1)"

lemma finite_marked [simp]: "finite (marked w)"
  by (simp add: marked_def)

lemma marked_bound: "n \<in> marked (w :: 'a::len word) \<Longrightarrow> n < LENGTH('a)"
  by (simp add: marked_def)

lemma marked_eq_iff: "marked v = marked w \<longleftrightarrow> v = (w :: 'a::len word)"
proof
  assume m: "marked v = marked w"
  show "v = w"
  proof (rule bit_word_eqI)
    fix i
    assume i: "i < LENGTH('a)"
    then have "LENGTH('a) - 1 - (LENGTH('a) - 1 - i) = i" by simp
    then show "bit v i = bit w i" using m i by (auto simp: marked_def set_eq_iff dest!: spec [of _ "LENGTH('a) - 1 - i"])
  qed
qed simp

lemma marked_0 [simp]: "marked (0 :: 'a::len word) = {}"
  by (simp add: marked_def)

lemma marked_full [simp]: "marked (- 1 :: 'a::len word) = {..<LENGTH('a)}"
  by (auto simp: marked_def)

lemma marked_empty_iff: "marked w = {} \<longleftrightarrow> w = 0"
  using marked_eq_iff [of w 0] by simp

lemma marked_and: "marked (v AND w) = marked v \<inter> marked w"
  by (auto simp: marked_def bit_simps)

lemma marked_or: "marked (v OR w) = marked v \<union> marked w"
  by (auto simp: marked_def bit_simps)

lemma marked_not: "marked (NOT w :: 'a::len word) = {..<LENGTH('a)} - marked w"
  by (auto simp: marked_def bit_simps)

lemma marked_top: "n < LENGTH('a) \<Longrightarrow> marked (top_bit n :: 'a::len word) = {n}"
  by (auto simp: marked_def bit_simps)

lemma marked_shift: "n < LENGTH('a) \<Longrightarrow> marked (drop_bit n (- 1) :: 'a::len word) = {n..<LENGTH('a)}"
  by (auto simp: marked_def bit_simps)

lemma popcount_marked: "popcount w = card (marked (w :: 'a::len word))"
proof -
  have "popcount w = card {i. i < LENGTH('a) \<and> bit w i}"
    unfolding popcount_def by (subst distinct_card [symmetric]) (auto intro: arg_cong [where f = card])
  also have "\<dots> = card ((\<lambda>i. LENGTH('a) - 1 - i) ` marked w)"
  proof (rule arg_cong [where f = card], safe)
    fix i
    assume "i < LENGTH('a)" "bit w i"
    then show "i \<in> (\<lambda>i. LENGTH('a) - 1 - i) ` marked w"
      by (intro image_eqI [of _ _ "LENGTH('a) - 1 - i"]) (auto simp: marked_def)
  qed (auto simp: marked_def)
  also have "\<dots> = card (marked w)"
    by (rule card_image) (auto simp: inj_on_def marked_def)
  finally show ?thesis .
qed

text \<open>The first position of a list that satisfies a predicate.\<close>

lemma first_upt:
  assumes "\<exists>i < n. P i"
  shows "length (takeWhile (\<lambda>i. \<not> P i) [0..<n]) = Min {i. i < n \<and> P i}"
proof -
  let ?k = "length (takeWhile (\<lambda>i. \<not> P i) [0..<n])"
  have k: "?k < n" using assms by (metis atLeastLessThan_iff diff_zero length_takeWhile_le length_upt
      le_neq_implies_less set_upt takeWhile_eq_all_conv takeWhile_eq_take take_all_iff zero_le order_refl)
  then have "P ?k" using nth_length_takeWhile [of "\<lambda>i. \<not> P i" "[0..<n]"] by simp
  moreover have "\<not> P i" if "i < ?k" for i
  proof -
    have "takeWhile (\<lambda>i. \<not> P i) [0..<n] ! i = i" using takeWhile_nth [OF that] that k by simp
    then show ?thesis using nth_mem [OF that] set_takeWhileD by metis
  qed
  ultimately show ?thesis using k by (intro Min_eqI [symmetric]) (auto simp: not_less [symmetric])
qed

lemma builtin_clz_marked: "w \<noteq> 0 \<Longrightarrow> builtin_clz w = Ok (Min (marked (w :: 'a::len word)))"
  using first_upt [of "LENGTH('a)" "\<lambda>i. bit w (LENGTH('a) - 1 - i)"] marked_empty_iff [of w]
  by (auto simp: builtin_clz_def marked_def)

lemma builtin_ctz_marked:
  assumes "w \<noteq> 0"
  shows "res_map (\<lambda>n. LENGTH('a) - 1 - n) (builtin_ctz w) = Ok (Max (marked (w :: 'a::len word)))"
proof -
  let ?S = "{i. i < LENGTH('a) \<and> bit w i}"
  obtain m where m: "m \<in> marked w" using marked_empty_iff [of w] assms by blast
  then have ne: "?S \<noteq> {}" by (auto simp: marked_def intro!: exI [of _ "LENGTH('a) - 1 - m"])
  then have c: "builtin_ctz w = Ok (Min ?S)" using first_upt [of "LENGTH('a)" "bit w"] assms by (auto simp: builtin_ctz_def)
  have min: "Min ?S \<in> ?S" using ne by (intro Min_in) auto
  have "Max (marked w) = LENGTH('a) - 1 - Min ?S"
  proof (rule Max_eqI)
    show "LENGTH('a) - 1 - Min ?S \<in> marked w" using min by (auto simp: marked_def)
    fix n
    assume n: "n \<in> marked w"
    then have "LENGTH('a) - 1 - n \<in> ?S" by (auto simp: marked_def)
    then have "Min ?S \<le> LENGTH('a) - 1 - n" by (intro Min_le) auto
    then show "n \<le> LENGTH('a) - 1 - Min ?S" using marked_bound [OF n] by linarith
  qed simp
  then show ?thesis by (simp add: c)
qed

subsection \<open>Interface: a set of numbers below a width\<close>

locale bit_set =
  fixes width :: nat and elems :: "'w \<Rightarrow> nat set" and empty :: 'w
    and mark :: "'w \<Rightarrow> nat \<Rightarrow> 'w res" and take_first :: "'w \<Rightarrow> (nat \<times> 'w) res" and mark_first :: "'w \<Rightarrow> (nat \<times> 'w) res"
    and index :: "'w \<Rightarrow> nat \<Rightarrow> nat res"
  assumes elems_bound: "elems w \<subseteq> {..<width}"
    and elems_empty: "elems empty = {}"
    and mark_law: "n < width \<Longrightarrow> \<exists>w'. mark w n = Ok w' \<and> elems w' = insert n (elems w)"
    and take_first_law: "elems w \<noteq> {} \<Longrightarrow> \<exists>w'. take_first w = Ok (Min (elems w), w') \<and> elems w' = elems w - {Min (elems w)}"
    and mark_first_law: "elems w \<noteq> {..<width} \<Longrightarrow>
      \<exists>w'. mark_first w = Ok (Min ({..<width} - elems w), w') \<and> elems w' = insert (Min ({..<width} - elems w)) (elems w)"
    and index_law: "n < width \<Longrightarrow> index w n = Ok (card {m \<in> elems w. m < n})"
begin

lemma finite_elems: "finite (elems w)"
  using elems_bound finite_subset by blast

text \<open>Marking a list of numbers, and taking the first element until none is left.\<close>

fun mark_all :: "nat list \<Rightarrow> 'w \<Rightarrow> 'w res" where
  "mark_all [] w = Ok w"
| "mark_all (n # ns) w = res_bind (mark w n) (mark_all ns)"

fun drain :: "nat \<Rightarrow> 'w \<Rightarrow> nat list res" where
  "drain 0 w = Ok []"
| "drain (Suc k) w = res_bind (take_first w) (\<lambda>(n, w). res_map (\<lambda>ns. n # ns) (drain k w))"

lemma mark_all_elems: "set ns \<subseteq> {..<width} \<Longrightarrow> \<exists>w'. mark_all ns w = Ok w' \<and> elems w' = elems w \<union> set ns"
proof (induction ns arbitrary: w)
  case (Cons n ns)
  then obtain w1 where w1: "mark w n = Ok w1" "elems w1 = insert n (elems w)" using mark_law [of n w] by auto
  obtain w2 where "mark_all ns w1 = Ok w2" "elems w2 = elems w1 \<union> set ns" using Cons.IH [of w1] Cons.prems by auto
  then show ?case using w1 by auto
qed simp

lemma drain_sorted: "k = card (elems w) \<Longrightarrow> drain k w = Ok (sorted_list_of_set (elems w))"
proof (induction k arbitrary: w)
  case 0
  then show ?case using finite_elems [of w] by simp
next
  case (Suc k)
  then have ne: "elems w \<noteq> {}" by auto
  obtain w1 where w1: "take_first w = Ok (Min (elems w), w1)" "elems w1 = elems w - {Min (elems w)}"
    using take_first_law [OF ne] by blast
  have "k = card (elems w1)" using Suc.prems ne finite_elems [of w] w1(2) by (simp add: card_Diff_singleton)
  then show ?case
    using Suc.IH [of w1] w1 sorted_list_of_set_nonempty [OF finite_elems ne] by simp
qed

text \<open>So the numbers that were marked come back, each once, in ascending order.\<close>

lemma sort_by_marking:
  assumes "set ns \<subseteq> {..<width}"
  shows "\<exists>w. mark_all ns empty = Ok w \<and> drain (card (set ns)) w = Ok (sorted_list_of_set (set ns))"
proof -
  obtain w where w: "mark_all ns empty = Ok w" "elems w = set ns" using mark_all_elems [OF assms, of empty] elems_empty by auto
  then show ?thesis using drain_sorted [of "card (set ns)" w] by simp
qed

text \<open>The index of an element is its place in this order.\<close>

lemma index_is_place:
  assumes "n \<in> elems w"
  shows "\<exists>i. index w n = Ok i \<and> i < card (elems w) \<and> sorted_list_of_set (elems w) ! i = n"
proof -
  let ?l = "sorted_list_of_set (elems w)"
  have f: "finite (elems w)" by (rule finite_elems)
  then obtain i where i: "i < length ?l" "?l ! i = n" using assms by (metis in_set_conv_nth set_sorted_list_of_set)
  have s: "sorted_wrt (<) ?l" by (rule strict_sorted_list_of_set)
  have lt: "?l ! j < n \<longleftrightarrow> j < i" if "j < length ?l" for j
    using sorted_wrt_nth_less [OF s, of j i] sorted_wrt_nth_less [OF s, of i j] that i
    by (cases j i rule: linorder_cases) auto
  have "{m \<in> elems w. m < n} = (!) ?l ` {0..<i}"
  proof (intro set_eqI iffI)
    fix m
    assume m: "m \<in> {m \<in> elems w. m < n}"
    then have "m \<in> set ?l" using f by simp
    then obtain j where "j < length ?l" "?l ! j = m" by (auto simp only: in_set_conv_nth)
    then show "m \<in> (!) ?l ` {0..<i}" using lt [of j] m by auto
  next
    fix m
    assume "m \<in> (!) ?l ` {0..<i}"
    then obtain j where j: "j < i" "m = ?l ! j" by auto
    then have "m \<in> set ?l" using i(1) by (intro nth_mem [of j ?l, folded j(2)]) simp
    then show "m \<in> {m \<in> elems w. m < n}" using lt [of j] j i(1) f by simp
  qed
  also have "\<dots> = set (take i ?l)" using i(1) by (intro nth_image) simp
  finally have "{m \<in> elems w. m < n} = set (take i ?l)" .
  moreover have "card (set (take i ?l)) = i"
    using i(1) by (subst distinct_card) (auto intro: distinct_take)
  moreover have "n < width" using elems_bound assms by auto
  ultimately show ?thesis using index_law i by (intro exI [of _ i]) auto
qed

end

subsection \<open>Both structures are such sets\<close>

lemma valueForBit32_top: "n < 32 \<Longrightarrow> valueForBit32 n = Ok (top_bit n)"
  by (simp add: valueForBit32_def)

lemma valueForBit64_top: "n < 64 \<Longrightarrow> valueForBit64 n = Ok (top_bit n)"
  by (simp add: valueForBit64_def)

lemma marked_top32: "n < 32 \<Longrightarrow> marked (top_bit n :: u32) = {n}"
  using marked_top [where 'a = 32] by simp

lemma marked_top64: "n < 64 \<Longrightarrow> marked (top_bit n :: u64) = {n}"
  using marked_top [where 'a = 64] by simp

lemma marked_bound32: "n \<in> marked (w :: u32) \<Longrightarrow> n < 32"
  using marked_bound [of n w] by simp

lemma marked_bound64: "n \<in> marked (w :: u64) \<Longrightarrow> n < 64"
  using marked_bound [of n w] by simp

lemma bit_ops32:
  "n < 32 \<Longrightarrow> hasBit32 v n = Ok (n \<in> marked v)"
  "n < 32 \<Longrightarrow> \<exists>w. markBit32 v n = Ok w \<and> marked w = insert n (marked v)"
  "n < 32 \<Longrightarrow> \<exists>w. clearBit32 v n = Ok w \<and> marked w = marked v - {n}"
proof -
  assume n: "n < 32"
  have "v AND top_bit n \<noteq> 0 \<longleftrightarrow> n \<in> marked v"
    using marked_top32 [OF n] marked_empty_iff [of "v AND top_bit n"] by (auto simp: marked_and)
  then show "hasBit32 v n = Ok (n \<in> marked v)" by (simp add: hasBit32_def valueForBit32_top [OF n] del: push_bit_of_1)
  show "\<exists>w. markBit32 v n = Ok w \<and> marked w = insert n (marked v)"
    using marked_top32 [OF n] by (simp add: markBit32_def valueForBit32_top [OF n] marked_or del: push_bit_of_1)
  show "\<exists>w. clearBit32 v n = Ok w \<and> marked w = marked v - {n}"
    using marked_top32 [OF n] marked_bound32 [of _ v]
    by (auto simp: clearBit32_def valueForBit32_top [OF n] marked_and marked_not simp del: push_bit_of_1)
qed

lemma bit_ops64:
  "n < 64 \<Longrightarrow> hasBit64 v n = Ok (n \<in> marked v)"
  "n < 64 \<Longrightarrow> \<exists>w. markBit64 v n = Ok w \<and> marked w = insert n (marked v)"
  "n < 64 \<Longrightarrow> \<exists>w. clearBit64 v n = Ok w \<and> marked w = marked v - {n}"
proof -
  assume n: "n < 64"
  have "v AND top_bit n \<noteq> 0 \<longleftrightarrow> n \<in> marked v"
    using marked_top64 [OF n] marked_empty_iff [of "v AND top_bit n"] by (auto simp: marked_and)
  then show "hasBit64 v n = Ok (n \<in> marked v)" by (simp add: hasBit64_def valueForBit64_top [OF n] del: push_bit_of_1)
  show "\<exists>w. markBit64 v n = Ok w \<and> marked w = insert n (marked v)"
    using marked_top64 [OF n] by (simp add: markBit64_def valueForBit64_top [OF n] marked_or del: push_bit_of_1)
  show "\<exists>w. clearBit64 v n = Ok w \<and> marked w = marked v - {n}"
    using marked_top64 [OF n] marked_bound64 [of _ v]
    by (auto simp: clearBit64_def valueForBit64_top [OF n] marked_and marked_not simp del: push_bit_of_1)
qed

lemma bit_first32:
  fixes v :: u32
  shows "marked v \<noteq> {} \<Longrightarrow> firstMarkedBit32 v = Ok (Min (marked v))"
    "marked v \<noteq> {} \<Longrightarrow> lastMarkedBit32 v = Ok (Max (marked v))"
    "marked v \<noteq> {..<32} \<Longrightarrow> firstUnmarkedBit32 v = Ok (Min ({..<32} - marked v))"
  using builtin_clz_marked [of v] builtin_clz_marked [of "NOT v"] builtin_ctz_marked [of v] marked_bound32 [of _ v]
    marked_empty_iff [of v] marked_empty_iff [of "NOT v"]
  by (auto simp: firstMarkedBit32_def lastMarkedBit32_def firstUnmarkedBit32_def marked_not)

lemma Min_marked32: "marked (v :: u32) \<noteq> {} \<Longrightarrow> Min (marked v) < 32" "marked (v :: u32) \<noteq> {} \<Longrightarrow> Max (marked v) < 32"
  using Min_in [of "marked v"] Max_in [of "marked v"] marked_bound32 [of _ v] by auto

lemma bit_take32:
  fixes v :: u32
  shows "marked v \<noteq> {} \<Longrightarrow> \<exists>w. clearFirstMarkedBit32 v = Ok (Min (marked v), w) \<and> marked w = marked v - {Min (marked v)}"
    "marked v \<noteq> {} \<Longrightarrow> \<exists>w. clearLastMarkedBit32 v = Ok (Max (marked v), w) \<and> marked w = marked v - {Max (marked v)}"
    "marked v \<noteq> {..<32} \<Longrightarrow> \<exists>w. markFirstUnmarkedBit32 v = Ok (Min ({..<32} - marked v), w) \<and>
       marked w = insert (Min ({..<32} - marked v)) (marked v)"
proof -
  show "\<exists>w. clearFirstMarkedBit32 v = Ok (Min (marked v), w) \<and> marked w = marked v - {Min (marked v)}" if "marked v \<noteq> {}"
    using that bit_ops32(3) [OF Min_marked32(1) [OF that], of v]
    by (auto simp: clearFirstMarkedBit32_def bit_first32)
  show "\<exists>w. clearLastMarkedBit32 v = Ok (Max (marked v), w) \<and> marked w = marked v - {Max (marked v)}" if "marked v \<noteq> {}"
    using that bit_ops32(3) [OF Min_marked32(2) [OF that], of v]
    by (auto simp: clearLastMarkedBit32_def bit_first32)
  assume v: "marked v \<noteq> {..<32}"
  then have "{..<32} - marked v \<noteq> {}" using marked_bound32 [of _ v] by auto
  then have "Min ({..<32} - marked v) < 32" using Min_in [of "{..<32} - marked v"] by auto
  then show "\<exists>w. markFirstUnmarkedBit32 v = Ok (Min ({..<32} - marked v), w) \<and> marked w = insert (Min ({..<32} - marked v)) (marked v)"
    using v bit_ops32(2) [of "Min ({..<32} - marked v)" v] by (auto simp: markFirstUnmarkedBit32_def bit_first32)
qed

lemma full32: "(0xffffffff :: u32) = - 1"
  by code_simp

lemma bit_index32: "n < 32 \<Longrightarrow> getIndexOfBit32 v n = Ok (card {m \<in> marked v. m < n})"
proof -
  assume n: "n < 32"
  have "marked (v AND NOT (drop_bit n (- 1 :: u32))) = {m \<in> marked v. m < n}"
    using n marked_shift [where 'a = 32, of n] marked_bound32 [of _ v] by (auto simp: marked_and marked_not)
  then show ?thesis using n unfolding getIndexOfBit32_def full32 popcount_marked by simp
qed

lemma bit_first64:
  fixes v :: u64
  shows "marked v \<noteq> {} \<Longrightarrow> firstMarkedBit64 v = Ok (Min (marked v))"
    "marked v \<noteq> {} \<Longrightarrow> lastMarkedBit64 v = Ok (Max (marked v))"
    "marked v \<noteq> {..<64} \<Longrightarrow> firstUnmarkedBit64 v = Ok (Min ({..<64} - marked v))"
  using builtin_clz_marked [of v] builtin_clz_marked [of "NOT v"] builtin_ctz_marked [of v] marked_bound64 [of _ v]
    marked_empty_iff [of v] marked_empty_iff [of "NOT v"]
  by (auto simp: firstMarkedBit64_def lastMarkedBit64_def firstUnmarkedBit64_def marked_not)

lemma Min_marked64: "marked (v :: u64) \<noteq> {} \<Longrightarrow> Min (marked v) < 64" "marked (v :: u64) \<noteq> {} \<Longrightarrow> Max (marked v) < 64"
  using Min_in [of "marked v"] Max_in [of "marked v"] marked_bound64 [of _ v] by auto

lemma bit_take64:
  fixes v :: u64
  shows "marked v \<noteq> {} \<Longrightarrow> \<exists>w. clearFirstMarkedBit64 v = Ok (Min (marked v), w) \<and> marked w = marked v - {Min (marked v)}"
    "marked v \<noteq> {} \<Longrightarrow> \<exists>w. clearLastMarkedBit64 v = Ok (Max (marked v), w) \<and> marked w = marked v - {Max (marked v)}"
    "marked v \<noteq> {..<64} \<Longrightarrow> \<exists>w. markFirstUnmarkedBit64 v = Ok (Min ({..<64} - marked v), w) \<and>
       marked w = insert (Min ({..<64} - marked v)) (marked v)"
proof -
  show "\<exists>w. clearFirstMarkedBit64 v = Ok (Min (marked v), w) \<and> marked w = marked v - {Min (marked v)}" if "marked v \<noteq> {}"
    using that bit_ops64(3) [OF Min_marked64(1) [OF that], of v]
    by (auto simp: clearFirstMarkedBit64_def bit_first64)
  show "\<exists>w. clearLastMarkedBit64 v = Ok (Max (marked v), w) \<and> marked w = marked v - {Max (marked v)}" if "marked v \<noteq> {}"
    using that bit_ops64(3) [OF Min_marked64(2) [OF that], of v]
    by (auto simp: clearLastMarkedBit64_def bit_first64)
  assume v: "marked v \<noteq> {..<64}"
  then have "{..<64} - marked v \<noteq> {}" using marked_bound64 [of _ v] by auto
  then have "Min ({..<64} - marked v) < 64" using Min_in [of "{..<64} - marked v"] by auto
  then show "\<exists>w. markFirstUnmarkedBit64 v = Ok (Min ({..<64} - marked v), w) \<and> marked w = insert (Min ({..<64} - marked v)) (marked v)"
    using v bit_ops64(2) [of "Min ({..<64} - marked v)" v] by (auto simp: markFirstUnmarkedBit64_def bit_first64)
qed

lemma full64: "(0xffffffffffffffff :: u64) = - 1"
  by code_simp

lemma bit_index64: "n < 64 \<Longrightarrow> getIndexOfBit64 v n = Ok (card {m \<in> marked v. m < n})"
proof -
  assume n: "n < 64"
  have "marked (v AND NOT (drop_bit n (- 1 :: u64))) = {m \<in> marked v. m < n}"
    using n marked_shift [where 'a = 64, of n] marked_bound64 [of _ v] by (auto simp: marked_and marked_not)
  then show ?thesis using n unfolding getIndexOfBit64_def full64 popcount_marked by simp
qed

interpretation bits32: bit_set 32 "marked :: u32 \<Rightarrow> nat set" 0 markBit32 clearFirstMarkedBit32 markFirstUnmarkedBit32 getIndexOfBit32
proof
  fix v :: u32 and m
  show "marked v \<subseteq> {..<32}" using marked_bound32 [of _ v] by auto
  show "marked (0 :: u32) = {}" by simp
  show "\<exists>w'. markBit32 v m = Ok w' \<and> marked w' = insert m (marked v)" if "m < 32" using that by (rule bit_ops32)
  show "\<exists>w'. clearFirstMarkedBit32 v = Ok (Min (marked v), w') \<and> marked w' = marked v - {Min (marked v)}"
    if "marked v \<noteq> {}" using that by (rule bit_take32)
  show "\<exists>w'. markFirstUnmarkedBit32 v = Ok (Min ({..<32} - marked v), w') \<and> marked w' = insert (Min ({..<32} - marked v)) (marked v)"
    if "marked v \<noteq> {..<32}" using that by (rule bit_take32)
  show "getIndexOfBit32 v m = Ok (card {k \<in> marked v. k < m})" if "m < 32" using that by (rule bit_index32)
qed

interpretation bits64: bit_set 64 "marked :: u64 \<Rightarrow> nat set" 0 markBit64 clearFirstMarkedBit64 markFirstUnmarkedBit64 getIndexOfBit64
proof
  fix v :: u64 and m
  show "marked v \<subseteq> {..<64}" using marked_bound64 [of _ v] by auto
  show "marked (0 :: u64) = {}" by simp
  show "\<exists>w'. markBit64 v m = Ok w' \<and> marked w' = insert m (marked v)" if "m < 64" using that by (rule bit_ops64)
  show "\<exists>w'. clearFirstMarkedBit64 v = Ok (Min (marked v), w') \<and> marked w' = marked v - {Min (marked v)}"
    if "marked v \<noteq> {}" using that by (rule bit_take64)
  show "\<exists>w'. markFirstUnmarkedBit64 v = Ok (Min ({..<64} - marked v), w') \<and> marked w' = insert (Min ({..<64} - marked v)) (marked v)"
    if "marked v \<noteq> {..<64}" using that by (rule bit_take64)
  show "getIndexOfBit64 v m = Ok (card {k \<in> marked v. k < m})" if "m < 64" using that by (rule bit_index64)
qed

text \<open>The operations without a position.\<close>

lemma bit_whole32:
  "marked (clear32 v) = {}" "count32 v = card (marked v)" "isEmpty32 v \<longleftrightarrow> marked v = {}" "isFull32 v \<longleftrightarrow> marked v = {..<32}"
  "marked (and32 v w) = marked v \<inter> marked w" "marked (or32 v w) = marked v \<union> marked w" "v = w \<longleftrightarrow> marked v = marked w"
  using marked_eq_iff [of v "- 1"]
  by (simp_all add: clear32_def count32_def popcount_marked isEmpty32_def isFull32_def full32 and32_def or32_def marked_empty_iff
      marked_and marked_or marked_eq_iff)

lemma bit_whole64:
  "marked (clear64 v) = {}" "count64 v = card (marked v)" "isEmpty64 v \<longleftrightarrow> marked v = {}" "isFull64 v \<longleftrightarrow> marked v = {..<64}"
  "marked (and64 v w) = marked v \<inter> marked w" "marked (or64 v w) = marked v \<union> marked w" "v = w \<longleftrightarrow> marked v = marked w"
  using marked_eq_iff [of v "- 1"]
  by (simp_all add: clear64_def count64_def popcount_marked isEmpty64_def isFull64_def full64 and64_def or64_def marked_empty_iff
      marked_and marked_or marked_eq_iff)

lemma BitSet32_operations:
  "hasBit32 v n = (if n < 32 then Ok (n \<in> marked v) else Undef)"
  "res_map marked (markBit32 v n) = (if n < 32 then Ok (insert n (marked v)) else Undef)"
  "res_map marked (clearBit32 v n) = (if n < 32 then Ok (marked v - {n}) else Undef)"
  "firstMarkedBit32 v = (if marked v = {} then Undef else Ok (Min (marked v)))"
  "lastMarkedBit32 v = (if marked v = {} then Undef else Ok (Max (marked v)))"
  "firstUnmarkedBit32 v = (if marked v = {..<32} then Undef else Ok (Min ({..<32} - marked v)))"
  "getIndexOfBit32 v n = (if n < 32 then Ok (card {m \<in> marked v. m < n}) else Undef)"
proof -
  show "hasBit32 v n = (if n < 32 then Ok (n \<in> marked v) else Undef)"
    using bit_ops32(1) [of n v] by (auto simp: hasBit32_def valueForBit32_def)
  show "res_map marked (markBit32 v n) = (if n < 32 then Ok (insert n (marked v)) else Undef)"
    using bit_ops32(2) [of n v] by (auto simp: markBit32_def valueForBit32_def)
  show "res_map marked (clearBit32 v n) = (if n < 32 then Ok (marked v - {n}) else Undef)"
    using bit_ops32(3) [of n v] by (auto simp: clearBit32_def valueForBit32_def)
  show "firstMarkedBit32 v = (if marked v = {} then Undef else Ok (Min (marked v)))"
    "lastMarkedBit32 v = (if marked v = {} then Undef else Ok (Max (marked v)))"
    using bit_first32 [of v]
    by (auto simp: firstMarkedBit32_def lastMarkedBit32_def builtin_clz_def builtin_ctz_def marked_empty_iff)
  show "firstUnmarkedBit32 v = (if marked v = {..<32} then Undef else Ok (Min ({..<32} - marked v)))"
  proof (cases "marked v = {..<32}")
    case True
    then have "v = - 1" using bit_whole32(4) [of v] by (simp add: isFull32_def full32)
    then show ?thesis by (simp add: firstUnmarkedBit32_def builtin_clz_def)
  qed (simp add: bit_first32(3))
  show "getIndexOfBit32 v n = (if n < 32 then Ok (card {m \<in> marked v. m < n}) else Undef)"
    using bit_index32 [of n v] by (auto simp: getIndexOfBit32_def)
qed


text \<open>A set of 64 bits sorts: what is marked comes back in ascending order, and the index of an element is
  its place in it.\<close>

theorem BitSet64_sorts:
  assumes "set ns \<subseteq> {..<64}"
  shows "\<exists>v. bits64.mark_all ns 0 = Ok v \<and> bits64.drain (card (set ns)) v = Ok (sorted_list_of_set (set ns))"
  by (rule bits64.sort_by_marking [OF assms])

lemma BitSet64_sorts_witness:
  "\<exists>v. bits64.mark_all [9, 63, 0] 0 = Ok v \<and> bits64.drain 3 v = Ok [0, 9, 63]"
  using BitSet64_sorts [of "[9, 63, 0]"] by (simp add: numeral_3_eq_3)

end
