(* ===== verification/Strong_Pointer.thy ===== *)
theory Strong_Pointer
  imports MC_Prelude
begin

section \<open>\<open>utils/StrongPointer.h\<close> and \<open>utils/LightRefBase.h\<close>: counted pointers\<close>

text \<open>
  The objects of the recorder are held by \<open>sp<T>\<close>. The pointer template is in the repository, and so is
  one of the two bases it counts in, \<open>LightRefBase\<close>; the other, \<open>RefBase\<close>, is only declared.

  \<^item> An object is an address with its counter \<open>mCount\<close>, 32 bits wide; null is 0.
  \<^item> An \<open>sp\<close> is a location with its \<open>m_ptr\<close>: a variable, or a member of an object. \<open>members p\<close> are the
    locations inside object \<open>p\<close>, in the order the destructor of \<open>p\<close> destroys them.
  \<^item> \<open>delete\<close> runs the destructor, which drops the members, before the memory is gone. As dropping a member
    may delete further objects, \<open>release\<close> runs a stack of pending work.

  The objects are on the heap, so that \<open>check_not_on_stack\<close> has nothing to report; one thread is modelled.
\<close>

type_synonym location = nat
type_synonym address = nat

record refs =
  mCount :: "address \<rightharpoonup> u32"
  m_ptr :: "location \<rightharpoonup> address"
  deleted :: "address list"
  races :: nat

subsection \<open>Counting\<close>

datatype work = Dec address | Drop location | Free address

definition incStrong :: "address \<Rightarrow> refs \<Rightarrow> refs res" where
  "incStrong p s = (case mCount s p of None \<Rightarrow> Undef | Some c \<Rightarrow> Ok (s\<lparr>mCount := (mCount s)(p \<mapsto> c + 1)\<rparr>))"

text \<open>\<open>fetch_sub\<close> returns the old value; at 1 the object is deleted.\<close>

fun release :: "(address \<Rightarrow> location list) \<Rightarrow> nat \<Rightarrow> work list \<Rightarrow> refs \<Rightarrow> refs res" where
  "release members 0 w s = (if w = [] then Ok s else NoFuel)"
| "release members (Suc fuel) [] s = Ok s"
| "release members (Suc fuel) (Dec p # w) s = (case mCount s p of None \<Rightarrow> Undef
     | Some c \<Rightarrow> release members fuel (if c = 1 then map Drop (members p) @ Free p # w else w) (s\<lparr>mCount := (mCount s)(p \<mapsto> c - 1)\<rparr>))"
| "release members (Suc fuel) (Drop l # w) s = (case m_ptr s l of None \<Rightarrow> Undef
     | Some p \<Rightarrow> release members fuel (if p \<noteq> 0 then Dec p # w else w) (s\<lparr>m_ptr := (m_ptr s)(l := None)\<rparr>))"
| "release members (Suc fuel) (Free p # w) s = (case mCount s p of None \<Rightarrow> Undef
     | Some c \<Rightarrow> release members fuel w (s\<lparr>mCount := (mCount s)(p := None), deleted := deleted s @ [p]\<rparr>))"

definition decStrong :: "(address \<Rightarrow> location list) \<Rightarrow> nat \<Rightarrow> address \<Rightarrow> refs \<Rightarrow> refs res" where
  "decStrong members fuel p = release members fuel [Dec p]"

subsection \<open>\<open>sp<T>\<close>\<close>

definition read_ptr :: "location \<Rightarrow> refs \<Rightarrow> address res" where
  "read_ptr l s = (case m_ptr s l of None \<Rightarrow> Undef | Some p \<Rightarrow> Ok p)"

definition write_ptr :: "location \<Rightarrow> address \<Rightarrow> refs \<Rightarrow> refs res" where
  "write_ptr l p s = (if m_ptr s l = None then Undef else Ok (s\<lparr>m_ptr := (m_ptr s)(l \<mapsto> p)\<rparr>))"

definition inc_if :: "address \<Rightarrow> refs \<Rightarrow> refs res" where
  "inc_if p s = (if p \<noteq> 0 then incStrong p s else Ok s)"

definition dec_if :: "(address \<Rightarrow> location list) \<Rightarrow> nat \<Rightarrow> address \<Rightarrow> refs \<Rightarrow> refs res" where
  "dec_if members fuel p s = (if p \<noteq> 0 then decStrong members fuel p s else Ok s)"

text \<open>\<open>if (oldPtr != m_ptr) sp_report_race()\<close>: the pointer is read again.\<close>

definition check_race :: "location \<Rightarrow> address \<Rightarrow> refs \<Rightarrow> refs res" where
  "check_race l oldPtr s = res_map (\<lambda>p. if oldPtr \<noteq> p then s\<lparr>races := races s + 1\<rparr> else s) (read_ptr l s)"

definition sp_null :: "location \<Rightarrow> refs \<Rightarrow> refs" where
  "sp_null l s = s\<lparr>m_ptr := (m_ptr s)(l \<mapsto> 0)\<rparr>"

definition sp_from_ptr :: "location \<Rightarrow> address \<Rightarrow> refs \<Rightarrow> refs res" where
  "sp_from_ptr l other s = inc_if other (s\<lparr>m_ptr := (m_ptr s)(l \<mapsto> other)\<rparr>)"

definition sp_copy :: "location \<Rightarrow> location \<Rightarrow> refs \<Rightarrow> refs res" where
  "sp_copy l other s = res_bind (read_ptr other s) (\<lambda>p. inc_if p (s\<lparr>m_ptr := (m_ptr s)(l \<mapsto> p)\<rparr>))"

definition sp_move :: "location \<Rightarrow> location \<Rightarrow> refs \<Rightarrow> refs res" where
  "sp_move l other s = res_bind (read_ptr other s) (\<lambda>p. write_ptr other 0 (s\<lparr>m_ptr := (m_ptr s)(l \<mapsto> p)\<rparr>))"

definition sp_destroy :: "(address \<Rightarrow> location list) \<Rightarrow> nat \<Rightarrow> location \<Rightarrow> refs \<Rightarrow> refs res" where
  "sp_destroy members fuel l = release members fuel [Drop l]"

definition sp_assign_copy :: "(address \<Rightarrow> location list) \<Rightarrow> nat \<Rightarrow> location \<Rightarrow> location \<Rightarrow> refs \<Rightarrow> refs res" where
  "sp_assign_copy members fuel l other s =
     res_bind (read_ptr l s) (\<lambda>oldPtr. res_bind (read_ptr other s) (\<lambda>otherPtr.
     res_bind (inc_if otherPtr s) (\<lambda>s. res_bind (dec_if members fuel oldPtr s) (\<lambda>s.
     res_bind (check_race l oldPtr s) (write_ptr l otherPtr)))))"

definition sp_assign_move :: "(address \<Rightarrow> location list) \<Rightarrow> nat \<Rightarrow> location \<Rightarrow> location \<Rightarrow> refs \<Rightarrow> refs res" where
  "sp_assign_move members fuel l other s =
     res_bind (read_ptr l s) (\<lambda>oldPtr. res_bind (dec_if members fuel oldPtr s) (\<lambda>s.
     res_bind (check_race l oldPtr s) (\<lambda>s. res_bind (read_ptr other s) (\<lambda>p.
     res_bind (write_ptr l p s) (write_ptr other 0)))))"

definition sp_assign_ptr :: "(address \<Rightarrow> location list) \<Rightarrow> nat \<Rightarrow> location \<Rightarrow> address \<Rightarrow> refs \<Rightarrow> refs res" where
  "sp_assign_ptr members fuel l other s =
     res_bind (read_ptr l s) (\<lambda>oldPtr. res_bind (inc_if other s) (\<lambda>s.
     res_bind (dec_if members fuel oldPtr s) (\<lambda>s. res_bind (check_race l oldPtr s) (write_ptr l other))))"

definition sp_clear :: "(address \<Rightarrow> location list) \<Rightarrow> nat \<Rightarrow> location \<Rightarrow> refs \<Rightarrow> refs res" where
  "sp_clear members fuel l s = res_bind (read_ptr l s) (\<lambda>oldPtr.
     if oldPtr \<noteq> 0 then res_bind (decStrong members fuel oldPtr s) (\<lambda>s.
       res_bind (check_race l oldPtr s) (write_ptr l 0))
     else Ok s)"

text \<open>\<open>new T\<close>: the counter starts at 0, the members are null.\<close>

definition new_object :: "(address \<Rightarrow> location list) \<Rightarrow> address \<Rightarrow> refs \<Rightarrow> refs" where
  "new_object members p s = s\<lparr>mCount := (mCount s)(p \<mapsto> 0), m_ptr := (\<lambda>l. if l \<in> set (members p) then Some 0 else m_ptr s l)\<rparr>"

subsection \<open>The invariant\<close>

text \<open>\<open>p\<close> is counted once for each pointer to it and once for each decrement that is still to come.\<close>

definition pointers_to :: "refs \<Rightarrow> address \<Rightarrow> location set" where
  "pointers_to s p = {l. m_ptr s l = Some p}"

definition counted :: "refs \<Rightarrow> work list \<Rightarrow> address \<Rightarrow> nat" where
  "counted s w p = card (pointers_to s p) + count_list w (Dec p)"

definition decs :: "work list \<Rightarrow> nat" where
  "decs w = length (filter (\<lambda>x. case x of Dec p \<Rightarrow> True | _ \<Rightarrow> False) w)"

definition layout :: "(address \<Rightarrow> location list) \<Rightarrow> bool" where
  "layout members = ((\<forall>p. distinct (members p)) \<and> (\<forall>p q. p \<noteq> q \<longrightarrow> set (members p) \<inter> set (members q) = {}))"

text \<open>
  \<open>raw\<close> are the objects that were made and not given to an \<open>sp\<close> yet. Every other live object is counted at
  least once, every pointer goes to a live object that is not being destroyed, and live objects have
  their members.
\<close>

definition sized :: "work list \<Rightarrow> refs \<Rightarrow> bool" where
  "sized w s = (finite (dom (m_ptr s)) \<and> finite (dom (mCount s)) \<and> card (dom (m_ptr s)) + decs w < 2 ^ 32 \<and> mCount s 0 = None)"

definition counts_ok :: "address set \<Rightarrow> work list \<Rightarrow> refs \<Rightarrow> bool" where
  "counts_ok raw w s = (\<forall>p c. mCount s p = Some c \<longrightarrow>
     unat c = counted s w p \<and> (Free p \<notin> set w \<longrightarrow> 0 < counted s w p \<or> p \<in> raw))"

definition pointers_ok :: "work list \<Rightarrow> refs \<Rightarrow> bool" where
  "pointers_ok w s = (\<forall>l p. m_ptr s l = Some p \<longrightarrow> p = 0 \<or> p \<in> dom (mCount s) \<and> Free p \<notin> set w)"

definition work_ok :: "work list \<Rightarrow> refs \<Rightarrow> bool" where
  "work_ok w s = ((\<forall>p. Dec p \<in> set w \<longrightarrow> p \<in> dom (mCount s) \<and> Free p \<notin> set w) \<and>
     (\<forall>p. Free p \<in> set w \<longrightarrow> p \<in> dom (mCount s) \<and> count_list w (Free p) = 1) \<and>
     (\<forall>l. Drop l \<in> set w \<longrightarrow> l \<in> dom (m_ptr s) \<and> count_list w (Drop l) = 1))"

definition members_ok :: "(address \<Rightarrow> location list) \<Rightarrow> work list \<Rightarrow> refs \<Rightarrow> bool" where
  "members_ok members w s = (\<forall>p \<in> dom (mCount s). Free p \<notin> set w \<longrightarrow>
     (\<forall>l \<in> set (members p). l \<in> dom (m_ptr s) \<and> Drop l \<notin> set w))"

definition refs_ok :: "(address \<Rightarrow> location list) \<Rightarrow> address set \<Rightarrow> work list \<Rightarrow> refs \<Rightarrow> bool" where
  "refs_ok members raw w s = (sized w s \<and> counts_ok raw w s \<and> pointers_ok w s \<and> work_ok w s \<and> members_ok members w s)"

lemmas refs_ok_defs = sized_def counts_ok_def pointers_ok_def work_ok_def members_ok_def

text \<open>Each step of the work keeps the invariant.\<close>

lemma count_list_map_Drop [simp]:
  "count_list (map Drop ls) (Dec p) = 0" "count_list (map Drop ls) (Free p) = 0"
  "count_list (map Drop ls) (Drop l) = count_list ls l"
  by (induction ls) auto

lemma decs_simps [simp]:
  "decs [] = 0" "decs (Dec p # w) = Suc (decs w)" "decs (Drop l # w) = decs w" "decs (Free p # w) = decs w"
  "decs (map Drop ls @ w) = decs w"
  by (simp_all add: decs_def o_def)

lemma count_list_distinct: "distinct xs \<Longrightarrow> x \<in> set xs \<Longrightarrow> count_list xs x = 1"
  by (induction xs) auto

lemma counted_mCount [simp]: "counted (s\<lparr>mCount := m\<rparr>) w p = counted s w p" "counted (s\<lparr>deleted := d\<rparr>) w p = counted s w p"
  by (simp_all add: counted_def pointers_to_def)

lemma counted_simps [simp]:
  "counted s (Dec q # w) p = (if p = q then Suc (counted s w p) else counted s w p)"
  "counted s (Drop l # w) p = counted s w p" "counted s (Free q # w) p = counted s w p"
  "counted s (map Drop ls @ w) p = counted s w p"
  by (simp_all add: counted_def)

lemma dec_step:
  assumes "refs_ok members raw (Dec p # w) s" "layout members" "mCount s p = Some c"
  shows "refs_ok members raw (if c = 1 then map Drop (members p) @ Free p # w else w) (s\<lparr>mCount := (mCount s)(p \<mapsto> c - 1)\<rparr>)"
proof -
  note ok = assms(1) [unfolded refs_ok_def]
  have c: "unat c = Suc (counted s w p)" using ok assms(3) by (auto simp: counts_ok_def)
  then have c0: "c \<noteq> 0" by auto
  then have m: "unat (c - 1) = counted s w p" using c by (simp add: unat_minus_one)
  have c1: "c = 1 \<longleftrightarrow> counted s w p = 0" using c by (simp add: word_unat_eq_iff)
  have live: "Free p \<notin> set w" "p \<in> dom (mCount s)" "p \<noteq> 0" using ok assms(3) by (auto simp: work_ok_def sized_def intro: ccontr)
  have w: "sized w (s\<lparr>mCount := (mCount s)(p \<mapsto> c - 1)\<rparr>)" using ok assms(3) live(3) by (auto simp: sized_def insert_absorb)
  show ?thesis
  proof (cases "c = 1")
    case False
    have "counts_ok raw w (s\<lparr>mCount := (mCount s)(p \<mapsto> c - 1)\<rparr>)"
      using ok m c1 False by (auto simp: counts_ok_def split: if_splits)
    then show ?thesis using ok w False live by (auto simp: refs_ok_def pointers_ok_def work_ok_def members_ok_def)
  next
    case True
    let ?w = "map Drop (members p) @ Free p # w" and ?s = "s\<lparr>mCount := (mCount s)(p \<mapsto> c - 1)\<rparr>"
    have z: "counted s w p = 0" using c1 True by simp
    have "finite (pointers_to s p)"
      using ok by (auto simp: sized_def pointers_to_def intro: finite_subset [of _ "dom (m_ptr s)"])
    then have np: "m_ptr s l \<noteq> Some p" for l
      using z by (auto simp: counted_def pointers_to_def)
    have nd: "Dec p \<notin> set w" using z by (auto simp: counted_def count_list_0_iff)
    have mem: "l \<in> dom (m_ptr s)" "Drop l \<notin> set w" if "l \<in> set (members p)" for l
      using ok that live by (auto simp: members_ok_def)
    have "sized ?w ?s" using w by (simp add: sized_def)
    moreover have "counts_ok raw ?w ?s"
      using ok m by (auto simp: counts_ok_def split: if_splits)
    moreover have "pointers_ok ?w ?s" using ok np by (auto simp: pointers_ok_def)
    moreover have "work_ok ?w ?s"
      using ok nd live mem assms(2)
      by (auto simp: work_ok_def layout_def count_list_distinct count_list_0_iff)
    moreover have "members_ok members ?w ?s"
      using ok assms(2) by (fastforce simp: members_ok_def layout_def)
    ultimately show ?thesis using True by (simp add: refs_ok_def)
  qed
qed

lemma drop_step:
  assumes "refs_ok members raw (Drop l # w) s" "m_ptr s l = Some p"
  shows "refs_ok members raw (if p \<noteq> 0 then Dec p # w else w) (s\<lparr>m_ptr := (m_ptr s)(l := None)\<rparr>)"
proof -
  let ?s = "s\<lparr>m_ptr := (m_ptr s)(l := None)\<rparr>" and ?w = "if p \<noteq> 0 then Dec p # w else w"
  note ok = assms(1) [unfolded refs_ok_def]
  have f: "finite (pointers_to s q)" for q
    using ok by (auto simp: sized_def pointers_to_def intro: finite_subset [of _ "dom (m_ptr s)"])
  have cp: "counted ?s ?w q = counted s w q" if "q \<noteq> 0" for q
  proof (cases "q = p")
    case True
    have "pointers_to ?s p = pointers_to s p - {l}" "l \<in> pointers_to s p"
      using assms(2) by (auto simp: pointers_to_def)
    then have "Suc (card (pointers_to ?s p)) = card (pointers_to s p)" using f [of p] by (metis card_Suc_Diff1)
    then show ?thesis using True that by (simp add: counted_def)
  next
    case False
    then have "pointers_to ?s q = pointers_to s q" using assms(2) by (auto simp: pointers_to_def)
    then show ?thesis using False by (simp add: counted_def)
  qed
  have dl: "Drop l \<notin> set w" using ok by (auto simp: work_ok_def count_list_0_iff)
  have "Suc (card (dom (m_ptr s) - {l})) = card (dom (m_ptr s))"
    using assms(2) ok by (intro card_Suc_Diff1) (auto simp: sized_def)
  then have "sized ?w ?s" using ok by (auto simp: sized_def)
  moreover have "counts_ok raw ?w ?s"
    unfolding counts_ok_def
  proof (intro allI impI)
    fix q c
    assume q: "mCount ?s q = Some c"
    then have "q \<noteq> 0" using ok by (auto simp: sized_def intro: ccontr)
    then show "unat c = counted ?s ?w q \<and> (Free q \<notin> set ?w \<longrightarrow> 0 < counted ?s ?w q \<or> q \<in> raw)"
      using ok q cp [of q] by (auto simp: counts_ok_def)
  qed
  moreover have "pointers_ok ?w ?s" using ok by (auto simp: pointers_ok_def)
  moreover have "work_ok ?w ?s" using ok assms(2) dl by (auto simp: work_ok_def pointers_ok_def split: if_splits)
  moreover have "members_ok members ?w ?s" using ok by (auto simp: members_ok_def)
  ultimately show ?thesis by (simp only: refs_ok_def)
qed

lemma free_step:
  assumes "refs_ok members raw (Free p # w) s"
  shows "refs_ok members raw w (s\<lparr>mCount := (mCount s)(p := None), deleted := d\<rparr>)"
proof -
  note ok = assms [unfolded refs_ok_def]
  let ?s = "s\<lparr>mCount := (mCount s)(p := None), deleted := d\<rparr>"
  have f: "Free p \<notin> set w" "Dec p \<notin> set w" using ok by (auto simp: work_ok_def count_list_0_iff)
  have "work_ok w ?s"
    unfolding work_ok_def
  proof (intro conjI allI impI)
    fix q
    assume q: "Free q \<in> set w"
    then have "q \<noteq> p" using f by auto
    then show "q \<in> dom (mCount ?s)" "count_list w (Free q) = 1" using ok q by (auto simp: work_ok_def)
  qed (use ok f in \<open>auto simp: work_ok_def\<close>)
  moreover have "sized w ?s" "counts_ok raw w ?s" "pointers_ok w ?s" "members_ok members w ?s"
    using ok f by (auto simp: sized_def counts_ok_def pointers_ok_def members_ok_def)
  ultimately show ?thesis by (simp add: refs_ok_def)
qed

text \<open>What is released, and how long that takes: what is pending, the locations and the objects with their
  members bound the steps.\<close>

definition alive :: "work list \<Rightarrow> refs \<Rightarrow> address set" where
  "alive w s = {p \<in> dom (mCount s). Free p \<notin> set w}"

definition effort :: "(address \<Rightarrow> location list) \<Rightarrow> work list \<Rightarrow> refs \<Rightarrow> nat" where
  "effort members w s = length w + card (dom (m_ptr s)) + (\<Sum>p \<in> alive w s. Suc (length (members p)))"

text \<open>Of the locations only pending ones and members of deleted objects go; the pointers that stay are
  unchanged, objects only disappear, and each that does is recorded once.\<close>

definition gone :: "refs \<Rightarrow> refs \<Rightarrow> address set" where
  "gone s s' = dom (mCount s) - dom (mCount s')"

definition shrinks :: "refs \<Rightarrow> refs \<Rightarrow> bool" where
  "shrinks s s' = (m_ptr s' \<subseteq>\<^sub>m m_ptr s \<and> dom (mCount s') \<subseteq> dom (mCount s) \<and> races s' = races s)"

definition logged :: "refs \<Rightarrow> refs \<Rightarrow> bool" where
  "logged s s' = (\<exists>ps. deleted s' = deleted s @ ps \<and> distinct ps \<and> set ps = gone s s')"

definition lost :: "(address \<Rightarrow> location list) \<Rightarrow> work list \<Rightarrow> refs \<Rightarrow> refs \<Rightarrow> bool" where
  "lost members w s s' = ((\<forall>p. Free p \<in> set w \<longrightarrow> mCount s' p = None) \<and> (\<forall>l. Drop l \<in> set w \<longrightarrow> m_ptr s' l = None) \<and>
     (\<forall>l. m_ptr s l \<noteq> None \<longrightarrow> m_ptr s' l = None \<longrightarrow> Drop l \<in> set w \<or> (\<exists>p \<in> gone s s'. l \<in> set (members p))))"

definition released_by :: "(address \<Rightarrow> location list) \<Rightarrow> work list \<Rightarrow> refs \<Rightarrow> refs \<Rightarrow> bool" where
  "released_by members w s s' = (shrinks s s' \<and> logged s s' \<and> lost members w s s')"

lemma released_nothing: "released_by members [] s s"
  by (auto simp: released_by_def shrinks_def logged_def lost_def gone_def)

lemma released_dec:
  assumes "released_by members (if c = 1 then map Drop (members p) @ Free p # w else w) (s\<lparr>mCount := (mCount s)(p \<mapsto> c')\<rparr>) s'"
    and "p \<in> dom (mCount s)"
  shows "released_by members (Dec p # w) s s'"
proof -
  let ?s = "s\<lparr>mCount := (mCount s)(p \<mapsto> c')\<rparr>" and ?w = "if c = 1 then map Drop (members p) @ Free p # w else w"
  have d: "dom (mCount ?s) = dom (mCount s)" using assms(2) by auto
  then have g: "gone ?s s' = gone s s'" by (simp add: gone_def)
  have s: "shrinks ?s s'" and l: "logged ?s s'" and t: "lost members ?w ?s s'" using assms(1) by (simp_all add: released_by_def)
  have "shrinks s s'" using s d by (simp add: shrinks_def)
  moreover have "logged s s'" using l g by (simp add: logged_def)
  moreover have "lost members (Dec p # w) s s'"
  proof (cases "c = 1")
    case True
    then have "p \<in> gone s s'" using t assms(2) by (auto simp: lost_def gone_def)
    then show ?thesis using True t g by (auto simp: lost_def)
  qed (use t g in \<open>auto simp: lost_def\<close>)
  ultimately show ?thesis by (simp add: released_by_def)
qed

lemma released_drop:
  assumes "released_by members (if p \<noteq> 0 then Dec p # w else w) (s\<lparr>m_ptr := (m_ptr s)(l := None)\<rparr>) s'"
  shows "released_by members (Drop l # w) s s'"
proof -
  let ?s = "s\<lparr>m_ptr := (m_ptr s)(l := None)\<rparr>" and ?w = "if p \<noteq> 0 then Dec p # w else w"
  have s: "shrinks ?s s'" and lg: "logged ?s s'" and t: "lost members ?w ?s s'" using assms by (simp_all add: released_by_def)
  have g: "gone ?s s' = gone s s'" by (simp add: gone_def)
  have "(m_ptr s)(l := None) \<subseteq>\<^sub>m m_ptr s" by (simp add: map_le_def)
  then have "shrinks s s'" using s map_le_trans [of "m_ptr s'" "(m_ptr s)(l := None)" "m_ptr s"] by (simp add: shrinks_def)
  moreover have "logged s s'" using lg g by (simp add: logged_def)
  moreover have "m_ptr s' l = None" using s by (auto simp: shrinks_def map_le_def dom_def)
  then have "lost members (Drop l # w) s s'" using t g by (auto simp: lost_def split: if_splits)
  ultimately show ?thesis by (simp add: released_by_def)
qed

lemma released_free:
  assumes "released_by members w (s\<lparr>mCount := (mCount s)(p := None), deleted := deleted s @ [p]\<rparr>) s'" "p \<in> dom (mCount s)"
  shows "released_by members (Free p # w) s s'"
proof -
  let ?s = "s\<lparr>mCount := (mCount s)(p := None), deleted := deleted s @ [p]\<rparr>"
  have s: "shrinks ?s s'" and l: "logged ?s s'" and t: "lost members w ?s s'" using assms by (simp_all add: released_by_def)
  have p: "mCount s' p = None" using s by (auto simp: shrinks_def)
  then have g: "gone s s' = insert p (gone ?s s')" "p \<notin> gone ?s s'" using assms(2) by (auto simp: gone_def)
  have "shrinks s s'" using s by (auto simp: shrinks_def)
  moreover obtain ps where "deleted s' = (deleted s @ [p]) @ ps" "distinct ps" "set ps = gone ?s s'"
    using l by (auto simp: logged_def)
  then have "logged s s'" unfolding logged_def using g by (intro exI [of _ "p # ps"]) simp
  moreover have "lost members (Free p # w) s s'" using t g p by (auto simp: lost_def)
  ultimately show ?thesis by (simp add: released_by_def)
qed

text \<open>The steps take effort.\<close>

lemma effort_dec:
  assumes "refs_ok members raw (Dec p # w) s"
  shows "effort members (if c = 1 then map Drop (members p) @ Free p # w else w) (s\<lparr>mCount := (mCount s)(p \<mapsto> c')\<rparr>) < effort members (Dec p # w) s"
proof -
  let ?s = "s\<lparr>mCount := (mCount s)(p \<mapsto> c')\<rparr>" and ?w = "if c = 1 then map Drop (members p) @ Free p # w else w"
  have p: "p \<in> alive w s" "finite (alive w s)" and d: "dom (mCount ?s) = dom (mCount s)"
    using assms by (auto simp: refs_ok_def work_ok_def alive_def sized_def)
  have e: "effort members (Dec p # w) s = Suc (length w) + card (dom (m_ptr s)) + (\<Sum>q \<in> alive w s. Suc (length (members q)))"
    by (simp add: effort_def alive_def)
  show ?thesis
  proof (cases "c = 1")
    case True
    have "alive ?w ?s = alive w s - {p}" using True d by (auto simp: alive_def)
    moreover have "(\<Sum>q \<in> alive w s. Suc (length (members q))) = Suc (length (members p)) + (\<Sum>q \<in> alive w s - {p}. Suc (length (members q)))"
      using p by (intro sum.remove)
    ultimately show ?thesis using True unfolding e by (simp add: effort_def)
  next
    case False
    have "alive ?w ?s = alive w s" using False d by (auto simp: alive_def)
    then show ?thesis using False unfolding e by (simp add: effort_def)
  qed
qed

lemma effort_drop:
  assumes "refs_ok members raw (Drop l # w) s" "m_ptr s l = Some p"
  shows "effort members (if p \<noteq> 0 then Dec p # w else w) (s\<lparr>m_ptr := (m_ptr s)(l := None)\<rparr>) < effort members (Drop l # w) s"
proof -
  have "Suc (card (dom (m_ptr s) - {l})) = card (dom (m_ptr s))"
    using assms by (intro card_Suc_Diff1) (auto simp: refs_ok_def sized_def)
  then show ?thesis by (simp add: effort_def alive_def)
qed

lemma effort_free:
  assumes "refs_ok members raw (Free p # w) s"
  shows "effort members w (s\<lparr>mCount := (mCount s)(p := None), deleted := d\<rparr>) < effort members (Free p # w) s"
proof -
  have "Free p \<notin> set w" using assms by (auto simp: refs_ok_def work_ok_def count_list_0_iff)
  then have "alive w (s\<lparr>mCount := (mCount s)(p := None), deleted := d\<rparr>) = alive (Free p # w) s" by (auto simp: alive_def)
  then show ?thesis by (simp add: effort_def)
qed

text \<open>Whatever is pending is done without touching anything that is gone, and ends.\<close>

lemma release_ok:
  assumes "layout members" "refs_ok members raw w s" "effort members w s \<le> fuel"
  shows "\<exists>s'. release members fuel w s = Ok s' \<and> refs_ok members raw [] s' \<and> released_by members w s s'"
  using assms(2,3)
proof (induction fuel arbitrary: w s)
  case 0
  then show ?case using released_nothing by (auto simp: effort_def)
next
  case (Suc fuel)
  have work: "work_ok w s" using Suc.prems(1) by (simp add: refs_ok_def)
  show ?case
  proof (cases w)
    case Nil
    then show ?thesis using Suc.prems released_nothing by auto
  next
    case w: (Cons x w')
    show ?thesis
    proof (cases x)
      case (Dec p)
      obtain c where c: "mCount s p = Some c" using work w Dec by (auto simp: work_ok_def)
      note k = Suc.prems(1) [unfolded w Dec]
      show ?thesis
        using Suc.IH [OF dec_step [OF k assms(1) c]] effort_dec [OF k, of c "c - 1"] Suc.prems(2) released_dec [of members c p w' s] c w Dec
        by fastforce
    next
      case (Drop l)
      obtain p where p: "m_ptr s l = Some p" using work w Drop by (auto simp: work_ok_def)
      note k = Suc.prems(1) [unfolded w Drop]
      show ?thesis
        using Suc.IH [OF drop_step [OF k p]] effort_drop [OF k p] Suc.prems(2) released_drop [of members p w' s l] p w Drop
        by fastforce
    next
      case (Free p)
      obtain c where c: "mCount s p = Some c" using work w Free by (auto simp: work_ok_def)
      note k = Suc.prems(1) [unfolded w Free]
      show ?thesis
        using Suc.IH [OF free_step [OF k, of "deleted s @ [p]"]] effort_free [OF k, of "deleted s @ [p]"] Suc.prems(2) released_free [of members w' s p] c w Free
        by fastforce
    qed
  qed
qed

subsection \<open>A location that survives does not matter\<close>

text \<open>
  An assignment decrements the old object while the pointer still holds it. As long as the location is not
  destroyed by that, what it holds makes no difference to the release, so the pointer may be taken to
  hold its new value already.
\<close>

lemma release_dom: "release members fuel w s = Ok s' \<Longrightarrow> dom (m_ptr s') \<subseteq> dom (m_ptr s)"
proof (induction members fuel w s rule: release.induct)
  case (4 members fuel l w s)
  then show ?case by (fastforce split: option.splits if_splits)
qed (auto split: option.splits if_splits)

lemma update_order:
  "mCount_update f (m_ptr_update g s) = m_ptr_update g (mCount_update f s)"
  "deleted_update h (m_ptr_update g s) = m_ptr_update g (deleted_update h s)" for s :: refs
  by simp_all

lemma release_frame:
  assumes "release members fuel w s = Ok s'" "m_ptr s' l \<noteq> None"
  shows "release members fuel w (s\<lparr>m_ptr := (m_ptr s)(l \<mapsto> x)\<rparr>) = Ok (s'\<lparr>m_ptr := (m_ptr s')(l \<mapsto> x)\<rparr>)"
  using assms
proof (induction members fuel w s rule: release.induct)
  case (4 members fuel k w s)
  obtain p where p: "m_ptr s k = Some p" using 4(2) by (auto split: option.splits)
  let ?w = "if p \<noteq> 0 then Dec p # w else w" and ?s = "s\<lparr>m_ptr := (m_ptr s)(k := None)\<rparr>"
  have r: "release members fuel ?w ?s = Ok s'" using 4(2) p by simp
  have k: "k \<noteq> l" using release_dom [OF r] 4(3) by auto
  have "release members fuel ?w (?s\<lparr>m_ptr := (m_ptr ?s)(l \<mapsto> x)\<rparr>) = Ok (s'\<lparr>m_ptr := (m_ptr s')(l \<mapsto> x)\<rparr>)"
    using 4(1) [OF p r 4(3)] .
  moreover have "?s\<lparr>m_ptr := (m_ptr ?s)(l \<mapsto> x)\<rparr> = s\<lparr>m_ptr := ((m_ptr s)(l \<mapsto> x))(k := None)\<rparr>"
    using k by (simp add: fun_upd_twist)
  ultimately show ?case using p k by (cases "p = 0") (simp_all add: fun_upd_other del: fun_upd_apply)
qed (auto simp: update_order split: option.splits if_splits)

text \<open>
  A location survives a release when it is a variable, or a member of an object that a variable holds.
\<close>

definition root :: "(address \<Rightarrow> location list) \<Rightarrow> location \<Rightarrow> bool" where
  "root members l = (\<forall>q. l \<notin> set (members q))"

definition in_reach :: "(address \<Rightarrow> location list) \<Rightarrow> refs \<Rightarrow> location \<Rightarrow> bool" where
  "in_reach members s l = (root members l \<or> (\<exists>q r. l \<in> set (members q) \<and> q \<noteq> 0 \<and> root members r \<and> m_ptr s r = Some q))"

lemma root_survives:
  assumes "released_by members w s s'" "root members l" "Drop l \<notin> set w"
  shows "m_ptr s' l = m_ptr s l"
proof (cases "m_ptr s l")
  case None
  then show ?thesis using assms(1) by (auto simp: released_by_def shrinks_def map_le_def dom_def)
next
  case (Some x)
  have "m_ptr s' l \<noteq> None" using assms Some by (auto simp: released_by_def lost_def root_def)
  moreover have "m_ptr s' \<subseteq>\<^sub>m m_ptr s" using assms(1) by (simp add: released_by_def shrinks_def)
  ultimately show ?thesis using Some by (auto simp: map_le_def dom_def)
qed

lemma in_reach_survives:
  assumes "released_by members w s s'" "refs_ok members raw [] s'" "in_reach members s l" "\<forall>l. Drop l \<notin> set w" "m_ptr s l = Some x"
  shows "m_ptr s' l = Some x"
proof (cases "root members l")
  case True
  then show ?thesis using root_survives [OF assms(1)] assms(4,5) by simp
next
  case False
  then obtain q r where q: "l \<in> set (members q)" "q \<noteq> 0" "root members r" "m_ptr s r = Some q" using assms(3) by (auto simp: in_reach_def)
  then have "m_ptr s' r = Some q" using root_survives [OF assms(1)] assms(4) by simp
  then have "q \<in> dom (mCount s')" using assms(2) q(2) by (auto simp: refs_ok_def pointers_ok_def)
  then have "l \<in> dom (m_ptr s')" using assms(2) q(1) by (auto simp: refs_ok_def members_ok_def)
  moreover have "m_ptr s' \<subseteq>\<^sub>m m_ptr s" using assms(1) by (simp add: released_by_def shrinks_def)
  ultimately show ?thesis using assms(5) by (auto simp: map_le_def)
qed

subsection \<open>The operations keep the invariant\<close>

text \<open>A pointer is redirected: the new object is counted, the decrement of the old one is pending.\<close>

definition redirected :: "location \<Rightarrow> address \<Rightarrow> refs \<Rightarrow> refs" where
  "redirected l p s = s\<lparr>m_ptr := (m_ptr s)(l \<mapsto> p)\<rparr>"

definition owed :: "address \<Rightarrow> work list" where
  "owed p = (if p \<noteq> 0 then [Dec p] else [])"

lemma finite_pointers: "refs_ok members raw w s \<Longrightarrow> finite (pointers_to s p)"
  by (auto simp: refs_ok_def sized_def pointers_to_def intro: finite_subset [of _ "dom (m_ptr s)"])

lemma card_pointers: "refs_ok members raw w s \<Longrightarrow> card (pointers_to s p) \<le> card (dom (m_ptr s))"
  by (rule card_mono) (auto simp: refs_ok_def sized_def pointers_to_def)

lemma pointers_redirected:
  assumes "finite (pointers_to s q)" "m_ptr s l = Some old"
  shows "card (pointers_to (redirected l p s) q) + (if q = old then 1 else 0) = card (pointers_to s q) + (if q = p then 1 else 0)"
proof -
  have l: "l \<in> pointers_to s q \<longleftrightarrow> q = old" using assms(2) by (auto simp: pointers_to_def)
  have l2: "l \<in> pointers_to s old" using assms(2) by (simp add: pointers_to_def)
  have "pointers_to (redirected l p s) q = (if q = p then insert l (pointers_to s q - {l}) else pointers_to s q - {l})"
    by (auto simp: pointers_to_def redirected_def split: if_splits)
  moreover have "Suc (card (pointers_to s q - {l})) = card (pointers_to s q)" if "q = old"
    using that l assms(1) by (intro card_Suc_Diff1) auto
  moreover have "pointers_to s q - {l} = pointers_to s q" if "q \<noteq> old" using that l by blast
  ultimately show ?thesis using assms(1) by (cases "q = old"; cases "q = p") (auto simp: card_insert_disjoint insert_absorb [OF l2])
qed

lemma owed_simps [simp]:
  "set (owed p) = (if p = 0 then {} else {Dec p})" "decs (owed p) = (if p = 0 then 0 else 1)"
  "counted s (owed p) q = card (pointers_to s q) + (if q = p \<and> p \<noteq> 0 then 1 else 0)"
  by (auto simp: owed_def counted_def)

lemma inc_if_ok:
  assumes "p = 0 \<or> p \<in> dom (mCount s)"
  shows "\<exists>s1. inc_if p s = Ok s1 \<and> m_ptr s1 = m_ptr s \<and> dom (mCount s1) = dom (mCount s) \<and> races s1 = races s \<and> deleted s1 = deleted s \<and>
     (\<forall>q. mCount s1 q = (if q = p \<and> p \<noteq> 0 then map_option (\<lambda>c. c + 1) (mCount s q) else mCount s q))"
proof (cases "p = 0")
  case False
  then obtain c where c: "mCount s p = Some c" using assms by auto
  then have "inc_if p s = Ok (s\<lparr>mCount := (mCount s)(p \<mapsto> c + 1)\<rparr>)" using False by (simp add: inc_if_def incStrong_def)
  then show ?thesis using c False by auto
qed (simp add: inc_if_def)

lemma unat_inc: "unat (c :: u32) + 1 < 2 ^ 32 \<Longrightarrow> unat (c + 1) = unat c + 1"
  by (simp add: unat_word_ariths)

lemma retarget:
  assumes "refs_ok members raw [] s" "m_ptr s l = Some old" "p = 0 \<or> p \<in> dom (mCount s)" "inc_if p s = Ok s1" "card (dom (m_ptr s)) + 1 < 2 ^ 32"
  shows "refs_ok members (raw - {p}) (owed old) (redirected l p s1)"
proof -
  obtain s1' where "inc_if p s = Ok s1'" "m_ptr s1' = m_ptr s" "dom (mCount s1') = dom (mCount s)"
    "\<forall>q. mCount s1' q = (if q = p \<and> p \<noteq> 0 then map_option (\<lambda>c. c + 1) (mCount s q) else mCount s q)"
    using inc_if_ok [OF assms(3)] by blast
  then have i: "m_ptr s1 = m_ptr s" "dom (mCount s1) = dom (mCount s)"
    "\<And>q. mCount s1 q = (if q = p \<and> p \<noteq> 0 then map_option (\<lambda>c. c + 1) (mCount s q) else mCount s q)"
    using assms(4) by auto
  note ok = assms(1) [unfolded refs_ok_def]
  let ?s = "redirected l p s1"
  have dom: "dom (m_ptr ?s) = dom (m_ptr s)" "dom (mCount ?s) = dom (mCount s)"
    using assms(2) i by (auto simp: redirected_def)
  have z: "mCount s 0 = None" "0 \<notin> dom (mCount s)" using ok by (auto simp: sized_def)
  have cnt: "card (pointers_to ?s q) + (if q = old then 1 else 0) = card (pointers_to s q) + (if q = p then 1 else 0)" for q
  proof -
    have "pointers_to ?s q = pointers_to (redirected l p s) q" using i(1) by (simp add: redirected_def pointers_to_def)
    then show ?thesis using pointers_redirected [where q = q and p = p, OF finite_pointers [OF assms(1)] assms(2)] by (simp only:)
  qed
  have "sized (owed old) ?s" using ok assms(5) dom z by (auto simp: sized_def redirected_def domIff [symmetric])
  moreover have "counts_ok (raw - {p}) (owed old) ?s"
    unfolding counts_ok_def
  proof (intro allI impI)
    fix q c
    assume "mCount ?s q = Some c"
    then have q: "mCount s1 q = Some c" by (simp add: redirected_def)
    then have q0: "q \<noteq> 0" "q \<in> dom (mCount s)" using i(2) z by auto
    then obtain d where d: "mCount s q = Some d" by auto
    then have u: "unat d = card (pointers_to s q)" "0 < unat d \<or> q \<in> raw" using ok by (auto simp: counts_ok_def counted_def)
    have lt: "unat d + 1 < 2 ^ 32" using card_pointers [OF assms(1), of q] u(1) assms(5) by simp
    have "unat c = unat d + (if q = p then 1 else 0)"
      using q i(3) [of q] d q0 unat_inc [OF lt] by (auto split: if_splits)
    then show "unat c = counted ?s (owed old) q \<and> (Free q \<notin> set (owed old) \<longrightarrow> 0 < counted ?s (owed old) q \<or> q \<in> raw - {p})"
      using cnt [of q] u q0 by (auto split: if_splits)
  qed
  moreover have "pointers_ok (owed old) ?s"
    using ok assms(3) i dom by (auto simp: pointers_ok_def redirected_def)
  moreover have "work_ok (owed old) ?s"
    using ok assms(2) dom(2) by (auto simp: work_ok_def pointers_ok_def)
  moreover have "members_ok members (owed old) ?s"
    using ok dom by (auto simp: members_ok_def)
  ultimately show ?thesis by (simp add: refs_ok_def)
qed

text \<open>The value of one pointer is moved into another, which gives up its old object.\<close>

lemma transfer:
  assumes "refs_ok members raw [] s" "m_ptr s l = Some old" "m_ptr s k = Some p" "k \<noteq> l" "card (dom (m_ptr s)) + 1 < 2 ^ 32"
  shows "refs_ok members raw (owed old) (redirected k 0 (redirected l p s))"
proof -
  note ok = assms(1) [unfolded refs_ok_def]
  let ?s = "redirected k 0 (redirected l p s)"
  have dom: "dom (m_ptr ?s) = dom (m_ptr s)" "mCount ?s = mCount s" using assms(2,3) by (auto simp: redirected_def)
  have z: "mCount s 0 = None" using ok by (simp add: sized_def)
  have cnt: "card (pointers_to ?s q) + (if q = old then 1 else 0) = card (pointers_to s q) + (if q = 0 then 1 else 0)" for q
  proof -
    have f: "finite (pointers_to s q)" by (rule finite_pointers [OF assms(1)])
    have "finite (pointers_to (redirected l p s) q)"
      by (rule finite_subset [of _ "insert l (pointers_to s q)"]) (use f in \<open>auto simp: pointers_to_def redirected_def\<close>)
    moreover have "m_ptr (redirected l p s) k = Some p" using assms(3,4) by (simp add: redirected_def)
    ultimately have "card (pointers_to ?s q) + (if q = p then 1 else 0) = card (pointers_to (redirected l p s) q) + (if q = 0 then 1 else 0)"
      by (rule pointers_redirected)
    moreover have "card (pointers_to (redirected l p s) q) + (if q = old then 1 else 0) = card (pointers_to s q) + (if q = p then 1 else 0)"
      using f assms(2) by (rule pointers_redirected)
    ultimately show ?thesis by (cases "q = p"; cases "q = old"; simp)
  qed
  have "sized (owed old) ?s" using ok assms(5) dom by (auto simp: sized_def)
  moreover have "counts_ok raw (owed old) ?s"
    unfolding counts_ok_def
  proof (intro allI impI)
    fix q c
    assume "mCount ?s q = Some c"
    then have q: "mCount s q = Some c" "q \<noteq> 0" using dom z by (auto intro: ccontr)
    then have "unat c = card (pointers_to s q)" "0 < unat c \<or> q \<in> raw" using ok by (auto simp: counts_ok_def counted_def)
    then show "unat c = counted ?s (owed old) q \<and> (Free q \<notin> set (owed old) \<longrightarrow> 0 < counted ?s (owed old) q \<or> q \<in> raw)"
      using cnt [of q] q(2) by (auto split: if_splits)
  qed
  moreover have "pointers_ok (owed old) ?s"
    using ok assms(3) by (auto simp: pointers_ok_def redirected_def)
  moreover have "work_ok (owed old) ?s"
    using ok assms(2) dom(2) by (auto simp: work_ok_def pointers_ok_def)
  moreover have "members_ok members (owed old) ?s"
    using ok dom by (auto simp: members_ok_def)
  ultimately show ?thesis by (simp add: refs_ok_def)
qed

text \<open>Enough fuel for any release from a state: the objects, their members and the locations.\<close>

definition enough :: "(address \<Rightarrow> location list) \<Rightarrow> refs \<Rightarrow> nat \<Rightarrow> bool" where
  "enough members s fuel = (Suc (card (dom (m_ptr s))) + (\<Sum>p \<in> dom (mCount s). Suc (length (members p))) \<le> fuel)"

text \<open>A decrement with the pointer still in place, seen from the state in which it is redirected already.\<close>

lemma dec_redirected:
  assumes "layout members" "refs_ok members raw (owed old) (redirected l p s)" "m_ptr s l = Some old" "enough members s fuel"
    and "in_reach members (redirected l p s) l"
  shows "\<exists>g. dec_if members fuel old s = Ok (redirected l old g) \<and> refs_ok members raw [] g \<and> m_ptr g l = Some p \<and>
     released_by members (owed old) (redirected l p s) g"
proof -
  let ?s = "redirected l p s"
  have dom: "dom (m_ptr ?s) = dom (m_ptr s)" "mCount ?s = mCount s" using assms(3) by (auto simp: redirected_def)
  have bk: "redirected l old ?s = s" using assms(3) by (simp add: redirected_def fun_upd_idem)
  show ?thesis
  proof (cases "old = 0")
    case True
    then have "released_by members (owed old) ?s ?s" "refs_ok members raw [] ?s" using released_nothing assms(2) by (simp_all add: owed_def)
    then show ?thesis using True bk by (intro exI [of _ ?s]) (simp add: dec_if_def redirected_def)
  next
    case False
    have "alive [Dec old] ?s = dom (mCount s)" using dom by (auto simp: alive_def)
    then have "effort members [Dec old] ?s \<le> fuel" using assms(4) dom by (simp add: effort_def enough_def)
    moreover have "refs_ok members raw [Dec old] ?s" using assms(2) False by (simp add: owed_def)
    ultimately obtain g where g: "release members fuel [Dec old] ?s = Ok g" "refs_ok members raw [] g" "released_by members [Dec old] ?s g"
      using release_ok [OF assms(1)] by blast
    have l: "m_ptr g l = Some p" using in_reach_survives [OF g(3,2) assms(5)] by (simp add: redirected_def)
    then have "release members fuel [Dec old] (redirected l old ?s) = Ok (redirected l old g)"
      using release_frame [OF g(1), of l old] by (simp add: redirected_def)
    then show ?thesis using False g l bk by (intro exI [of _ g]) (simp add: dec_if_def decStrong_def owed_def)
  qed
qed

lemma redirected_twice [simp]: "redirected l p (redirected l q s) = redirected l p s"
  by (simp add: redirected_def)

lemma redirected_same: "m_ptr s l = Some p \<Longrightarrow> redirected l p s = s"
  by (simp add: redirected_def fun_upd_idem)

lemma pointer_steps [simp]:
  "read_ptr l (redirected l p s) = Ok p" "check_race l p (redirected l p s) = Ok (redirected l p s)"
  "write_ptr l q (redirected l p s) = Ok (redirected l q s)"
  by (simp_all add: read_ptr_def check_race_def write_ptr_def redirected_def)

lemma read_ptr_Some: "m_ptr s l = Some p \<Longrightarrow> read_ptr l s = Ok p"
  by (simp add: read_ptr_def)

lemma redirected_other: "k \<noteq> l \<Longrightarrow> m_ptr (redirected l p s) k = m_ptr s k"
  by (simp add: redirected_def)

lemma redirected_at [simp]: "m_ptr (redirected l p s) l = Some p" "mCount (redirected l p s) = mCount s"
  "deleted (redirected l p s) = deleted s" "races (redirected l p s) = races s"
  by (simp_all add: redirected_def)

lemma redirected_twist: "k \<noteq> l \<Longrightarrow> redirected k q (redirected l p s) = redirected l p (redirected k q s)"
  by (simp add: redirected_def fun_upd_twist)

text \<open>The common end of the assignments: the decrement, the second reading, the writing.\<close>

lemma settle:
  assumes "layout members" "refs_ok members raw (owed old) (redirected l p s)" "m_ptr s l = Some old" "enough members s fuel"
    and "in_reach members (redirected l p s) l"
  shows "\<exists>g. res_bind (dec_if members fuel old s) (\<lambda>s. res_bind (check_race l old s) (write_ptr l p)) = Ok g \<and>
     refs_ok members raw [] g \<and> released_by members (owed old) (redirected l p s) g"
proof -
  obtain g where g: "dec_if members fuel old s = Ok (redirected l old g)" "refs_ok members raw [] g" "m_ptr g l = Some p"
    "released_by members (owed old) (redirected l p s) g"
    using dec_redirected [OF assms] by blast
  then show ?thesis using redirected_same [OF g(3)] by (intro exI [of _ g]) simp
qed

lemma dec_if_frame:
  "dec_if members fuel p s = Ok s' \<Longrightarrow> m_ptr s' k \<noteq> None \<Longrightarrow> dec_if members fuel p (redirected k x s) = Ok (redirected k x s')"
  by (cases "p = 0") (simp_all add: dec_if_def decStrong_def release_frame redirected_def)

text \<open>A move: the source is emptied after the release, which is the same as before it.\<close>

lemma settle_move:
  assumes "layout members" "refs_ok members raw (owed old) (redirected k 0 (redirected l p s))" "m_ptr s l = Some old" "m_ptr s k = Some p"
    and "k \<noteq> l" "enough members s fuel" "in_reach members (redirected k 0 (redirected l p s)) l" "in_reach members (redirected k 0 (redirected l p s)) k"
  shows "\<exists>g. sp_assign_move members fuel l k s = Ok g \<and> refs_ok members raw [] g \<and>
     released_by members (owed old) (redirected k 0 (redirected l p s)) g"
proof -
  let ?t = "redirected k 0 s"
  note twist = redirected_twist [OF assms(5)]
  have "dom (m_ptr ?t) = dom (m_ptr s)" "m_ptr ?t l = Some old" using assms(3-5) by (auto simp: redirected_def)
  then obtain g where g: "dec_if members fuel old ?t = Ok (redirected l old g)" "refs_ok members raw [] g" "m_ptr g l = Some p"
    "released_by members (owed old) (redirected l p ?t) g"
    using dec_redirected [OF assms(1), of raw old l p ?t fuel] assms(2,6,7) twist by (auto simp: enough_def)
  have k: "m_ptr g k = Some 0"
    using in_reach_survives [OF g(4) g(2), of k 0] assms(5,8) twist by (simp add: redirected_other)
  have "redirected k p ?t = s" using assms(4) by (simp add: redirected_same)
  then have "dec_if members fuel old s = Ok (redirected k p (redirected l old g))"
    using dec_if_frame [OF g(1), of k p] k assms(5) by (simp add: redirected_other)
  moreover have "redirected k p (redirected l old g) = redirected l old (redirected k p g)" by (rule twist)
  moreover have "redirected k 0 (redirected l p (redirected k p g)) = g"
    using twist [of p p g] k g(3) by (simp add: redirected_same flip: twist)
  ultimately have "sp_assign_move members fuel l k s = Ok g"
    using assms(3,5) twist by (simp add: sp_assign_move_def read_ptr_Some redirected_other) (simp add: write_ptr_def redirected_def)
  then show ?thesis using g(2,4) twist by auto
qed

subsection \<open>Programs over counted pointers\<close>

datatype sp_op = Make address | Null location | From_ptr location address | Copy location location | Move location location
  | Destroy location | Assign_copy location location | Assign_move location location | Assign_ptr location address | Clear location

fun perform :: "(address \<Rightarrow> location list) \<Rightarrow> nat \<Rightarrow> sp_op \<Rightarrow> refs \<Rightarrow> refs res" where
  "perform members fuel (Make p) s = Ok (new_object members p s)"
| "perform members fuel (Null l) s = Ok (sp_null l s)"
| "perform members fuel (From_ptr l p) s = sp_from_ptr l p s"
| "perform members fuel (Copy l k) s = sp_copy l k s"
| "perform members fuel (Move l k) s = sp_move l k s"
| "perform members fuel (Destroy l) s = sp_destroy members fuel l s"
| "perform members fuel (Assign_copy l k) s = sp_assign_copy members fuel l k s"
| "perform members fuel (Assign_move l k) s = sp_assign_move members fuel l k s"
| "perform members fuel (Assign_ptr l p) s = sp_assign_ptr members fuel l p s"
| "perform members fuel (Clear l) s = sp_clear members fuel l s"

text \<open>What the pointers are to be afterwards, were it not for the members that go with a deleted object.\<close>

fun intended :: "(address \<Rightarrow> location list) \<Rightarrow> sp_op \<Rightarrow> refs \<Rightarrow> location \<rightharpoonup> address" where
  "intended members (Make p) s = (\<lambda>l. if l \<in> set (members p) then Some 0 else m_ptr s l)"
| "intended members (Null l) s = (m_ptr s)(l \<mapsto> 0)"
| "intended members (From_ptr l p) s = (m_ptr s)(l \<mapsto> p)"
| "intended members (Copy l k) s = (m_ptr s)(l := m_ptr s k)"
| "intended members (Move l k) s = (m_ptr s)(l := m_ptr s k, k \<mapsto> 0)"
| "intended members (Destroy l) s = (m_ptr s)(l := None)"
| "intended members (Assign_copy l k) s = (m_ptr s)(l := m_ptr s k)"
| "intended members (Assign_move l k) s = (m_ptr s)(l := m_ptr s k, k \<mapsto> 0)"
| "intended members (Assign_ptr l p) s = (m_ptr s)(l \<mapsto> p)"
| "intended members (Clear l) s = (m_ptr s)(l \<mapsto> 0)"

text \<open>
  When an operation may be used: memory is made where none is, the pointers are there, and the ones that
  are assigned to are in reach. The source of a moving assignment has to be in reach after the assignment.
\<close>

definition room :: "refs \<Rightarrow> nat \<Rightarrow> bool" where
  "room s n = (card (dom (m_ptr s)) + n < 2 ^ 32)"

definition object :: "refs \<Rightarrow> address \<Rightarrow> bool" where
  "object s p = (p = 0 \<or> p \<in> dom (mCount s))"

fun allowed :: "(address \<Rightarrow> location list) \<Rightarrow> sp_op \<Rightarrow> refs \<Rightarrow> bool" where
  "allowed members (Make p) s = (p \<noteq> 0 \<and> p \<notin> dom (mCount s) \<and> set (members p) \<inter> dom (m_ptr s) = {} \<and> room s (length (members p)))"
| "allowed members (Null l) s = (root members l \<and> l \<notin> dom (m_ptr s) \<and> room s 1)"
| "allowed members (From_ptr l p) s = (root members l \<and> l \<notin> dom (m_ptr s) \<and> object s p \<and> room s 2)"
| "allowed members (Copy l k) s = (root members l \<and> l \<notin> dom (m_ptr s) \<and> k \<in> dom (m_ptr s) \<and> room s 2)"
| "allowed members (Move l k) s = (root members l \<and> l \<notin> dom (m_ptr s) \<and> k \<in> dom (m_ptr s) \<and> room s 2)"
| "allowed members (Destroy l) s = (root members l \<and> l \<in> dom (m_ptr s))"
| "allowed members (Assign_copy l k) s = (l \<in> dom (m_ptr s) \<and> k \<in> dom (m_ptr s) \<and> room s 1 \<and>
     in_reach members (redirected l (the (m_ptr s k)) s) l)"
| "allowed members (Assign_move l k) s = (l \<in> dom (m_ptr s) \<and> k \<in> dom (m_ptr s) \<and> room s 1 \<and>
     in_reach members (redirected k 0 (redirected l (the (m_ptr s k)) s)) l \<and> in_reach members (redirected k 0 (redirected l (the (m_ptr s k)) s)) k)"
| "allowed members (Assign_ptr l p) s = (l \<in> dom (m_ptr s) \<and> object s p \<and> room s 1 \<and> in_reach members (redirected l p s) l)"
| "allowed members (Clear l) s = (l \<in> dom (m_ptr s) \<and> room s 1 \<and> in_reach members (redirected l 0 s) l)"

fun raws :: "sp_op \<Rightarrow> address set \<Rightarrow> address set" where
  "raws (Make p) raw = insert p raw"
| "raws (From_ptr l p) raw = raw - {p}"
| "raws (Assign_ptr l p) raw = raw - {p}"
| "raws _ raw = raw"

text \<open>What every operation does: the invariant holds, no race is reported, each object that is gone was
  deleted once, and the pointers are as they should be.\<close>

definition achieves :: "(address \<Rightarrow> location list) \<Rightarrow> address set \<Rightarrow> (location \<rightharpoonup> address) \<Rightarrow> refs \<Rightarrow> refs \<Rightarrow> bool" where
  "achieves members raw m s s' = (refs_ok members raw [] s' \<and> races s' = races s \<and> logged s s' \<and>
     m_ptr s' \<subseteq>\<^sub>m m \<and> (\<forall>l. root members l \<longrightarrow> m_ptr s' l = m l))"

lemma refs_ok_mono: "refs_ok members raw w s \<Longrightarrow> raw \<subseteq> raw' \<Longrightarrow> refs_ok members raw' w s"
  unfolding refs_ok_def counts_ok_def by blast

lemma achieves_mono: "achieves members raw m s s' \<Longrightarrow> raw \<subseteq> raw' \<Longrightarrow> achieves members raw' m s s'"
  using refs_ok_mono by (auto simp: achieves_def)

lemma released_achieves:
  assumes "released_by members w t g" "refs_ok members raw [] g" "\<forall>l. Drop l \<notin> set w" "m_ptr t = m"
    and "dom (mCount t) = dom (mCount s)" "deleted t = deleted s" "races t = races s"
  shows "achieves members raw m s g"
  using assms root_survives [OF assms(1)] by (auto simp: achieves_def released_by_def shrinks_def logged_def gone_def)

lemma no_drop [simp]: "\<forall>l. Drop l \<notin> set (owed p)"
  by simp

lemma enough_cong: "dom (m_ptr t) = dom (m_ptr s) \<Longrightarrow> dom (mCount t) = dom (mCount s) \<Longrightarrow> enough members t fuel = enough members s fuel"
  by (simp add: enough_def)

text \<open>The assignments.\<close>

lemma assign_achieves:
  assumes "layout members" "refs_ok members raw [] s" "m_ptr s l = Some old" "object s p" "room s 1" "enough members s fuel"
    and "in_reach members (redirected l p s) l"
  shows "\<exists>g. res_bind (inc_if p s) (\<lambda>s. res_bind (dec_if members fuel old s) (\<lambda>s. res_bind (check_race l old s) (write_ptr l p))) = Ok g \<and>
    achieves members (raw - {p}) ((m_ptr s)(l \<mapsto> p)) s g"
proof -
  have p: "p = 0 \<or> p \<in> dom (mCount s)" using assms(4) by (simp add: object_def)
  obtain s1 where s1: "inc_if p s = Ok s1" "m_ptr s1 = m_ptr s" "dom (mCount s1) = dom (mCount s)" "races s1 = races s" "deleted s1 = deleted s"
    using inc_if_ok [OF p] by blast
  have r: "refs_ok members (raw - {p}) (owed old) (redirected l p s1)"
    using retarget [OF assms(2,3) p s1(1)] assms(5) by (simp add: room_def)
  have h: "in_reach members (redirected l p s1) l" using assms(7) s1(2) by (simp add: in_reach_def redirected_def)
  have e: "enough members s1 fuel" using assms(6) s1 by (simp add: enough_def)
  obtain g where g: "res_bind (dec_if members fuel old s1) (\<lambda>s. res_bind (check_race l old s) (write_ptr l p)) = Ok g"
    "refs_ok members (raw - {p}) [] g" "released_by members (owed old) (redirected l p s1) g"
    using settle [OF assms(1) r _ e h] s1(2) assms(3) by auto
  have "achieves members (raw - {p}) ((m_ptr s)(l \<mapsto> p)) s g"
    using g(3,2) no_drop by (rule released_achieves) (use s1 in \<open>simp_all add: redirected_def\<close>)
  then show ?thesis using s1(1) g(1) by simp
qed

lemma pointed_object: "refs_ok members raw w s \<Longrightarrow> m_ptr s k = Some p \<Longrightarrow> object s p"
  by (auto simp: refs_ok_def pointers_ok_def object_def)

lemma assign_copy_achieves:
  assumes "layout members" "refs_ok members raw [] s" "allowed members (Assign_copy l k) s" "enough members s fuel"
  shows "\<exists>g. sp_assign_copy members fuel l k s = Ok g \<and> achieves members raw (intended members (Assign_copy l k) s) s g"
proof -
  obtain old p where p: "m_ptr s l = Some old" "m_ptr s k = Some p" using assms(3) by auto
  obtain g where g: "res_bind (inc_if p s) (\<lambda>s. res_bind (dec_if members fuel old s) (\<lambda>s. res_bind (check_race l old s) (write_ptr l p))) = Ok g"
    "achieves members (raw - {p}) ((m_ptr s)(l \<mapsto> p)) s g"
    using assign_achieves [OF assms(1,2) p(1) pointed_object [OF assms(2) p(2)] _ assms(4)] assms(3) p(2) by auto
  then show ?thesis
    using achieves_mono [OF g(2), of raw] p by (auto simp: sp_assign_copy_def read_ptr_Some)
qed

lemma assign_ptr_achieves:
  assumes "layout members" "refs_ok members raw [] s" "allowed members (Assign_ptr l p) s" "enough members s fuel"
  shows "\<exists>g. sp_assign_ptr members fuel l p s = Ok g \<and> achieves members (raw - {p}) (intended members (Assign_ptr l p) s) s g"
proof -
  obtain old where old: "m_ptr s l = Some old" using assms(3) by auto
  show ?thesis
    using assign_achieves [OF assms(1,2) old _ _ assms(4), of p] assms(3) old by (simp add: sp_assign_ptr_def read_ptr_Some)
qed

lemma clear_achieves:
  assumes "layout members" "refs_ok members raw [] s" "allowed members (Clear l) s" "enough members s fuel"
  shows "\<exists>g. sp_clear members fuel l s = Ok g \<and> achieves members raw (intended members (Clear l) s) s g"
proof -
  obtain old where old: "m_ptr s l = Some old" using assms(3) by auto
  obtain g where g: "res_bind (dec_if members fuel old s) (\<lambda>s. res_bind (check_race l old s) (write_ptr l 0)) = Ok g"
    "achieves members (raw - {0}) ((m_ptr s)(l \<mapsto> 0)) s g"
    using assign_achieves [OF assms(1,2) old _ _ assms(4), of 0] assms(3) by (auto simp: object_def inc_if_def)
  have "sp_clear members fuel l s = Ok g"
  proof (cases "old = 0")
    case True
    then show ?thesis using g(1) old by (simp add: sp_clear_def read_ptr_def dec_if_def check_race_def write_ptr_def fun_upd_idem)
  qed (use g(1) old in \<open>simp add: sp_clear_def read_ptr_Some dec_if_def\<close>)
  then show ?thesis using achieves_mono [OF g(2), of raw] by auto
qed

lemma write_self: "write_ptr l 0 s = Ok g \<Longrightarrow> \<exists>p. read_ptr l s = Ok p \<and> (\<exists>t. write_ptr l p s = Ok t \<and> write_ptr l 0 t = Ok g)"
  by (auto simp: write_ptr_def read_ptr_def split: if_splits)

lemma assign_move_achieves:
  assumes "layout members" "refs_ok members raw [] s" "allowed members (Assign_move l k) s" "enough members s fuel"
  shows "\<exists>g. sp_assign_move members fuel l k s = Ok g \<and> achieves members raw (intended members (Assign_move l k) s) s g"
proof -
  obtain old p where p: "m_ptr s l = Some old" "m_ptr s k = Some p" using assms(3) by auto
  show ?thesis
  proof (cases "k = l")
    case True
    obtain g where g: "res_bind (dec_if members fuel old s) (\<lambda>s. res_bind (check_race l old s) (write_ptr l 0)) = Ok g"
      "achieves members (raw - {0}) ((m_ptr s)(l \<mapsto> 0)) s g"
      using assign_achieves [OF assms(1,2) p(1) _ _ assms(4), of 0] assms(3) True by (auto simp: object_def inc_if_def)
    have "sp_assign_move members fuel l l s = Ok g"
      using g(1) p(1) by (auto simp: sp_assign_move_def read_ptr_Some write_self res_bind_Ok_iff)
    then show ?thesis using achieves_mono [OF g(2), of raw] True p by auto
  next
    case False
    have r: "refs_ok members raw (owed old) (redirected k 0 (redirected l p s))"
      using transfer [OF assms(2) p False] assms(3) by (simp add: room_def)
    obtain g where g: "sp_assign_move members fuel l k s = Ok g" "refs_ok members raw [] g"
      "released_by members (owed old) (redirected k 0 (redirected l p s)) g"
      using settle_move [OF assms(1) r p False assms(4)] assms(3) p(2) by auto
    have "achieves members raw (intended members (Assign_move l k) s) s g"
      using g(3,2) no_drop by (rule released_achieves) (use p in \<open>simp_all add: redirected_def\<close>)
    then show ?thesis using g(1) by blast
  qed
qed

text \<open>The constructors: a null pointer first, which is then set.\<close>

lemma null_ok:
  assumes "refs_ok members raw [] s" "l \<notin> dom (m_ptr s)" "room s 1"
  shows "refs_ok members raw [] (redirected l 0 s)"
proof -
  note ok = assms(1) [unfolded refs_ok_def]
  have d: "dom (m_ptr (redirected l 0 s)) = insert l (dom (m_ptr s))" by (simp add: redirected_def)
  have q: "pointers_to (redirected l 0 s) p = pointers_to s p" if "p \<noteq> 0" for p
    using that assms(2) by (auto simp: pointers_to_def redirected_def)
  have z: "p \<noteq> 0" if "mCount s p = Some c" for p c using that ok by (auto simp: sized_def intro: ccontr)
  have "sized [] (redirected l 0 s)" using ok assms(2,3) by (auto simp: sized_def d room_def card_insert_disjoint)
  moreover have "counts_ok raw [] (redirected l 0 s)" using ok q z by (auto simp: counts_ok_def counted_def)
  moreover have "pointers_ok [] (redirected l 0 s)" using ok by (auto simp: pointers_ok_def redirected_def)
  moreover have "work_ok [] (redirected l 0 s)" by (simp add: work_ok_def)
  moreover have "members_ok members [] (redirected l 0 s)" using ok by (auto simp: members_ok_def d)
  ultimately show ?thesis by (simp add: refs_ok_def)
qed

lemma inc_if_redirected: "inc_if p s = Ok s1 \<Longrightarrow> inc_if p (redirected l x s) = Ok (redirected l x s1)"
  by (auto simp: inc_if_def incStrong_def redirected_def split: if_splits option.splits)

lemma made_achieves:
  assumes "refs_ok members raw [] g" "mCount g = mCount s \<or> dom (mCount g) = dom (mCount s)" "deleted g = deleted s" "races g = races s" "m_ptr g = m"
  shows "achieves members raw m s g"
  using assms by (auto simp: achieves_def logged_def gone_def)

lemma from_ptr_achieves:
  assumes "refs_ok members raw [] s" "allowed members (From_ptr l p) s"
  shows "\<exists>g. sp_from_ptr l p s = Ok g \<and> achieves members (raw - {p}) (intended members (From_ptr l p) s) s g"
proof -
  let ?t = "redirected l 0 s"
  have t: "refs_ok members raw [] ?t" using null_ok [OF assms(1)] assms(2) by (simp add: room_def)
  have c: "card (dom (m_ptr ?t)) = Suc (card (dom (m_ptr s)))"
    using assms by (simp add: redirected_def card_insert_disjoint refs_ok_def sized_def)
  have p: "p = 0 \<or> p \<in> dom (mCount ?t)" using assms(2) by (simp add: object_def)
  obtain s1 where s1: "inc_if p ?t = Ok s1" "m_ptr s1 = m_ptr ?t" "dom (mCount s1) = dom (mCount ?t)" "races s1 = races ?t" "deleted s1 = deleted ?t"
    using inc_if_ok [OF p] by blast
  have r: "refs_ok members (raw - {p}) [] (redirected l p s1)"
    using retarget [OF t _ p s1(1), of l 0] c assms(2) by (simp add: owed_def room_def)
  have i: "sp_from_ptr l p s = Ok (redirected l p s1)"
    using inc_if_redirected [OF s1(1), of l p] by (simp add: sp_from_ptr_def) (simp add: redirected_def)
  have "achieves members (raw - {p}) (intended members (From_ptr l p) s) s (redirected l p s1)"
    using r by (rule made_achieves) (use s1 in \<open>simp_all add: redirected_def\<close>)
  then show ?thesis using i by blast
qed

lemma copy_achieves:
  assumes "refs_ok members raw [] s" "allowed members (Copy l k) s"
  shows "\<exists>g. sp_copy l k s = Ok g \<and> achieves members raw (intended members (Copy l k) s) s g"
proof -
  obtain p where p: "m_ptr s k = Some p" using assms(2) by auto
  have "allowed members (From_ptr l p) s" using assms pointed_object [OF assms(1) p] by simp
  then obtain g where g: "sp_from_ptr l p s = Ok g" "achieves members (raw - {p}) (intended members (From_ptr l p) s) s g"
    using from_ptr_achieves [OF assms(1)] by blast
  then show ?thesis
    using achieves_mono [OF g(2), of raw] p by (auto simp: sp_copy_def sp_from_ptr_def read_ptr_Some)
qed

lemma move_achieves:
  assumes "refs_ok members raw [] s" "allowed members (Move l k) s"
  shows "\<exists>g. sp_move l k s = Ok g \<and> achieves members raw (intended members (Move l k) s) s g"
proof -
  let ?t = "redirected l 0 s"
  obtain p where p: "m_ptr s k = Some p" using assms(2) by auto
  have k: "k \<noteq> l" using assms(2) by auto
  have t: "refs_ok members raw [] ?t" using null_ok [OF assms(1)] assms(2) by (simp add: room_def)
  have c: "card (dom (m_ptr ?t)) = Suc (card (dom (m_ptr s)))"
    using assms by (simp add: redirected_def card_insert_disjoint refs_ok_def sized_def)
  have r: "refs_ok members raw [] (redirected k 0 (redirected l p s))"
    using transfer [OF t _ _ k, of 0 p] c p k assms(2) by (simp add: owed_def room_def redirected_other)
  have m: "sp_move l k s = Ok (redirected k 0 (redirected l p s))"
    using p by (simp add: sp_move_def read_ptr_Some write_ptr_def redirected_def)
  have "achieves members raw (intended members (Move l k) s) s (redirected k 0 (redirected l p s))"
    using r by (rule made_achieves) (use p in \<open>simp_all add: redirected_def\<close>)
  then show ?thesis using m by blast
qed

text \<open>Destruction of a variable, and a new object.\<close>

lemma destroy_achieves:
  assumes "layout members" "refs_ok members raw [] s" "allowed members (Destroy l) s" "enough members s fuel"
  shows "\<exists>g. sp_destroy members fuel l s = Ok g \<and> achieves members raw (intended members (Destroy l) s) s g"
proof -
  have w: "refs_ok members raw [Drop l] s"
    using assms(2,3) by (auto simp: refs_ok_def sized_def counts_ok_def pointers_ok_def work_ok_def members_ok_def root_def)
  have "effort members [Drop l] s \<le> fuel" using assms(4) by (simp add: effort_def enough_def alive_def)
  then obtain g where g: "release members fuel [Drop l] s = Ok g" "refs_ok members raw [] g" "released_by members [Drop l] s g"
    using release_ok [OF assms(1) w] by blast
  obtain f p where f: "fuel = Suc f" and p: "m_ptr s l = Some p" using assms(3,4) by (cases fuel) (auto simp: enough_def)
  let ?t = "s\<lparr>m_ptr := (m_ptr s)(l := None)\<rparr>"
  have t: "refs_ok members raw (owed p) ?t" using drop_step [OF w p] by (simp add: owed_def)
  have "effort members (owed p) ?t \<le> f"
    using effort_drop [OF w p] \<open>effort members [Drop l] s \<le> fuel\<close> f by (simp add: owed_def)
  then obtain h where h: "release members f (owed p) ?t = Ok h" "released_by members (owed p) ?t h"
    using release_ok [OF assms(1) t] by blast
  have "h = g" using g(1) h(1) f p by (simp add: owed_def split: if_splits)
  then have "achieves members raw (intended members (Destroy l) s) s g"
    using h(2) g(2) by (intro released_achieves [where t = ?t and w = "owed p"]) simp_all
  then show ?thesis using g(1) by (simp add: sp_destroy_def)
qed

lemma make_achieves:
  assumes "refs_ok members raw [] s" "allowed members (Make p) s"
  shows "achieves members (insert p raw) (intended members (Make p) s) s (new_object members p s)"
proof -
  note ok = assms(1) [unfolded refs_ok_def]
  let ?n = "new_object members p s"
  have p: "p \<noteq> 0" "p \<notin> dom (mCount s)" and fresh: "set (members p) \<inter> dom (m_ptr s) = {}" and room: "room s (length (members p))"
    using assms(2) by auto
  have d: "dom (m_ptr ?n) = dom (m_ptr s) \<union> set (members p)" "dom (mCount ?n) = insert p (dom (mCount s))"
    by (auto simp: new_object_def split: if_splits)
  have q: "pointers_to ?n r = pointers_to s r" if "r \<noteq> 0" for r
    using that fresh by (auto simp: pointers_to_def new_object_def split: if_splits)
  have e: "pointers_to s p = {}" using ok p by (auto simp: pointers_to_def pointers_ok_def)
  have z: "r \<noteq> 0" if "mCount s r = Some c" for r c using that ok by (auto simp: sized_def intro: ccontr)
  have "card (dom (m_ptr ?n)) \<le> card (dom (m_ptr s)) + length (members p)"
    unfolding d by (rule order_trans [OF card_Un_le]) (simp add: card_length)
  then have "sized [] ?n" using ok p room by (auto simp: sized_def d room_def) (simp add: new_object_def)
  moreover have "counts_ok (insert p raw) [] ?n"
    unfolding counts_ok_def
  proof (intro allI impI)
    fix r c
    assume r: "mCount ?n r = Some c"
    show "unat c = counted ?n [] r \<and> (Free r \<notin> set [] \<longrightarrow> 0 < counted ?n [] r \<or> r \<in> insert p raw)"
    proof (cases "r = p")
      case True
      then show ?thesis using r q [of p] e p by (simp add: counted_def) (simp add: new_object_def)
    next
      case False
      then have "mCount s r = Some c" using r by (simp add: new_object_def)
      then have "unat c = card (pointers_to s r) \<and> (0 < card (pointers_to s r) \<or> r \<in> raw)" "pointers_to ?n r = pointers_to s r"
        using ok q z by (auto simp: counts_ok_def counted_def)
      then show ?thesis by (simp add: counted_def) blast
    qed
  qed
  moreover have "pointers_ok [] ?n" using ok by (auto simp: pointers_ok_def new_object_def split: if_splits)
  moreover have "work_ok [] ?n" by (simp add: work_ok_def)
  moreover have "members_ok members [] ?n" using ok by (auto simp: members_ok_def d)
  ultimately have "refs_ok members (insert p raw) [] ?n" by (simp add: refs_ok_def)
  then show ?thesis by (auto simp: achieves_def logged_def gone_def d new_object_def)
qed

text \<open>C34: 
  Every operation that may be used succeeds, touches no object that is gone, keeps the counters equal to the
  numbers of pointers, deletes each object that loses its last pointer once, reports no race, and leaves
  the variables as intended; fuel for the objects, their members and the pointers is enough.
\<close>

theorem sp_operations_correct:
  assumes "layout members" "refs_ok members raw [] s" "allowed members op s" "enough members s fuel"
  shows "\<exists>s'. perform members fuel op s = Ok s' \<and> achieves members (raws op raw) (intended members op s) s s'"
proof (cases op)
  case (Make p)
  then show ?thesis using make_achieves assms(2,3) by simp
next
  case (Null l)
  have "refs_ok members raw [] (redirected l 0 s)" using null_ok assms(2,3) Null by simp
  then have "achieves members raw ((m_ptr s)(l \<mapsto> 0)) s (redirected l 0 s)" by (rule made_achieves) (simp_all add: redirected_def)
  moreover have "sp_null l s = redirected l 0 s" by (simp add: sp_null_def redirected_def)
  ultimately show ?thesis using Null by simp
qed (use assms from_ptr_achieves copy_achieves move_achieves destroy_achieves assign_copy_achieves assign_move_achieves
      assign_ptr_achieves clear_achieves in \<open>simp; blast\<close>)+

subsection \<open>Moving from a member of the object that is given up\<close>

text \<open>
  \<open>p = std::move(p->next)\<close>: the moving assignment decrements the old object first and reads the source
  afterwards. When the old object goes with that, so has its member, which is read nevertheless. The
  copying assignment reads its source first.
\<close>

theorem move_from_member_undefined:
  assumes "layout members" "refs_ok members raw [] s" "m_ptr s l = Some p" "p \<noteq> 0" "mCount s p = Some 1"
    and "root members l" "k \<in> set (members p)" "room s 1" "enough members s fuel"
  shows "sp_assign_move members fuel l k s = Undef"
proof -
  let ?t = "redirected l 0 s" and ?w = "map Drop (members p) @ [Free p]"
  let ?u = "?t\<lparr>mCount := (mCount ?t)(p \<mapsto> 0)\<rparr>"
  have t: "refs_ok members raw [Dec p] ?t"
    using refs_ok_mono [OF retarget [OF assms(2,3), of 0 s], of raw] assms(4,8) by (simp add: owed_def room_def inc_if_def)
  have u: "refs_ok members raw ?w ?u" using dec_step [OF t assms(1), of 1] assms(5) by simp
  have "dom (m_ptr ?t) = dom (m_ptr s)" using assms(3) by (auto simp: redirected_def)
  then have "effort members [Dec p] ?t \<le> fuel" using assms(9) by (simp add: effort_def enough_def alive_def)
  then obtain f where f: "fuel = Suc f" "effort members ?w ?u \<le> f"
    using effort_dec [OF t, of 1 0] by (cases fuel) auto
  obtain g where g: "release members f ?w ?u = Ok g" "released_by members ?w ?u g"
    using release_ok [OF assms(1) u f(2)] by blast
  have k: "m_ptr g k = None" using g(2) assms(7) by (auto simp: released_by_def lost_def)
  have l: "m_ptr g l = Some 0" using root_survives [OF g(2) assms(6)] assms(6) by (auto simp: root_def)
  have "dec_if members fuel p ?t = Ok g" using g(1) f(1) assms(4,5) by (simp add: dec_if_def decStrong_def)
  then have "dec_if members fuel p s = Ok (redirected l p g)"
    using dec_if_frame [of members fuel p ?t g l p] l assms(3) by (simp add: redirected_same)
  moreover have "k \<noteq> l" using assms(6,7) by (auto simp: root_def)
  ultimately show ?thesis using assms(3) k by (simp add: sp_assign_move_def read_ptr_Some) (simp add: read_ptr_def redirected_def)
qed

text \<open>A list of two objects, held by one variable: object 1 has its member 10, which holds object 2.\<close>

definition two_nodes :: "address \<Rightarrow> location list" where
  "two_nodes p = (if p = 1 then [10] else if p = 2 then [11] else [])"

definition two_refs :: refs where
  "two_refs = \<lparr>mCount = [1 \<mapsto> 1, 2 \<mapsto> 1], m_ptr = [20 \<mapsto> 1, 10 \<mapsto> 2, 11 \<mapsto> 0], deleted = [], races = 0\<rparr>"

lemma two_layout: "layout two_nodes"
  by (auto simp: layout_def two_nodes_def)

lemma two_pointers: "pointers_to two_refs 1 = {20}" "pointers_to two_refs 2 = {10}"
  by (auto simp: pointers_to_def two_refs_def split: if_splits)

lemma two_dom: "dom (m_ptr two_refs) = {20, 10, 11}" "dom (mCount two_refs) = {1, 2}"
  by (auto simp: two_refs_def split: if_splits)

lemma two_ok: "refs_ok two_nodes {} [] two_refs"
proof -
  have "counts_ok {} [] two_refs"
  proof (unfold counts_ok_def, intro allI impI)
    fix p c
    assume "mCount two_refs p = Some c"
    then have "p = 1 \<and> c = 1 \<or> p = 2 \<and> c = 1" by (auto simp: two_refs_def split: if_splits)
    then show "unat c = counted two_refs [] p \<and> (Free p \<notin> set [] \<longrightarrow> 0 < counted two_refs [] p \<or> p \<in> {})"
      by (auto simp: counted_def two_pointers two_pointers [unfolded One_nat_def])
  qed
  moreover have "sized [] two_refs" by (simp add: sized_def two_dom) (simp add: two_refs_def)
  moreover have "pointers_ok [] two_refs" by (auto simp: pointers_ok_def two_dom) (auto simp: two_refs_def split: if_splits)
  moreover have "work_ok [] two_refs" "members_ok two_nodes [] two_refs" by (auto simp: work_ok_def members_ok_def two_dom two_nodes_def)
  ultimately show ?thesis by (simp add: refs_ok_def)
qed

lemma two_roots: "root two_nodes 20" "root two_nodes 21"
  by (simp_all add: root_def two_nodes_def)

lemma two_enough: "enough two_nodes two_refs 10" "room two_refs 1" "room two_refs 2"
  by (simp_all add: enough_def room_def two_dom) (simp_all add: two_nodes_def)

theorem move_from_member_undefined_witness: "sp_assign_move two_nodes 10 20 10 two_refs = Undef"
  using move_from_member_undefined [OF two_layout two_ok, of 20 1 10 10] two_roots two_enough
  by (simp add: two_refs_def two_nodes_def)

text \<open>With the copying assignment the first object goes and the second stays.\<close>

theorem sp_operations_correct_witness:
  "\<exists>s'. perform two_nodes 10 (Assign_copy 20 10) two_refs = Ok s' \<and> deleted s' = [1] \<and>
     achieves two_nodes {} ((m_ptr two_refs)(20 \<mapsto> 2)) two_refs s'"
proof -
  have a: "allowed two_nodes (Assign_copy 20 10) two_refs"
    using two_roots two_enough by (simp add: in_reach_def two_dom)
  obtain s' where s': "perform two_nodes 10 (Assign_copy 20 10) two_refs = Ok s'" "achieves two_nodes {} ((m_ptr two_refs)(20 \<mapsto> 2)) two_refs s'"
    using sp_operations_correct [OF two_layout two_ok a two_enough(1)] by (auto simp: two_refs_def)
  have "\<exists>s. perform two_nodes 10 (Assign_copy 20 10) two_refs = Ok s \<and> deleted s = [1]"
    by (simp add: sp_assign_copy_def read_ptr_def two_refs_def inc_if_def incStrong_def dec_if_def decStrong_def eval_nat_numeral
        two_nodes_def check_race_def write_ptr_def)
  then show ?thesis using s' by auto
qed

end
