(* ===== verification/Type_Helpers.thy ===== *)
theory Type_Helpers
  imports MC_Prelude
begin

section \<open>\<open>utils/TypeHelpers.h\<close>: storage of objects, order and hash\<close>

text \<open>
  \<open>slots\<close> are the slots of an array: the object in the slot, or \<open>None\<close> for raw storage. Destroying or
  copying what is not there is \<open>Undef\<close>; constructing over an object that has not been destroyed is counted in
  \<open>leaked\<close>. An object of a type whose destructor is trivial may be overwritten. \<open>memcpy\<close> and \<open>memmove\<close> copy the
  contents of the slots, whatever they are, and \<open>memcpy\<close> is \<open>Undef\<close> where its regions overlap.
\<close>

record 'a storage =
  slots :: "nat \<Rightarrow> 'a option"
  leaked :: nat

record traits =
  has_trivial_ctor :: bool
  has_trivial_dtor :: bool
  has_trivial_copy :: bool
  has_trivial_move :: bool

text \<open>\<open>traits<TYPE>\<close>: what was declared for the type, and everything for a pointer; \<open>aggregate_traits\<close>: of a pair.\<close>

definition traits_of :: "bool \<Rightarrow> traits \<Rightarrow> traits" where
  "traits_of is_pointer t = \<lparr>has_trivial_ctor = is_pointer \<or> has_trivial_ctor t, has_trivial_dtor = is_pointer \<or> has_trivial_dtor t,
     has_trivial_copy = is_pointer \<or> has_trivial_copy t, has_trivial_move = is_pointer \<or> has_trivial_move t\<rparr>"

definition aggregate_traits :: "traits \<Rightarrow> traits \<Rightarrow> traits" where
  "aggregate_traits t u = \<lparr>has_trivial_ctor = has_trivial_ctor t \<and> has_trivial_ctor u, has_trivial_dtor = has_trivial_dtor t \<and> has_trivial_dtor u,
     has_trivial_copy = has_trivial_copy t \<and> has_trivial_copy u, has_trivial_move = has_trivial_move t \<and> has_trivial_move u\<rparr>"

definition construct :: "traits \<Rightarrow> nat \<Rightarrow> 'a \<Rightarrow> 'a storage \<Rightarrow> 'a storage" where
  "construct t d v m = m\<lparr>slots := (slots m)(d \<mapsto> v),
     leaked := leaked m + (if slots m d \<noteq> None \<and> \<not> has_trivial_dtor t then 1 else 0)\<rparr>"

definition destroy :: "nat \<Rightarrow> 'a storage \<Rightarrow> 'a storage res" where
  "destroy p m = (if slots m p = None then Undef else Ok (m\<lparr>slots := (slots m)(p := None)\<rparr>))"

definition read_cell :: "nat \<Rightarrow> 'a storage \<Rightarrow> 'a res" where
  "read_cell p m = (case slots m p of None \<Rightarrow> Undef | Some v \<Rightarrow> Ok v)"

text \<open>\<open>*d = *s\<close> for a type that is copied trivially.\<close>

definition assign_cell :: "nat \<Rightarrow> 'a \<Rightarrow> 'a storage \<Rightarrow> 'a storage" where
  "assign_cell d v m = m\<lparr>slots := (slots m)(d \<mapsto> v)\<rparr>"

definition memmove :: "nat \<Rightarrow> nat \<Rightarrow> nat \<Rightarrow> 'a storage \<Rightarrow> 'a storage" where
  "memmove d s n m = m\<lparr>slots := (\<lambda>a. if d \<le> a \<and> a < d + n then slots m (s + (a - d)) else slots m a)\<rparr>"

definition memcpy_cells :: "nat \<Rightarrow> nat \<Rightarrow> nat \<Rightarrow> 'a storage \<Rightarrow> 'a storage res" where
  "memcpy_cells d s n m = (if n = 0 \<or> d + n \<le> s \<or> s + n \<le> d then Ok (memmove d s n m) else Undef)"

subsection \<open>The operations\<close>

text \<open>\<open>fresh\<close> is what the default constructor makes.\<close>

fun construct_type :: "traits \<Rightarrow> 'a \<Rightarrow> nat \<Rightarrow> nat \<Rightarrow> 'a storage \<Rightarrow> 'a storage" where
  "construct_type t fresh p 0 m = m"
| "construct_type t fresh p (Suc n) m =
     (if has_trivial_ctor t then m else construct_type t fresh (p + 1) n (construct t p fresh m))"

fun destroy_type :: "traits \<Rightarrow> nat \<Rightarrow> nat \<Rightarrow> 'a storage \<Rightarrow> 'a storage res" where
  "destroy_type t p 0 m = Ok m"
| "destroy_type t p (Suc n) m =
     (if has_trivial_dtor t then Ok m else res_bind (destroy p m) (destroy_type t (p + 1) n))"

fun copy_loop :: "traits \<Rightarrow> nat \<Rightarrow> nat \<Rightarrow> nat \<Rightarrow> 'a storage \<Rightarrow> 'a storage res" where
  "copy_loop t d s 0 m = Ok m"
| "copy_loop t d s (Suc n) m = res_bind (read_cell s m) (\<lambda>v. copy_loop t (d + 1) (s + 1) n (construct t d v m))"

definition copy_type :: "traits \<Rightarrow> nat \<Rightarrow> nat \<Rightarrow> nat \<Rightarrow> 'a storage \<Rightarrow> 'a storage res" where
  "copy_type t d s n m = (if has_trivial_copy t then memcpy_cells d s n m else copy_loop t d s n m)"

fun splat_type :: "traits \<Rightarrow> nat \<Rightarrow> nat \<Rightarrow> nat \<Rightarrow> 'a storage \<Rightarrow> 'a storage res" where
  "splat_type t dest what 0 m = Ok m"
| "splat_type t dest what (Suc n) m = res_bind (read_cell what m) (\<lambda>v.
     splat_type t (dest + 1) what n (if has_trivial_copy t then assign_cell dest v m else construct t dest v m))"

definition use_trivial_move :: "traits \<Rightarrow> bool" where
  "use_trivial_move t = (has_trivial_dtor t \<and> has_trivial_copy t \<or> has_trivial_move t)"

text \<open>The common body of the two loops: one object is copied, the original destroyed.\<close>

definition move_one :: "traits \<Rightarrow> nat \<Rightarrow> nat \<Rightarrow> 'a storage \<Rightarrow> 'a storage res" where
  "move_one t d s m = res_bind (read_cell s m) (\<lambda>v.
     let m = (if has_trivial_copy t then assign_cell d v m else construct t d v m) in if has_trivial_dtor t then Ok m else destroy s m)"

text \<open>\<open>move_forward_type\<close> starts at the end, with \<open>d + n\<close> and \<open>s + n\<close>.\<close>

fun move_forward_loop :: "traits \<Rightarrow> nat \<Rightarrow> nat \<Rightarrow> nat \<Rightarrow> 'a storage \<Rightarrow> 'a storage res" where
  "move_forward_loop t d s 0 m = Ok m"
| "move_forward_loop t d s (Suc n) m = res_bind (move_one t (d + n) (s + n) m) (move_forward_loop t d s n)"

definition move_forward_type :: "traits \<Rightarrow> nat \<Rightarrow> nat \<Rightarrow> nat \<Rightarrow> 'a storage \<Rightarrow> 'a storage res" where
  "move_forward_type t d s n m = (if use_trivial_move t then Ok (memmove d s n m) else move_forward_loop t d s n m)"

fun move_backward_loop :: "traits \<Rightarrow> nat \<Rightarrow> nat \<Rightarrow> nat \<Rightarrow> 'a storage \<Rightarrow> 'a storage res" where
  "move_backward_loop t d s 0 m = Ok m"
| "move_backward_loop t d s (Suc n) m = res_bind (move_one t d s m) (move_backward_loop t (d + 1) (s + 1) n)"

definition move_backward_type :: "traits \<Rightarrow> nat \<Rightarrow> nat \<Rightarrow> nat \<Rightarrow> 'a storage \<Rightarrow> 'a storage res" where
  "move_backward_type t d s n m = (if use_trivial_move t then Ok (memmove d s n m) else move_backward_loop t d s n m)"

definition strictly_order_type :: "'a::linorder \<Rightarrow> 'a \<Rightarrow> int" where
  "strictly_order_type lhs rhs = (if lhs < rhs then 1 else 0)"

definition compare_type :: "'a::linorder \<Rightarrow> 'a \<Rightarrow> int" where
  "compare_type lhs rhs = strictly_order_type rhs lhs - strictly_order_type lhs rhs"

text \<open>\<open>key_value_pair_t\<close> is ordered by its key.\<close>

record ('k, 'v) key_value_pair =
  pair_key :: 'k
  pair_value :: 'v

definition pair_less :: "('k::linorder, 'v) key_value_pair \<Rightarrow> ('k, 'v) key_value_pair \<Rightarrow> bool" where
  "pair_less p q = (strictly_order_type (pair_key p) (pair_key q) \<noteq> 0)"

text \<open>The hashes: of up to 32 bits, signed or not, the value itself; of 64 bits, the halves.\<close>

definition hash_type32 :: "int \<Rightarrow> u32" where
  "hash_type32 value = of_int value"

definition hash_type_int64 :: "u64 \<Rightarrow> u32" where
  "hash_type_int64 value = ucast (signed_drop_bit 32 value XOR value)"

definition hash_type_uint64 :: "u64 \<Rightarrow> u32" where
  "hash_type_uint64 value = ucast (drop_bit 32 value XOR value)"

subsection \<open>Moving\<close>

text \<open>The objects of a segment, and what a move is to do: the segment is at its new place, the old place is left
  empty by the loops and unchanged by \<open>memmove\<close>, nothing else changes and nothing is leaked.\<close>

definition segment :: "'a storage \<Rightarrow> nat \<Rightarrow> nat \<Rightarrow> 'a option list" where
  "segment m p n = map (slots m) [p ..< p + n]"

definition relocated :: "bool \<Rightarrow> nat \<Rightarrow> nat \<Rightarrow> nat \<Rightarrow> 'a storage \<Rightarrow> 'a storage" where
  "relocated empties d s n m = m\<lparr>slots := (\<lambda>a. if d \<le> a \<and> a < d + n then slots m (s + (a - d))
     else if empties \<and> s \<le> a \<and> a < s + n then None else slots m a)\<rparr>"

definition vacant :: "traits \<Rightarrow> nat \<Rightarrow> nat \<Rightarrow> nat \<Rightarrow> 'a storage \<Rightarrow> bool" where
  "vacant t d s n m = (has_trivial_dtor t \<or> has_trivial_copy t \<or> (\<forall>a. d \<le> a \<and> a < d + n \<and> \<not> (s \<le> a \<and> a < s + n) \<longrightarrow> slots m a = None))"

definition occupied :: "nat \<Rightarrow> nat \<Rightarrow> 'a storage \<Rightarrow> bool" where
  "occupied s n m = (\<forall>a. s \<le> a \<and> a < s + n \<longrightarrow> slots m a \<noteq> None)"

lemma segment_relocated: "segment (relocated e d s n m) d n = segment m s n"
  by (auto simp: segment_def relocated_def intro: nth_equalityI)

lemma storage_eqI: "(\<And>a. slots m a = slots m' a) \<Longrightarrow> leaked m = leaked m' \<Longrightarrow> m = m'" for m m' :: "'a storage"
  by (rule storage.equality) auto

lemma slots_relocated: "slots (relocated e d s n m) a = (if d \<le> a \<and> a < d + n then slots m (s + (a - d))
    else if e \<and> s \<le> a \<and> a < s + n then None else slots m a)" "leaked (relocated e d s n m) = leaked m"
  by (simp_all add: relocated_def)

lemma relocated_0 [simp]: "relocated e d s 0 m = m"
  by (rule storage_eqI) (auto simp: slots_relocated)

lemma move_one_relocates:
  assumes "slots m s \<noteq> None" "d \<noteq> s" "has_trivial_dtor t \<or> has_trivial_copy t \<or> slots m d = None"
  shows "move_one t d s m = Ok (relocated (\<not> has_trivial_dtor t) d s 1 m)"
proof -
  obtain v where v: "slots m s = Some v" using assms(1) by auto
  have c: "(if has_trivial_copy t then assign_cell d v m else construct t d v m) = m\<lparr>slots := (slots m)(d \<mapsto> v)\<rparr>"
    using assms(3) by (auto simp: assign_cell_def construct_def)
  have "relocated (\<not> has_trivial_dtor t) d s 1 m = m\<lparr>slots := (if has_trivial_dtor t then (slots m)(d \<mapsto> v) else (slots m)(d \<mapsto> v, s := None))\<rparr>"
    using v assms(2) by (intro storage_eqI) (auto simp: slots_relocated)
  then show ?thesis
    using v assms(2) by (simp add: move_one_def read_cell_def c Let_def destroy_def)
qed

lemma relocated_inside: "j < n \<Longrightarrow> slots (relocated e d s n m) (d + j) = slots m (s + j)"
  by (simp add: slots_relocated)

lemma relocated_outside: "\<not> (d \<le> a \<and> a < d + n) \<Longrightarrow>
    slots (relocated e d s n m) a = (if e \<and> s \<le> a \<and> a < s + n then None else slots m a)"
  by (subst slots_relocated) (simp only: if_False)

lemma relocated_one: "slots (relocated e d s 1 m) d = slots m s" "b \<noteq> d \<Longrightarrow> slots (relocated e d s 1 m) b = (if e \<and> b = s then None else slots m b)"
  using relocated_inside [of 0 1 e d s m] relocated_outside [of d b 1 e s m] by auto

lemma relocated_forward: "relocated e d s n (relocated e (d + n) (s + n) 1 m) = relocated e d s (Suc n) m" if "s < d"
proof (rule storage_eqI)
  fix a
  define M where "M = relocated e (d + n) (s + n) 1 m"
  have m: "slots M (d + n) = slots m (s + n)" "\<And>b. b \<noteq> d + n \<Longrightarrow> slots M b = (if e \<and> b = s + n then None else slots m b)"
    unfolding M_def by (rule relocated_one, rule relocated_one)
  consider j where "a = d + j" "j < n" | "a = d + n" | "\<not> (d \<le> a \<and> a < d + Suc n)"
    by (metis add_Suc_right le_Suc_ex less_Suc_eq nat_add_left_cancel_less)
  then have "slots (relocated e d s n M) a = slots (relocated e d s (Suc n) m) a"
  proof cases
    case 1
    then show ?thesis using that by (simp add: relocated_inside m)
  next
    case 2
    then have "slots (relocated e d s n M) a = slots m (s + n)" using that relocated_outside [of d "d + n" n e s M] m(1) by simp
    then show ?thesis using 2 relocated_inside [of n "Suc n" e d s m] by simp
  next
    case 3
    then have n: "a \<noteq> d + n" "\<not> (d \<le> a \<and> a < d + n)" by auto
    show ?thesis unfolding relocated_outside [OF 3] relocated_outside [OF n(2)] m(2) [OF n(1)] by auto
  qed
  then show "slots (relocated e d s n (relocated e (d + n) (s + n) 1 m)) a = slots (relocated e d s (Suc n) m) a" by (simp only: M_def)
qed (simp add: slots_relocated)

lemma relocated_backward: "relocated e (d + 1) (s + 1) n (relocated e d s 1 m) = relocated e d s (Suc n) m" if "d < s \<or> \<not> e \<and> s + n < d"
proof (rule storage_eqI)
  fix a
  define M where "M = relocated e d s 1 m"
  have m: "slots M d = slots m s" "\<And>b. b \<noteq> d \<Longrightarrow> slots M b = (if e \<and> b = s then None else slots m b)"
    unfolding M_def by (rule relocated_one, rule relocated_one)
  consider j where "a = d + 1 + j" "j < n" | "a = d" | "\<not> (d \<le> a \<and> a < d + Suc n)"
    by (metis add.commute add_Suc_right le_neq_implies_less less_iff_Suc_add nat_add_left_cancel_less not_less_eq plus_1_eq_Suc)
  then have "slots (relocated e (d + 1) (s + 1) n M) a = slots (relocated e d s (Suc n) m) a"
  proof cases
    case 1
    then have "slots (relocated e d s (Suc n) m) a = slots m (s + Suc j)"
      using relocated_inside [of "Suc j" "Suc n" e d s m] by simp
    moreover have "s + 1 + j \<noteq> d" using 1(2) that by auto
    then have "slots (relocated e (d + 1) (s + 1) n M) a = slots m (s + 1 + j)"
      using 1 that relocated_inside [of j n e "d + 1" "s + 1" M] m(2) [of "s + 1 + j"] by simp
    ultimately show ?thesis by simp
  next
    case 2
    then show ?thesis using that relocated_inside [of 0 "Suc n" e d s m] relocated_outside [of "d + 1" d n e "s + 1" M] m(1) by auto
  next
    case 3
    then have n: "a \<noteq> d" "\<not> (d + 1 \<le> a \<and> a < d + 1 + n)" by auto
    show ?thesis unfolding relocated_outside [OF 3] relocated_outside [OF n(2)] m(2) [OF n(1)] by auto
  qed
  then show "slots (relocated e (d + 1) (s + 1) n (relocated e d s 1 m)) a = slots (relocated e d s (Suc n) m) a" by (simp only: M_def)
qed (simp add: slots_relocated)

lemma move_forward_loop_relocates:
  assumes "s < d" "occupied s n m" "vacant t d s n m"
  shows "move_forward_loop t d s n m = Ok (relocated (\<not> has_trivial_dtor t) d s n m)"
  using assms(2,3)
proof (induction n arbitrary: m)
  case 0
  then show ?case by simp
next
  case (Suc n)
  let ?m = "relocated (\<not> has_trivial_dtor t) (d + n) (s + n) 1 m"
  have "move_one t (d + n) (s + n) m = Ok ?m"
    using Suc.prems assms(1) by (intro move_one_relocates) (auto simp: occupied_def vacant_def)
  moreover have "occupied s n ?m" using Suc.prems(1) assms(1) by (auto simp: occupied_def slots_relocated)
  moreover have "vacant t d s n ?m" using Suc.prems(2) assms(1) by (auto simp: vacant_def slots_relocated)
  ultimately show ?case using Suc.IH relocated_forward [OF assms(1)] by simp
qed

lemma move_backward_loop_relocates:
  assumes "d < s" "occupied s n m" "vacant t d s n m"
  shows "move_backward_loop t d s n m = Ok (relocated (\<not> has_trivial_dtor t) d s n m)"
  using assms
proof (induction n arbitrary: d s m)
  case 0
  then show ?case by simp
next
  case (Suc n)
  let ?m = "relocated (\<not> has_trivial_dtor t) d s 1 m"
  have "move_one t d s m = Ok ?m"
    using Suc.prems by (intro move_one_relocates) (auto simp: occupied_def vacant_def)
  moreover have "occupied (s + 1) n ?m" using Suc.prems(1,2) by (auto simp: occupied_def slots_relocated)
  moreover have "vacant t (d + 1) (s + 1) n ?m"
    using Suc.prems(1,3) by (auto simp: vacant_def slots_relocated)
  ultimately show ?case using Suc.IH [of "d + 1" "s + 1" ?m] Suc.prems(1) relocated_backward [of d s] by simp
qed

text \<open>
  Moving towards the end with \<open>move_forward_type\<close>, or towards the beginning with \<open>move_backward_type\<close>, is right
  for overlapping regions whichever traits the type has: the objects arrive in order, each is copied once and
  destroyed once. The traits only decide whether the old place is emptied.
\<close>

theorem move_types_correct:
  assumes "occupied s n m" "vacant t d s n m" "d \<noteq> s"
  shows "(if s < d then move_forward_type t d s n m else move_backward_type t d s n m) =
    Ok (relocated (\<not> use_trivial_move t \<and> \<not> has_trivial_dtor t) d s n m)"
proof (cases "use_trivial_move t")
  case True
  have "memmove d s n m = relocated False d s n m" by (rule storage_eqI) (simp_all add: memmove_def slots_relocated)
  then show ?thesis using True by (simp add: move_forward_type_def move_backward_type_def)
qed (use assms move_forward_loop_relocates [of s d n m t] move_backward_loop_relocates [of d s n m t] in
    \<open>auto simp: move_forward_type_def move_backward_type_def\<close>)

definition plain :: traits where
  "plain = \<lparr>has_trivial_ctor = False, has_trivial_dtor = False, has_trivial_copy = False, has_trivial_move = False\<rparr>"

definition three :: "char storage" where
  "three = \<lparr>slots = [0 \<mapsto> CHR ''a'', 1 \<mapsto> CHR ''b'', 2 \<mapsto> CHR ''c''], leaked = 0\<rparr>"

theorem move_types_correct_witness:
  "move_forward_type plain 1 0 3 three = Ok (relocated True 1 0 3 three) \<and>
   segment (relocated True 1 0 3 three) 0 4 = [None, Some CHR ''a'', Some CHR ''b'', Some CHR ''c'']"
proof -
  have "occupied 0 3 three" by (auto simp: occupied_def three_def less_Suc_eq eval_nat_numeral)
  moreover have "vacant plain 1 0 3 three" by (auto simp: vacant_def three_def plain_def)
  ultimately show ?thesis
    using move_types_correct [of 0 3 three plain 1]
    by (simp add: plain_def use_trivial_move_def segment_def relocated_def three_def eval_nat_numeral)
qed

text \<open>The loop in the other direction overwrites what it has still to move: an object is copied over one that is alive.\<close>

theorem move_direction_matters:
  "res_map leaked (move_backward_loop plain 1 0 3 three) \<noteq> Ok 0"
  by (simp add: eval_nat_numeral move_one_def read_cell_def three_def plain_def construct_def destroy_def Let_def)

subsection \<open>Construction, destruction, copies\<close>

text \<open>A copy into raw storage elsewhere leaves the originals and makes an equal segment, with or without \<open>memcpy\<close>.\<close>

theorem copy_type_correct:
  assumes "occupied s n m" "d + n \<le> s \<or> s + n \<le> d" "\<forall>a. d \<le> a \<and> a < d + n \<longrightarrow> slots m a = None"
  shows "copy_type t d s n m = Ok (relocated False d s n m)"
proof (cases "has_trivial_copy t")
  case True
  have "memmove d s n m = relocated False d s n m" by (rule storage_eqI) (simp_all add: memmove_def slots_relocated)
  then show ?thesis using True assms(2) by (auto simp: copy_type_def memcpy_cells_def)
next
  case False
  have "copy_loop t d s n m = Ok (relocated False d s n m)"
    using assms
  proof (induction n arbitrary: d s m)
    case (Suc n)
    obtain v where v: "slots m s = Some v" using Suc.prems(1) by (auto simp: occupied_def)
    have c: "construct t d v m = relocated False d s 1 m"
      using v Suc.prems(3) by (intro storage_eqI) (auto simp: construct_def slots_relocated)
    have "occupied (s + 1) n (relocated False d s 1 m)" using Suc.prems(1) v by (auto simp: occupied_def slots_relocated)
    moreover have "\<forall>a. d + 1 \<le> a \<and> a < d + 1 + n \<longrightarrow> slots (relocated False d s 1 m) a = None"
      using Suc.prems(3) by (auto simp: slots_relocated)
    ultimately have "copy_loop t (d + 1) (s + 1) n (relocated False d s 1 m) = Ok (relocated False d s (Suc n) m)"
      using Suc.IH [of "s + 1" "relocated False d s 1 m" "d + 1"] Suc.prems(2) relocated_backward [of d s False n m] by auto
    then show ?case using v c by (simp add: read_cell_def)
  qed simp
  then show ?thesis using False by (simp add: copy_type_def)
qed

theorem copy_type_correct_witness: "copy_type plain 5 0 3 three = Ok (relocated False 5 0 3 three)"
  using copy_type_correct [of 0 3 three 5 plain] by (auto simp: occupied_def three_def less_Suc_eq eval_nat_numeral)

lemma construct_destroy:
  assumes "\<forall>a. p \<le> a \<and> a < p + n \<longrightarrow> slots m a = None" "\<not> has_trivial_ctor t" "\<not> has_trivial_dtor t"
  shows "destroy_type t p n (construct_type t fresh p n m) = Ok m"
proof -
  have c: "construct_type t fresh p n m = m\<lparr>slots := (\<lambda>a. if p \<le> a \<and> a < p + n then Some fresh else slots m a)\<rparr>"
    using assms(1)
  proof (induction n arbitrary: p m)
    case (Suc n)
    have "construct t p fresh m = m\<lparr>slots := (slots m)(p \<mapsto> fresh)\<rparr>" using Suc.prems by (simp add: construct_def)
    then have "construct_type t fresh p (Suc n) m = construct_type t fresh (p + 1) n (m\<lparr>slots := (slots m)(p \<mapsto> fresh)\<rparr>)"
      using assms(2) by simp
    also have "\<dots> = m\<lparr>slots := (\<lambda>a. if p + 1 \<le> a \<and> a < p + 1 + n then Some fresh else ((slots m)(p \<mapsto> fresh)) a)\<rparr>"
      using Suc.prems by (subst Suc.IH) (auto intro!: storage_eqI)
    also have "\<dots> = m\<lparr>slots := (\<lambda>a. if p \<le> a \<and> a < p + Suc n then Some fresh else slots m a)\<rparr>"
      by (rule storage_eqI) auto
    finally show ?case .
  qed (auto intro: storage_eqI)
  have "destroy_type t p n (m\<lparr>slots := (\<lambda>a. if p \<le> a \<and> a < p + n then Some fresh else slots m a)\<rparr>) = Ok m"
    using assms(1)
  proof (induction n arbitrary: p)
    case (Suc n)
    let ?c = "\<lambda>p n a. if p \<le> a \<and> a < p + n then Some fresh else slots m a"
    have "(?c p (Suc n))(p := None) = ?c (p + 1) n" using Suc.prems by (auto simp: fun_eq_iff)
    then have "destroy p (m\<lparr>slots := ?c p (Suc n)\<rparr>) = Ok (m\<lparr>slots := ?c (p + 1) n\<rparr>)" by (simp add: destroy_def)
    then show ?case using Suc.prems assms(3) Suc.IH [of "p + 1"] by simp
  qed (auto intro: storage_eqI)
  then show ?thesis by (simp only: c)
qed

subsection \<open>Order and hash\<close>

theorem compare_type_order:
  "compare_type x y = (if x < y then - 1 else if y < x then 1 else 0)"
  by (auto simp: compare_type_def strictly_order_type_def)

text \<open>The signed and the unsigned type hash the same bits the same way, to the exclusive or of the halves.\<close>

theorem hash_halves:
  "hash_type_int64 value = ucast (drop_bit 32 value) XOR ucast value \<and> hash_type_uint64 value = hash_type_int64 value"
proof -
  have "hash_type_uint64 value = ucast (drop_bit 32 value) XOR ucast value"
    by (rule bit_word_eqI) (auto simp: hash_type_uint64_def bit_simps)
  moreover have "hash_type_int64 value = ucast (drop_bit 32 value) XOR ucast value"
    by (rule bit_word_eqI) (auto simp: hash_type_int64_def bit_simps)
  ultimately show ?thesis by simp
qed

end
