(* ===== verification/Arith_Utils.thy ===== *)
theory Arith_Utils
  imports MC_Prelude "HOL-Library.Signed_Division"
begin

section \<open>\<open>foundation/AUtils.h\<close>, \<open>utils/Timers.h\<close>: rounding, alignment, ranges, units of time\<close>

text \<open>
  The templates are instantiated in two ways.
  \<^item> \<open>divRound\<close>, \<open>divUp\<close>, \<open>abs\<close>, \<open>periodicError\<close> at a signed type of \<open>w\<close> bits (\<open>int\<close> or wider, so that no operand is
    promoted): a value is an \<open>int\<close> in \<open>in_range w\<close>, division truncates, and an intermediate result out of
    range is \<open>Undef\<close>, as is a division by 0.
  \<^item> \<open>align\<close> and \<open>isInRange\<close> at unsigned types of 32 bits or more: \<open>T\<close> is \<open>'a word\<close>, \<open>U\<close> is \<open>'b word\<close>; a sum of both is computed
    in the wider type and cast, which is the sum of the casts.
\<close>

definition in_range :: "nat \<Rightarrow> int \<Rightarrow> bool" where
  "in_range w x = (- (2 ^ (w - 1)) \<le> x \<and> x < 2 ^ (w - 1))"

definition checked :: "nat \<Rightarrow> int \<Rightarrow> int res" where
  "checked w x = (if in_range w x then Ok x else Undef)"

definition divide_T :: "nat \<Rightarrow> int \<Rightarrow> int \<Rightarrow> int res" where
  "divide_T w x y = (if y = 0 then Undef else checked w (x sdiv y))"

definition divRound :: "nat \<Rightarrow> int \<Rightarrow> int \<Rightarrow> int res" where
  "divRound w num den =
     (if (0 \<le> num) \<noteq> (0 \<le> den) then res_bind (checked w (num - den sdiv 2)) (\<lambda>x. divide_T w x den)
      else res_bind (checked w (num + den sdiv 2)) (\<lambda>x. divide_T w x den))"

definition divUp :: "nat \<Rightarrow> int \<Rightarrow> int \<Rightarrow> int res" where
  "divUp w num den =
     (if den < 0 then res_bind (if num < 0 then res_bind (checked w (num + den)) (\<lambda>x. checked w (x + 1)) else Ok num) (\<lambda>x. divide_T w x den)
      else res_bind (if num < 0 then Ok num else res_bind (checked w (num + den)) (\<lambda>x. checked w (x - 1))) (\<lambda>x. divide_T w x den))"

definition abs_T :: "nat \<Rightarrow> int \<Rightarrow> int res" where
  "abs_T w a = (if a < 0 then checked w (- a) else Ok a)"

definition periodicError :: "nat \<Rightarrow> int \<Rightarrow> int \<Rightarrow> int res" where
  "periodicError w val period = res_bind (abs_T w val) (\<lambda>a.
     if period = 0 then Undef else let err = a smod period in if err < period sdiv 2 then Ok err else checked w (period - err))"

definition align :: "'a::len word \<Rightarrow> 'b::len word \<Rightarrow> 'a word" where
  "align num den = (num + ucast (den - 1)) AND ucast (NOT (den - 1))"

definition isInRange :: "'a::len word \<Rightarrow> 'b::len word \<Rightarrow> 'a word \<Rightarrow> bool" where
  "isInRange hayStart haySize needle =
     (hayStart \<le> hayStart + ucast haySize \<and> hayStart \<le> needle \<and> ucast (needle - hayStart) < haySize)"

definition isInRange_segment :: "'a::len word \<Rightarrow> 'b::len word \<Rightarrow> 'a word \<Rightarrow> 'b word \<Rightarrow> bool" where
  "isInRange_segment hayStart haySize needleStart needleSize =
     (isInRange hayStart haySize needleStart \<and> needleStart \<le> needleStart + ucast needleSize \<and>
      ucast needleStart + needleSize - ucast hayStart \<le> haySize)"

text \<open>The units of \<open>utils/Timers.h\<close>: \<open>nsecs_t\<close> has 64 bits.\<close>

definition seconds_to_nanoseconds :: "int \<Rightarrow> int res" where
  "seconds_to_nanoseconds secs = checked 64 (secs * 1000000000)"

definition milliseconds_to_nanoseconds :: "int \<Rightarrow> int res" where
  "milliseconds_to_nanoseconds secs = checked 64 (secs * 1000000)"

definition microseconds_to_nanoseconds :: "int \<Rightarrow> int res" where
  "microseconds_to_nanoseconds secs = checked 64 (secs * 1000)"

definition nanoseconds_to_seconds :: "int \<Rightarrow> int" where
  "nanoseconds_to_seconds secs = secs sdiv 1000000000"

definition nanoseconds_to_milliseconds :: "int \<Rightarrow> int" where
  "nanoseconds_to_milliseconds secs = secs sdiv 1000000"

definition nanoseconds_to_microseconds :: "int \<Rightarrow> int" where
  "nanoseconds_to_microseconds secs = secs sdiv 1000"

subsection \<open>Division\<close>

text \<open>Truncating division in terms of the sign and the magnitudes.\<close>

lemma sdiv_pos: "0 \<le> x \<Longrightarrow> 0 \<le> y \<Longrightarrow> x sdiv y = x div y" for x y :: int
  by (cases "x = 0"; cases "y = 0") (simp_all add: signed_divide_int_def)

lemma sdiv_signs:
  "x \<le> 0 \<Longrightarrow> 0 \<le> y \<Longrightarrow> x sdiv y = - ((- x) div y)"
  "0 \<le> x \<Longrightarrow> y \<le> 0 \<Longrightarrow> x sdiv y = - (x div (- y))"
  "x \<le> 0 \<Longrightarrow> y \<le> 0 \<Longrightarrow> x sdiv y = (- x) div (- y)" for x y :: int
  using sdiv_pos [of "- x" y] sdiv_pos [of x "- y"] sdiv_pos [of "- x" "- y"] by simp_all

lemma nearest:
  fixes n d :: int
  assumes "0 < d"
  shows "\<bar>2 * (n - d * ((n + d div 2) div d))\<bar> \<le> d"
proof -
  have "d * ((n + d div 2) div d) + (n + d div 2) mod d = n + d div 2" by simp
  moreover have "0 \<le> (n + d div 2) mod d" "(n + d div 2) mod d < d" using assms by simp_all
  moreover have "2 * (d div 2) \<le> d" "d < 2 * (d div 2) + 2" by simp_all
  moreover have "\<bar>2 * (n - p)\<bar> \<le> d" if "p + r = n + h" "0 \<le> r" "r < d" "2 * h \<le> d" "d < 2 * h + 2" for p r h
    using that by presburger
  ultimately show ?thesis by blast
qed

text \<open>With the sign split off, \<open>divRound\<close> divides the magnitudes and rounds to the nearest.\<close>

lemma divRound_magnitude:
  fixes num den :: int
  assumes "den \<noteq> 0"
  shows "(if (0 \<le> num) \<noteq> (0 \<le> den) then (num - den sdiv 2) sdiv den else (num + den sdiv 2) sdiv den) =
    (if (0 \<le> num) \<noteq> (0 \<le> den) then - ((\<bar>num\<bar> + \<bar>den\<bar> div 2) div \<bar>den\<bar>) else (\<bar>num\<bar> + \<bar>den\<bar> div 2) div \<bar>den\<bar>)"
proof -
  have h: "den sdiv 2 = (if 0 \<le> den then \<bar>den\<bar> div 2 else - (\<bar>den\<bar> div 2))" by (simp add: sdiv_pos sdiv_signs)
  have n: "0 \<le> \<bar>den\<bar> div 2" by simp
  consider "0 \<le> num" "0 < den" | "0 \<le> num" "den < 0" | "num < 0" "0 < den" | "num < 0" "den < 0" using assms by linarith
  then show ?thesis
  proof cases
    case 1
    then show ?thesis using h n by (simp add: sdiv_pos)
  next
    case 2
    then show ?thesis using h n sdiv_signs(2) [of "num - den sdiv 2" den] by simp
  next
    case 3
    then show ?thesis using h n sdiv_signs(1) [of "num - den sdiv 2" den] by (simp add: algebra_simps)
  next
    case 4
    then show ?thesis using h n sdiv_signs(3) [of "num + den sdiv 2" den] by (simp add: algebra_simps)
  qed
qed

theorem divRound_nearest:
  assumes "in_range w num" "in_range w den" "den \<noteq> 0" "\<bar>num\<bar> + \<bar>den\<bar> div 2 < 2 ^ (w - 1)"
  shows "\<exists>q. divRound w num den = Ok q \<and> \<bar>2 * (num - den * q)\<bar> \<le> \<bar>den\<bar>"
proof -
  let ?m = "(\<bar>num\<bar> + \<bar>den\<bar> div 2) div \<bar>den\<bar>" and ?o = "(0 \<le> num) \<noteq> (0 \<le> den)"
  let ?x = "if ?o then num - den sdiv 2 else num + den sdiv 2"
  have h: "den sdiv 2 = (if 0 \<le> den then \<bar>den\<bar> div 2 else - (\<bar>den\<bar> div 2))" by (simp add: sdiv_pos sdiv_signs)
  have x: "\<bar>?x\<bar> = \<bar>num\<bar> + \<bar>den\<bar> div 2" unfolding h by (cases "0 \<le> num"; cases "0 \<le> den") simp_all
  have m: "0 \<le> ?m" "?m \<le> \<bar>num\<bar> + \<bar>den\<bar> div 2" using assms(3) using zdiv_mono2 [of "\<bar>num\<bar> + \<bar>den\<bar> div 2" 1 "\<bar>den\<bar>"] by (simp_all add: pos_imp_zdiv_nonneg_iff)
  have q: "?x sdiv den = (if ?o then - ?m else ?m)" using divRound_magnitude [OF assms(3), of num] by auto
  have in_range: "in_range w y" if "\<bar>y\<bar> \<le> \<bar>num\<bar> + \<bar>den\<bar> div 2" for y
    using that assms(4) unfolding in_range_def by linarith
  have "in_range w ?x" using x by (intro in_range) simp
  moreover have "in_range w (?x sdiv den)" unfolding q by (intro in_range) (use m in \<open>simp split: if_splits\<close>)
  ultimately have "divRound w num den = Ok (if ?o then - ?m else ?m)"
    using q assms(3) by (cases ?o) (simp_all add: divRound_def checked_def divide_T_def)
  moreover have signs: "\<bar>2 * (num - den * (if ?o then - q else q))\<bar> = \<bar>2 * (\<bar>num\<bar> - \<bar>den\<bar> * q)\<bar>" for q
    by (cases "0 \<le> num"; cases "0 \<le> den") (simp_all add: abs_minus_commute)
  have "\<bar>2 * (num - den * (if ?o then - ?m else ?m))\<bar> \<le> \<bar>den\<bar>"
    unfolding signs using nearest [of "\<bar>den\<bar>" "\<bar>num\<bar>"] assms(3) by simp
  ultimately show ?thesis by blast
qed

theorem divRound_nearest_witness: "\<exists>q. divRound 32 (- 7) 2 = Ok q \<and> \<bar>2 * (- 7 - 2 * q)\<bar> \<le> \<bar>2\<bar>"
  using divRound_nearest [of 32 "- 7" 2] by (simp add: in_range_def)

lemma ceiling_div: "0 < d \<Longrightarrow> (n + d - 1) div d = - ((- n) div d)" for n d :: int
proof -
  assume d: "0 < d"
  let ?q = "(- n) div d"
  have q: "d * ?q \<le> - n" "- n < d * ?q + d"
    using mult_div_mod_eq [of d "- n"] pos_mod_sign [OF d, of "- n"] pos_mod_bound [OF d, of "- n"] by linarith+
  show ?thesis
  proof (rule int_div_pos_eq)
    show "n + d - 1 = d * (- ?q) + (n + d - 1 + d * ?q)" by simp
  qed (use q in \<open>linarith+\<close>)
qed

theorem divUp_ceiling:
  assumes "den \<noteq> 0" "\<bar>num\<bar> + \<bar>den\<bar> < 2 ^ (w - 1)"
  shows "divUp w num den = Ok (- ((- num) div den))"
proof -
  have in_range: "in_range w y" if "\<bar>y\<bar> \<le> \<bar>num\<bar> + \<bar>den\<bar>" for y
    using that assms(2) unfolding in_range_def by linarith
  have "\<bar>(- num) div den\<bar> \<le> \<bar>num\<bar> + \<bar>den\<bar>"
  proof -
    have m: "\<bar>(- num) mod den\<bar> < \<bar>den\<bar>" using assms(1) by (rule abs_mod_less)
    have "\<bar>(- num) div den\<bar> * 1 \<le> \<bar>(- num) div den\<bar> * \<bar>den\<bar>" using assms(1) by (intro mult_left_mono) simp_all
    also have "\<dots> = \<bar>- num - (- num) mod den\<bar>" by (simp add: minus_mod_eq_div_mult abs_mult)
    finally show ?thesis using m by linarith
  qed
  then have r: "in_range w (- ((- num) div den))" by (intro in_range) simp
  consider "0 \<le> num" "0 < den" | "0 \<le> num" "den < 0" | "num < 0" "0 < den" | "num < 0" "den < 0" using assms(1) by linarith
  then show ?thesis
  proof cases
    case 1
    then show ?thesis using r in_range ceiling_div [of den num] by (simp add: divUp_def checked_def divide_T_def sdiv_pos)
  next
    case 2
    have "(- num) div den = num div - den" by (simp add: div_minus_right)
    then show ?thesis using 2 r sdiv_signs(2) [of num den] by (simp add: divUp_def checked_def divide_T_def)
  next
    case 3
    then show ?thesis using r sdiv_signs(1) [of num den] by (simp add: divUp_def checked_def divide_T_def)
  next
    case 4
    have "- (num + den + 1) = - num + - den - 1" by simp
    then have "(num + den + 1) sdiv den = (- num + - den - 1) div (- den)" using 4 sdiv_signs(3) [of "num + den + 1" den] by simp
    also have "\<dots> = - ((- num) div den)" using 4 ceiling_div [of "- den" "- num"] by (simp add: div_minus_right)
    finally show ?thesis using 4 r in_range by (simp add: divUp_def checked_def divide_T_def)
  qed
qed

theorem divUp_ceiling_witness: "divUp 32 7 (- 2) = Ok (- 3)"
  using divUp_ceiling [of "- 2" 7 32] by simp

subsection \<open>Units of time\<close>

text \<open>A conversion to nanoseconds is defined iff the result fits, and converting back gives the time again.\<close>

lemma sdiv_mult_cancel: "0 < d \<Longrightarrow> (v * d) sdiv d = v" for v d :: int
proof (cases "0 \<le> v")
  case False
  assume d: "0 < d"
  then have "v * d \<le> 0" using False by (simp add: mult_nonpos_nonneg)
  then have "(v * d) sdiv d = - ((- v * d) div d)" using sdiv_signs(1) [of "v * d" d] d by (simp only: mult_minus_left)
  also have "- v * d div d = - v" using d by (intro nonzero_mult_div_cancel_right) simp
  finally show ?thesis by simp
qed (simp add: sdiv_pos)

theorem timers_roundtrip:
  "res_map nanoseconds_to_seconds (seconds_to_nanoseconds v) = (if in_range 64 (v * 1000000000) then Ok v else Undef) \<and>
   res_map nanoseconds_to_milliseconds (milliseconds_to_nanoseconds v) = (if in_range 64 (v * 1000000) then Ok v else Undef) \<and>
   res_map nanoseconds_to_microseconds (microseconds_to_nanoseconds v) = (if in_range 64 (v * 1000) then Ok v else Undef)"
  by (simp add: seconds_to_nanoseconds_def milliseconds_to_nanoseconds_def microseconds_to_nanoseconds_def checked_def
      nanoseconds_to_seconds_def nanoseconds_to_milliseconds_def nanoseconds_to_microseconds_def sdiv_mult_cancel)

subsection \<open>The error of a period\<close>

text \<open>
  The value is compared with half of the period, which is truncated: when the period is odd and the value is
  the larger half past a multiple, the error is one too large (and 1, not 0, for period 1).
\<close>

theorem periodicError_exact:
  assumes "in_range w val" "in_range w period" "0 < period" "val \<noteq> - (2 ^ (w - 1))"
  shows "periodicError w val period = Ok (let r = \<bar>val\<bar> mod period in
    if odd period \<and> r = period div 2 then r + 1 else min r (period - r))"
proof -
  let ?r = "\<bar>val\<bar> mod period"
  have a: "abs_T w val = Ok \<bar>val\<bar>" using assms(1,4) by (auto simp: abs_T_def checked_def in_range_def)
  have r: "0 \<le> ?r" "?r < period" using assms(3) by simp_all
  have s: "\<bar>val\<bar> smod period = ?r" using assms(3) by (simp add: smod_mod_positive)
  have i: "in_range w (period - ?r)" using assms(2) r by (auto simp: in_range_def intro: order_trans [of _ 0])
  have "periodicError w val period = Ok (if ?r < period div 2 then ?r else period - ?r)"
    using a s i assms(3) by (simp add: periodicError_def Let_def checked_def sdiv_pos)
  moreover have "(if y < period div 2 then y else period - y) = (if odd period \<and> y = period div 2 then y + 1 else min y (period - y))" for y
    by (auto simp: min_def elim!: evenE oddE)
  ultimately show ?thesis by (simp only: Let_def)
qed

theorem periodicError_exact_witness: "periodicError 32 7 5 = Ok 3"
  using periodicError_exact [of 32 7 5] by (simp add: in_range_def)

subsection \<open>Ranges\<close>

text \<open>
  With one type for positions and sizes the test is membership in the range; a range that ends at the very
  top of the type counts as empty, since its end wraps to 0.
\<close>

lemma no_wrap: "x \<le> x + y \<longleftrightarrow> unat x + unat y < 2 ^ LENGTH('a)" for x y :: "'a::len word"
  using no_olen_add_nat [of x y] by simp

theorem isInRange_correct:
  "isInRange hayStart haySize needle \<longleftrightarrow>
     unat hayStart \<le> unat needle \<and> unat needle < unat hayStart + unat haySize \<and> unat hayStart + unat haySize < 2 ^ LENGTH('a)"
  for hayStart haySize needle :: "'a::len word"
proof (cases "hayStart \<le> needle")
  case True
  then have "unat (needle - hayStart) = unat needle - unat hayStart" "unat hayStart \<le> unat needle"
    by (simp_all add: unat_sub word_le_nat_alt)
  then show ?thesis using True by (auto simp: isInRange_def no_wrap word_less_nat_alt)
qed (simp add: isInRange_def word_le_nat_alt)

theorem isInRange_segment_correct:
  "isInRange_segment hayStart haySize needleStart needleSize \<longleftrightarrow>
     unat hayStart + unat haySize < 2 ^ LENGTH('a) \<and> unat hayStart \<le> unat needleStart \<and>
     unat needleStart < unat hayStart + unat haySize \<and> unat needleStart + unat needleSize \<le> unat hayStart + unat haySize"
  for hayStart haySize needleStart needleSize :: "'a::len word"
proof (cases "isInRange hayStart haySize needleStart \<and> unat needleStart + unat needleSize < 2 ^ LENGTH('a)")
  case True
  then have u: "unat (needleStart + needleSize) = unat needleStart + unat needleSize" by (simp add: unat_add_lem)
  have h: "unat hayStart \<le> unat needleStart" using True by (simp add: isInRange_correct)
  then have "hayStart \<le> needleStart + needleSize" using u by (simp add: word_le_nat_alt)
  then have "unat (needleStart + needleSize - hayStart) = unat needleStart + unat needleSize - unat hayStart" using u by (simp add: unat_sub)
  then show ?thesis using True h u by (auto simp: isInRange_segment_def isInRange_correct no_wrap word_le_nat_alt)
qed (auto simp: isInRange_segment_def isInRange_correct no_wrap)

text \<open>With a narrower type for the size, the distance is truncated before the comparison: positions a whole
  multiple of \<open>2 ^ 32\<close> past the range are taken to lie in it.\<close>

theorem isInRange_truncates: "isInRange (0 :: u64) (10 :: u32) (2 ^ 32 + 5)"
  by code_simp

subsection \<open>Alignment\<close>

lemma and_not_mask: "x AND NOT (mask n) = x - take_bit n x" for x :: "'a::len word"
proof -
  have "x AND NOT (mask n) = x AND NOT (take_bit n x)" by (rule bit_word_eqI) (auto simp: bit_simps)
  also have "\<dots> = x - take_bit n x" by (rule disjunctive_diff [symmetric]) (simp add: bit_simps)
  finally show ?thesis .
qed

lemma unat_and_not_mask: "unat (x AND NOT (mask n)) = unat x div 2 ^ n * 2 ^ n" for x :: "'a::len word"
proof -
  have t: "unat (take_bit n x) = unat x mod 2 ^ n" by (subst unsigned_take_bit_eq) (rule take_bit_eq_mod)
  then have "take_bit n x \<le> x" by (simp add: word_le_nat_alt)
  then show ?thesis using t by (simp add: and_not_mask unat_sub minus_mod_eq_div_mult)
qed

theorem align_correct:
  fixes num den :: "'a::len word"
  assumes "den = 2 ^ k" "k < LENGTH('a)" "unat num + (2 ^ k - 1) < 2 ^ LENGTH('a)"
  shows "unat (align num den) = (unat num + (2 ^ k - 1)) div 2 ^ k * 2 ^ k"
proof -
  have d: "den - 1 = mask k" using assms(1) by (simp add: mask_eq_decr_exp)
  have "uint (mask k :: 'a word) = 2 ^ k - 1" using assms(2) uint_mask_eq [of k, where 'a = 'a] by (simp add: mask_eq_exp_minus_1 [where 'a = int])
  then have "unat (mask k :: 'a word) = 2 ^ k - 1" by (simp only: unat_eq_nat_uint) (simp add: nat_diff_distrib nat_power_eq)
  then have "unat (num + mask k) = unat num + (2 ^ k - 1)" using assms(3) by (simp only: unat_word_ariths(1) mod_less)
  then show ?thesis by (simp add: align_def d unat_and_not_mask)
qed

theorem align_correct_witness: "unat (align (13 :: u32) (8 :: u32)) = (13 + (2 ^ 3 - 1)) div 2 ^ 3 * 2 ^ 3"
  using align_correct [of "8 :: u32" 3 13] by simp

text \<open>With an unsigned alignment narrower than the number the mask has no upper half, and neither has the result.\<close>

theorem align_truncates: "align (2 ^ 32 + 1 :: u64) (16 :: u32) = 16"
  by code_simp

end
