(* ===== verification/Modulo_Counters.thy ===== *)
theory Modulo_Counters
  imports MC_Prelude
begin

section \<open>\<open>media/Modulo.h\<close>: counters that wrap\<close>

text \<open>
  \<open>Modulo<T>\<close> wraps a counter of \<open>n\<close> bits and compares by the sign of the difference. \<open>T\<close> may be signed or unsigned; the
  operations compute in the unsigned type and convert back, so that the value is \<open>'a word\<close> in both cases and
  \<open>sint\<close>, \<open>uint\<close> read it. The argument \<open>S\<close> of the operations on two \<open>Modulo\<close>s is of the same size, except for
  \<open>+=\<close> and \<open>-=\<close>, where it may be larger; a plain argument is any integer.
\<close>

definition signedValue :: "'a::len word \<Rightarrow> int" where
  "signedValue m = sint m"

definition unsignedValue :: "'a::len word \<Rightarrow> int" where
  "unsignedValue m = uint m"

definition add_assign :: "'a::len word \<Rightarrow> 'b::len word \<Rightarrow> 'a word" where
  "add_assign m other = m + of_int (unsignedValue other)"

definition sub_assign :: "'a::len word \<Rightarrow> 'b::len word \<Rightarrow> 'a word" where
  "sub_assign m other = m - of_int (unsignedValue other)"

definition modulo_add :: "'a::len word \<Rightarrow> 'a word \<Rightarrow> 'a word" where
  "modulo_add m other = m + of_int (unsignedValue other)"

definition modulo_sub :: "'a::len word \<Rightarrow> 'a word \<Rightarrow> 'a word" where
  "modulo_sub m other = m - of_int (unsignedValue other)"

definition modulo_gt :: "'a::len word \<Rightarrow> 'a word \<Rightarrow> bool" where
  "modulo_gt m other = (sint (m - of_int (unsignedValue other)) > 0)"

definition modulo_ge :: "'a::len word \<Rightarrow> 'a word \<Rightarrow> bool" where
  "modulo_ge m other = (sint (m - of_int (unsignedValue other)) \<ge> 0)"

definition modulo_eq :: "'a::len word \<Rightarrow> 'a word \<Rightarrow> bool" where
  "modulo_eq m other = (sint (m - of_int (unsignedValue other)) = 0)"

definition modulo_le :: "'a::len word \<Rightarrow> 'a word \<Rightarrow> bool" where
  "modulo_le m other = (sint (m - of_int (unsignedValue other)) \<le> 0)"

definition modulo_lt :: "'a::len word \<Rightarrow> 'a word \<Rightarrow> bool" where
  "modulo_lt m other = (sint (m - of_int (unsignedValue other)) < 0)"

definition add_assign_value :: "'a::len word \<Rightarrow> int \<Rightarrow> 'a word" where
  "add_assign_value m other = m + of_int other"

definition sub_assign_value :: "'a::len word \<Rightarrow> int \<Rightarrow> 'a word" where
  "sub_assign_value m other = m - of_int other"

definition modulo_add_value :: "'a::len word \<Rightarrow> int \<Rightarrow> 'a word" where
  "modulo_add_value m other = m + of_int other"

definition modulo_sub_value :: "'a::len word \<Rightarrow> int \<Rightarrow> 'a word" where
  "modulo_sub_value m other = m - of_int other"

lemmas modulo_updates = add_assign_def sub_assign_def modulo_add_def modulo_sub_def add_assign_value_def sub_assign_value_def
  modulo_add_value_def modulo_sub_value_def unsignedValue_def

lemmas modulo_comparisons = modulo_gt_def modulo_ge_def modulo_eq_def modulo_le_def modulo_lt_def unsignedValue_def

text \<open>A counter stands for an integer that it is congruent to.\<close>

definition counts :: "'a::len word \<Rightarrow> int \<Rightarrow> bool" where
  "counts m x = (m = of_int x)"

lemma sint_word_of_int_small:
  "- (2 ^ (LENGTH('a) - 1)) \<le> z \<Longrightarrow> z < 2 ^ (LENGTH('a) - 1) \<Longrightarrow> sint (word_of_int z :: 'a::len word) = z"
  by (simp add: signed_of_int signed_take_bit_int_eq_self)

lemma sint_diff:
  fixes a b :: "'a::len word"
  assumes "counts a x" "counts b y" "- (2 ^ (LENGTH('a) - 1)) \<le> x - y" "x - y < 2 ^ (LENGTH('a) - 1)"
  shows "sint (a - b) = x - y"
proof -
  have "a - b = word_of_int (x - y)" using assms(1,2) by (simp add: counts_def)
  then show ?thesis using sint_word_of_int_small [OF assms(3,4)] by (simp only:)
qed

text \<open>Additions and subtractions of whatever size follow the unbounded counter.\<close>

theorem modulo_follows:
  fixes m :: "'a::len word" and other :: "'b::len word" and k :: "'a word"
  assumes "counts m x" "counts k z" "LENGTH('a) \<le> LENGTH('b)" "counts other y"
  shows "counts (add_assign m other) (x + y) \<and> counts (sub_assign m other) (x - y) \<and>
    counts (modulo_add m k) (x + z) \<and> counts (modulo_sub m k) (x - z) \<and>
    counts (add_assign_value m v) (x + v) \<and> counts (sub_assign_value m v) (x - v) \<and>
    counts (modulo_add_value m v) (x + v) \<and> counts (modulo_sub_value m v) (x - v)"
proof -
  have "(word_of_int (uint other) :: 'a word) = word_of_int y"
    using assms(3,4) by (simp add: counts_def uint_word_of_int_eq word_of_int_eq_iff take_bit_take_bit min_def)
  then show ?thesis using assms(1,2) by (simp add: modulo_updates counts_def)
qed

theorem modulo_follows_witness:
  "counts (add_assign (250 :: 8 word) (10 :: 16 word)) (250 + 10)"
  using modulo_follows [of "250 :: 8 word" 250 0 0 "10 :: 16 word" 10] by (simp add: counts_def)

text \<open>As long as two counters are less than half of the range apart, the comparisons are those of what they count.\<close>

theorem modulo_compares:
  fixes a b :: "'a::len word"
  assumes "counts a x" "counts b y" "\<bar>x - y\<bar> < 2 ^ (LENGTH('a) - 1)"
  shows "modulo_gt a b = (x > y) \<and> modulo_ge a b = (x \<ge> y) \<and> modulo_eq a b = (x = y) \<and> modulo_le a b = (x \<le> y) \<and> modulo_lt a b = (x < y)"
  using sint_diff [OF assms(1,2)] assms(3) by (simp add: modulo_comparisons abs_less_iff)

theorem modulo_compares_witness: "modulo_gt (4 :: 8 word) 250"
  using modulo_compares [of "4 :: 8 word" 260 250 250] by (simp add: counts_def)

text \<open>At half of the range, and only there, each of the two is less than the other.\<close>

theorem modulo_lt_symmetric: "modulo_lt a b \<and> modulo_lt b a \<longleftrightarrow> sint (a - b) = - (2 ^ (LENGTH('a) - 1))"
  for a b :: "'a::len word"
proof (cases "sint (a - b) = - (2 ^ (LENGTH('a) - 1))")
  case True
  have "a - b = word_of_int (sint (a - b))" by (simp only: of_int_sint scast_id)
  also have "\<dots> = word_of_int (- (2 ^ (LENGTH('a) - 1)))" by (simp only: True)
  finally have ab: "a - b = word_of_int (- (2 ^ (LENGTH('a) - 1)))" .
  then have "b - a = word_of_int (2 ^ (LENGTH('a) - 1))" using minus_diff_eq [of a b] by (simp only: ab) simp
  also have "\<dots> = word_of_int (- (2 ^ (LENGTH('a) - 1)))"
  proof -
    have "(2 :: 'a word) * 2 ^ (LENGTH('a) - 1) = 2 ^ LENGTH('a)" by (simp only: power_Suc [symmetric] Suc_diff_1 [OF len_gt_0])
    then have "(2 :: 'a word) ^ (LENGTH('a) - 1) + 2 ^ (LENGTH('a) - 1) = 0" by (simp only: mult_2 word_exp_length_eq_0)
    then show ?thesis by (simp only: of_int_minus of_int_power of_int_numeral eq_neg_iff_add_eq_0)
  qed
  finally have "b - a = a - b" by (simp only: ab)
  then have "sint (b - a) = sint (a - b)" by (simp only:)
  then show ?thesis using True by (simp add: modulo_lt_def unsignedValue_def)
next
  case False
  have r: "- (2 ^ (LENGTH('a) - 1)) \<le> sint (a - b)" "sint (a - b) < 2 ^ (LENGTH('a) - 1)"
    using sint_ge [of "a - b"] sint_lt [of "a - b"] by simp_all
  have "b - a = word_of_int (- sint (a - b))" by simp
  then have "sint (b - a) = - sint (a - b)" using r False sint_word_of_int_small [where 'a = 'a and z = "- sint (a - b)"] by simp
  then show ?thesis using False by (simp add: modulo_lt_def unsignedValue_def)
qed

end
