(* ===== verification/Data_Source.thy ===== *)
theory Data_Source
  imports Wire_Format
begin

section \<open>\<open>stagefright/DataSourceBase.h\<close>: big-endian integers of a source\<close>

text \<open>
  \<open>readAt\<close> is virtual: an argument, which threads the state of the source and gives the bytes it has put into
  the buffer, \<open>None\<close> for -1. \<open>ntoh64\<close> is declared in ByteUtils.h and is an argument, too; \<open>ntohl\<close> is the library's, on a
  little-endian machine. Each getter gives its result, what is in \<open>*x\<close> afterwards and the state; \<open>x\<close> is what was in \<open>*x\<close>.
\<close>

type_synonym 's readAt = "int \<Rightarrow> nat \<Rightarrow> 's \<Rightarrow> byte list option \<times> 's"

text \<open>The bytes at a 32 or 64 bit variable that \<open>readAt\<close> has filled, read as an integer.\<close>

definition load :: "byte list \<Rightarrow> 'a::len word" where
  "load bs = of_nat (le_value bs)"

definition ntohl :: "u32 \<Rightarrow> u32" where
  "ntohl x = load (rev (le4 x))"

fun getUInt16 :: "'s readAt \<Rightarrow> int \<Rightarrow> 16 word \<Rightarrow> 's \<Rightarrow> (bool \<times> 16 word) \<times> 's" where
  "getUInt16 readAt off x s = (case readAt off 2 s of
     (Some [a, b], s) \<Rightarrow> ((True, ucast (push_bit 8 (ucast a :: u32) OR ucast b)), s) | (_, s) \<Rightarrow> ((False, 0), s))"

fun getUInt24 :: "'s readAt \<Rightarrow> int \<Rightarrow> u32 \<Rightarrow> 's \<Rightarrow> (bool \<times> u32) \<times> 's" where
  "getUInt24 readAt off x s = (case readAt off 3 s of
     (Some [a, b, c], s) \<Rightarrow> ((True, push_bit 16 (ucast a) OR push_bit 8 (ucast b) OR ucast c), s) | (_, s) \<Rightarrow> ((False, 0), s))"

fun getUInt32 :: "'s readAt \<Rightarrow> int \<Rightarrow> u32 \<Rightarrow> 's \<Rightarrow> (bool \<times> u32) \<times> 's" where
  "getUInt32 readAt off x s = (case readAt off 4 s of
     (Some bs, s) \<Rightarrow> if length bs = 4 then ((True, ntohl (load bs)), s) else ((False, 0), s) | (None, s) \<Rightarrow> ((False, 0), s))"

fun getUInt64 :: "(u64 \<Rightarrow> u64) \<Rightarrow> 's readAt \<Rightarrow> int \<Rightarrow> u64 \<Rightarrow> 's \<Rightarrow> (bool \<times> u64) \<times> 's" where
  "getUInt64 ntoh64 readAt off x s = (case readAt off 8 s of
     (Some bs, s) \<Rightarrow> if length bs = 8 then ((True, ntoh64 (load bs)), s) else ((False, 0), s) | (None, s) \<Rightarrow> ((False, 0), s))"

fun getUInt16Var :: "'s readAt \<Rightarrow> int \<Rightarrow> 16 word \<Rightarrow> nat \<Rightarrow> 's \<Rightarrow> (bool \<times> 16 word) \<times> 's" where
  "getUInt16Var readAt off x n s =
     (if n = 2 then getUInt16 readAt off x s
      else if n = 1 then (case readAt off 1 s of (Some [a], s) \<Rightarrow> ((True, ucast a), s) | (_, s) \<Rightarrow> ((False, x), s))
      else ((False, x), s))"

text \<open>\<open>tmp\<close> is a variable of its own; 0 stands for what it holds before.\<close>

fun getUInt32Var :: "'s readAt \<Rightarrow> int \<Rightarrow> u32 \<Rightarrow> nat \<Rightarrow> 's \<Rightarrow> (bool \<times> u32) \<times> 's" where
  "getUInt32Var readAt off x n s =
     (if n = 4 then getUInt32 readAt off x s
      else if n = 2 then (case getUInt16 readAt off 0 s of ((ok, tmp), s) \<Rightarrow> ((ok, if ok then ucast tmp else x), s))
      else ((False, x), s))"

fun getUInt64Var :: "(u64 \<Rightarrow> u64) \<Rightarrow> 's readAt \<Rightarrow> int \<Rightarrow> u64 \<Rightarrow> nat \<Rightarrow> 's \<Rightarrow> (bool \<times> u64) \<times> 's" where
  "getUInt64Var ntoh64 readAt off x n s =
     (if n = 8 then getUInt64 ntoh64 readAt off x s
      else if n = 4 then (case getUInt32 readAt off 0 s of ((ok, tmp), s) \<Rightarrow> ((ok, if ok then ucast tmp else x), s))
      else ((False, x), s))"

subsection \<open>The bytes are read most significant first\<close>

definition be_value :: "byte list \<Rightarrow> nat" where
  "be_value bs = le_value (rev bs)"

lemma unat_load: "length bs * 8 \<le> LENGTH('a) \<Longrightarrow> unat (load bs :: 'a::len word) = le_value bs"
proof -
  assume l: "length bs * 8 \<le> LENGTH('a)"
  have "le_value bs < 2 ^ (length bs * 8)" using le_value_bound [of bs] by (simp add: power_mult mult.commute [of _ 8])
  also have "\<dots> \<le> 2 ^ LENGTH('a)" using l by simp
  finally show ?thesis by (simp add: load_def unsigned_of_nat take_bit_nat_eq_self)
qed

lemma ntohl_load: "length bs = 4 \<Longrightarrow> unat (ntohl (load bs)) = be_value bs"
proof -
  assume l: "length bs = 4"
  have "le_value (le4 (load bs)) = le_value bs" using l by (simp add: le_value_le4 unat_load)
  then have "le4 (load bs) = bs" using l by (intro le_value_inj) (simp_all add: le4_def)
  then show ?thesis using l by (simp add: ntohl_def unat_load be_value_def)
qed

text \<open>The shifts and disjunctions are those of \<open>uint8tToInt\<close>, with the missing bytes 0.\<close>

lemma shifted_bytes:
  "unat (push_bit 8 (ucast a) OR ucast b :: u32) = le_value [b, a]"
  "unat (push_bit 16 (ucast a) OR push_bit 8 (ucast b) OR ucast c :: u32) = le_value [c, b, a]" for a b c :: byte
proof -
  have "at [b, a] 0 = b" "at [b, a] 1 = a" "at [b, a] 2 = 0" "at [b, a] 3 = 0" by (simp_all add: at_def)
  then have "uint8tToInt [b, a] = ucast b OR push_bit 8 (ucast a)"
    by (simp only: uint8tToInt_def mask_ucast_byte unsigned_0 zero_and_eq push_bit_of_0 or.right_neutral)
  moreover have "prefix_of [b, a] 4 = [b, a, 0, 0]" by (simp add: prefix_of_def eval_nat_numeral)
  ultimately show "unat (push_bit 8 (ucast a) OR ucast b :: u32) = le_value [b, a]"
    using uint8tToInt_value [of "[b, a]"] by (simp only: or.commute [of "ucast b :: u32"]) simp
  have "at [c, b, a] 0 = c" "at [c, b, a] 1 = b" "at [c, b, a] 2 = a" "at [c, b, a] 3 = 0" by (simp_all add: at_def)
  then have "uint8tToInt [c, b, a] = ucast c OR push_bit 8 (ucast b) OR push_bit 16 (ucast a)"
    by (simp only: uint8tToInt_def mask_ucast_byte unsigned_0 zero_and_eq push_bit_of_0 or.right_neutral)
  also have "\<dots> = push_bit 16 (ucast a) OR push_bit 8 (ucast b) OR ucast c" by (simp only: or.commute or.left_commute)
  finally have "uint8tToInt [c, b, a] = push_bit 16 (ucast a) OR push_bit 8 (ucast b) OR ucast c" .
  moreover have "prefix_of [c, b, a] 4 = [c, b, a, 0]" by (simp add: prefix_of_def eval_nat_numeral)
  ultimately show "unat (push_bit 16 (ucast a) OR push_bit 8 (ucast b) OR ucast c :: u32) = le_value [c, b, a]"
    using uint8tToInt_value [of "[c, b, a]"] by (simp only:) simp
qed

definition big_endian :: "nat \<Rightarrow> (bool \<times> 'a::len word) \<times> 's \<Rightarrow> byte list option \<times> 's \<Rightarrow> bool" where
  "big_endian n r b = (snd r = snd b \<and> (case fst b of
     Some bs \<Rightarrow> fst (fst r) = (length bs = n) \<and> unat (snd (fst r)) = (if length bs = n then be_value bs else 0)
   | None \<Rightarrow> \<not> fst (fst r) \<and> snd (fst r) = 0))"

lemma length_cases: "length bs = 2 \<longleftrightarrow> (\<exists>a b. bs = [a, b])" "length bs = 3 \<longleftrightarrow> (\<exists>a b c. bs = [a, b, c])"
  by (auto simp: eval_nat_numeral length_Suc_conv)

lemma getUInt16_big_endian: "big_endian 2 (getUInt16 readAt off x s) (readAt off 2 s)"
proof (cases "readAt off 2 s")
  case (Pair r t)
  show ?thesis
  proof (cases "r \<noteq> None \<and> length (the r) = 2")
    case True
    then obtain a b where r: "r = Some [a, b]" by (auto simp: length_cases)
    have "le_value [b, a] < 2 ^ 16" using le_value_bound [of "[b, a]"] by simp
    then have "unat (ucast (push_bit 8 (ucast a) OR ucast b :: u32) :: 16 word) = le_value [b, a]"
      by (simp only: unsigned_ucast_eq shifted_bytes) (simp add: take_bit_nat_eq_self)
    then show ?thesis using Pair r by (simp add: big_endian_def be_value_def)
  qed (use Pair in \<open>auto simp: big_endian_def length_cases split: option.splits list.splits\<close>)
qed

lemma getUInt24_big_endian: "big_endian 3 (getUInt24 readAt off x s) (readAt off 3 s)"
proof (cases "readAt off 3 s")
  case (Pair r t)
  show ?thesis
  proof (cases "r \<noteq> None \<and> length (the r) = 3")
    case True
    then obtain a b c where r: "r = Some [a, b, c]" by (auto simp: length_cases)
    then show ?thesis using Pair shifted_bytes(2) [of a b c] by (simp add: big_endian_def be_value_def)
  qed (use Pair in \<open>auto simp: big_endian_def length_cases split: option.splits list.splits\<close>)
qed

lemma getUInt32_big_endian: "big_endian 4 (getUInt32 readAt off x s) (readAt off 4 s)"
  by (cases "readAt off 4 s") (auto simp: big_endian_def ntohl_load split: option.splits)

lemma getUInt64_big_endian:
  "\<forall>bs. length bs = 8 \<longrightarrow> unat (ntoh64 (load bs)) = be_value bs \<Longrightarrow> big_endian 8 (getUInt64 ntoh64 readAt off x s) (readAt off 8 s)"
  by (cases "readAt off 8 s") (auto simp: big_endian_def split: option.splits)

text \<open>
  Each getter succeeds iff the source gives all the bytes, and then yields their value with the first byte as
  the most significant one; otherwise it leaves 0. For 64 bits \<open>ntoh64\<close> has to read the bytes of
  its argument in that order.
\<close>

theorem getUInt_big_endian:
  assumes "\<forall>bs. length bs = 8 \<longrightarrow> unat (ntoh64 (load bs)) = be_value bs"
  shows "big_endian 2 (getUInt16 readAt off x s) (readAt off 2 s) \<and> big_endian 3 (getUInt24 readAt off y s) (readAt off 3 s) \<and>
    big_endian 4 (getUInt32 readAt off y s) (readAt off 4 s) \<and> big_endian 8 (getUInt64 ntoh64 readAt off z s) (readAt off 8 s)"
  by (intro conjI getUInt16_big_endian getUInt24_big_endian getUInt32_big_endian getUInt64_big_endian [OF assms])

text \<open>A file as the source, and the bytes of \<open>ntoh64\<close> turned round.\<close>

definition file_readAt :: "byte list \<Rightarrow> unit readAt" where
  "file_readAt bytes off n s = (if off < 0 then None else Some (take n (drop (nat off) bytes)), s)"

definition turn64 :: "u64 \<Rightarrow> u64" where
  "turn64 x = load (rev (writeValueLE64 x))"

lemma turn64_load: "length bs = 8 \<Longrightarrow> unat (turn64 (load bs)) = be_value bs"
proof -
  assume l: "length bs = 8"
  have "le_value (writeValueLE64 (load bs)) = le_value bs" using l by (simp add: le64.value_enc unat_load)
  then have "writeValueLE64 (load bs) = bs" using l by (intro le_value_inj) (simp_all add: le64.width_enc)
  then show ?thesis using l by (simp add: turn64_def unat_load be_value_def)
qed

theorem getUInt_big_endian_witness:
  "big_endian 8 (getUInt64 turn64 (file_readAt [0, 0, 0, 0, 0, 0, 1, 2, 3]) 0 0 ()) (Some [0, 0, 0, 0, 0, 0, 1, 2], ())"
  using getUInt_big_endian [of turn64 "file_readAt [0, 0, 0, 0, 0, 0, 1, 2, 3]" 0 0 "()" 0 0] turn64_load
  by (simp add: file_readAt_def)

text \<open>The variants for two sizes: either way the value is that of the bytes.\<close>

definition holds_value :: "nat \<Rightarrow> byte list \<Rightarrow> (bool \<times> 'a::len word) \<times> 's \<Rightarrow> bool" where
  "holds_value n bs r = (fst (fst r) \<and> unat (snd (fst r)) = be_value bs)"

lemma big_endian_holds: "big_endian n r (Some bs, t) \<Longrightarrow> length bs = n \<Longrightarrow> holds_value n bs r \<and> snd r = t"
  by (simp add: big_endian_def holds_value_def)

lemma be_value_less: "length bs = n \<Longrightarrow> be_value bs < 256 ^ n"
  using le_value_bound [of "rev bs"] by (simp add: be_value_def)

theorem getUIntVar_correct:
  assumes "\<forall>bs. length bs = 8 \<longrightarrow> unat (ntoh64 (load bs)) = be_value bs"
    and "readAt off n s = (Some bs, t)" "length bs = n"
  shows "(n \<in> {1, 2} \<longrightarrow> holds_value n bs (getUInt16Var readAt off x n s)) \<and>
    (n \<in> {2, 4} \<longrightarrow> holds_value n bs (getUInt32Var readAt off y n s)) \<and>
    (n \<in> {4, 8} \<longrightarrow> holds_value n bs (getUInt64Var ntoh64 readAt off z n s))"
proof (intro conjI impI)
  assume "n \<in> {1, 2}"
  then show "holds_value n bs (getUInt16Var readAt off x n s)"
  proof (elim insertE emptyE)
    assume n: "n = 1"
    then obtain a where "bs = [a]" using assms(3) by (auto simp: length_Suc_conv)
    then show ?thesis using assms(2) n unat_byte_lt [of a]
      by (simp add: holds_value_def be_value_def unsigned_ucast_eq take_bit_nat_eq_self)
  next
    assume "n = 2"
    then show ?thesis using getUInt16_big_endian [of readAt off x s] assms(2,3) big_endian_holds [of 2 "getUInt16 readAt off x s" bs t]
      by (simp del: getUInt16.simps)
  qed
next
  assume "n \<in> {2, 4}"
  then show "holds_value n bs (getUInt32Var readAt off y n s)"
  proof (elim insertE emptyE)
    assume n: "n = 2"
    obtain ok v u where g: "getUInt16 readAt off 0 s = ((ok, v), u)" by (metis surj_pair)
    have "holds_value 2 bs ((ok, v), u)" using getUInt16_big_endian [of readAt off 0 s] assms(2,3) big_endian_holds n g by metis
    then have "ok" "unat v = be_value bs" by (simp_all add: holds_value_def)
    moreover have "be_value bs < 2 ^ 32" using be_value_less [OF assms(3)] n by simp
    ultimately show ?thesis using n g by (simp add: holds_value_def unsigned_ucast_eq take_bit_nat_eq_self del: getUInt16.simps)
  next
    assume "n = 4"
    then show ?thesis using getUInt32_big_endian [of readAt off y s] assms(2,3) big_endian_holds [of 4 "getUInt32 readAt off y s" bs t]
      by (simp del: getUInt32.simps)
  qed
next
  assume "n \<in> {4, 8}"
  then show "holds_value n bs (getUInt64Var ntoh64 readAt off z n s)"
  proof (elim insertE emptyE)
    assume n: "n = 4"
    obtain ok v u where g: "getUInt32 readAt off 0 s = ((ok, v), u)" by (metis surj_pair)
    have "holds_value 4 bs ((ok, v), u)" using getUInt32_big_endian [of readAt off 0 s] assms(2,3) big_endian_holds n g by metis
    then have "ok" "unat v = be_value bs" by (simp_all add: holds_value_def)
    moreover have "be_value bs < 2 ^ 64" using be_value_less [OF assms(3)] n by simp
    ultimately show ?thesis using n g by (simp add: holds_value_def unsigned_ucast_eq take_bit_nat_eq_self del: getUInt32.simps)
  next
    assume "n = 8"
    then show ?thesis using getUInt64_big_endian [OF assms(1), of readAt off z s] assms(2,3) big_endian_holds [of 8 "getUInt64 ntoh64 readAt off z s" bs t]
      by (simp del: getUInt64.simps)
  qed
qed

theorem getUIntVar_correct_witness: "holds_value 2 [1, 2] (getUInt32Var (file_readAt [1, 2, 3]) 0 0 2 ())"
  using getUIntVar_correct [of turn64 "file_readAt [1, 2, 3]" 0 2 "()" "[1, 2]" "()" 0 0 0] turn64_load
  by (simp add: file_readAt_def del: getUInt32Var.simps)

end
