(* ===== verification/Flag_Words.thy ===== *)
theory Flag_Words
  imports MC_Prelude
begin

section \<open>\<open>foundation/Flagged.h\<close>: flags of several layers in one word\<close>

text \<open>
  A \<open>Flagged\<close> type adds flags to a value. When the wrapped type is flagged by the same kind of flag, both layers
  share one word: each has a mask and a left shift, computed at compile time by the functions of
  \<open>_Flagged_helper\<close>, and \<open>effective\<close> is what all layers below occupy. \<open>Flag\<close> is an unsigned type, \<open>'a word\<close>.
\<close>

unbundle bit_operations_syntax

subsection \<open>The helpers\<close>

definition topBits :: "nat \<Rightarrow> 'a::len word" where
  "topBits num = (if num > 0 then NOT (push_bit (LENGTH('a) - num) 1 - 1) else 0)"

fun minMask :: "'a::len word \<Rightarrow> nat \<Rightarrow> 'a word" where
  "minMask maxValue shift = (if shift \<noteq> 0 then minMask (maxValue OR drop_bit shift maxValue) (shift div 2) else maxValue)"

declare minMask.simps [simp del]

definition lshift :: "'a::len word \<Rightarrow> nat \<Rightarrow> 'a word" where
  "lshift value shift = (if shift \<noteq> 0 then push_bit shift value else value)"

definition canCombine :: "'a::len word \<Rightarrow> 'a word \<Rightarrow> 'a word \<Rightarrow> int \<Rightarrow> nat \<Rightarrow> 'a word \<Rightarrow> bool" where
  "canCombine msk baseMask sharedMask shift baseShift effectiveMask =
     (shift \<ge> 0 \<and> msk AND topBits (nat shift) = 0 \<and> baseMask AND NOT (drop_bit baseShift effectiveMask) = 0 \<and>
      (if sharedMask \<noteq> 0 then sharedMask XOR (baseMask AND msk) = 0 \<and> shift = int baseShift
       else msk AND drop_bit (nat shift) effectiveMask = 0))"

definition incShift :: "int \<Rightarrow> int" where
  "incShift shift = shift + (if shift \<ge> 0 then 1 else 0)"

lemma topBits_AND: "num \<le> LENGTH('a) \<Longrightarrow> msk AND topBits num = 0 \<longleftrightarrow> (\<forall>n \<ge> LENGTH('a) - num. \<not> bit msk n)" for msk :: "'a::len word"
proof -
  assume num: "num \<le> LENGTH('a)"
  have m: "push_bit (LENGTH('a) - num) 1 - 1 = (mask (LENGTH('a) - num) :: 'a word)"
    by (simp add: mask_eq_exp_minus_1 push_bit_eq_mult)
  have t: "bit (topBits num :: 'a word) n \<longleftrightarrow> n < LENGTH('a) \<and> LENGTH('a) - num \<le> n" for n
    using num unfolding topBits_def m by (auto simp: bit_simps)
  then show ?thesis
    by (auto simp: bit_eq_iff bit_and_iff dest: bit_imp_le_length)
qed

lemma topBits_1: "msk AND topBits 1 = 0 \<longleftrightarrow> \<not> bit msk (LENGTH('a) - 1)" for msk :: "'a::len word"
proof -
  have "n = LENGTH('a) - 1" if "n \<ge> LENGTH('a) - 1" "bit msk n" for n
    using that bit_imp_le_length [of msk n] by simp
  then show ?thesis using topBits_AND [of 1 msk] by (auto simp: Suc_le_eq)
qed

text \<open>The mask is shifted up until it is clear of the other layers; the top bit must not be shifted out.\<close>

function getShift :: "'a::len word \<Rightarrow> 'a word \<Rightarrow> 'a word \<Rightarrow> nat \<Rightarrow> 'a word \<Rightarrow> int" where
  "getShift msk baseMask sharedMask baseShift effectiveMask =
     (if baseMask AND NOT (drop_bit baseShift effectiveMask) \<noteq> 0 then - 2
      else if sharedMask \<noteq> 0 then (if canCombine msk baseMask sharedMask (int baseShift) baseShift effectiveMask then int baseShift else - 1)
      else if msk AND effectiveMask = 0 then 0
      else if msk AND topBits 1 \<noteq> 0 then - 1
      else incShift (getShift (push_bit 1 msk) baseMask sharedMask baseShift effectiveMask))"
  by pat_completeness auto

lemma unat_push_1: "\<not> bit msk (LENGTH('a) - 1) \<Longrightarrow> unat (push_bit 1 msk) = 2 * unat msk" for msk :: "'a::len word"
proof -
  assume b: "\<not> bit msk (LENGTH('a) - 1)"
  have "unat msk < 2 ^ (LENGTH('a) - 1)"
  proof -
    have "take_bit (LENGTH('a) - 1) msk = msk"
    proof (rule bit_word_eqI)
      fix n
      assume "n < LENGTH('a)"
      then show "bit (take_bit (LENGTH('a) - 1) msk) n = bit msk n" using b by (cases "n = LENGTH('a) - 1") (auto simp: bit_simps)
    qed
    then have "unat msk = take_bit (LENGTH('a) - 1) (unat msk)" by (metis unsigned_take_bit_eq)
    then show ?thesis by (metis take_bit_nat_less_exp)
  qed
  then have "2 * unat msk < 2 * 2 ^ (LENGTH('a) - 1)" by simp
  then have "2 * unat msk < 2 ^ LENGTH('a)" by (simp only: power_Suc [symmetric] Suc_diff_1 [OF len_gt_0])
  then have "unat (msk + msk) = unat msk + unat msk" by (subst unat_add_lem [symmetric]) simp
  moreover have "push_bit 1 msk = msk + msk" by (simp add: push_bit_eq_mult flip: mult_2_right)
  ultimately show ?thesis by (simp only: mult_2)
qed

termination getShift
proof (relation "measure (\<lambda>(msk, _). 2 ^ LENGTH('a) - unat msk)")
  fix msk baseMask sharedMask effectiveMask :: "'a word" and baseShift :: nat
  assume a: "\<not> msk AND effectiveMask = 0" "\<not> msk AND topBits 1 \<noteq> 0"
  then have "msk \<noteq> 0" by auto
  then have "0 < unat msk" by (simp add: unat_gt_0)
  moreover have "unat (push_bit 1 msk) = 2 * unat msk" using a(2) topBits_1 unat_push_1 by blast
  moreover have "unat msk < 2 ^ LENGTH('a)" by (rule unsigned_less)
  then have "2 ^ LENGTH('a) - 2 * unat msk < 2 ^ LENGTH('a) - unat msk" using \<open>0 < unat msk\<close> by (intro diff_less_mono2) simp_all
  ultimately show "((push_bit 1 msk, baseMask, sharedMask, baseShift, effectiveMask), (msk, baseMask, sharedMask, baseShift, effectiveMask))
      \<in> measure (\<lambda>(msk, _). 2 ^ LENGTH('a) - unat msk)" by simp
qed simp

declare getShift.simps [simp del]

subsection \<open>Layers\<close>

text \<open>
  A layer of a combined type: \<open>sFlagMask\<close> and \<open>sFlagShift\<close>; the type is the list of its layers, the outermost first,
  and the word is \<open>mFlags\<close> of the innermost one.
\<close>

record 'w layer =
  sFlagMask :: 'w
  sFlagShift :: nat

fun sEffectiveMask :: "'a::len word layer list \<Rightarrow> 'a word" where
  "sEffectiveMask [] = 0"
| "sEffectiveMask [l] = lshift (sFlagMask l) (sFlagShift l)"
| "sEffectiveMask (l # ls) = push_bit (sFlagShift l) (sFlagMask l) OR sEffectiveMask ls"

definition getFlagsHelper :: "'a::len word \<Rightarrow> nat \<Rightarrow> 'a word \<Rightarrow> 'a word" where
  "getFlagsHelper msk shift mFlags = drop_bit shift mFlags AND msk"

definition setFlagsHelper :: "'a::len word \<Rightarrow> nat \<Rightarrow> 'a word \<Rightarrow> 'a word \<Rightarrow> 'a word" where
  "setFlagsHelper msk shift flags mFlags = (mFlags AND NOT (push_bit shift msk)) OR push_bit shift (flags AND msk)"

definition get_flags :: "'a::len word layer \<Rightarrow> 'a word \<Rightarrow> 'a word" where
  "get_flags l mFlags = getFlagsHelper (sFlagMask l) (sFlagShift l) mFlags"

definition set_flags :: "'a::len word layer \<Rightarrow> 'a word \<Rightarrow> 'a word \<Rightarrow> 'a word" where
  "set_flags l flags mFlags = setFlagsHelper (sFlagMask l) (sFlagShift l) flags mFlags"

text \<open>The constructors: the innermost layer sets the word, each other layer its own flags after that.\<close>

fun flagged :: "'a::len word layer list \<Rightarrow> 'a word list \<Rightarrow> 'a word" where
  "flagged [l] [f] = lshift (f AND sFlagMask l) (sFlagShift l)"
| "flagged (l # ls) (f # fs) = set_flags l f (flagged ls fs)"
| "flagged _ _ = 0"

text \<open>\<open>min_shift\<close> and the choice of the specialization: a further layer with mask \<open>msk\<close> and nothing to share joins the word
  when a shift is found, else it gets a word of its own (\<open>None\<close>).\<close>

definition min_shift :: "'a::len word \<Rightarrow> 'a word layer list \<Rightarrow> int" where
  "min_shift msk ls = (case ls of [] \<Rightarrow> getShift msk 0 0 0 0
     | l # _ \<Rightarrow> getShift msk (sFlagMask l) 0 (sFlagShift l) (sEffectiveMask ls))"

definition can_combine :: "'a::len word \<Rightarrow> 'a word layer list \<Rightarrow> bool" where
  "can_combine msk ls = (case ls of [] \<Rightarrow> False
     | l # _ \<Rightarrow> canCombine msk (sFlagMask l) 0 (min_shift msk ls) (sFlagShift l) (sEffectiveMask ls))"

definition wrap :: "'a::len word \<Rightarrow> 'a word layer list \<Rightarrow> 'a word layer list option" where
  "wrap msk ls = (if can_combine msk ls then Some (\<lparr>sFlagMask = msk, sFlagShift = nat (min_shift msk ls)\<rparr> # ls) else None)"

subsection \<open>The smallest shift\<close>

definition fits_at :: "'a::len word \<Rightarrow> 'a word \<Rightarrow> nat \<Rightarrow> bool" where
  "fits_at msk effectiveMask s = ((\<forall>n \<ge> LENGTH('a) - s. \<not> bit msk n) \<and> msk AND drop_bit s effectiveMask = 0)"

lemma fits_at_push:
  "\<not> bit msk (LENGTH('a) - 1) \<Longrightarrow> fits_at msk e (Suc s) \<longleftrightarrow> fits_at (push_bit 1 msk) e s" for msk e :: "'a::len word"
proof -
  assume b: "\<not> bit msk (LENGTH('a) - 1)"
  have c: "bit (push_bit 1 msk) n \<longleftrightarrow> 0 < n \<and> bit msk (n - 1)" for n
  proof -
    have "0 < n \<and> bit msk (n - 1) \<longrightarrow> n < LENGTH('a)"
      using b bit_imp_le_length [of msk "n - 1"] by (cases "n = LENGTH('a)") auto
    moreover have "bit (push_bit 1 msk) n \<longleftrightarrow> 1 \<le> n \<and> n < LENGTH('a) \<and> bit msk (n - 1)"
      by (simp only: bit_push_bit_iff possible_bit_word)
    ultimately show ?thesis by auto
  qed
  have top: "(\<forall>n \<ge> LENGTH('a) - Suc s. \<not> bit msk n) \<longleftrightarrow> (\<forall>n \<ge> LENGTH('a) - s. \<not> bit (push_bit 1 msk) n)"
  proof
    assume l: "\<forall>n \<ge> LENGTH('a) - Suc s. \<not> bit msk n"
    show "\<forall>n \<ge> LENGTH('a) - s. \<not> bit (push_bit 1 msk) n" unfolding c using l by auto
  next
    assume r: "\<forall>n \<ge> LENGTH('a) - s. \<not> bit (push_bit 1 msk) n"
    show "\<forall>n \<ge> LENGTH('a) - Suc s. \<not> bit msk n"
    proof (intro allI impI)
      fix n
      assume "LENGTH('a) - Suc s \<le> n"
      then have "LENGTH('a) - s \<le> Suc n" by simp
      then show "\<not> bit msk n" using r c [of "Suc n"] by auto
    qed
  qed
  have "msk AND drop_bit (Suc s) e = 0 \<longleftrightarrow> push_bit 1 msk AND drop_bit s e = 0"
  proof -
    have "(\<forall>n. \<not> (bit msk n \<and> bit e (Suc s + n))) \<longleftrightarrow> (\<forall>n. \<not> (bit (push_bit 1 msk) n \<and> bit e (s + n)))"
    proof
      assume l: "\<forall>n. \<not> (bit msk n \<and> bit e (Suc s + n))"
      show "\<forall>n. \<not> (bit (push_bit 1 msk) n \<and> bit e (s + n))"
      proof
        fix n
        show "\<not> (bit (push_bit 1 msk) n \<and> bit e (s + n))" unfolding c using l by (cases n) auto
      qed
    next
      assume r: "\<forall>n. \<not> (bit (push_bit 1 msk) n \<and> bit e (s + n))"
      show "\<forall>n. \<not> (bit msk n \<and> bit e (Suc s + n))"
      proof
        fix n
        show "\<not> (bit msk n \<and> bit e (Suc s + n))" using spec [OF r, of "Suc n"] c [of "Suc n"] by simp
      qed
    qed
    then show ?thesis by (simp add: bit_eq_iff bit_and_iff bit_drop_bit_eq) (metis bit_imp_le_length)
  qed
  then show ?thesis using top by (simp add: fits_at_def)
qed

lemma fits_at_0: "fits_at msk e 0 \<longleftrightarrow> msk AND e = 0" for msk e :: "'a::len word"
  by (auto simp: fits_at_def dest: bit_imp_le_length)

lemma fits_at_lt: "fits_at msk e s \<Longrightarrow> msk \<noteq> 0 \<Longrightarrow> s < LENGTH('a)" for msk e :: "'a::len word"
proof (rule ccontr)
  assume f: "fits_at msk e s" "msk \<noteq> 0" and "\<not> s < LENGTH('a)"
  then have "\<forall>n. \<not> bit msk n" by (simp add: fits_at_def)
  then show False using f(2) by (simp add: bit_eq_iff)
qed

text \<open>\<open>getShift\<close> finds the smallest shift at which the mask keeps all its bits and is clear of the other layers, and
  reports -1 when there is none.\<close>

lemma getShift_minimal:
  fixes msk e :: "'a::len word"
  assumes "b AND NOT (drop_bit bs e) = 0"
  shows "(\<exists>s. getShift msk b 0 bs e = int s \<and> fits_at msk e s \<and> (\<forall>s' < s. \<not> fits_at msk e s')) \<or>
    getShift msk b 0 bs e = - 1 \<and> (\<forall>s. \<not> fits_at msk e s)"
  using assms
proof (induction msk b "0 :: 'a word" bs e rule: getShift.induct)
  case (1 msk b bs e)
  show ?case
  proof (cases "msk AND e = 0")
    case True
    then show ?thesis using 1(2) by (intro disjI1 exI [of _ 0]) (simp add: getShift.simps fits_at_0)
  next
    case o: False
    show ?thesis
    proof (cases "msk AND topBits 1 = 0")
      case False
      then have b: "bit msk (LENGTH('a) - 1)" using topBits_1 by blast
      have "\<not> fits_at msk e s" for s
      proof (cases s)
        case (Suc t)
        then have "LENGTH('a) - s \<le> LENGTH('a) - 1" by simp
        then show ?thesis using b by (auto simp: fits_at_def)
      qed (simp add: fits_at_0 o)
      moreover have "getShift msk b 0 bs e = - 1" using False o 1(2) by (simp add: getShift.simps [of msk])
      ultimately show ?thesis by blast
    next
      case True
      then have b: "\<not> bit msk (LENGTH('a) - 1)" using topBits_1 by blast
      note p = fits_at_push [OF b, of e]
      have g: "getShift msk b 0 bs e = incShift (getShift (push_bit 1 msk) b 0 bs e)"
        using True o 1(2) by (simp add: getShift.simps [of msk])
      consider s where "getShift (push_bit 1 msk) b 0 bs e = int s" "fits_at (push_bit 1 msk) e s" "\<forall>s' < s. \<not> fits_at (push_bit 1 msk) e s'"
        | "getShift (push_bit 1 msk) b 0 bs e = - 1" "\<forall>s. \<not> fits_at (push_bit 1 msk) e s"
        using 1(1) [OF _ _ o] True 1(2) by auto
      then show ?thesis
      proof cases
        case (1 s)
        have "\<not> fits_at msk e s'" if "s' < Suc s" for s'
          using that 1(3) p o by (cases s') (auto simp: fits_at_0)
        moreover have "fits_at msk e (Suc s)" using 1(2) p by simp
        moreover have "getShift msk b 0 bs e = int (Suc s)" using g 1(1) by (simp add: incShift_def)
        ultimately show ?thesis by blast
      next
        case 2
        have "\<not> fits_at msk e s" for s using 2(2) p o by (cases s) (auto simp: fits_at_0)
        then show ?thesis using g 2(1) by (auto simp: incShift_def)
      qed
    qed
  qed
qed

subsection \<open>The layers of a word do not disturb one another\<close>

inductive layered :: "'a::len word layer list \<Rightarrow> bool" where
  innermost: "layered [\<lparr>sFlagMask = msk, sFlagShift = 0\<rparr>]"
| wrapped: "layered ls \<Longrightarrow> wrap msk ls = Some ls' \<Longrightarrow> layered ls'"

definition occupies :: "'a::len word layer \<Rightarrow> nat \<Rightarrow> bool" where
  "occupies l n = (sFlagShift l \<le> n \<and> bit (sFlagMask l) (n - sFlagShift l))"

definition inside :: "'a::len word layer \<Rightarrow> bool" where
  "inside l = (\<forall>n. occupies l n \<longrightarrow> n < LENGTH('a))"

lemma lshift_push: "lshift w s = push_bit s w"
  by (simp add: lshift_def)

lemma bit_push_word: "bit (push_bit s w) n \<longleftrightarrow> s \<le> n \<and> n < LENGTH('a) \<and> bit w (n - s)" for w :: "'a::len word"
  by (simp only: bit_push_bit_iff possible_bit_word)

lemma bit_sEffectiveMask: "bit (sEffectiveMask ls) n \<longleftrightarrow> n < LENGTH('a) \<and> (\<exists>l \<in> set ls. occupies l n)" for ls :: "'a::len word layer list"
  by (induction ls rule: sEffectiveMask.induct) (auto simp: lshift_push bit_push_word occupies_def bit_or_iff)

lemma bit_get_flags: "bit (get_flags l w) n \<longleftrightarrow> bit w (sFlagShift l + n) \<and> bit (sFlagMask l) n"
  by (simp add: get_flags_def getFlagsHelper_def bit_and_iff bit_drop_bit_eq)

lemma bit_set_flags: "bit (set_flags l f w) n \<longleftrightarrow> n < LENGTH('a) \<and> (if occupies l n then bit f (n - sFlagShift l) else bit w n)" for w :: "'a::len word"
  using bit_imp_le_length [of w n]
  by (auto simp: set_flags_def setFlagsHelper_def bit_or_iff bit_and_iff bit_not_iff bit_push_word occupies_def)

lemma fits_at_occupies:
  "fits_at msk (sEffectiveMask ls) s \<longleftrightarrow> inside \<lparr>sFlagMask = msk, sFlagShift = s\<rparr> \<and>
     (\<forall>l \<in> set ls. \<forall>n. \<not> (occupies \<lparr>sFlagMask = msk, sFlagShift = s\<rparr> n \<and> occupies l n))" for msk :: "'a::len word"
proof -
  let ?l = "\<lparr>sFlagMask = msk, sFlagShift = s\<rparr>"
  have i: "(\<forall>n \<ge> LENGTH('a) - s. \<not> bit msk n) \<longleftrightarrow> inside ?l"
  proof
    assume a: "\<forall>n \<ge> LENGTH('a) - s. \<not> bit msk n"
    then show "inside ?l" by (auto simp: inside_def occupies_def) (meson diff_le_mono leI)
  next
    assume a: "inside ?l"
    show "\<forall>n \<ge> LENGTH('a) - s. \<not> bit msk n"
    proof (intro allI impI)
      fix n
      assume "LENGTH('a) - s \<le> n"
      moreover have "bit msk n \<longrightarrow> s + n < LENGTH('a)" using a by (auto simp: inside_def occupies_def dest: spec [of _ "s + n"])
      ultimately show "\<not> bit msk n" by linarith
    qed
  qed
  have "msk AND drop_bit s (sEffectiveMask ls) = 0 \<longleftrightarrow> (\<forall>l \<in> set ls. \<forall>n. \<not> (occupies ?l n \<and> occupies l n))" if "inside ?l"
  proof -
    have "msk AND drop_bit s (sEffectiveMask ls) = 0 \<longleftrightarrow> (\<forall>n. \<not> (bit msk n \<and> bit (sEffectiveMask ls) (s + n)))"
      by (simp add: bit_eq_iff bit_and_iff bit_drop_bit_eq) (metis bit_imp_le_length)
    also have "\<dots> \<longleftrightarrow> (\<forall>n. \<not> (occupies ?l (s + n) \<and> (\<exists>l \<in> set ls. occupies l (s + n))))"
      using that by (auto simp: bit_sEffectiveMask inside_def occupies_def)
    also have "\<dots> \<longleftrightarrow> (\<forall>n. \<not> (occupies ?l n \<and> (\<exists>l \<in> set ls. occupies l n)))"
    proof -
      have "\<exists>m. n = s + m" if "occupies ?l n" for n using that by (auto simp: occupies_def intro: exI [of _ "n - s"])
      then show ?thesis by metis
    qed
    finally show ?thesis by blast
  qed
  then show ?thesis using i by (auto simp: fits_at_def)
qed

text \<open>A layer joins the word iff some shift fits, and gets the smallest.\<close>

definition apart :: "'a::len word layer list \<Rightarrow> bool" where
  "apart ls = ((\<forall>l \<in> set ls. inside l) \<and> (\<forall>i < length ls. \<forall>j < length ls. i \<noteq> j \<longrightarrow> (\<forall>n. \<not> (occupies (ls ! i) n \<and> occupies (ls ! j) n))))"

lemma base_mask_ok:
  assumes "inside l" "l \<in> set ls"
  shows "sFlagMask l AND NOT (drop_bit (sFlagShift l) (sEffectiveMask ls)) = 0"
proof -
  have "occupies l (sFlagShift l + n)" if "bit (sFlagMask l) n" for n using that by (simp add: occupies_def)
  then show ?thesis using assms
    by (auto simp: bit_eq_iff bit_and_iff bit_not_iff bit_drop_bit_eq bit_sEffectiveMask inside_def)
qed

lemma wrap_minimal:
  assumes "apart ls" "ls \<noteq> []"
  shows "case wrap msk ls of None \<Rightarrow> \<forall>s. \<not> fits_at msk (sEffectiveMask ls) s
     | Some ls' \<Rightarrow> \<exists>s. ls' = \<lparr>sFlagMask = msk, sFlagShift = s\<rparr> # ls \<and> fits_at msk (sEffectiveMask ls) s \<and>
         (\<forall>s' < s. \<not> fits_at msk (sEffectiveMask ls) s')"
proof -
  let ?e = "sEffectiveMask ls"
  obtain l ls' where ls: "ls = l # ls'" using assms(2) by (cases ls) auto
  have b: "sFlagMask l AND NOT (drop_bit (sFlagShift l) ?e) = 0"
    using base_mask_ok [of l ls] assms(1) ls by (simp add: apart_def)
  have m: "min_shift msk ls = getShift msk (sFlagMask l) 0 (sFlagShift l) ?e" using ls by (simp add: min_shift_def)
  have c: "can_combine msk ls \<longleftrightarrow> 0 \<le> min_shift msk ls \<and> fits_at msk ?e (nat (min_shift msk ls))" if "nat (min_shift msk ls) \<le> LENGTH('a)"
    using topBits_AND [OF that, of msk] b ls by (auto simp: can_combine_def canCombine_def fits_at_def)
  from getShift_minimal [OF b, of msk] show ?thesis
  proof (elim disjE exE conjE)
    fix s
    assume s: "getShift msk (sFlagMask l) 0 (sFlagShift l) ?e = int s" "fits_at msk ?e s" "\<forall>s' < s. \<not> fits_at msk ?e s'"
    have "s \<le> LENGTH('a)"
    proof (cases "msk = 0")
      case True
      then have "fits_at msk ?e 0" by (simp add: fits_at_0)
      then show ?thesis using s(3) by auto
    qed (use fits_at_lt [OF s(2)] in simp)
    then have "can_combine msk ls" using c s m by simp
    then show ?thesis using s m by (auto simp: wrap_def)
  next
    assume "getShift msk (sFlagMask l) 0 (sFlagShift l) ?e = - 1" "\<forall>s. \<not> fits_at msk ?e s"
    then show ?thesis using m ls by (simp add: wrap_def can_combine_def canCombine_def)
  qed
qed

lemma apart_wrap: "apart ls \<Longrightarrow> ls \<noteq> [] \<Longrightarrow> wrap msk ls = Some ls' \<Longrightarrow> apart ls'"
proof -
  assume a: "apart ls" "ls \<noteq> []" "wrap msk ls = Some ls'"
  obtain s where s: "ls' = \<lparr>sFlagMask = msk, sFlagShift = s\<rparr> # ls" "fits_at msk (sEffectiveMask ls) s"
    using wrap_minimal [OF a(1,2), of msk] a(3) by auto
  note f = s(2) [unfolded fits_at_occupies]
  let ?l = "\<lparr>sFlagMask = msk, sFlagShift = s\<rparr>"
  have d: "\<not> (occupies ?l n \<and> occupies (ls ! i) n)" if "i < length ls" for i n
    using f that by (meson nth_mem)
  have p: "\<not> (occupies (ls ! i) n \<and> occupies (ls ! j) n)" if "i < length ls" "j < length ls" "i \<noteq> j" for i j n
    using a(1) that by (simp add: apart_def)
  have "\<not> (occupies ((?l # ls) ! i) n \<and> occupies ((?l # ls) ! j) n)" if ij: "i < length (?l # ls)" "j < length (?l # ls)" "i \<noteq> j" for i j n
  proof (cases i)
    case 0
    then obtain k where "j = Suc k" "k < length ls" using ij by (cases j) auto
    then show ?thesis using 0 d by simp
  next
    case (Suc k)
    then show ?thesis
    proof (cases j)
      case 0
      then show ?thesis using Suc ij d [of k n] by auto
    next
      case (Suc m)
      then show ?thesis using \<open>i = Suc k\<close> ij p [of k m n] by auto
    qed
  qed
  moreover have "\<forall>l \<in> set (?l # ls). inside l" using f a(1) by (simp add: apart_def)
  ultimately show "apart ls'" unfolding s(1) by (simp only: apart_def) blast
qed

lemma layered_apart: "layered ls \<Longrightarrow> apart ls \<and> ls \<noteq> []"
proof (induction rule: layered.induct)
  case (innermost msk)
  then show ?case by (auto simp: apart_def inside_def occupies_def dest: bit_imp_le_length)
next
  case (wrapped ls msk ls')
  then show ?case using apart_wrap wrap_minimal [of ls msk] by fastforce
qed

text \<open>
  Whatever masks are wrapped around one another: each layer reads back what was set in it, cut to its
  mask; setting one layer changes no other layer and no bit outside the layers; and a further mask
  joins the word exactly if it can be placed clear of all layers, at the smallest shift.
\<close>

theorem flags_independent:
  fixes ls :: "'a::len word layer list"
  assumes "layered ls" "i < length ls" "j < length ls"
  shows "get_flags (ls ! i) (set_flags (ls ! j) f w) = (if i = j then f AND sFlagMask (ls ! i) else get_flags (ls ! i) w) \<and>
    set_flags (ls ! j) f w AND NOT (sEffectiveMask ls) = w AND NOT (sEffectiveMask ls) \<and>
    (wrap msk ls \<noteq> None) = (\<exists>s. fits_at msk (sEffectiveMask ls) s)"
proof (intro conjI)
  have a: "apart ls" "ls \<noteq> []" using layered_apart [OF assms(1)] by auto
  have o: "occupies (ls ! i) (sFlagShift (ls ! i) + n) \<longleftrightarrow> bit (sFlagMask (ls ! i)) n" for n by (simp add: occupies_def)
  have l: "bit (sFlagMask (ls ! i)) n \<Longrightarrow> sFlagShift (ls ! i) + n < LENGTH('a)" for n
    using a(1) assms(2) o [of n] by (auto simp: apart_def inside_def)
  show "get_flags (ls ! i) (set_flags (ls ! j) f w) = (if i = j then f AND sFlagMask (ls ! i) else get_flags (ls ! i) w)"
  proof (cases "i = j")
    case True
    then show ?thesis using o l by (intro bit_word_eqI) (auto simp: bit_get_flags bit_set_flags bit_and_iff)
  next
    case False
    then have "\<not> (occupies (ls ! i) n \<and> occupies (ls ! j) n)" for n using a(1) assms by (simp add: apart_def)
    then show ?thesis using False o l by (intro bit_word_eqI) (auto simp: bit_get_flags bit_set_flags)
  qed
  show "set_flags (ls ! j) f w AND NOT (sEffectiveMask ls) = w AND NOT (sEffectiveMask ls)"
    using assms(3) by (intro bit_word_eqI) (auto simp: bit_and_iff bit_not_iff bit_set_flags bit_sEffectiveMask)
  show "(wrap msk ls \<noteq> None) = (\<exists>s. fits_at msk (sEffectiveMask ls) s)"
    using wrap_minimal [OF a, of msk] by (cases "wrap msk ls") auto
qed

text \<open>The example of the header: one safe flag, five bits of origin around it, and the flags of both.\<close>

theorem flags_independent_witness:
  "layered [\<lparr>sFlagMask = 7, sFlagShift = 1\<rparr>, \<lparr>sFlagMask = 1, sFlagShift = 0\<rparr> :: u32 layer] \<and>
   get_flags \<lparr>sFlagMask = 1, sFlagShift = 0\<rparr> (set_flags \<lparr>sFlagMask = 7, sFlagShift = 1\<rparr> 5 (1 :: u32)) = 1"
proof -
  have "wrap 7 [\<lparr>sFlagMask = 1, sFlagShift = 0\<rparr> :: u32 layer] = Some [\<lparr>sFlagMask = 7, sFlagShift = 1\<rparr>, \<lparr>sFlagMask = 1, sFlagShift = 0\<rparr>]"
    by code_simp
  then have l: "layered [\<lparr>sFlagMask = 7, sFlagShift = 1\<rparr>, \<lparr>sFlagMask = 1, sFlagShift = 0\<rparr> :: u32 layer]"
    using layered.wrapped [OF layered.innermost] by blast
  have "get_flags \<lparr>sFlagMask = 1, sFlagShift = 0\<rparr> (set_flags \<lparr>sFlagMask = 7, sFlagShift = 1\<rparr> 5 (1 :: u32)) =
      get_flags \<lparr>sFlagMask = 1, sFlagShift = 0\<rparr> 1"
    using flags_independent [OF l, of 1 0 5 1 0] by simp
  then show ?thesis using l by (simp add: get_flags_def getFlagsHelper_def)
qed

subsection \<open>The mask of a value\<close>

lemma minMask_bits: "bit (minMask v (2 ^ i)) n \<longleftrightarrow> (\<exists>j < 2 ^ Suc i. bit v (n + j))"
proof (induction i arbitrary: v)
  case 0
  have "minMask v (2 ^ 0) = v OR drop_bit 1 v" by (simp add: minMask.simps)
  moreover have "(\<exists>j < 2 ^ Suc 0. bit v (n + j)) \<longleftrightarrow> bit v n \<or> bit v (Suc n)" by (auto simp: less_Suc_eq numeral_2_eq_2)
  ultimately show ?case by (simp only: bit_or_iff bit_drop_bit_eq) simp
next
  case (Suc i)
  have "minMask v (2 ^ Suc i) = minMask (v OR drop_bit (2 ^ Suc i) v) (2 ^ i)" by (subst minMask.simps) simp
  then have "bit (minMask v (2 ^ Suc i)) n \<longleftrightarrow> (\<exists>j < 2 ^ Suc i. bit v (n + j) \<or> bit v (2 ^ Suc i + (n + j)))"
    by (simp only: Suc bit_or_iff bit_drop_bit_eq comp_def)
  also have "\<dots> \<longleftrightarrow> (\<exists>j < 2 ^ Suc (Suc i). bit v (n + j))"
  proof
    assume "\<exists>j < 2 ^ Suc i. bit v (n + j) \<or> bit v (2 ^ Suc i + (n + j))"
    then obtain j where j: "j < 2 ^ Suc i" "bit v (n + j) \<or> bit v (n + (2 ^ Suc i + j))" by (auto simp: algebra_simps)
    moreover have "j < 2 ^ Suc (Suc i)" "2 ^ Suc i + j < 2 ^ Suc (Suc i)" using j(1) by simp_all
    ultimately show "\<exists>j < 2 ^ Suc (Suc i). bit v (n + j)" by blast
  next
    assume "\<exists>j < 2 ^ Suc (Suc i). bit v (n + j)"
    then obtain j where j: "j < 2 ^ Suc (Suc i)" "bit v (n + j)" by blast
    show "\<exists>j < 2 ^ Suc i. bit v (n + j) \<or> bit v (2 ^ Suc i + (n + j))"
    proof (cases "j < 2 ^ Suc i")
      case False
      then have "j - 2 ^ Suc i < 2 ^ Suc i" "2 ^ Suc i + (n + (j - 2 ^ Suc i)) = n + j" using j(1) by simp_all
      then show ?thesis using j(2) by (intro exI [of _ "j - 2 ^ Suc i"]) simp
    qed (use j in blast)
  qed
  finally show ?case .
qed

lemma bit_le_unat: "bit v m \<Longrightarrow> 2 ^ m \<le> unat v" for v :: "'a::len word"
proof -
  assume "bit v m"
  then have "odd (unat v div 2 ^ m)" by (simp add: bit_unsigned_iff bit_iff_odd [symmetric])
  then have "unat v div 2 ^ m \<noteq> 0" by (intro notI) simp
  then show ?thesis by (simp add: div_eq_0_iff)
qed

text \<open>\<open>minMask\<close> of a 32 bit value is the smallest mask of low bits that covers it.\<close>

theorem minMask_smallest:
  "\<exists>k. minMask v 16 = mask k \<and> unat v < 2 ^ k \<and> (\<forall>j < k. 2 ^ j \<le> unat v)" for v :: u32
proof (cases "v = 0")
  case True
  have "\<not> bit (minMask v 16) n" for n using minMask_bits [of v 4 n] True by simp
  then have "minMask v 16 = mask 0" by (intro bit_word_eqI) simp
  then show ?thesis using True by (intro exI [of _ 0]) simp
next
  case False
  let ?S = "{n. bit v n}"
  have f: "finite ?S" by (rule finite_subset [of _ "{..<32}"]) (auto dest: bit_imp_le_length)
  have ne: "?S \<noteq> {}" using False by (auto simp: bit_eq_iff)
  let ?m = "Max ?S"
  have m: "bit v ?m" using Max_in [OF f ne] by simp
  have le: "bit v n \<Longrightarrow> n \<le> ?m" for n using Max_ge [OF f] by simp
  have lt: "?m < 32" using bit_imp_le_length [OF m] by simp
  have "bit (minMask v 16) n \<longleftrightarrow> n < Suc ?m" for n
  proof -
    have "bit (minMask v 16) n \<longleftrightarrow> (\<exists>j < 32. bit v (n + j))" using minMask_bits [of v 4 n] by simp
    also have "\<dots> \<longleftrightarrow> n \<le> ?m"
    proof
      assume "n \<le> ?m"
      then show "\<exists>j < 32. bit v (n + j)" using m lt by (intro exI [of _ "?m - n"]) simp
    next
      assume "\<exists>j < 32. bit v (n + j)"
      then obtain j where "bit v (n + j)" by blast
      from le [OF this] show "n \<le> ?m" by linarith
    qed
    finally show ?thesis by (simp add: less_Suc_eq_le)
  qed
  then have "minMask v 16 = mask (Suc ?m)" using lt by (intro bit_word_eqI) (auto simp: bit_mask_iff)
  moreover have "v = take_bit (Suc ?m) v" using le by (intro bit_word_eqI) (auto simp: bit_take_bit_iff less_Suc_eq_le)
  then have "unat v = take_bit (Suc ?m) (unat v)" by (metis unsigned_take_bit_eq)
  then have "unat v < 2 ^ Suc ?m" by (metis take_bit_nat_less_exp)
  moreover have "\<forall>j < Suc ?m. 2 ^ j \<le> unat v"
  proof (intro allI impI)
    fix j
    assume "j < Suc ?m"
    then have "(2 :: nat) ^ j \<le> 2 ^ ?m" by (intro power_increasing) simp_all
    then show "2 ^ j \<le> unat v" using bit_le_unat [OF m] by (rule order_trans)
  qed
  ultimately show ?thesis by blast
qed

end
